(* ===== verification/Prelude.thy ===== *)
theory Prelude
  imports Complex_Main "HOL-Library.List_Lexorder" "HOL-Library.Char_ord"
begin

text \<open>
  Shared vocabulary of the development.

  \<^item> \<open>std::map\<close> is an association list in strictly increasing key order, the order in
    which the code iterates over it (strings are compared bytewise, as \<open>std::string\<close> is);
    \<open>mput\<close> is assignment through \<open>operator[]\<close>, \<open>memplace\<close> is \<open>emplace\<close> and \<open>insert\<close>
    (an existing key keeps its value), \<open>mupd\<close> is an update through an iterator, \<open>merase\<close> is
    \<open>erase\<close> and \<open>map_of\<close> is \<open>find\<close>. The interface is the locale \<open>ordered_dict\<close>, which the
    association lists interpret.
  \<^item> \<open>std::set\<close> is a strictly increasing list (\<open>sinsert\<close>, \<open>serase\<close>).
  \<^item> An exception is the left value of a sum; \<open>rbind\<close> sequences two computations that may
    throw.
  \<^item> \<open>float\<close> and \<open>double\<close> are real numbers: NaN, infinities and rounding are not modelled,
    except that the scheduling entries take the rounding of \<open>float\<close> results as a parameter.
\<close>

named_theorems smap_simps \<open>rewriting rules for ordered maps\<close>
named_theorems exn_simps \<open>rewriting rules for computations that may throw\<close>

section \<open>Computations that may throw\<close>

definition rbind :: "'e + 'a \<Rightarrow> ('a \<Rightarrow> 'e + 'b) \<Rightarrow> 'e + 'b" where
  "rbind r f = (case r of Inl e \<Rightarrow> Inl e | Inr a \<Rightarrow> f a)"

lemma rbind_simps [simp, exn_simps]:
  "rbind (Inl e) f = Inl e"
  "rbind (Inr a) f = f a"
  by (simp_all add: rbind_def)

lemma rbind_eq_Inr [exn_simps]: "rbind r f = Inr b \<longleftrightarrow> (\<exists>a. r = Inr a \<and> f a = Inr b)"
  by (cases r) auto

lemma rbind_eq_Inl [exn_simps]:
  "rbind r f = Inl e \<longleftrightarrow> r = Inl e \<or> (\<exists>a. r = Inr a \<and> f a = Inl e)"
  by (cases r) auto

lemma rbind_cong [fundef_cong]:
  "r = r' \<Longrightarrow> (\<And>a. r' = Inr a \<Longrightarrow> f a = g a) \<Longrightarrow> rbind r f = rbind r' g"
  by (cases r') auto

lemma foldl_rbind_Inl: "foldl (\<lambda>r x. rbind r (f x)) r xs = Inl e \<Longrightarrow> r = Inl e \<or> (\<exists>x a. f x a = Inl e)"
proof (induction xs arbitrary: r)
  case (Cons x xs)
  then have "rbind r (f x) = Inl e \<or> (\<exists>x a. f x a = Inl e)" by simp
  then show ?case by (auto simp: rbind_eq_Inl)
qed simp

text \<open>
  A statement that may throw returns its result and the state it leaves behind; \<open>sbind\<close> is the sequence
  of two statements and \<open>sfor\<close> the loop over a range, both stopping at the first exception.
\<close>

definition sbind :: "('e + 'a) \<times> 's \<Rightarrow> ('a \<Rightarrow> 's \<Rightarrow> ('e + 'b) \<times> 's) \<Rightarrow> ('e + 'b) \<times> 's" where
  "sbind r f = (case r of (Inl e, s) \<Rightarrow> (Inl e, s) | (Inr a, s) \<Rightarrow> f a s)"

lemma sbind_simps [simp, exn_simps]:
  "sbind (Inl e, s) f = (Inl e, s)"
  "sbind (Inr a, s) f = f a s"
  by (simp_all add: sbind_def)

fun sfor :: "'x list \<Rightarrow> ('x \<Rightarrow> 's \<Rightarrow> ('e + unit) \<times> 's) \<Rightarrow> 's \<Rightarrow> ('e + unit) \<times> 's" where
  "sfor [] f s = (Inr (), s)"
| "sfor (x # xs) f s = sbind (f x s) (\<lambda>_ s'. sfor xs f s')"

text \<open>A loop whose body succeeds and keeps an invariant that may depend on what has been done.\<close>

lemma sfor_inv:
  assumes "I [] s"
    and "\<And>done x s. x \<in> set xs \<Longrightarrow> I done s \<Longrightarrow> \<exists>s'. f x s = (Inr (), s') \<and> I (done @ [x]) s'"
  shows "\<exists>s'. sfor xs f s = (Inr (), s') \<and> I xs s'"
proof -
  have "\<exists>s'. sfor xs f s = (Inr (), s') \<and> I (pre @ xs) s'" if "I pre s" for pre
    using that assms(2)
  proof (induction xs arbitrary: s pre)
    case Nil
    then show ?case by simp
  next
    case (Cons x xs)
    obtain s1 where s1: "f x s = (Inr (), s1)" "I (pre @ [x]) s1"
      using Cons.prems(2)[of x pre s] Cons.prems(1) by auto
    show ?case using Cons.IH[OF s1(2)] Cons.prems(2) s1(1) by simp
  qed
  from this[OF assms(1)] show ?thesis by simp
qed

text \<open>\<open>std::to_string\<close> of an unsigned integer.\<close>

definition digit_char :: "nat \<Rightarrow> char" where
  "digit_char n = char_of (48 + n)"

fun to_string :: "nat \<Rightarrow> string" where
  "to_string n = (if n < 10 then [digit_char n] else to_string (n div 10) @ [digit_char (n mod 10)])"

declare to_string.simps [simp del]

lemma to_string_not_Nil [simp]: "to_string n \<noteq> []"
  by (subst to_string.simps) auto

lemma to_string_inj: "to_string n = to_string m \<Longrightarrow> n = m"
proof (induction n arbitrary: m rule: less_induct)
  case (less n)
  have digit: "digit_char a = digit_char b \<Longrightarrow> a < 10 \<Longrightarrow> b < 10 \<Longrightarrow> a = b" for a b
    by (auto simp: digit_char_def dest!: arg_cong[of _ _ "of_char :: char \<Rightarrow> nat"])
  show ?case
  proof (cases "n < 10")
    case True
    then have "length (to_string m) = 1" using less.prems by (metis One_nat_def list.size(3,4) plus_nat.simps(1,2) to_string.simps add.commute)
    then have "m < 10" by (subst (asm) to_string.simps) (auto split: if_splits)
    then show ?thesis using True less.prems digit by (simp add: to_string.simps)
  next
    case False
    have "to_string n = to_string (n div 10) @ [digit_char (n mod 10)]" using False by (subst to_string.simps) simp
    then have m: "to_string m = to_string (n div 10) @ [digit_char (n mod 10)]" using less.prems by simp
    moreover have "m < 10 \<Longrightarrow> length (to_string m) = 1" by (subst to_string.simps) simp
    moreover have "0 < length (to_string (n div 10))" by simp
    ultimately have "\<not> m < 10" by force
    then have "to_string m = to_string (m div 10) @ [digit_char (m mod 10)]" by (subst to_string.simps) simp
    then have "to_string (n div 10) = to_string (m div 10)" "digit_char (n mod 10) = digit_char (m mod 10)" using m by simp_all
    then have "n div 10 = m div 10" "n mod 10 = m mod 10" using less.IH[of "n div 10"] False digit by auto
    then show ?thesis by (metis div_mult_mod_eq)
  qed
qed

text \<open>\<open>std::numeric_limits<float>::max()\<close>.\<close>

definition flt_max :: real where
  "flt_max = (2 - 1 / 2 ^ 23) * 2 ^ 127"

lemma flt_max_pos [simp]: "0 < flt_max"
  by (simp add: flt_max_def)

section \<open>Ordered maps\<close>

type_synonym ('k, 'v) smap = "('k \<times> 'v) list"

abbreviation mwf :: "('k::linorder, 'v) smap \<Rightarrow> bool" where
  "mwf m \<equiv> sorted_wrt (<) (map fst m)"

abbreviation mkeys :: "('k, 'v) smap \<Rightarrow> 'k list" where
  "mkeys m \<equiv> map fst m"

fun mput :: "'k::linorder \<Rightarrow> 'v \<Rightarrow> ('k, 'v) smap \<Rightarrow> ('k, 'v) smap" where
  "mput k v [] = [(k, v)]"
| "mput k v ((k', v') # m) =
     (if k < k' then (k, v) # (k', v') # m
      else if k = k' then (k, v) # m
      else (k', v') # mput k v m)"

definition merase :: "'k \<Rightarrow> ('k, 'v) smap \<Rightarrow> ('k, 'v) smap" where
  "merase k m = filter (\<lambda>p. fst p \<noteq> k) m"

definition mupd :: "'k \<Rightarrow> ('v \<Rightarrow> 'v) \<Rightarrow> ('k, 'v) smap \<Rightarrow> ('k, 'v) smap" where
  "mupd k f m = map (\<lambda>(k', v). (k', if k' = k then f v else v)) m"

definition memplace :: "'k::linorder \<Rightarrow> 'v \<Rightarrow> ('k, 'v) smap \<Rightarrow> ('k, 'v) smap" where
  "memplace k v m = (case map_of m k of None \<Rightarrow> mput k v m | Some _ \<Rightarrow> m)"

lemma mwf_distinct: "mwf m \<Longrightarrow> distinct (mkeys m)"
  by (simp add: strict_sorted_iff)

lemma map_of_mput [simp, smap_simps]:
  "map_of (mput k v m) = (map_of m)(k \<mapsto> v)"
  by (induction m) (auto simp: fun_eq_iff)

lemma fst_set_mput [simp, smap_simps]: "fst ` set (mput k v m) = insert k (fst ` set m)"
  by (simp add: dom_map_of_conv_image_fst [symmetric])

lemma mwf_mput [simp, smap_simps]: "mwf m \<Longrightarrow> mwf (mput k v m)"
proof (induction m)
  case Nil
  then show ?case by simp
next
  case (Cons p m)
  obtain k' v' where p: "p = (k', v')" by (cases p)
  with Cons show ?case
    by (auto simp: fst_set_mput)
qed

lemma map_of_merase [simp, smap_simps]: "map_of (merase k m) = (map_of m)(k := None)"
  by (induction m) (auto simp: merase_def fun_eq_iff)

lemma mwf_merase [simp, smap_simps]: "mwf m \<Longrightarrow> mwf (merase k m)"
  by (induction m) (auto simp: merase_def)

lemma fst_set_merase [simp, smap_simps]: "fst ` set (merase k m) = fst ` set m - {k}"
  by (auto simp: merase_def)

lemma merase_id: "k \<notin> set (mkeys m) \<Longrightarrow> merase k m = m"
  by (induction m) (auto simp: merase_def)

lemma mkeys_mupd [simp, smap_simps]: "mkeys (mupd k f m) = mkeys m"
  by (induction m) (auto simp: mupd_def)

lemma fst_set_mupd [simp, smap_simps]: "fst ` set (mupd k f m) = fst ` set m"
  by (metis list.set_map mkeys_mupd)

lemma map_of_mupd [simp, smap_simps]:
  "map_of (mupd k f m) = (map_of m)(k := map_option f (map_of m k))"
  by (induction m) (auto simp: mupd_def fun_eq_iff)

lemma map_of_memplace [smap_simps]:
  "map_of (memplace k v m) =
     (case map_of m k of None \<Rightarrow> (map_of m)(k \<mapsto> v) | Some _ \<Rightarrow> map_of m)"
  by (simp add: memplace_def split: option.split)

lemma mwf_memplace [simp, smap_simps]: "mwf m \<Longrightarrow> mwf (memplace k v m)"
  by (simp add: memplace_def split: option.split)

lemma in_fst_set_iff: "k \<in> fst ` set m \<longleftrightarrow> (\<exists>v. map_of m k = Some v)"
  using map_of_eq_None_iff[of m k] by (cases "map_of m k") auto

lemma mput_not_Nil [simp]: "mput k v m \<noteq> []"
  by (cases m) (auto split: if_splits)

lemma mupd_Nil [simp]: "mupd k f m = [] \<longleftrightarrow> m = []"
  by (simp add: mupd_def)

lemma fst_set_memplace [simp]: "fst ` set (memplace k v m) = insert k (fst ` set m)"
  by (auto simp: memplace_def in_fst_set_iff split: option.split)

lemma memplace_not_Nil [simp]: "memplace k v m \<noteq> []"
  by (auto simp: memplace_def split: option.split)

lemma merase_mupd [simp]: "merase k (mupd k f m) = merase k m"
  by (induction m) (auto simp: merase_def mupd_def)

text \<open>Two ordered maps with the same look-ups are the same list.\<close>

lemma smap_ext:
  assumes "mwf m" and "mwf m'" and "map_of m = map_of m'"
  shows "m = m'"
  using assms
proof (induction m arbitrary: m')
  case Nil
  then show ?case by (metis map_of_eq_empty_iff map_of.simps(1))
next
  case (Cons p m)
  obtain k v where p: "p = (k, v)" by (cases p)
  have kv: "map_of m' k = Some v" using Cons.prems(3)[symmetric] p by simp
  then obtain q m'' where m': "m' = q # m''" by (cases m') auto
  obtain k' v' where q: "q = (k', v')" by (cases q)
  have "map_of (p # m) k' = Some v'" by (subst Cons.prems(3)) (simp add: m' q)
  then have "k \<le> k'" using p Cons.prems(1)
    by (auto split: if_splits dest!: map_of_SomeD)
  moreover have "k' \<le> k" using kv m' q Cons.prems(2)
    by (auto split: if_splits dest!: map_of_SomeD)
  ultimately have [simp]: "k' = k" by simp
  with kv m' q have [simp]: "v' = v" by simp
  have nk: "map_of m k = None" "map_of m'' k = None"
    using Cons.prems(1,2) p m' q
    by (auto simp: map_of_eq_None_iff)
  have "map_of m = map_of m''"
  proof
    fix x
    show "map_of m x = map_of m'' x"
      using fun_cong[OF Cons.prems(3), of x] nk by (cases "x = k") (auto simp: p m' q)
  qed
  then have "m = m''" using Cons.IH Cons.prems(1,2) m' by auto
  then show ?case by (simp add: p m' q)
qed

subsection \<open>The interface of a dictionary\<close>

text \<open>
  What the components rely on: the look-up after each update, and that the updates keep the
  representation invariant.
\<close>

locale ordered_dict =
  fixes empty_d :: "'m"
    and put :: "'k \<Rightarrow> 'v \<Rightarrow> 'm \<Rightarrow> 'm"
    and erase :: "'k \<Rightarrow> 'm \<Rightarrow> 'm"
    and find_d :: "'m \<Rightarrow> 'k \<Rightarrow> 'v option"
    and invar :: "'m \<Rightarrow> bool"
  assumes find_empty: "find_d empty_d k = None"
    and find_put: "invar m \<Longrightarrow> find_d (put k v m) = (find_d m)(k \<mapsto> v)"
    and find_erase: "invar m \<Longrightarrow> find_d (erase k m) = (find_d m)(k := None)"
    and invar_empty: "invar empty_d"
    and invar_put: "invar m \<Longrightarrow> invar (put k v m)"
    and invar_erase: "invar m \<Longrightarrow> invar (erase k m)"
begin

lemma invar_foldr_put: "invar m \<Longrightarrow> invar (foldr (\<lambda>(k, v). put k v) kvs m)"
  by (induction kvs) (auto simp: invar_put)

lemma find_foldr_put:
  "invar m \<Longrightarrow> find_d (foldr (\<lambda>(k, v). put k v) kvs m) = find_d m ++ map_of kvs"
  by (induction kvs) (auto simp: find_put invar_foldr_put)

lemma invar_foldr_erase: "invar m \<Longrightarrow> invar (foldr erase ks m)"
  by (induction ks) (auto simp: invar_erase)

lemma find_foldr_erase:
  "invar m \<Longrightarrow> find_d (foldr erase ks m) = (\<lambda>k. if k \<in> set ks then None else find_d m k)"
  by (induction ks) (auto simp: find_erase invar_foldr_erase)

end

interpretation sm: ordered_dict "[]" "mput :: 'k::linorder \<Rightarrow> _" merase map_of mwf
  by unfold_locales auto

section \<open>Ordered sets\<close>

type_synonym 'k sset = "'k list"

abbreviation swf :: "'k::linorder list \<Rightarrow> bool" where
  "swf s \<equiv> sorted_wrt (<) s"

fun sinsert :: "'k::linorder \<Rightarrow> 'k sset \<Rightarrow> 'k sset" where
  "sinsert k [] = [k]"
| "sinsert k (x # s) = (if k < x then k # x # s else if k = x then x # s else x # sinsert k s)"

definition serase :: "'k \<Rightarrow> 'k sset \<Rightarrow> 'k sset" where
  "serase k s = filter (\<lambda>x. x \<noteq> k) s"

lemma set_sinsert [simp]: "set (sinsert k s) = insert k (set s)"
  by (induction s) auto

lemma swf_sinsert [simp]: "swf s \<Longrightarrow> swf (sinsert k s)"
  by (induction s) auto

lemma sinsert_not_Nil [simp]: "sinsert k s \<noteq> []"
  by (cases s) auto

lemma set_serase [simp]: "set (serase k s) = set s - {k}"
  by (auto simp: serase_def)

lemma swf_serase [simp]: "swf s \<Longrightarrow> swf (serase k s)"
  by (induction s) (auto simp: serase_def)

section \<open>Minimum and maximum scans\<close>

text \<open>
  \<open>std::min_element\<close> with \<open>operator<\<close> on a key: the first element whose key is minimal,
  \<open>None\<close> being the end iterator of an empty range.
\<close>

fun min_element :: "('a \<Rightarrow> 'b::linorder) \<Rightarrow> 'a list \<Rightarrow> 'a option" where
  "min_element f [] = None"
| "min_element f (x # xs) =
     (case min_element f xs of None \<Rightarrow> Some x
      | Some y \<Rightarrow> if f y < f x then Some y else Some x)"

lemma min_element_None [simp]: "min_element f xs = None \<longleftrightarrow> xs = []"
  by (cases xs) (auto split: option.splits)

lemma min_element_SomeD:
  "min_element f xs = Some y \<Longrightarrow> y \<in> set xs \<and> (\<forall>x\<in>set xs. f y \<le> f x)"
proof (induction xs arbitrary: y)
  case Nil
  then show ?case by simp
next
  case (Cons x xs)
  show ?case
  proof (cases "min_element f xs")
    case None
    then show ?thesis using Cons.prems by simp
  next
    case (Some z)
    have z: "z \<in> set xs" "\<forall>u\<in>set xs. f z \<le> f u" using Cons.IH[OF Some] by auto
    show ?thesis using Cons.prems Some z
      by (auto split: if_splits dest: order_trans[OF less_imp_le])
  qed
qed

lemma min_element_exists: "xs \<noteq> [] \<Longrightarrow> \<exists>y. min_element f xs = Some y"
  by (metis min_element_None option.exhaust)

lemma foldl_min_le: "foldl min (a::'a::linorder) xs \<le> a"
proof (induction xs arbitrary: a)
  case Nil
  then show ?case by simp
next
  case (Cons x xs)
  have "foldl min (min a x) xs \<le> min a x" by (rule Cons.IH)
  also have "\<dots> \<le> a" by simp
  finally show ?case by simp
qed

lemma foldl_min_le_mem: "x \<in> set xs \<Longrightarrow> foldl min (a::'a::linorder) xs \<le> x"
proof (induction xs arbitrary: a)
  case Nil
  then show ?case by simp
next
  case (Cons y xs)
  then show ?case
    using foldl_min_le[of "min a y" xs] by (auto intro: order_trans)
qed

lemma foldl_min_mem: "foldl min (a::'a::linorder) xs = a \<or> foldl min a xs \<in> set xs"
proof (induction xs arbitrary: a)
  case Nil
  then show ?case by simp
next
  case (Cons y xs)
  from Cons.IH[of "min a y"] show ?case by (auto simp: min_def split: if_splits)
qed

end
