(* ===== verification/Entry.thy ===== *)
theory Entry
  imports Prelude
begin

text \<open>
  The base class of a forwarding-table entry, \<open>Edge/Entries/entry.h\<close> and \<open>entry.cpp\<close>.

  An entry keeps the list of destinations of a lambda function; the scheduling policy is a derived
  class that overrides \<open>operator()\<close> and three hooks which the base class calls after each change
  of the list. The virtual functions are a record of functions (\<open>hooks\<close>), the state of the derived
  class is the type parameter. What the base class relies on is the locale \<open>entry_policy\<close>; each
  policy interprets it in its own theory.

  What the code reads from outside (the chronometer, the random generator, the choice of
  \<open>std::priority_queue\<close> among equal elements, the rounding of \<open>float\<close> results and the summary
  statistics of the support library) is the record \<open>env\<close>.
\<close>

section \<open>Exceptions and environment\<close>

text \<open>
  The exceptions of \<open>forwardingtableexceptions.h\<close>, \<open>std::runtime_error\<close> with its message and
  the errors of the JSON library (parsing and access to a value of the wrong type).
  \<open>Undefined\<close> is a read through an iterator whose
  element was erased or an assertion that does not hold: what the program does then is not defined.
\<close>

datatype exn =
    NoDestinations "string option"
  | InvalidDestination string real
  | InvalidDestinationFor string string
  | InvalidWeight real
  | InvalidWeightFactor real
  | InvalidForwardingTableType string
  | RuntimeError string
  | JsonError string
  | Undefined string

text \<open>
  \<open>support::SummaryStat\<close> is outside the repository: its results are functions of the samples added
  since the last reset.
\<close>

record summary_stat =
  ss_count :: "real list \<Rightarrow> nat"
  ss_min :: "real list \<Rightarrow> real"
  ss_max :: "real list \<Rightarrow> real"
  ss_mean :: "real list \<Rightarrow> real"

text \<open>The documented behaviour of the summary statistics.\<close>

definition summary_stat_ok :: "summary_stat \<Rightarrow> bool" where
  "summary_stat_ok S \<longleftrightarrow>
     (\<forall>xs. ss_count S xs = length xs) \<and>
     (\<forall>xs. xs \<noteq> [] \<longrightarrow> ss_min S xs = Min (set xs)) \<and>
     (\<forall>xs. xs \<noteq> [] \<longrightarrow> ss_max S xs = Max (set xs)) \<and>
     (\<forall>xs. xs \<noteq> [] \<longrightarrow> ss_mean S xs = sum_list xs / real (length xs))"

record env =
  env_stat :: summary_stat
  env_fl :: "real \<Rightarrow> real"   \<comment> \<open>rounding of a \<open>float\<close> result\<close>
  env_now :: real            \<comment> \<open>\<open>theChrono.time()\<close>\<close>
  env_rnd :: real            \<comment> \<open>\<open>support::random()\<close>\<close>
  env_tie :: nat             \<comment> \<open>choice of \<open>std::priority_queue\<close> among equal elements\<close>

section \<open>State and operations\<close>

record element =
  theDestination :: string
  theWeight :: real
  theFinal :: bool

record 'p hooks =
  hk_select :: "env \<Rightarrow> element list \<Rightarrow> 'p \<Rightarrow> exn + string \<times> 'p"
  hk_updateWeight :: "env \<Rightarrow> element list \<Rightarrow> 'p \<Rightarrow> string \<Rightarrow> real \<Rightarrow> real \<Rightarrow> exn + 'p"
  hk_updateAddDest :: "env \<Rightarrow> element list \<Rightarrow> 'p \<Rightarrow> string \<Rightarrow> real \<Rightarrow> exn + 'p"
  hk_updateDelDest :: "env \<Rightarrow> element list \<Rightarrow> 'p \<Rightarrow> string \<Rightarrow> real \<Rightarrow> exn + 'p"

record 'p entry =
  theDestinations :: "element list"
  thePolicy :: 'p

text \<open>The linear search of the code, and an update or an erasure at the element it finds.\<close>

definition find_elem :: "string \<Rightarrow> element list \<Rightarrow> element option" where
  "find_elem d ds = List.find (\<lambda>x. theDestination x = d) ds"

fun upd_elem :: "string \<Rightarrow> (element \<Rightarrow> element) \<Rightarrow> element list \<Rightarrow> element list" where
  "upd_elem d f [] = []"
| "upd_elem d f (x # ds) = (if theDestination x = d then f x # ds else x # upd_elem d f ds)"

fun del_elem :: "string \<Rightarrow> element list \<Rightarrow> element list" where
  "del_elem d [] = []"
| "del_elem d (x # ds) = (if theDestination x = d then ds else x # del_elem d ds)"

definition entry_empty :: "'p entry \<Rightarrow> bool" where
  "entry_empty e \<longleftrightarrow> theDestinations e = []"

definition entry_select :: "'p hooks \<Rightarrow> env \<Rightarrow> 'p entry \<Rightarrow> (exn + string) \<times> 'p entry" where
  "entry_select H E e =
     (case hk_select H E (theDestinations e) (thePolicy e) of
        Inl x \<Rightarrow> (Inl x, e)
      | Inr (d, p) \<Rightarrow> (Inr d, e\<lparr>thePolicy := p\<rparr>))"

definition run_hook :: "exn + 'p \<Rightarrow> 'a \<Rightarrow> 'p entry \<Rightarrow> (exn + 'a) \<times> 'p entry" where
  "run_hook r a e = (case r of Inl x \<Rightarrow> (Inl x, e) | Inr p \<Rightarrow> (Inr a, e\<lparr>thePolicy := p\<rparr>))"

definition entry_change ::
  "'p hooks \<Rightarrow> env \<Rightarrow> string \<Rightarrow> real \<Rightarrow> bool \<Rightarrow> 'p entry \<Rightarrow> (exn + unit) \<times> 'p entry" where
  "entry_change H E aDest aWeight aFinal e =
     (if aDest = [] \<or> aWeight \<le> 0 then (Inl (InvalidDestination aDest aWeight), e)
      else case find_elem aDest (theDestinations e) of
        Some x \<Rightarrow>
          (let ds = upd_elem aDest (\<lambda>y. y\<lparr>theWeight := aWeight, theFinal := aFinal\<rparr>) (theDestinations e)
           in run_hook (hk_updateWeight H E ds (thePolicy e) aDest (theWeight x) aWeight) ()
                (e\<lparr>theDestinations := ds\<rparr>))
      | None \<Rightarrow>
          (let ds = theDestinations e @
                 [\<lparr>theDestination = aDest, theWeight = aWeight, theFinal = aFinal\<rparr>]
           in run_hook (hk_updateAddDest H E ds (thePolicy e) aDest aWeight) ()
                (e\<lparr>theDestinations := ds\<rparr>)))"

definition entry_change_weight ::
  "'p hooks \<Rightarrow> env \<Rightarrow> string \<Rightarrow> real \<Rightarrow> 'p entry \<Rightarrow> (exn + unit) \<times> 'p entry" where
  "entry_change_weight H E aDest aWeight e =
     (if aDest = [] then (Inl (NoDestinations None), e)
      else if aWeight \<le> 0 then (Inl (InvalidDestination aDest aWeight), e)
      else case find_elem aDest (theDestinations e) of
        None \<Rightarrow> (Inl (NoDestinations (Some aDest)), e)
      | Some x \<Rightarrow>
          (let ds = upd_elem aDest (\<lambda>y. y\<lparr>theWeight := aWeight\<rparr>) (theDestinations e)
           in run_hook (hk_updateWeight H E ds (thePolicy e) aDest (theWeight x) aWeight) ()
                (e\<lparr>theDestinations := ds\<rparr>)))"

definition entry_weight :: "string \<Rightarrow> 'p entry \<Rightarrow> exn + real" where
  "entry_weight aDest e =
     (if aDest = [] then Inl (NoDestinations None)
      else case find_elem aDest (theDestinations e) of
        None \<Rightarrow> Inl (NoDestinations (Some aDest))
      | Some x \<Rightarrow> Inr (theWeight x))"

definition entry_remove ::
  "'p hooks \<Rightarrow> env \<Rightarrow> string \<Rightarrow> 'p entry \<Rightarrow> (exn + bool) \<times> 'p entry" where
  "entry_remove H E aDest e =
     (case find_elem aDest (theDestinations e) of
        None \<Rightarrow> (Inr False, e)
      | Some x \<Rightarrow>
          (let ds = del_elem aDest (theDestinations e)
           in run_hook (hk_updateDelDest H E ds (thePolicy e) (theDestination x) (theWeight x)) True
                (e\<lparr>theDestinations := ds\<rparr>)))"

definition entry_destinations :: "'p entry \<Rightarrow> (string, real \<times> bool) smap" where
  "entry_destinations e =
     foldl (\<lambda>m x. memplace (theDestination x) (theWeight x, theFinal x) m) [] (theDestinations e)"

section \<open>The destination list as a dictionary\<close>

abbreviation dests_of :: "element list \<Rightarrow> string set" where
  "dests_of ds \<equiv> theDestination ` set ds"

definition dests_wf :: "element list \<Rightarrow> bool" where
  "dests_wf ds \<longleftrightarrow>
     distinct (map theDestination ds) \<and>
     (\<forall>x\<in>set ds. theDestination x \<noteq> [] \<and> 0 < theWeight x)"

definition dest_map :: "element list \<Rightarrow> string \<rightharpoonup> real \<times> bool" where
  "dest_map ds = map_of (map (\<lambda>x. (theDestination x, (theWeight x, theFinal x))) ds)"

lemma find_elem_Nil [simp]: "find_elem d [] = None"
  by (simp add: find_elem_def)

lemma find_elem_Cons [simp]:
  "find_elem d (x # ds) = (if theDestination x = d then Some x else find_elem d ds)"
  by (simp add: find_elem_def)

lemma find_elem_Some: "find_elem d ds = Some x \<Longrightarrow> x \<in> set ds \<and> theDestination x = d"
  by (induction ds) (auto split: if_splits)

lemma find_elem_None: "find_elem d ds = None \<longleftrightarrow> d \<notin> dests_of ds"
  by (induction ds) auto

lemma find_elem_mem:
  "distinct (map theDestination ds) \<Longrightarrow> x \<in> set ds \<Longrightarrow> find_elem (theDestination x) ds = Some x"
  by (induction ds) (auto simp: image_iff)

lemma dest_map_Nil [simp]: "dest_map [] = Map.empty"
  by (simp add: dest_map_def)

lemma dest_map_Cons [simp]:
  "dest_map (x # ds) = (dest_map ds)(theDestination x \<mapsto> (theWeight x, theFinal x))"
  by (simp add: dest_map_def)

lemma dest_map_find:
  "dest_map ds d = map_option (\<lambda>x. (theWeight x, theFinal x)) (find_elem d ds)"
  by (induction ds) auto

lemma dom_dest_map: "dom (dest_map ds) = dests_of ds"
  by (simp add: dest_map_def dom_map_of_conv_image_fst image_image)

lemma dests_wf_Nil [simp]: "dests_wf []"
  by (simp add: dests_wf_def)

lemma dests_wf_Cons:
  "dests_wf (x # ds) \<longleftrightarrow>
     theDestination x \<noteq> [] \<and> 0 < theWeight x \<and> theDestination x \<notin> dests_of ds \<and> dests_wf ds"
  by (auto simp: dests_wf_def)

lemma dests_wf_snoc:
  "dests_wf (ds @ [x]) \<longleftrightarrow>
     theDestination x \<noteq> [] \<and> 0 < theWeight x \<and> theDestination x \<notin> dests_of ds \<and> dests_wf ds"
  by (auto simp: dests_wf_def)

lemma dest_map_snoc:
  "theDestination x \<notin> dests_of ds \<Longrightarrow>
     dest_map (ds @ [x]) = (dest_map ds)(theDestination x \<mapsto> (theWeight x, theFinal x))"
  by (induction ds) (auto simp: fun_eq_iff)

lemma find_elem_snoc:
  "find_elem d (ds @ [x]) =
     (case find_elem d ds of None \<Rightarrow> (if theDestination x = d then Some x else None) | Some y \<Rightarrow> Some y)"
  by (induction ds) auto

text \<open>An in-place update of one element that leaves its name alone.\<close>

abbreviation set_wf :: "real \<Rightarrow> bool \<Rightarrow> element \<Rightarrow> element" where
  "set_wf w f \<equiv> (\<lambda>y. y\<lparr>theWeight := w, theFinal := f\<rparr>)"

lemma map_dest_upd_elem [simp]:
  "map theDestination (upd_elem d (set_wf w f) ds) = map theDestination ds"
  by (induction ds) auto

lemma dests_of_upd_elem [simp]: "dests_of (upd_elem d (set_wf w f) ds) = dests_of ds"
  by (induction ds) auto

lemma upd_elem_Nil_iff [simp]: "upd_elem d f ds = [] \<longleftrightarrow> ds = []"
  by (cases ds) auto

lemma dests_wf_upd_elem [simp]: "dests_wf ds \<Longrightarrow> 0 < w \<Longrightarrow> dests_wf (upd_elem d (set_wf w f) ds)"
  by (induction ds) (auto simp: dests_wf_Cons)

lemma dest_map_upd_elem:
  "d \<in> dests_of ds \<Longrightarrow> dest_map (upd_elem d (set_wf w f) ds) = (dest_map ds)(d \<mapsto> (w, f))"
  by (induction ds) (auto simp: fun_eq_iff)

lemma find_elem_upd_elem:
  "find_elem d' (upd_elem d (set_wf w f) ds) =
     (if d' = d then map_option (set_wf w f) (find_elem d ds) else find_elem d' ds)"
  by (induction ds) auto

lemma upd_weight_as_set_wf:
  "find_elem d ds = Some x \<Longrightarrow>
     upd_elem d (\<lambda>y. y\<lparr>theWeight := w\<rparr>) ds = upd_elem d (set_wf w (theFinal x)) ds"
  by (induction ds) (auto split: if_splits)

lemma set_upd_elem_subset: "set (upd_elem d g ds) \<subseteq> set ds \<union> g ` set ds"
  by (induction ds) auto

lemma set_upd_elem_weight:
  "y \<in> set (upd_elem d (set_wf w f) ds) \<Longrightarrow> y \<in> set ds \<or> theWeight y = w"
  by (induction ds) (auto split: if_splits)

lemma set_del_elem:
  "distinct (map theDestination ds) \<Longrightarrow> set (del_elem d ds) = {x \<in> set ds. theDestination x \<noteq> d}"
  by (induction ds) (auto simp: image_iff)

lemma dests_of_del_elem:
  "distinct (map theDestination ds) \<Longrightarrow> dests_of (del_elem d ds) = dests_of ds - {d}"
  by (auto simp: set_del_elem)

lemma distinct_del_elem:
  "distinct (map theDestination ds) \<Longrightarrow> distinct (map theDestination (del_elem d ds))"
  by (induction ds) (auto simp: set_del_elem)

lemma dests_wf_del_elem [simp]: "dests_wf ds \<Longrightarrow> dests_wf (del_elem d ds)"
  by (auto simp: dests_wf_def set_del_elem distinct_del_elem)

lemma dest_map_del_elem:
  "distinct (map theDestination ds) \<Longrightarrow> dest_map (del_elem d ds) = (dest_map ds)(d := None)"
  by (induction ds) (auto simp: fun_eq_iff dest_map_find find_elem_None split: option.split)

lemma find_elem_del_elem:
  "distinct (map theDestination ds) \<Longrightarrow>
     find_elem d' (del_elem d ds) = (if d' = d then None else find_elem d' ds)"
  by (induction ds) (auto simp: find_elem_None)

lemma dests_wf_distinct [simp]: "dests_wf ds \<Longrightarrow> distinct (map theDestination ds)"
  by (simp add: dests_wf_def)

lemmas dest_list_simps =
  dests_wf_snoc dest_map_snoc find_elem_snoc dest_map_upd_elem find_elem_upd_elem
  dests_of_del_elem dest_map_del_elem find_elem_del_elem find_elem_None

text \<open>
  \<open>Entry::destinations\<close> copies the list into a map: for a well-formed list nothing is lost.
\<close>

lemma foldl_memplace_dests:
  assumes "mwf m" and "distinct (map theDestination ds)" and "dests_of ds \<inter> fst ` set m = {}"
  shows "mwf (foldl (\<lambda>m x. memplace (theDestination x) (theWeight x, theFinal x) m) m ds) \<and>
    map_of (foldl (\<lambda>m x. memplace (theDestination x) (theWeight x, theFinal x) m) m ds) =
      map_of m ++ dest_map ds"
  using assms
proof (induction ds arbitrary: m)
  case Nil
  then show ?case by simp
next
  case (Cons x ds)
  let ?m = "memplace (theDestination x) (theWeight x, theFinal x) m"
  have None: "map_of m (theDestination x) = None"
    using Cons.prems(3) by (simp add: map_of_eq_None_iff)
  then have m': "?m = mput (theDestination x) (theWeight x, theFinal x) m"
    by (simp add: memplace_def)
  have "dest_map ds (theDestination x) = None"
    using Cons.prems(2) by (simp add: dest_map_find find_elem_None)
  then show ?case
    using Cons.IH[of ?m] Cons.prems None m' by (auto simp: map_add_def fun_eq_iff split: option.split)
qed

lemma entry_destinations_map:
  assumes "dests_wf (theDestinations e)"
  shows "mwf (entry_destinations e) \<and> map_of (entry_destinations e) = dest_map (theDestinations e)"
  using foldl_memplace_dests[of "[]" "theDestinations e"] assms
  by (simp add: entry_destinations_def)

lemma entry_destinations_empty:
  "dests_wf (theDestinations e) \<Longrightarrow> entry_destinations e = [] \<longleftrightarrow> entry_empty e"
  using entry_destinations_map[of e]
  by (metis dom_dest_map dom_eq_empty_conv entry_empty_def image_is_empty map_of_eq_empty_iff set_empty)

lemma entry_weight_map:
  "entry_weight d e =
     (if d = [] then Inl (NoDestinations None)
      else case dest_map (theDestinations e) d of
        None \<Rightarrow> Inl (NoDestinations (Some d)) | Some (w, f) \<Rightarrow> Inr w)"
  by (auto simp: entry_weight_def dest_map_find split: option.split)

section \<open>What the base class relies on\<close>

definition entry_inv :: "(element list \<Rightarrow> 'p \<Rightarrow> bool) \<Rightarrow> 'p entry \<Rightarrow> bool" where
  "entry_inv pinv e \<longleftrightarrow> dests_wf (theDestinations e) \<and> pinv (theDestinations e) (thePolicy e)"

text \<open>
  A policy keeps an invariant \<open>pinv\<close> between the destination list and its own state. The hooks are
  called after the list has changed; \<open>del_ok\<close> is the condition under which the deletion hook is
  safe, and \<open>ok_env\<close> is what the policy needs of its environment.
\<close>

locale entry_policy =
  fixes H :: "'p hooks"
    and ok_env :: "env \<Rightarrow> bool"
    and pinv :: "element list \<Rightarrow> 'p \<Rightarrow> bool"
    and del_ok :: "element list \<Rightarrow> 'p \<Rightarrow> string \<Rightarrow> bool"
    and p0 :: 'p
  assumes pinv_init: "pinv [] p0"
    and add_law: "\<lbrakk>ok_env E; dests_wf (ds @ [x]); pinv ds p\<rbrakk> \<Longrightarrow>
      \<exists>p'. hk_updateAddDest H E (ds @ [x]) p (theDestination x) (theWeight x) = Inr p' \<and>
           pinv (ds @ [x]) p'"
    and weight_law: "\<lbrakk>ok_env E; dests_wf ds; find_elem d ds = Some x; 0 < w; pinv ds p\<rbrakk> \<Longrightarrow>
      \<exists>p'. hk_updateWeight H E (upd_elem d (set_wf w f) ds) p d (theWeight x) w = Inr p' \<and>
           pinv (upd_elem d (set_wf w f) ds) p'"
    and del_law: "\<lbrakk>ok_env E; dests_wf ds; find_elem d ds = Some x; pinv ds p; del_ok ds p d\<rbrakk> \<Longrightarrow>
      \<exists>p'. hk_updateDelDest H E (del_elem d ds) p d (theWeight x) = Inr p' \<and>
           pinv (del_elem d ds) p'"
    and select_law: "\<lbrakk>ok_env E; dests_wf ds; pinv ds p; ds \<noteq> []\<rbrakk> \<Longrightarrow>
      \<exists>d p'. hk_select H E ds p = Inr (d, p') \<and> d \<in> dests_of ds \<and> pinv ds p'"
    and select_empty_law: "pinv [] p \<Longrightarrow> hk_select H E [] p = Inl (NoDestinations None)"
begin

lemma change_ok:
  assumes "ok_env E" and "entry_inv pinv e" and "d \<noteq> []" and "0 < w"
  shows "\<exists>e'. entry_change H E d w f e = (Inr (), e') \<and> entry_inv pinv e' \<and>
    dest_map (theDestinations e') = (dest_map (theDestinations e))(d \<mapsto> (w, f))"
proof (cases "find_elem d (theDestinations e)")
  case None
  let ?x = "\<lparr>theDestination = d, theWeight = w, theFinal = f\<rparr>"
  have wf: "dests_wf (theDestinations e @ [?x])"
    using assms None by (simp add: entry_inv_def dest_list_simps)
  obtain p' where p': "hk_updateAddDest H E (theDestinations e @ [?x]) (thePolicy e) d w = Inr p'"
    "pinv (theDestinations e @ [?x]) p'"
    using add_law[OF assms(1) wf] assms(2) by (auto simp: entry_inv_def)
  have "d \<notin> dests_of (theDestinations e)" using None by (simp add: find_elem_None)
  then show ?thesis
    using assms wf p'
    by (simp add: entry_change_def None run_hook_def entry_inv_def dest_map_snoc Let_def)
next
  case (Some x)
  let ?ds = "upd_elem d (set_wf w f) (theDestinations e)"
  obtain p' where p': "hk_updateWeight H E ?ds (thePolicy e) d (theWeight x) w = Inr p'"
    "pinv ?ds p'"
    using weight_law[OF assms(1) _ Some assms(4)] assms(2) by (auto simp: entry_inv_def)
  show ?thesis
    using assms Some p' find_elem_Some[OF Some]
    by (auto simp: entry_change_def run_hook_def entry_inv_def dest_list_simps Let_def)
qed

lemma change_weight_ok:
  assumes "ok_env E" and "entry_inv pinv e" and "d \<noteq> []" and "0 < w"
    and "dest_map (theDestinations e) d = Some (w0, f)"
  shows "\<exists>e'. entry_change_weight H E d w e = (Inr (), e') \<and> entry_inv pinv e' \<and>
    dest_map (theDestinations e') = (dest_map (theDestinations e))(d \<mapsto> (w, f))"
proof -
  obtain x where x: "find_elem d (theDestinations e) = Some x" "theWeight x = w0" "theFinal x = f"
    using assms(5) by (auto simp: dest_map_find)
  let ?ds = "upd_elem d (set_wf w f) (theDestinations e)"
  obtain p' where p': "hk_updateWeight H E ?ds (thePolicy e) d (theWeight x) w = Inr p'"
    "pinv ?ds p'"
    using weight_law[OF assms(1) _ x(1) assms(4)] assms(2) by (auto simp: entry_inv_def)
  show ?thesis
    using assms x p' find_elem_Some[OF x(1)] upd_weight_as_set_wf[OF x(1), of w]
    by (auto simp: entry_change_weight_def run_hook_def entry_inv_def dest_list_simps Let_def)
qed

lemma remove_ok:
  assumes "ok_env E" and "entry_inv pinv e"
    and "d \<in> dests_of (theDestinations e) \<longrightarrow> del_ok (theDestinations e) (thePolicy e) d"
  shows "\<exists>e'. entry_remove H E d e = (Inr (d \<in> dests_of (theDestinations e)), e') \<and>
    entry_inv pinv e' \<and>
    dest_map (theDestinations e') = (dest_map (theDestinations e))(d := None)"
proof (cases "find_elem d (theDestinations e)")
  case None
  then have "d \<notin> dests_of (theDestinations e)" "dest_map (theDestinations e) d = None"
    by (simp_all add: find_elem_None dest_map_find)
  then show ?thesis using None assms
    by (auto simp: entry_remove_def fun_eq_iff)
next
  case (Some x)
  then have d: "d \<in> dests_of (theDestinations e)" "theDestination x = d"
    using find_elem_Some[OF Some] by auto
  let ?ds = "del_elem d (theDestinations e)"
  obtain p' where p': "hk_updateDelDest H E ?ds (thePolicy e) d (theWeight x) = Inr p'"
    "pinv ?ds p'"
    using del_law[OF assms(1) _ Some] assms(2,3) d by (auto simp: entry_inv_def)
  show ?thesis
    using assms Some p' d
    by (simp add: entry_remove_def run_hook_def entry_inv_def dest_list_simps Let_def)
qed

lemma select_ok:
  assumes "ok_env E" and "entry_inv pinv e" and "\<not> entry_empty e"
  shows "\<exists>d e'. entry_select H E e = (Inr d, e') \<and> d \<in> dests_of (theDestinations e) \<and>
    entry_inv pinv e' \<and> theDestinations e' = theDestinations e"
proof -
  obtain d p' where "hk_select H E (theDestinations e) (thePolicy e) = Inr (d, p')"
    "d \<in> dests_of (theDestinations e)" "pinv (theDestinations e) p'"
    using select_law[OF assms(1), of "theDestinations e" "thePolicy e"] assms(2,3)
    by (auto simp: entry_inv_def entry_empty_def)
  then show ?thesis using assms(2) by (auto simp: entry_select_def entry_inv_def)
qed

lemma select_empty:
  assumes "entry_inv pinv e" and "entry_empty e"
  shows "entry_select H E e = (Inl (NoDestinations None), e)"
  using assms select_empty_law by (auto simp: entry_select_def entry_inv_def entry_empty_def)

end

section \<open>A concrete environment and entry\<close>

text \<open>A concrete environment (samples, \<open>float\<close> as reals, time, random value) and entry.\<close>

definition stat_ex :: summary_stat where
  "stat_ex = \<lparr>ss_count = length, ss_min = (\<lambda>xs. Min (set xs)), ss_max = (\<lambda>xs. Max (set xs)),
     ss_mean = (\<lambda>xs. sum_list xs / real (length xs))\<rparr>"

definition env_ex :: "real \<Rightarrow> real \<Rightarrow> env" where
  "env_ex now r = \<lparr>env_stat = stat_ex, env_fl = id, env_now = now, env_rnd = r, env_tie = 0\<rparr>"

lemma stat_ex_ok: "summary_stat_ok stat_ex"
  by (simp add: summary_stat_ok_def stat_ex_def)

definition dests_ex :: "element list" where
  "dests_ex = [\<lparr>theDestination = ''a'', theWeight = 1, theFinal = True\<rparr>,
     \<lparr>theDestination = ''b'', theWeight = 2, theFinal = True\<rparr>]"

end
