(* ===== verification/EdgeController.thy ===== *)
theory EdgeController
  imports Entry
begin

text \<open>
  The base class of the controllers, \<open>Edge/edgecontroller.cpp\<close>, and its messages
  (\<open>edgecontrollermessages.cpp\<close>) and server (\<open>edgecontrollerserver.cpp\<close>).

  A controller keeps the computers with their containers, the routers, and for each lambda the set of
  the computers that serve it. The derived class reacts through virtual functions, which are a record
  of functions (\<open>ctl_hooks\<close>) over the whole state of the object: the members of the base class, and in
  \<open>ct_derived\<close> those of the derived class and the network it acts on. The locale \<open>controller_hooks\<close> is
  what the base class relies on. The public operations hold the mutex: each is one atomic step.
\<close>

section \<open>State\<close>

record container =
  ct_name :: string
  ct_processor :: string
  ct_lambda :: string
  ct_numWorkers :: nat

record 'd controller =
  theComputers :: "(string, container list) smap"
  theRouters :: "(string, string) smap"
  theLambdas :: "(string, string sset) smap"
  ct_derived :: 'd

definition ctl_new :: "'d \<Rightarrow> 'd controller" where
  "ctl_new d = \<lparr>theComputers = [], theRouters = [], theLambdas = [], ct_derived = d\<rparr>"

type_synonym 'd ctl_op = "'d controller \<Rightarrow> (exn + unit) \<times> 'd controller"

record 'd ctl_hooks =
  ch_addComputer :: "string \<Rightarrow> string list \<Rightarrow> 'd ctl_op"
  ch_delComputer :: "string \<Rightarrow> string list \<Rightarrow> 'd ctl_op"
  ch_addLambda :: "string \<Rightarrow> 'd ctl_op"
  ch_delLambda :: "string \<Rightarrow> 'd ctl_op"
  ch_announceComputer :: "string \<Rightarrow> container list \<Rightarrow> 'd ctl_op"
  ch_announceRouter :: "string \<Rightarrow> string \<Rightarrow> 'd ctl_op"
  ch_removeComputer :: "string \<Rightarrow> string list \<Rightarrow> 'd ctl_op"
  ch_removeRouter :: "string \<Rightarrow> 'd ctl_op"

section \<open>Computers and routers\<close>

datatype add_status = AlreadyPresent | NotPresent | ContainersChanged

definition computers_add ::
  "string \<Rightarrow> container list \<Rightarrow> (string, container list) smap \<Rightarrow> add_status \<times> (string, container list) smap" where
  "computers_add ep cs m =
     (case map_of m ep of
        None \<Rightarrow> (NotPresent, mput ep cs m)
      | Some cs' \<Rightarrow> (if cs' = cs then AlreadyPresent else ContainersChanged, m))"

definition computers_remove ::
  "string \<Rightarrow> (string, container list) smap \<Rightarrow> string list \<times> (string, container list) smap" where
  "computers_remove ep m =
     (case map_of m ep of None \<Rightarrow> ([], m) | Some cs \<Rightarrow> (map ct_lambda cs, merase ep m))"

definition computers_lambdas :: "(string, container list) smap \<Rightarrow> (string \<times> string) list" where
  "computers_lambdas m = concat (map (\<lambda>(ep, cs). map (\<lambda>c. (ct_lambda c, ep)) cs) m)"

definition routers_add :: "string \<Rightarrow> string \<Rightarrow> (string, string) smap \<Rightarrow> (string, string) smap" where
  "routers_add srv fwd m = mput srv fwd m"

definition routers_remove :: "string \<Rightarrow> (string, string) smap \<Rightarrow> bool \<times> (string, string) smap" where
  "routers_remove srv m = (srv \<in> fst ` set m, merase srv m)"

definition forwardingServerEndpoint :: "string \<Rightarrow> (string, string) smap \<Rightarrow> string" where
  "forwardingServerEndpoint srv m = (case map_of m srv of None \<Rightarrow> [] | Some f \<Rightarrow> f)"

section \<open>Operations of the controller\<close>

text \<open>The body of the loop of \<open>announceComputer\<close> over the lambdas of the new computer.\<close>

definition serve_lambda :: "'d ctl_hooks \<Rightarrow> string \<Rightarrow> string \<Rightarrow> 'd ctl_op" where
  "serve_lambda H ep l s =
     (let S = (case map_of (theLambdas s) l of None \<Rightarrow> [] | Some S \<Rightarrow> S);
          s1 = s\<lparr>theLambdas := mput l S (theLambdas s)\<rparr>
      in sbind (if S = [] then ch_addLambda H l s1 else (Inr (), s1)) (\<lambda>_ s2.
           (Inr (), s2\<lparr>theLambdas := mupd l (sinsert ep) (theLambdas s2)\<rparr>)))"

text \<open>The body of the loop of \<open>privateRemoveComputer\<close> over the lambdas of the computer.\<close>

definition unserve_lambda :: "'d ctl_hooks \<Rightarrow> string \<Rightarrow> string \<Rightarrow> 'd ctl_op" where
  "unserve_lambda H ep l s =
     (case map_of (theLambdas s) l of
        None \<Rightarrow> (Inr (), s)
      | Some S \<Rightarrow>
          (if serase ep S = [] then ch_delLambda H l (s\<lparr>theLambdas := merase l (theLambdas s)\<rparr>)
           else (Inr (), s\<lparr>theLambdas := mput l (serase ep S) (theLambdas s)\<rparr>)))"

definition privateRemoveComputer :: "'d ctl_hooks \<Rightarrow> string \<Rightarrow> 'd ctl_op" where
  "privateRemoveComputer H ep s =
     (let (ls, m) = computers_remove ep (theComputers s)
      in sbind (sfor ls (unserve_lambda H ep) (s\<lparr>theComputers := m\<rparr>)) (\<lambda>_ s1.
         sbind (ch_delComputer H ep ls s1) (\<lambda>_ s2. ch_removeComputer H ep ls s2)))"

definition removeComputer :: "'d ctl_hooks \<Rightarrow> string \<Rightarrow> 'd ctl_op" where
  "removeComputer H ep s = privateRemoveComputer H ep s"

definition announceComputer :: "'d ctl_hooks \<Rightarrow> string \<Rightarrow> container list \<Rightarrow> 'd ctl_op" where
  "announceComputer H ep cs s =
     (let (status, m) = computers_add ep cs (theComputers s)
      in if status = AlreadyPresent then (Inr (), s\<lparr>theComputers := m\<rparr>)
         else
           sbind
             (if status = ContainersChanged then
                sbind (privateRemoveComputer H ep (s\<lparr>theComputers := m\<rparr>)) (\<lambda>_ s1.
                  (let (status', m') = computers_add ep cs (theComputers s1)
                   in if status' = NotPresent then (Inr (), s1\<lparr>theComputers := m'\<rparr>)
                      else (Inl (Undefined ''myNewStatus == NotPresent''), s1\<lparr>theComputers := m'\<rparr>)))
              else (Inr (), s\<lparr>theComputers := m\<rparr>)) (\<lambda>_ s1.
           sbind (sfor (map ct_lambda cs) (serve_lambda H ep) s1) (\<lambda>_ s2.
           sbind (ch_addComputer H ep (map ct_lambda cs) s2) (\<lambda>_ s3.
             ch_announceComputer H ep cs s3))))"

definition announceRouter :: "'d ctl_hooks \<Rightarrow> string \<Rightarrow> string \<Rightarrow> 'd ctl_op" where
  "announceRouter H srv fwd s =
     ch_announceRouter H srv fwd (s\<lparr>theRouters := routers_add srv fwd (theRouters s)\<rparr>)"

text \<open>\<open>removeRouter\<close> is called by the derived classes; it depends on one virtual function only.\<close>

definition removeRouter :: "(string \<Rightarrow> 'd ctl_op) \<Rightarrow> string \<Rightarrow> 'd ctl_op" where
  "removeRouter privateRemoveRouter srv s =
     privateRemoveRouter srv (s\<lparr>theRouters := snd (routers_remove srv (theRouters s))\<rparr>)"

section \<open>Messages and server\<close>

record computer_info =
  ci_endpoint :: string
  ci_containers :: "container list"

definition toProtobuf :: "string \<Rightarrow> container list \<Rightarrow> computer_info" where
  "toProtobuf ep cs = \<lparr>ci_endpoint = ep, ci_containers =
     foldl (\<lambda>acc c. acc @ [\<lparr>ct_name = ct_name c, ct_processor = ct_processor c,
       ct_lambda = ct_lambda c, ct_numWorkers = ct_numWorkers c\<rparr>]) [] cs\<rparr>"

definition containerListFromProtobuf :: "computer_info \<Rightarrow> container list" where
  "containerListFromProtobuf msg = map (\<lambda>i. ci_containers msg ! i) [0..<length (ci_containers msg)]"

text \<open>
  \<open>EdgeControllerServer::apply\<close>: a request is applied to every controller that has subscribed; an
  exception thrown by one does not reach the others nor the caller.
\<close>

definition server_apply :: "'d ctl_op \<Rightarrow> 'd controller list \<Rightarrow> 'd controller list" where
  "server_apply aHandler cs = map (\<lambda>c. snd (aHandler c)) cs"

definition srv_AnnounceComputer ::
  "'d ctl_hooks \<Rightarrow> computer_info \<Rightarrow> 'd controller list \<Rightarrow> 'd controller list" where
  "srv_AnnounceComputer H msg =
     server_apply (announceComputer H (ci_endpoint msg) (containerListFromProtobuf msg))"

definition srv_AnnounceRouter ::
  "'d ctl_hooks \<Rightarrow> string \<Rightarrow> string \<Rightarrow> 'd controller list \<Rightarrow> 'd controller list" where
  "srv_AnnounceRouter H srv fwd = server_apply (announceRouter H srv fwd)"

definition srv_RemoveComputer ::
  "'d ctl_hooks \<Rightarrow> computer_info \<Rightarrow> 'd controller list \<Rightarrow> 'd controller list" where
  "srv_RemoveComputer H msg = server_apply (removeComputer H (ci_endpoint msg))"

section \<open>The invariant of the base class\<close>

text \<open>\<open>serves m ep l\<close>: the computer \<open>ep\<close> has a container for the lambda \<open>l\<close>.\<close>

definition serves :: "(string, container list) smap \<Rightarrow> string \<Rightarrow> string \<Rightarrow> bool" where
  "serves m ep l \<longleftrightarrow> (\<exists>cs. map_of m ep = Some cs \<and> l \<in> ct_lambda ` set cs)"

text \<open>
  \<open>lambdas_ok R m\<close>: the map from lambdas to computers represents the relation \<open>R\<close>; no set is empty.
\<close>

definition lambdas_ok :: "(string \<Rightarrow> string \<Rightarrow> bool) \<Rightarrow> (string, string sset) smap \<Rightarrow> bool" where
  "lambdas_ok R m \<longleftrightarrow> mwf m \<and>
     (\<forall>l. case map_of m l of None \<Rightarrow> \<forall>ep. \<not> R ep l
          | Some S \<Rightarrow> swf S \<and> S \<noteq> [] \<and> (\<forall>ep. ep \<in> set S \<longleftrightarrow> R ep l))"

lemma lambdas_okD: "lambdas_ok R m \<Longrightarrow>
    case map_of m l of None \<Rightarrow> \<forall>ep. \<not> R ep l
    | Some S \<Rightarrow> swf S \<and> S \<noteq> [] \<and> (\<forall>ep. ep \<in> set S \<longleftrightarrow> R ep l)"
  by (simp add: lambdas_ok_def)

lemma lambdas_ok_put:
  assumes "lambdas_ok R m" and "swf S" and "S \<noteq> []" and "\<And>e. e \<in> set S \<longleftrightarrow> R' e l"
    and "\<And>e k. k \<noteq> l \<Longrightarrow> R' e k = R e k"
  shows "lambdas_ok R' (mput l S m)"
proof -
  have "case map_of (mput l S m) k of None \<Rightarrow> \<forall>ep. \<not> R' ep k
    | Some S \<Rightarrow> swf S \<and> S \<noteq> [] \<and> (\<forall>ep. ep \<in> set S \<longleftrightarrow> R' ep k)" for k
    using lambdas_okD[OF assms(1), of k] assms(2-5) by (cases "k = l"; cases "map_of m k") simp_all
  then show ?thesis using assms(1) by (simp add: lambdas_ok_def del: map_of_mput)
qed

lemma lambdas_ok_erase:
  assumes "lambdas_ok R m" and "\<And>e. \<not> R' e l" and "\<And>e k. k \<noteq> l \<Longrightarrow> R' e k = R e k"
  shows "lambdas_ok R' (merase l m)"
proof -
  have "case map_of (merase l m) k of None \<Rightarrow> \<forall>ep. \<not> R' ep k
    | Some S \<Rightarrow> swf S \<and> S \<noteq> [] \<and> (\<forall>ep. ep \<in> set S \<longleftrightarrow> R' ep k)" for k
    using lambdas_okD[OF assms(1), of k] assms(2,3) by (cases "k = l"; cases "map_of m k") simp_all
  then show ?thesis using assms(1) by (simp add: lambdas_ok_def del: map_of_merase)
qed

definition ctl_inv :: "'d controller \<Rightarrow> bool" where
  "ctl_inv s \<longleftrightarrow> mwf (theComputers s) \<and> mwf (theRouters s) \<and>
     lambdas_ok (serves (theComputers s)) (theLambdas s)"

text \<open>
  What the virtual functions promise: they leave the computers and the lambdas alone and forget
  routers at most; the notifications of computers and lambdas do not throw.
\<close>

definition keeps_base :: "'d controller \<Rightarrow> 'd controller \<Rightarrow> bool" where
  "keeps_base s s' \<longleftrightarrow> theComputers s' = theComputers s \<and> theLambdas s' = theLambdas s \<and>
     (mwf (theRouters s) \<longrightarrow> mwf (theRouters s') \<and> map_of (theRouters s') \<subseteq>\<^sub>m map_of (theRouters s))"

lemma keeps_base_refl [simp]: "keeps_base s s"
  by (simp add: keeps_base_def)

lemma keeps_base_trans: "keeps_base s s' \<Longrightarrow> keeps_base s' s'' \<Longrightarrow> keeps_base s s''"
  by (auto simp: keeps_base_def intro: map_le_trans)

lemma merase_map_le: "map_of (merase k m) \<subseteq>\<^sub>m map_of m"
  by (auto simp: map_le_def)

lemma keeps_base_erase: "keeps_base s (s\<lparr>ct_derived := n, theRouters := merase srv (theRouters s)\<rparr>)"
  by (simp add: keeps_base_def merase_map_le del: map_of_merase)

lemma keeps_base_derived: "keeps_base s (s\<lparr>ct_derived := n\<rparr>)"
  by (simp add: keeps_base_def)

lemma keeps_base_sfor:
  assumes "\<And>x s. keeps_base s (snd (f x s))"
  shows "keeps_base s (snd (sfor xs f s))"
proof (induction xs arbitrary: s)
  case Nil
  then show ?case by simp
next
  case (Cons x xs)
  obtain r s1 where f: "f x s = (r, s1)" by fastforce
  have "keeps_base s s1" using assms[of s x] f by simp
  then show ?case using Cons.IH[of s1] f by (cases r) (auto intro: keeps_base_trans)
qed

locale controller_hooks =
  fixes H :: "'d ctl_hooks"
  assumes addComputer_law: "\<exists>s'. ch_addComputer H ep ls s = (Inr (), s') \<and> keeps_base s s'"
    and delComputer_law: "\<exists>s'. ch_delComputer H ep ls s = (Inr (), s') \<and> keeps_base s s'"
    and addLambda_law: "\<exists>s'. ch_addLambda H l s = (Inr (), s') \<and> keeps_base s s'"
    and delLambda_law: "\<exists>s'. ch_delLambda H l s = (Inr (), s') \<and> keeps_base s s'"
    and announceComputer_law: "keeps_base s (snd (ch_announceComputer H ep cs s))"
    and announceRouter_law: "keeps_base s (snd (ch_announceRouter H srv fwd s))"
    and removeComputer_law: "keeps_base s (snd (ch_removeComputer H ep ls s))"
    and removeRouter_law: "keeps_base s (snd (ch_removeRouter H srv s))"
begin

lemma serve_lambda_step:
  assumes "lambdas_ok R (theLambdas s)"
  shows "\<exists>s'. serve_lambda H ep l s = (Inr (), s') \<and> theComputers s' = theComputers s \<and>
    (mwf (theRouters s) \<longrightarrow> mwf (theRouters s')) \<and>
    lambdas_ok (\<lambda>e k. R e k \<or> e = ep \<and> k = l) (theLambdas s')"
proof -
  let ?S = "case map_of (theLambdas s) l of None \<Rightarrow> [] | Some S \<Rightarrow> S"
  let ?s1 = "s\<lparr>theLambdas := mput l ?S (theLambdas s)\<rparr>"
  obtain s2 where s2: "(if ?S = [] then ch_addLambda H l ?s1 else (Inr (), ?s1)) = (Inr (), s2)"
    "keeps_base ?s1 s2"
    using addLambda_law[of l ?s1] by (cases "?S = []") auto
  let ?m = "mupd l (sinsert ep) (theLambdas s2)"
  have m: "theLambdas s2 = mput l ?S (theLambdas s)" "theComputers s2 = theComputers s"
    "mwf (theRouters s) \<longrightarrow> mwf (theRouters s2)"
    using s2(2) by (auto simp: keeps_base_def)
  have "mwf (theLambdas s)" using assms by (simp add: lambdas_ok_def)
  then have "?m = mput l (sinsert ep ?S) (theLambdas s)"
    by (intro smap_ext) (auto simp: m fun_eq_iff)
  moreover have "swf (sinsert ep ?S) \<and> (\<forall>e. e \<in> set (sinsert ep ?S) \<longleftrightarrow> R e l \<or> e = ep \<and> l = l)"
    using lambdas_okD[OF assms, of l] by (cases "map_of (theLambdas s) l") auto
  ultimately have "lambdas_ok (\<lambda>e k. R e k \<or> e = ep \<and> k = l) ?m"
    using lambdas_ok_put[OF assms, of "sinsert ep ?S" "\<lambda>e k. R e k \<or> e = ep \<and> k = l" l] by simp
  then show ?thesis using s2(1) m unfolding serve_lambda_def Let_def by auto
qed

lemma serve_lambdas:
  assumes "lambdas_ok R (theLambdas s)"
  shows "\<exists>s'. sfor ls (serve_lambda H ep) s = (Inr (), s') \<and> theComputers s' = theComputers s \<and>
    (mwf (theRouters s) \<longrightarrow> mwf (theRouters s')) \<and>
    lambdas_ok (\<lambda>e k. R e k \<or> e = ep \<and> k \<in> set ls) (theLambdas s')"
proof (rule sfor_inv[where I = "\<lambda>ks s'. theComputers s' = theComputers s \<and>
    (mwf (theRouters s) \<longrightarrow> mwf (theRouters s')) \<and>
    lambdas_ok (\<lambda>e k. R e k \<or> e = ep \<and> k \<in> set ks) (theLambdas s')"])
  fix ks l and s1 :: "'d controller"
  assume a: "theComputers s1 = theComputers s \<and> (mwf (theRouters s) \<longrightarrow> mwf (theRouters s1)) \<and>
    lambdas_ok (\<lambda>e k. R e k \<or> e = ep \<and> k \<in> set ks) (theLambdas s1)"
  have rel: "(\<lambda>e k. (R e k \<or> e = ep \<and> k \<in> set ks) \<or> e = ep \<and> k = l) =
      (\<lambda>e k. R e k \<or> e = ep \<and> k \<in> set (ks @ [l]))"
    by (auto simp: fun_eq_iff)
  show "\<exists>s'. serve_lambda H ep l s1 = (Inr (), s') \<and> theComputers s' = theComputers s \<and>
    (mwf (theRouters s) \<longrightarrow> mwf (theRouters s')) \<and>
    lambdas_ok (\<lambda>e k. R e k \<or> e = ep \<and> k \<in> set (ks @ [l])) (theLambdas s')"
    using serve_lambda_step[of "\<lambda>e k. R e k \<or> e = ep \<and> k \<in> set ks" s1 ep l, unfolded rel] a by auto
qed (use assms in simp)

lemma unserve_lambda_step:
  assumes "lambdas_ok R (theLambdas s)"
  shows "\<exists>s'. unserve_lambda H ep l s = (Inr (), s') \<and> theComputers s' = theComputers s \<and>
    (mwf (theRouters s) \<longrightarrow> mwf (theRouters s')) \<and>
    lambdas_ok (\<lambda>e k. R e k \<and> \<not> (e = ep \<and> k = l)) (theLambdas s')"
proof (cases "map_of (theLambdas s) l")
  case None
  have "\<not> R ep l" using lambdas_okD[OF assms, of l] None by simp
  then have "(\<lambda>e k. R e k \<and> \<not> (e = ep \<and> k = l)) = R" by (auto simp: fun_eq_iff)
  then show ?thesis using assms None by (simp add: unserve_lambda_def)
next
  case (Some S)
  have S: "swf S" "\<And>e. e \<in> set S \<longleftrightarrow> R e l"
    using lambdas_okD[OF assms, of l] Some by simp_all
  show ?thesis
  proof (cases "serase ep S = []")
    case True
    let ?s1 = "s\<lparr>theLambdas := merase l (theLambdas s)\<rparr>"
    obtain s' where s': "ch_delLambda H l ?s1 = (Inr (), s')" "keeps_base ?s1 s'"
      using delLambda_law by blast
    have "\<forall>e. R e l \<longrightarrow> e = ep" using True S(2) set_serase[of ep S] by auto
    then have "lambdas_ok (\<lambda>e k. R e k \<and> \<not> (e = ep \<and> k = l)) (merase l (theLambdas s))"
      by (intro lambdas_ok_erase[OF assms]) auto
    then show ?thesis using s' True Some by (auto simp: unserve_lambda_def keeps_base_def)
  next
    case False
    have "lambdas_ok (\<lambda>e k. R e k \<and> \<not> (e = ep \<and> k = l)) (mput l (serase ep S) (theLambdas s))"
      using False S by (intro lambdas_ok_put[OF assms]) auto
    then show ?thesis using False Some by (auto simp: unserve_lambda_def)
  qed
qed

lemma unserve_lambdas:
  assumes "lambdas_ok R (theLambdas s)"
  shows "\<exists>s'. sfor ls (unserve_lambda H ep) s = (Inr (), s') \<and> theComputers s' = theComputers s \<and>
    (mwf (theRouters s) \<longrightarrow> mwf (theRouters s')) \<and>
    lambdas_ok (\<lambda>e k. R e k \<and> \<not> (e = ep \<and> k \<in> set ls)) (theLambdas s')"
proof (rule sfor_inv[where I = "\<lambda>ks s'. theComputers s' = theComputers s \<and>
    (mwf (theRouters s) \<longrightarrow> mwf (theRouters s')) \<and>
    lambdas_ok (\<lambda>e k. R e k \<and> \<not> (e = ep \<and> k \<in> set ks)) (theLambdas s')"])
  fix ks l and s1 :: "'d controller"
  assume a: "theComputers s1 = theComputers s \<and> (mwf (theRouters s) \<longrightarrow> mwf (theRouters s1)) \<and>
    lambdas_ok (\<lambda>e k. R e k \<and> \<not> (e = ep \<and> k \<in> set ks)) (theLambdas s1)"
  have "(\<lambda>e k. (R e k \<and> \<not> (e = ep \<and> k \<in> set ks)) \<and> \<not> (e = ep \<and> k = l)) =
      (\<lambda>e k. R e k \<and> \<not> (e = ep \<and> k \<in> set (ks @ [l])))"
    by (auto simp: fun_eq_iff)
  then show "\<exists>s'. unserve_lambda H ep l s1 = (Inr (), s') \<and> theComputers s' = theComputers s \<and>
    (mwf (theRouters s) \<longrightarrow> mwf (theRouters s')) \<and>
    lambdas_ok (\<lambda>e k. R e k \<and> \<not> (e = ep \<and> k \<in> set (ks @ [l]))) (theLambdas s')"
    using unserve_lambda_step[of "\<lambda>e k. R e k \<and> \<not> (e = ep \<and> k \<in> set ks)" s1 ep l] a by auto
qed (use assms in simp)

lemma ctl_inv_keeps: "ctl_inv s \<Longrightarrow> keeps_base s s' \<Longrightarrow> ctl_inv s'"
  by (simp add: ctl_inv_def keeps_base_def)

lemma privateRemoveComputer_inv:
  assumes "ctl_inv s"
  shows "\<exists>s1. theComputers s1 = merase ep (theComputers s) \<and> ctl_inv s1 \<and>
    sbind (sfor (fst (computers_remove ep (theComputers s))) (unserve_lambda H ep)
        (s\<lparr>theComputers := snd (computers_remove ep (theComputers s))\<rparr>))
      (\<lambda>_. ch_delComputer H ep (fst (computers_remove ep (theComputers s)))) = (Inr (), s1) \<and>
    privateRemoveComputer H ep s = ch_removeComputer H ep (fst (computers_remove ep (theComputers s))) s1"
proof -
  obtain ls m where r: "computers_remove ep (theComputers s) = (ls, m)" by fastforce
  have m: "m = merase ep (theComputers s)"
    using r by (auto simp: computers_remove_def map_of_eq_None_iff merase_id split: option.splits)
  have ls: "serves (theComputers s) ep k \<longleftrightarrow> k \<in> set ls" for k
    using r by (auto simp: computers_remove_def serves_def split: option.splits)
  let ?s = "s\<lparr>theComputers := m\<rparr>"
  have "lambdas_ok (serves (theComputers s)) (theLambdas ?s)" using assms by (simp add: ctl_inv_def)
  from unserve_lambdas[OF this, of ls ep] obtain s1 where
    s1: "sfor ls (unserve_lambda H ep) ?s = (Inr (), s1)" "theComputers s1 = m"
      "mwf (theRouters s) \<longrightarrow> mwf (theRouters s1)"
      "lambdas_ok (\<lambda>e k. serves (theComputers s) e k \<and> \<not> (e = ep \<and> k \<in> set ls)) (theLambdas s1)"
    by auto
  have rel: "(\<lambda>e k. serves (theComputers s) e k \<and> \<not> (e = ep \<and> k \<in> set ls)) = serves m"
    using ls by (auto simp: fun_eq_iff serves_def m)
  have inv1: "ctl_inv s1" using s1 assms rel m by (simp add: ctl_inv_def)
  obtain s2 where s2: "ch_delComputer H ep ls s1 = (Inr (), s2)" "keeps_base s1 s2"
    using delComputer_law by blast
  have "theComputers s2 = m" using s2(2) s1(2) by (simp add: keeps_base_def)
  then show ?thesis using ctl_inv_keeps[OF inv1 s2(2)] s1(1) s2(1) r m
    by (intro exI[of _ s2]) (simp add: privateRemoveComputer_def)
qed

lemma removeComputer_inv:
  assumes "ctl_inv s"
  shows "ctl_inv (snd (removeComputer H ep s)) \<and>
    theComputers (snd (removeComputer H ep s)) = merase ep (theComputers s)"
proof -
  obtain s1 where "theComputers s1 = merase ep (theComputers s)" "ctl_inv s1"
    "removeComputer H ep s = ch_removeComputer H ep (fst (computers_remove ep (theComputers s))) s1"
    using privateRemoveComputer_inv[OF assms] by (auto simp: removeComputer_def)
  then show ?thesis
    using removeComputer_law[of s1] ctl_inv_keeps by (metis keeps_base_def)
qed

lemma serve_computer_inv:
  assumes "ctl_inv s" and "map_of (theComputers s) ep = None"
  shows "\<exists>s3. theComputers s3 = mput ep cs (theComputers s) \<and> ctl_inv s3 \<and>
    (\<forall>f. sbind (sfor (map ct_lambda cs) (serve_lambda H ep) (s\<lparr>theComputers := mput ep cs (theComputers s)\<rparr>)) (\<lambda>_ s2.
      sbind (ch_addComputer H ep (map ct_lambda cs) s2) (\<lambda>_ s3. (f s3 :: (exn + unit) \<times> 'd controller))) = f s3)"
proof -
  let ?s = "s\<lparr>theComputers := mput ep cs (theComputers s)\<rparr>"
  have "lambdas_ok (serves (theComputers s)) (theLambdas ?s)" using assms(1) by (simp add: ctl_inv_def)
  from serve_lambdas[OF this, of "map ct_lambda cs" ep] obtain s2 where
    s2: "sfor (map ct_lambda cs) (serve_lambda H ep) ?s = (Inr (), s2)"
      "theComputers s2 = mput ep cs (theComputers s)" "mwf (theRouters s) \<longrightarrow> mwf (theRouters s2)"
      "lambdas_ok (\<lambda>e k. serves (theComputers s) e k \<or> e = ep \<and> k \<in> set (map ct_lambda cs)) (theLambdas s2)"
    by auto
  have rel: "(\<lambda>e k. serves (theComputers s) e k \<or> e = ep \<and> k \<in> set (map ct_lambda cs)) =
      serves (mput ep cs (theComputers s))"
    using assms(2) by (auto simp: fun_eq_iff serves_def)
  have inv2: "ctl_inv s2" using s2 assms(1) rel by (simp add: ctl_inv_def)
  obtain s3 where s3: "ch_addComputer H ep (map ct_lambda cs) s2 = (Inr (), s3)" "keeps_base s2 s3"
    using addComputer_law by blast
  then show ?thesis using ctl_inv_keeps[OF inv2 s3(2)] s2(1,2)
    by (intro exI[of _ s3]) (simp add: keeps_base_def)
qed

lemma announceComputer_inv:
  assumes "ctl_inv s"
  shows "ctl_inv (snd (announceComputer H ep cs s))"
proof (cases "map_of (theComputers s) ep")
  case None
  have add: "computers_add ep cs (theComputers s) = (NotPresent, mput ep cs (theComputers s))"
    using None by (simp add: computers_add_def)
  obtain s3 where "ctl_inv s3" "announceComputer H ep cs s = ch_announceComputer H ep cs s3"
    using serve_computer_inv[OF assms None, of cs]
    by (auto simp: announceComputer_def add)
  then show ?thesis using announceComputer_law ctl_inv_keeps by metis
next
  case (Some cs')
  show ?thesis
  proof (cases "cs' = cs")
    case True
    then show ?thesis using Some assms by (simp add: announceComputer_def computers_add_def)
  next
    case False
    then have add: "computers_add ep cs (theComputers s) = (ContainersChanged, theComputers s)"
      using Some by (simp add: computers_add_def)
    obtain r s1 where r: "privateRemoveComputer H ep s = (r, s1)" by fastforce
    have s1: "ctl_inv s1" "theComputers s1 = merase ep (theComputers s)"
      using removeComputer_inv[OF assms, of ep] r by (auto simp: removeComputer_def)
    have add1: "computers_add ep cs (theComputers s1) = (NotPresent, mput ep cs (theComputers s1))"
      and none: "map_of (theComputers s1) ep = None"
      using s1(2) by (auto simp: computers_add_def)
    show ?thesis
    proof (cases r)
      case (Inl x)
      then show ?thesis using r s1(1) by (simp add: announceComputer_def add)
    next
      case (Inr u)
      obtain s3 where "ctl_inv s3" "announceComputer H ep cs s = ch_announceComputer H ep cs s3"
        using serve_computer_inv[OF s1(1) none, of cs] Inr r
        by (auto simp: announceComputer_def add add1)
      then show ?thesis using announceComputer_law ctl_inv_keeps by metis
    qed
  qed
qed

lemma announceRouter_inv:
  assumes "ctl_inv s"
  shows "ctl_inv (snd (announceRouter H srv fwd s))"
proof -
  have "ctl_inv (s\<lparr>theRouters := routers_add srv fwd (theRouters s)\<rparr>)"
    using assms by (simp add: ctl_inv_def routers_add_def)
  then show ?thesis using announceRouter_law ctl_inv_keeps by (metis announceRouter_def)
qed

lemma removeRouter_inv:
  assumes "ctl_inv s"
  shows "ctl_inv (snd (removeRouter (ch_removeRouter H) srv s))"
proof -
  have "ctl_inv (s\<lparr>theRouters := snd (routers_remove srv (theRouters s))\<rparr>)"
    using assms by (simp add: ctl_inv_def routers_remove_def)
  then show ?thesis using removeRouter_law ctl_inv_keeps by (metis removeRouter_def)
qed

end

end
