(* ===== verification/ForwardingTableInterface.thy ===== *)
theory ForwardingTableInterface
  imports Entry
begin

text \<open>
  The abstract class \<open>Edge/forwardingtableinterface.h\<close>, which the forwarding table and the
  processing-time estimators implement and the configuration server drives.

  Its virtual functions are a record of functions over the state of the derived class; what its
  clients rely on is the locale \<open>forwarding_table_if\<close>, stated on the destinations known for each
  lambda. The function \<open>fakeFill\<close> of \<open>forwardingtableinterface.cpp\<close> is a client of the interface.
\<close>

type_synonym full_table = "(string, (string, real \<times> bool) smap) smap"

record 's ft_if =
  if_change :: "env \<Rightarrow> string \<Rightarrow> string \<Rightarrow> real \<Rightarrow> bool \<Rightarrow> 's \<Rightarrow> (exn + unit) \<times> 's"
  if_change_weight :: "env \<Rightarrow> string \<Rightarrow> string \<Rightarrow> real \<Rightarrow> 's \<Rightarrow> (exn + unit) \<times> 's"
  if_remove :: "env \<Rightarrow> string \<Rightarrow> string \<Rightarrow> 's \<Rightarrow> (exn + unit) \<times> 's"
  if_remove_lambda :: "env \<Rightarrow> string \<Rightarrow> 's \<Rightarrow> (exn + unit) \<times> 's"
  if_lambdas :: "'s \<Rightarrow> string sset"
  if_fullTable :: "'s \<Rightarrow> full_table"

definition fake_lambda :: "nat \<Rightarrow> string" where
  "fake_lambda i = ''lambda'' @ to_string i"

definition fake_destination :: "nat \<Rightarrow> string" where
  "fake_destination j = ''127.0.0.1:'' @ to_string j"

definition fakeFill :: "'s ft_if \<Rightarrow> env \<Rightarrow> nat \<Rightarrow> nat \<Rightarrow> 's \<Rightarrow> (exn + unit) \<times> 's" where
  "fakeFill I E aNumLambdas aNumDestinations =
     sfor [0..<aNumLambdas] (\<lambda>i.
       sfor [0..<aNumDestinations] (\<lambda>j. if_change I E (fake_lambda i) (fake_destination j) 1 True))"

text \<open>The representation invariant of a full table: both levels are ordered, no inner map is empty.\<close>

definition full_table_wf :: "full_table \<Rightarrow> bool" where
  "full_table_wf m \<longleftrightarrow> mwf m \<and> (\<forall>l i. map_of m l = Some i \<longrightarrow> mwf i \<and> i \<noteq> [])"

definition full_table_dests :: "full_table \<Rightarrow> string \<Rightarrow> string set" where
  "full_table_dests m l = (case map_of m l of None \<Rightarrow> {} | Some i \<Rightarrow> fst ` set i)"

locale forwarding_table_if =
  fixes I :: "'s ft_if"
    and env_ok :: "env \<Rightarrow> bool"
    and invar :: "'s \<Rightarrow> bool"
    and dests :: "'s \<Rightarrow> string \<Rightarrow> string set"
    and rem_ok :: "'s \<Rightarrow> string \<Rightarrow> string \<Rightarrow> bool"
  assumes change_law: "\<lbrakk>env_ok E; invar s; d \<noteq> []; 0 < w\<rbrakk> \<Longrightarrow>
      \<exists>s'. if_change I E l d w f s = (Inr (), s') \<and> invar s' \<and> dests s' = (dests s)(l := insert d (dests s l))"
    and remove_law: "\<lbrakk>env_ok E; invar s; rem_ok s l d\<rbrakk> \<Longrightarrow>
      \<exists>s'. if_remove I E l d s = (Inr (), s') \<and> invar s' \<and> dests s' = (dests s)(l := dests s l - {d})"
    and remove_lambda_law: "\<lbrakk>env_ok E; invar s\<rbrakk> \<Longrightarrow>
      \<exists>s'. if_remove_lambda I E l s = (Inr (), s') \<and> invar s' \<and> dests s' = (dests s)(l := {})"
    and lambdas_law: "invar s \<Longrightarrow> swf (if_lambdas I s) \<and> set (if_lambdas I s) = {l. dests s l \<noteq> {}}"
    and fullTable_law: "invar s \<Longrightarrow>
      full_table_wf (if_fullTable I s) \<and> full_table_dests (if_fullTable I s) = dests s"
begin

lemma fakeFill_inner:
  assumes "env_ok E" and "invar s"
  shows "\<exists>s'. sfor [0..<m] (\<lambda>j. if_change I E l (fake_destination j) 1 True) s = (Inr (), s') \<and>
    invar s' \<and> dests s' = (dests s)(l := dests s l \<union> fake_destination ` {0..<m})"
proof -
  have "\<exists>s'. sfor [0..<m] (\<lambda>j. if_change I E l (fake_destination j) 1 True) s = (Inr (), s') \<and>
    invar s' \<and> dests s' = (dests s)(l := dests s l \<union> fake_destination ` set [0..<m])"
  proof (rule sfor_inv[where I = "\<lambda>js s'. invar s' \<and>
      dests s' = (dests s)(l := dests s l \<union> fake_destination ` set js)"])
    show "invar s \<and> dests s = (dests s)(l := dests s l \<union> fake_destination ` set [])"
      using assms(2) by simp
  next
    fix js j s1
    assume "invar s1 \<and> dests s1 = (dests s)(l := dests s l \<union> fake_destination ` set js)"
    then show "\<exists>s'. if_change I E l (fake_destination j) 1 True s1 = (Inr (), s') \<and> invar s' \<and>
      dests s' = (dests s)(l := dests s l \<union> fake_destination ` set (js @ [j]))"
      using change_law[OF assms(1), of s1 "fake_destination j" 1 l True]
      by (auto simp: fake_destination_def)
  qed
  then show ?thesis by simp
qed

lemma fakeFill_dests:
  assumes "env_ok E" and "invar s" and "dests s = (\<lambda>_. {})"
  shows "\<exists>s'. fakeFill I E n m s = (Inr (), s') \<and> invar s' \<and>
    dests s' = (\<lambda>l. if l \<in> fake_lambda ` {0..<n} then fake_destination ` {0..<m} else {})"
proof -
  have "\<exists>s'. fakeFill I E n m s = (Inr (), s') \<and> invar s' \<and>
    dests s' = (\<lambda>l. if l \<in> fake_lambda ` set [0..<n] then fake_destination ` {0..<m} else {})"
    unfolding fakeFill_def
  proof (rule sfor_inv[where I = "\<lambda>ks s'. invar s' \<and>
      dests s' = (\<lambda>l. if l \<in> fake_lambda ` set ks then fake_destination ` {0..<m} else {})"])
    show "invar s \<and> dests s = (\<lambda>l. if l \<in> fake_lambda ` set [] then fake_destination ` {0..<m} else {})"
      using assms(2,3) by simp
  next
    fix ks i s1
    assume "invar s1 \<and> dests s1 = (\<lambda>l. if l \<in> fake_lambda ` set ks then fake_destination ` {0..<m} else {})"
    then show "\<exists>s'. sfor [0..<m] (\<lambda>j. if_change I E (fake_lambda i) (fake_destination j) 1 True) s1 =
        (Inr (), s') \<and> invar s' \<and>
      dests s' = (\<lambda>l. if l \<in> fake_lambda ` set (ks @ [i]) then fake_destination ` {0..<m} else {})"
      using fakeFill_inner[OF assms(1), of s1 m "fake_lambda i"] by (auto simp: fun_eq_iff)
  qed
  then show ?thesis by simp
qed

lemma flush_dests:
  assumes "env_ok E" and "invar s"
  shows "\<exists>s'. sfor (if_lambdas I s) (if_remove_lambda I E) s = (Inr (), s') \<and> invar s' \<and>
    dests s' = (\<lambda>_. {}) \<and> if_fullTable I s' = []"
proof -
  have "\<exists>s'. sfor (if_lambdas I s) (if_remove_lambda I E) s = (Inr (), s') \<and> invar s' \<and>
    dests s' = (\<lambda>l. if l \<in> set (if_lambdas I s) then {} else dests s l)"
  proof (rule sfor_inv[where I = "\<lambda>ls s'. invar s' \<and>
      dests s' = (\<lambda>l. if l \<in> set ls then {} else dests s l)"])
    show "invar s \<and> dests s = (\<lambda>l. if l \<in> set [] then {} else dests s l)" using assms(2) by simp
  next
    fix ls l s1
    assume "invar s1 \<and> dests s1 = (\<lambda>l. if l \<in> set ls then {} else dests s l)"
    then show "\<exists>s'. if_remove_lambda I E l s1 = (Inr (), s') \<and> invar s' \<and>
      dests s' = (\<lambda>la. if la \<in> set (ls @ [l]) then {} else dests s la)"
      using remove_lambda_law[OF assms(1), of s1 l] by (auto simp: fun_eq_iff)
  qed
  then obtain s' where s': "sfor (if_lambdas I s) (if_remove_lambda I E) s = (Inr (), s')" "invar s'"
    "dests s' = (\<lambda>l. if l \<in> set (if_lambdas I s) then {} else dests s l)" by blast
  then have empty: "dests s' = (\<lambda>_. {})"
    using lambdas_law[OF assms(2)] by (auto simp: fun_eq_iff)
  have "map_of (if_fullTable I s') l = None" for l
  proof (rule ccontr)
    assume "map_of (if_fullTable I s') l \<noteq> None"
    then obtain i where "map_of (if_fullTable I s') l = Some i" by auto
    moreover from this have "i \<noteq> []"
      using fullTable_law[OF s'(2)] by (auto simp: full_table_wf_def)
    ultimately show False
      using fullTable_law[OF s'(2)] empty by (auto simp: full_table_dests_def fun_eq_iff split: option.splits)
  qed
  then have "if_fullTable I s' = []" by (metis map_of_eq_empty_iff ext)
  then show ?thesis using s'(1,2) empty by blast
qed

end

end
