(* ===== verification/Entry_Random.thy ===== *)
theory Entry_Random
  imports Entry
begin

text \<open>
  The weighted random policy, \<open>Edge/Entries/entryrandom.cpp\<close>: the entry keeps the sum of the
  inverse weights and draws a destination with probability proportional to its inverse weight.
  The rounding of \<open>float\<close> results is the parameter \<open>env_fl\<close>; \<open>rnd_exact\<close> is the environment
  in which it does nothing.
\<close>

record rnd_pol =
  theInvSum :: real

definition rnd_init :: rnd_pol where
  "rnd_init = \<lparr>theInvSum = 0\<rparr>"

text \<open>The scan of \<open>operator()\<close>: all the destinations but the last, which is the fall-back.\<close>

fun rnd_scan :: "(real \<Rightarrow> real) \<Rightarrow> real \<Rightarrow> real \<Rightarrow> element list \<Rightarrow> string" where
  "rnd_scan fl r s [] = []"
| "rnd_scan fl r s [x] = theDestination x"
| "rnd_scan fl r s (x # y # ds) =
     (let s' = fl (s + fl (1 / theWeight x))
      in if r \<le> s' then theDestination x else rnd_scan fl r s' (y # ds))"

definition rnd_select :: "env \<Rightarrow> element list \<Rightarrow> rnd_pol \<Rightarrow> exn + string \<times> rnd_pol" where
  "rnd_select E ds p =
     (case ds of
        [] \<Rightarrow> Inl (NoDestinations None)
      | [x] \<Rightarrow> Inr (theDestination x, p)
      | _ \<Rightarrow> Inr (rnd_scan (env_fl E) (env_fl E (env_rnd E * theInvSum p)) 0 ds, p))"

definition rnd_updateWeight ::
  "env \<Rightarrow> element list \<Rightarrow> rnd_pol \<Rightarrow> string \<Rightarrow> real \<Rightarrow> real \<Rightarrow> exn + rnd_pol" where
  "rnd_updateWeight E ds p aDest aOldWeight aNewWeight =
     Inr (p\<lparr>theInvSum := env_fl E (theInvSum p +
       env_fl E (env_fl E (1 / aNewWeight) - env_fl E (1 / aOldWeight)))\<rparr>)"

definition rnd_updateAddDest ::
  "env \<Rightarrow> element list \<Rightarrow> rnd_pol \<Rightarrow> string \<Rightarrow> real \<Rightarrow> exn + rnd_pol" where
  "rnd_updateAddDest E ds p aDest aWeight =
     Inr (p\<lparr>theInvSum := env_fl E (theInvSum p + env_fl E (1 / aWeight))\<rparr>)"

definition rnd_updateDelDest ::
  "env \<Rightarrow> element list \<Rightarrow> rnd_pol \<Rightarrow> string \<Rightarrow> real \<Rightarrow> exn + rnd_pol" where
  "rnd_updateDelDest E ds p aDest aWeight =
     Inr (p\<lparr>theInvSum := env_fl E (theInvSum p - env_fl E (1 / aWeight))\<rparr>)"

definition rnd_hooks :: "rnd_pol hooks" where
  "rnd_hooks = \<lparr>hk_select = rnd_select, hk_updateWeight = rnd_updateWeight,
     hk_updateAddDest = rnd_updateAddDest, hk_updateDelDest = rnd_updateDelDest\<rparr>"

lemmas rnd_hook_defs =
  rnd_hooks_def rnd_updateWeight_def rnd_updateAddDest_def rnd_updateDelDest_def

section \<open>Any rounding: a member is selected\<close>

lemma rnd_scan_mem: "ds \<noteq> [] \<Longrightarrow> rnd_scan fl r s ds \<in> dests_of ds"
  by (induction fl r s ds rule: rnd_scan.induct) (auto simp: Let_def)

lemma rnd_select_mem:
  assumes "ds \<noteq> []"
  shows "\<exists>d. rnd_select E ds p = Inr (d, p) \<and> d \<in> dests_of ds"
proof (cases "length ds = 1")
  case True
  then show ?thesis by (auto simp: rnd_select_def length_Suc_conv)
next
  case False
  then obtain x y zs where "ds = x # y # zs"
    using assms by (metis One_nat_def length_Cons list.exhaust list.size(3))
  then have "rnd_select E ds p =
    Inr (rnd_scan (env_fl E) (env_fl E (env_rnd E * theInvSum p)) 0 ds, p)"
    by (simp add: rnd_select_def)
  then show ?thesis using rnd_scan_mem[OF assms] by blast
qed

interpretation rnd_any: entry_policy rnd_hooks "\<lambda>_. True" "\<lambda>_ _. True" "\<lambda>_ _ _. True" rnd_init
proof (unfold_locales, goal_cases)
  case (5 E ds p)
  then show ?case using rnd_select_mem[of ds E p] by (auto simp: rnd_hooks_def)
qed (auto simp: rnd_hook_defs rnd_select_def)

section \<open>Exact arithmetic: selection is proportional to the inverse weights\<close>

definition inv_sum :: "element list \<Rightarrow> real" where
  "inv_sum ds = sum_list (map (\<lambda>x. 1 / theWeight x) ds)"

definition rnd_exact :: "env \<Rightarrow> bool" where
  "rnd_exact E \<longleftrightarrow> env_fl E = id"

definition rnd_inv :: "element list \<Rightarrow> rnd_pol \<Rightarrow> bool" where
  "rnd_inv ds p \<longleftrightarrow> theInvSum p = inv_sum ds"

lemma inv_sum_simps [simp]:
  "inv_sum [] = 0"
  "inv_sum (x # ds) = 1 / theWeight x + inv_sum ds"
  "inv_sum (ds @ ds') = inv_sum ds + inv_sum ds'"
  by (simp_all add: inv_sum_def)

lemma inv_sum_nonneg: "dests_wf ds \<Longrightarrow> 0 \<le> inv_sum ds"
  by (induction ds) (auto simp: dests_wf_Cons)

lemma inv_sum_upd_elem:
  "find_elem d ds = Some x \<Longrightarrow>
     inv_sum (upd_elem d (set_wf w f) ds) = inv_sum ds + 1 / w - 1 / theWeight x"
  by (induction ds) (auto split: if_splits)

lemma inv_sum_del_elem:
  "find_elem d ds = Some x \<Longrightarrow> inv_sum (del_elem d ds) = inv_sum ds - 1 / theWeight x"
  by (induction ds) (auto split: if_splits)

interpretation rnd_ex: entry_policy rnd_hooks rnd_exact rnd_inv "\<lambda>_ _ _. True" rnd_init
proof (unfold_locales, goal_cases)
  case (5 E ds p)
  then show ?case using rnd_select_mem[of ds E p] by (auto simp: rnd_hooks_def)
qed (auto simp: rnd_hook_defs rnd_select_def rnd_inv_def rnd_exact_def rnd_init_def
       inv_sum_upd_elem inv_sum_del_elem)

text \<open>
  With exact arithmetic the scan returns the destination in whose interval of the cumulative
  inverse weights the random value falls.
\<close>

lemma rnd_scan_interval:
  assumes "dests_wf (xs @ x # ys)" and "s < r" and "r \<le> s + inv_sum (xs @ x # ys)"
  shows "rnd_scan id r s (xs @ x # ys) = theDestination x \<longleftrightarrow>
    s + inv_sum xs < r \<and> r \<le> s + inv_sum (xs @ [x])"
  using assms
proof (induction xs arbitrary: s)
  case Nil
  show ?case
  proof (cases ys)
    case Nil
    then show ?thesis using Nil.prems by simp
  next
    case (Cons y ys')
    have "theDestination x \<notin> dests_of (y # ys')"
      using Nil.prems(1) Cons by (simp add: dests_wf_Cons)
    moreover have "rnd_scan id r (s + 1 / theWeight x) (y # ys') \<in> dests_of (y # ys')"
      by (rule rnd_scan_mem) simp
    ultimately have "rnd_scan id r (s + 1 / theWeight x) (y # ys') \<noteq> theDestination x"
      by metis
    then show ?thesis using Cons Nil.prems by (auto simp: Let_def id_def)
  qed
next
  case (Cons z xs)
  let ?s = "s + 1 / theWeight z"
  obtain y zs where yz: "xs @ x # ys = y # zs" by (cases xs) auto
  have ne: "theDestination z \<noteq> theDestination x" and wf: "dests_wf (xs @ x # ys)"
    and wfx: "dests_wf xs"
    using Cons.prems(1) by (auto simp: dests_wf_Cons dests_wf_def)
  have scan: "rnd_scan id r s (z # xs @ x # ys) =
    (if r \<le> ?s then theDestination z else rnd_scan id r ?s (xs @ x # ys))"
    by (simp add: yz Let_def)
  show ?case
  proof (cases "r \<le> ?s")
    case True
    have "0 \<le> inv_sum xs" using inv_sum_nonneg[OF wfx] .
    then show ?thesis using True scan ne by (auto simp: id_def)
  next
    case False
    then have "rnd_scan id r ?s (xs @ x # ys) = theDestination x \<longleftrightarrow>
      ?s + inv_sum xs < r \<and> r \<le> ?s + inv_sum (xs @ [x])"
      using Cons.IH[OF wf, of ?s] Cons.prems(3) by (simp add: algebra_simps id_def)
    then show ?thesis using False scan by (simp add: algebra_simps id_def)
  qed
qed

lemma rnd_select_interval:
  assumes "rnd_exact E" and "rnd_inv ds p" and "dests_wf ds" and "ds = xs @ x # ys"
    and "xs @ ys \<noteq> []" and "0 < env_rnd E" and "env_rnd E < 1"
  shows "rnd_select E ds p = Inr (theDestination x, p) \<longleftrightarrow>
    inv_sum xs < env_rnd E * inv_sum ds \<and> env_rnd E * inv_sum ds \<le> inv_sum xs + 1 / theWeight x"
proof -
  let ?r = "env_rnd E * inv_sum ds"
  have two: "\<exists>a b zs. ds = a # b # zs"
    using assms(4,5) by (cases xs; cases ys; auto) (metis append_Cons append_Nil neq_Nil_conv)+
  then have sel: "rnd_select E ds p = Inr (rnd_scan id ?r 0 ds, p)"
    using assms(1,2) by (auto simp: rnd_select_def rnd_exact_def rnd_inv_def)
  have pos: "0 < inv_sum ds"
    using two assms(3) inv_sum_nonneg by (auto simp: dests_wf_Cons add_pos_nonneg)
  have "?r \<le> inv_sum ds" "0 < ?r"
    using pos assms(6,7) mult_right_mono[of "env_rnd E" 1 "inv_sum ds"] by auto
  then show ?thesis
    using rnd_scan_interval[of xs x ys 0 ?r] assms(3,4) sel by simp
qed

text \<open>
  C12: in exact arithmetic, a random value \<open>u\<close> of the unit interval selects the destination \<open>x\<close> of an
  entry with at least two destinations exactly when \<open>u\<close> lies in a sub-interval whose length is the
  inverse weight of \<open>x\<close> divided by the sum of all the inverse weights: selection is proportional
  to the inverse of the weights.
\<close>

theorem random_selection_proportional:
  assumes "entry_inv rnd_inv e" and "rnd_exact E"
    and "theDestinations e = xs @ x # ys" and "xs @ ys \<noteq> []"
    and "0 < env_rnd E" and "env_rnd E < 1"
  shows "fst (entry_select rnd_hooks E e) = Inr (theDestination x) \<longleftrightarrow>
    inv_sum xs / inv_sum (theDestinations e) < env_rnd E \<and>
    env_rnd E \<le> inv_sum xs / inv_sum (theDestinations e) +
      (1 / theWeight x) / inv_sum (theDestinations e)"
proof -
  let ?S = "inv_sum (theDestinations e)"
  have wf: "dests_wf (theDestinations e)" and ri: "rnd_inv (theDestinations e) (thePolicy e)"
    using assms(1) by (auto simp: entry_inv_def)
  have "dests_wf xs" "dests_wf ys" "0 < theWeight x"
    using wf assms(3) by (auto simp: dests_wf_def)
  then have pos: "0 < inv_sum (theDestinations e)"
    using inv_sum_nonneg[of xs] inv_sum_nonneg[of ys] assms(3) by (simp add: add_nonneg_pos add_pos_nonneg)
  have "theDestinations e \<noteq> []" using assms(3) by simp
  then obtain d where d: "rnd_select E (theDestinations e) (thePolicy e) = Inr (d, thePolicy e)"
    using rnd_select_mem[of "theDestinations e" E "thePolicy e"] by auto
  then have "fst (entry_select rnd_hooks E e) = Inr (theDestination x) \<longleftrightarrow>
    rnd_select E (theDestinations e) (thePolicy e) = Inr (theDestination x, thePolicy e)"
    by (simp add: entry_select_def rnd_hooks_def)
  also have "\<dots> \<longleftrightarrow> inv_sum xs < env_rnd E * ?S \<and> env_rnd E * ?S \<le> inv_sum xs + 1 / theWeight x"
    by (rule rnd_select_interval[OF assms(2) ri wf assms(3-6)])
  also have "\<dots> \<longleftrightarrow> inv_sum xs / ?S < env_rnd E \<and> env_rnd E \<le> (inv_sum xs + 1 / theWeight x) / ?S"
    using pos by (simp only: pos_divide_less_eq pos_le_divide_eq)
  finally show ?thesis by (simp only: add_divide_distrib)
qed

theorem random_selection_proportional_witness:
  "fst (entry_select rnd_hooks (env_ex 0 (1 / 2))
     \<lparr>theDestinations = dests_ex, thePolicy = \<lparr>theInvSum = 3 / 2\<rparr>\<rparr>) = Inr ''a''"
  using random_selection_proportional[of "\<lparr>theDestinations = dests_ex, thePolicy = \<lparr>theInvSum = 3 / 2\<rparr>\<rparr>"
      "env_ex 0 (1 / 2)" "[]" "dests_ex ! 0" "[dests_ex ! 1]"]
  by (simp add: dests_ex_def env_ex_def entry_inv_def dests_wf_def rnd_inv_def rnd_exact_def)

end
