(* ===== verification/Entry_LeastImpedance.thy ===== *)
theory Entry_LeastImpedance
  imports Entry
begin

text \<open>
  The least-impedance policy, \<open>Edge/Entries/entryleastimpedance.cpp\<close>: the entry keeps an iterator
  to a destination of minimum weight. The iterator is the name of the destination it points at, since
  names are unique and the base class never renames an element; \<open>None\<close> is the end iterator, and a
  name that is no longer in the list is an iterator to an erased element.
\<close>

type_synonym li_pol = "string option"

text \<open>Reading \<open>theMinElement->theWeight\<close>.\<close>

definition li_min_weight :: "element list \<Rightarrow> li_pol \<Rightarrow> exn + real" where
  "li_min_weight ds p =
     (case p of
        None \<Rightarrow> Inl (Undefined ''end iterator dereferenced'')
      | Some m \<Rightarrow> (case find_elem m ds of
          None \<Rightarrow> Inl (Undefined ''erased element dereferenced'')
        | Some x \<Rightarrow> Inr (theWeight x)))"

definition li_update :: "element list \<Rightarrow> li_pol" where
  "li_update ds = map_option theDestination (min_element theWeight ds)"

definition li_select :: "env \<Rightarrow> element list \<Rightarrow> li_pol \<Rightarrow> exn + string \<times> li_pol" where
  "li_select E ds p =
     (if ds = [] then Inl (NoDestinations None)
      else case p of
        None \<Rightarrow> Inl (Undefined ''end iterator dereferenced'')
      | Some m \<Rightarrow> (case find_elem m ds of
          None \<Rightarrow> Inl (Undefined ''erased element dereferenced'')
        | Some x \<Rightarrow> Inr (theDestination x, p)))"

definition li_updateWeight ::
  "env \<Rightarrow> element list \<Rightarrow> li_pol \<Rightarrow> string \<Rightarrow> real \<Rightarrow> real \<Rightarrow> exn + li_pol" where
  "li_updateWeight E ds p aDest aOldWeight aNewWeight =
     rbind (li_min_weight ds p) (\<lambda>w.
       Inr (if aNewWeight \<le> w \<or> aOldWeight = w then li_update ds else p))"

definition li_updateAddDest ::
  "env \<Rightarrow> element list \<Rightarrow> li_pol \<Rightarrow> string \<Rightarrow> real \<Rightarrow> exn + li_pol" where
  "li_updateAddDest E ds p aDest aWeight =
     (if p = None then Inr (case ds of [] \<Rightarrow> None | x # _ \<Rightarrow> Some (theDestination x))
      else rbind (li_min_weight ds p) (\<lambda>w. Inr (if aWeight < w then li_update ds else p)))"

definition li_updateDelDest ::
  "env \<Rightarrow> element list \<Rightarrow> li_pol \<Rightarrow> string \<Rightarrow> real \<Rightarrow> exn + li_pol" where
  "li_updateDelDest E ds p aDest aWeight =
     rbind (li_min_weight ds p) (\<lambda>w. Inr (if w = aWeight then li_update ds else p))"

definition li_hooks :: "li_pol hooks" where
  "li_hooks = \<lparr>hk_select = li_select, hk_updateWeight = li_updateWeight,
     hk_updateAddDest = li_updateAddDest, hk_updateDelDest = li_updateDelDest\<rparr>"

text \<open>
  The invariant: the iterator is the end iterator exactly when there is no destination, and otherwise
  it points at an element of minimum weight.
\<close>

definition li_inv :: "element list \<Rightarrow> li_pol \<Rightarrow> bool" where
  "li_inv ds p \<longleftrightarrow>
     (case p of None \<Rightarrow> ds = []
      | Some m \<Rightarrow> (\<exists>x\<in>set ds. theDestination x = m \<and> (\<forall>y\<in>set ds. theWeight x \<le> theWeight y)))"

lemma li_inv_update [simp]: "li_inv ds (li_update ds)"
  by (auto simp: li_inv_def li_update_def split: option.split dest!: min_element_SomeD)

lemma li_inv_None [simp]: "li_inv ds None \<longleftrightarrow> ds = []"
  by (simp add: li_inv_def)

lemma li_inv_SomeE:
  assumes "li_inv ds p" and "ds \<noteq> []" and "distinct (map theDestination ds)"
  obtains x where "p = Some (theDestination x)" "x \<in> set ds" "find_elem (theDestination x) ds = Some x"
    "\<And>y. y \<in> set ds \<Longrightarrow> theWeight x \<le> theWeight y"
  using assms find_elem_mem by (auto simp: li_inv_def split: option.splits)

lemma li_min_weight_eq:
  "p = Some m \<Longrightarrow> find_elem m ds = Some x \<Longrightarrow> li_min_weight ds p = Inr (theWeight x)"
  by (simp add: li_min_weight_def)

lemma li_add_law:
  assumes "dests_wf (ds @ [x])" and "li_inv ds p"
  shows "\<exists>p'. li_updateAddDest E (ds @ [x]) p (theDestination x) (theWeight x) = Inr p' \<and>
    li_inv (ds @ [x]) p'"
proof (cases "ds = []")
  case True
  then have "p = None" using assms(2) by (auto simp: li_inv_def split: option.splits)
  then show ?thesis using True by (auto simp: li_updateAddDest_def li_inv_def)
next
  case False
  have wf: "distinct (map theDestination ds)" using assms(1) by (simp add: dests_wf_snoc)
  obtain m where m: "p = Some (theDestination m)" "m \<in> set ds"
    "find_elem (theDestination m) ds = Some m" "\<And>y. y \<in> set ds \<Longrightarrow> theWeight m \<le> theWeight y"
    using li_inv_SomeE[OF assms(2) False wf] by metis
  have w: "li_min_weight (ds @ [x]) p = Inr (theWeight m)"
    using m by (simp add: li_min_weight_def find_elem_snoc)
  have "\<not> theWeight x < theWeight m \<Longrightarrow> li_inv (ds @ [x]) p"
    using m by (auto simp: li_inv_def)
  then show ?thesis using w m(1) by (simp add: li_updateAddDest_def)
qed

lemma li_weight_law:
  assumes "dests_wf ds" and "find_elem d ds = Some x" and "li_inv ds p"
  shows "\<exists>p'. li_updateWeight E (upd_elem d (set_wf w f) ds) p d (theWeight x) w = Inr p' \<and>
    li_inv (upd_elem d (set_wf w f) ds) p'"
proof -
  let ?ds = "upd_elem d (set_wf w f) ds"
  have wf: "distinct (map theDestination ds)" and ne: "ds \<noteq> []" using assms(1,2) by auto
  obtain m where m: "p = Some (theDestination m)" "m \<in> set ds"
    "find_elem (theDestination m) ds = Some m" "\<And>y. y \<in> set ds \<Longrightarrow> theWeight m \<le> theWeight y"
    using li_inv_SomeE[OF assms(3) ne wf] by metis
  have dx: "theDestination x = d" "x \<in> set ds" using find_elem_Some[OF assms(2)] by auto
  show ?thesis
  proof (cases "theDestination m = d")
    case True
    then have "li_min_weight ?ds p = Inr w"
      using m(1) assms(2) by (simp add: li_min_weight_def find_elem_upd_elem)
    then show ?thesis by (simp add: li_updateWeight_def)
  next
    case False
    then have mw: "li_min_weight ?ds p = Inr (theWeight m)" and fm: "find_elem (theDestination m) ?ds = Some m"
      using m by (simp_all add: li_min_weight_def find_elem_upd_elem)
    have "theWeight m \<le> theWeight y" if "y \<in> set ?ds" "theWeight m < w" for y
      using that m(4) set_upd_elem_weight by fastforce
    then have "theWeight m < w \<Longrightarrow> li_inv ?ds p"
      using m(1) find_elem_Some[OF fm] by (auto simp: li_inv_def)
    then show ?thesis using mw by (auto simp: li_updateWeight_def)
  qed
qed

lemma li_del_law:
  assumes "dests_wf ds" and "find_elem d ds = Some x" and "li_inv ds p" and "p \<noteq> Some d"
  shows "\<exists>p'. li_updateDelDest E (del_elem d ds) p d (theWeight x) = Inr p' \<and> li_inv (del_elem d ds) p'"
proof -
  have wf: "distinct (map theDestination ds)" and ne: "ds \<noteq> []" using assms(1,2) by auto
  obtain m where m: "p = Some (theDestination m)" "m \<in> set ds"
    "find_elem (theDestination m) ds = Some m" "\<And>y. y \<in> set ds \<Longrightarrow> theWeight m \<le> theWeight y"
    using li_inv_SomeE[OF assms(3) ne wf] by metis
  then have "li_min_weight (del_elem d ds) p = Inr (theWeight m)" "li_inv (del_elem d ds) p"
    using assms(4) wf by (auto simp: li_min_weight_def find_elem_del_elem li_inv_def set_del_elem)
  then show ?thesis by (simp add: li_updateDelDest_def)
qed

lemma li_select_min:
  assumes "li_inv ds p" and "ds \<noteq> []" and "distinct (map theDestination ds)"
  shows "\<exists>x\<in>set ds. li_select E ds p = Inr (theDestination x, p) \<and> (\<forall>y\<in>set ds. theWeight x \<le> theWeight y)"
proof -
  obtain m where "p = Some (theDestination m)" "m \<in> set ds"
    "find_elem (theDestination m) ds = Some m" "\<And>y. y \<in> set ds \<Longrightarrow> theWeight m \<le> theWeight y"
    using li_inv_SomeE[OF assms] by metis
  then show ?thesis using assms(2) by (auto simp: li_select_def)
qed

interpretation li: entry_policy li_hooks "\<lambda>_. True" li_inv "\<lambda>ds p d. p \<noteq> Some d" None
proof (unfold_locales, goal_cases)
  case 1
  then show ?case by simp
next
  case (2 E ds x p)
  then show ?case using li_add_law by (simp add: li_hooks_def)
next
  case (3 E ds d x w p f)
  then show ?case using li_weight_law by (simp add: li_hooks_def)
next
  case (4 E ds d x p)
  then show ?case using li_del_law by (simp add: li_hooks_def)
next
  case (5 E ds p)
  then show ?case using li_select_min[of ds p E] by (auto simp: li_hooks_def)
next
  case (6 p E)
  then show ?case by (simp add: li_hooks_def li_select_def)
qed

text \<open>
  C24: after any change of a destination's weight or addition of a destination to a least-impedance
  entry, the entry selects a destination of minimum weight among the destinations of the new list.
\<close>

theorem least_impedance_selects_minimum:
  assumes "entry_inv li_inv e" and "d \<noteq> []" and "0 < w"
  shows "\<exists>x. fst (entry_select li_hooks E (snd (entry_change li_hooks E' d w f e))) = Inr (theDestination x) \<and>
    x \<in> set (theDestinations (snd (entry_change li_hooks E' d w f e))) \<and>
    (\<forall>y\<in>set (theDestinations (snd (entry_change li_hooks E' d w f e))). theWeight x \<le> theWeight y)"
proof -
  obtain e' where e': "entry_change li_hooks E' d w f e = (Inr (), e')" "entry_inv li_inv e'"
    "dest_map (theDestinations e') = (dest_map (theDestinations e))(d \<mapsto> (w, f))"
    using li.change_ok[OF TrueI assms] by blast
  have "theDestinations e' \<noteq> []" using e'(3) by (metis dest_map_Nil fun_upd_same option.simps(3))
  then show ?thesis using li_select_min[of "theDestinations e'" "thePolicy e'" E] e'(1,2)
    by (auto simp: entry_inv_def entry_select_def li_hooks_def)
qed

theorem least_impedance_selects_minimum_witness:
  "\<exists>x. fst (entry_select li_hooks (env_ex 0 0) (snd (entry_change li_hooks (env_ex 0 0) ''c'' 3 True
     \<lparr>theDestinations = dests_ex, thePolicy = Some ''a''\<rparr>))) = Inr (theDestination x) \<and>
    x \<in> set (theDestinations (snd (entry_change li_hooks (env_ex 0 0) ''c'' 3 True
     \<lparr>theDestinations = dests_ex, thePolicy = Some ''a''\<rparr>)))"
  using least_impedance_selects_minimum[of "\<lparr>theDestinations = dests_ex, thePolicy = Some ''a''\<rparr>"
      "''c''" 3 "env_ex 0 0" "env_ex 0 0" True]
  by (auto simp: entry_inv_def dests_wf_def dests_ex_def li_inv_def)

text \<open>
  Removing the destination of minimum weight makes the deletion hook read the element that has
  just been erased (\<open>theMinElement->theWeight\<close>): the behaviour of the program is undefined.
\<close>

theorem least_impedance_remove_min_undefined:
  assumes "entry_inv li_inv e" and "thePolicy e = Some d"
  shows "fst (entry_remove li_hooks E d e) = Inl (Undefined ''erased element dereferenced'')"
proof -
  have wf: "distinct (map theDestination (theDestinations e))" and ne: "theDestinations e \<noteq> []"
    using assms by (auto simp: entry_inv_def li_inv_def)
  obtain x where "find_elem d (theDestinations e) = Some x"
    using li_inv_SomeE[OF _ ne wf] assms by (auto simp: entry_inv_def)
  then show ?thesis using assms wf
    by (simp add: entry_remove_def run_hook_def Let_def li_hooks_def li_updateDelDest_def
        li_min_weight_def find_elem_del_elem)
qed

theorem least_impedance_remove_min_undefined_witness:
  "fst (entry_remove li_hooks (env_ex 0 0) ''a'' \<lparr>theDestinations = dests_ex, thePolicy = Some ''a''\<rparr>) =
     Inl (Undefined ''erased element dereferenced'')"
  using least_impedance_remove_min_undefined[of "\<lparr>theDestinations = dests_ex, thePolicy = Some ''a''\<rparr>"
      "''a''" "env_ex 0 0"]
  by (simp add: entry_inv_def dests_wf_def dests_ex_def li_inv_def)

end
