(* ===== verification/Entry_RoundRobin.thy ===== *)
theory Entry_RoundRobin
  imports Entry
begin

text \<open>
  The weighted round-robin policy, \<open>Edge/Entries/entryroundrobin.cpp\<close>: a cache of the destinations
  (\<open>theCache\<close>, with a deficit counter each) and a priority queue of iterators to the cache elements
  that are active (\<open>theQueue\<close>). An iterator is the key of the element it points at; a key which is not
  in the cache is an iterator to an erased element. The queue is the list of its iterators in no
  particular order: its top is one of those with the smallest deficit, which one among equals being
  chosen by the environment (\<open>env_tie\<close>).
\<close>

section \<open>State and operations\<close>

record cache_elem =
  ce_weight :: real
  ce_lastUpdated :: real
  ce_removed :: bool
  ce_deficit :: real
  ce_stalePeriod :: real
  ce_probing :: bool

record rr_pol =
  theCache :: "(string, cache_elem) smap"
  theQueue :: "string list"

definition initialStalePeriod :: real where "initialStalePeriod = 1"
definition backoffCoefficient :: real where "backoffCoefficient = 2"
definition maximumStalePeriod :: real where "maximumStalePeriod = 30"

definition mk_cache_elem :: "real \<Rightarrow> real \<Rightarrow> cache_elem" where
  "mk_cache_elem aWeight aDeficit =
     \<lparr>ce_weight = aWeight, ce_lastUpdated = -1, ce_removed = False, ce_deficit = aDeficit,
      ce_stalePeriod = initialStalePeriod, ce_probing = False\<rparr>"

definition resetStalePeriod :: "cache_elem \<Rightarrow> cache_elem" where
  "resetStalePeriod c = c\<lparr>ce_stalePeriod := initialStalePeriod\<rparr>"

definition updateStalePeriod :: "cache_elem \<Rightarrow> cache_elem" where
  "updateStalePeriod c =
     c\<lparr>ce_stalePeriod := min maximumStalePeriod (backoffCoefficient * ce_stalePeriod c)\<rparr>"

definition rr_init :: rr_pol where
  "rr_init = \<lparr>theCache = [], theQueue = []\<rparr>"

fun rr_min_loop :: "(string, cache_elem) smap \<Rightarrow> string list \<Rightarrow> real \<Rightarrow> exn + real" where
  "rr_min_loop m [] a = Inr a"
| "rr_min_loop m (k # q) a =
     (case map_of m k of
        None \<Rightarrow> Inl (Undefined ''erased element dereferenced'')
      | Some c \<Rightarrow> rr_min_loop m q (min a (ce_deficit c)))"

definition rr_minDeficit :: "rr_pol \<Rightarrow> exn + real" where
  "rr_minDeficit p = rr_min_loop (theCache p) (theQueue p) flt_max"

definition rr_select :: "env \<Rightarrow> element list \<Rightarrow> rr_pol \<Rightarrow> exn + string \<times> rr_pol" where
  "rr_select E ds p =
     (if theQueue p = [] then
        (if ds = [] then Inl (NoDestinations None) else Inl (Undefined ''theDestinations.empty()''))
      else if \<exists>k\<in>set (theQueue p). map_of (theCache p) k = None
      then Inl (Undefined ''erased element dereferenced'')
      else
        (let dfc = (\<lambda>k. case map_of (theCache p) k of None \<Rightarrow> 0 | Some c \<Rightarrow> ce_deficit c);
             tops = filter (\<lambda>k. \<forall>k'\<in>set (theQueue p). dfc k \<le> dfc k') (theQueue p);
             k = tops ! (env_tie E mod length tops)
         in Inr (k, p\<lparr>theCache :=
              mupd k (\<lambda>c. c\<lparr>ce_deficit := env_fl E (ce_deficit c + ce_weight c)\<rparr>) (theCache p)\<rparr>)))"

text \<open>The samples that \<open>updateStat\<close> feeds to \<open>theStat\<close>, and the admission test on them.\<close>

definition rr_updateStat :: "(string, cache_elem) smap \<Rightarrow> real list" where
  "rr_updateStat m = map (\<lambda>p. ce_weight (snd p)) (filter (\<lambda>p. \<not> ce_removed (snd p)) m)"

definition rr_good :: "env \<Rightarrow> real list \<Rightarrow> real \<Rightarrow> bool" where
  "rr_good E ws aWeight \<longleftrightarrow>
     ss_count (env_stat E) ws = 1 \<or> aWeight \<le> ss_min (env_stat E) ws * 2"

text \<open>The body of the loop of \<open>updateActiveSet\<close>: the new element and whether it is active.\<close>

definition rr_admit :: "env \<Rightarrow> real list \<Rightarrow> real \<Rightarrow> cache_elem \<Rightarrow> cache_elem \<times> bool" where
  "rr_admit E ws myMinDeficit c =
     (if rr_good E ws (ce_weight c) then
        (if ce_probing c then resetStalePeriod (c\<lparr>ce_probing := False\<rparr>) else c, True)
      else if ce_lastUpdated c < 0 then (c, True)
      else
        (let c1 = (if ce_probing c then updateStalePeriod (c\<lparr>ce_probing := False\<rparr>) else c)
         in if env_now E - ce_lastUpdated c \<ge> ce_stalePeriod c1
            then (c1\<lparr>ce_lastUpdated := -1, ce_deficit := myMinDeficit, ce_probing := True\<rparr>, True)
            else (c1, False)))"

definition rr_updateActiveSet :: "env \<Rightarrow> rr_pol \<Rightarrow> exn + rr_pol" where
  "rr_updateActiveSet E p =
     (let ws = rr_updateStat (theCache p)
      in if ss_count (env_stat E) ws = 0 then Inl (Undefined ''theStat.count() > 0'')
         else rbind (rr_minDeficit p) (\<lambda>md. Inr
           \<lparr>theCache = map (\<lambda>(k, c). (k, fst (rr_admit E ws md c))) (theCache p),
            theQueue = map fst (filter (\<lambda>(k, c). snd (rr_admit E ws md c)) (theCache p))\<rparr>))"

definition rr_insert_dest ::
  "real \<Rightarrow> (string, cache_elem) smap \<Rightarrow> element \<Rightarrow> (string, cache_elem) smap" where
  "rr_insert_dest md m x =
     (case map_of m (theDestination x) of
        None \<Rightarrow> mput (theDestination x) (mk_cache_elem (theWeight x) md) m
      | Some _ \<Rightarrow> mupd (theDestination x) (\<lambda>c. c\<lparr>ce_removed := False, ce_weight := theWeight x\<rparr>) m)"

definition rr_updateList :: "env \<Rightarrow> element list \<Rightarrow> rr_pol \<Rightarrow> exn + rr_pol" where
  "rr_updateList E ds p =
     (if ds = [] then Inr \<lparr>theCache = [], theQueue = []\<rparr>
      else
        (let marked = map (\<lambda>(k, c). (k, c\<lparr>ce_removed := True\<rparr>)) (theCache p)
         in rbind (rr_minDeficit (p\<lparr>theCache := marked\<rparr>)) (\<lambda>md.
              rr_updateActiveSet E
                (p\<lparr>theCache := filter (\<lambda>(k, c). \<not> ce_removed c)
                     (foldl (rr_insert_dest md) marked ds)\<rparr>))))"

definition rr_updateWeight ::
  "env \<Rightarrow> element list \<Rightarrow> rr_pol \<Rightarrow> string \<Rightarrow> real \<Rightarrow> real \<Rightarrow> exn + rr_pol" where
  "rr_updateWeight E ds p aDest aOldWeight aWeight =
     (case map_of (theCache p) aDest of
        None \<Rightarrow> Inl (Undefined ''it != theCache.end()'')
      | Some _ \<Rightarrow>
          (let m = mupd aDest (\<lambda>c. c\<lparr>ce_weight := aWeight, ce_lastUpdated := env_now E\<rparr>) (theCache p)
           in rbind (rr_minDeficit (p\<lparr>theCache := m\<rparr>)) (\<lambda>md.
                rr_updateActiveSet E (p\<lparr>theCache :=
                  map (\<lambda>(k, c). (k, c\<lparr>ce_deficit := env_fl E (ce_deficit c - md)\<rparr>)) m\<rparr>))))"

definition rr_updateAddDest ::
  "env \<Rightarrow> element list \<Rightarrow> rr_pol \<Rightarrow> string \<Rightarrow> real \<Rightarrow> exn + rr_pol" where
  "rr_updateAddDest E ds p aDest aWeight = rr_updateList E ds p"

definition rr_updateDelDest ::
  "env \<Rightarrow> element list \<Rightarrow> rr_pol \<Rightarrow> string \<Rightarrow> real \<Rightarrow> exn + rr_pol" where
  "rr_updateDelDest E ds p aDest aWeight = rr_updateList E ds p"

definition rr_hooks :: "rr_pol hooks" where
  "rr_hooks = \<lparr>hk_select = rr_select, hk_updateWeight = rr_updateWeight,
     hk_updateAddDest = rr_updateAddDest, hk_updateDelDest = rr_updateDelDest\<rparr>"

section \<open>The invariant\<close>

text \<open>
  The cache has one element per destination, with the destination's weight, and none is marked as
  removed; stale periods stay between 1 and 30 seconds.
\<close>

definition rr_elem_ok :: "cache_elem \<Rightarrow> bool" where
  "rr_elem_ok c \<longleftrightarrow> \<not> ce_removed c \<and> 1 \<le> ce_stalePeriod c \<and> ce_stalePeriod c \<le> 30"

definition rr_cache_ok :: "element list \<Rightarrow> (string, cache_elem) smap \<Rightarrow> bool" where
  "rr_cache_ok ds m \<longleftrightarrow> mwf m \<and>
     (\<forall>d. map_option ce_weight (map_of m d) = map_option theWeight (find_elem d ds)) \<and>
     (\<forall>d c. map_of m d = Some c \<longrightarrow> rr_elem_ok c)"

text \<open>The smallest weight, and the admission condition of the class comment.\<close>

definition min_weight :: "element list \<Rightarrow> real" where
  "min_weight ds = Min (theWeight ` set ds)"

definition rr_inv :: "element list \<Rightarrow> rr_pol \<Rightarrow> bool" where
  "rr_inv ds p \<longleftrightarrow> rr_cache_ok ds (theCache p) \<and> distinct (theQueue p) \<and>
     (\<forall>d. d \<in> set (theQueue p) \<longleftrightarrow>
       (\<exists>c. map_of (theCache p) d = Some c \<and>
          (ce_weight c \<le> 2 * min_weight ds \<or> ce_lastUpdated c < 0)))"

lemma rr_cache_keys: "rr_cache_ok ds m \<Longrightarrow> fst ` set m = dests_of ds"
proof -
  assume ok: "rr_cache_ok ds m"
  have "d \<in> fst ` set m \<longleftrightarrow> d \<in> dests_of ds" for d
  proof -
    have "map_option ce_weight (map_of m d) = map_option theWeight (find_elem d ds)"
      using ok by (simp add: rr_cache_ok_def)
    then have "map_of m d = None \<longleftrightarrow> find_elem d ds = None"
      by (cases "map_of m d"; cases "find_elem d ds") auto
    then show ?thesis by (simp add: find_elem_None map_of_eq_None_iff)
  qed
  then show ?thesis by blast
qed

lemma rr_cache_Some:
  assumes "rr_cache_ok ds m" and "distinct (map theDestination ds)" and "map_of m d = Some c"
  obtains x where "x \<in> set ds" "theDestination x = d" "theWeight x = ce_weight c" "find_elem d ds = Some x"
proof -
  have "map_option theWeight (find_elem d ds) = Some (ce_weight c)"
    using assms(1,3) by (metis rr_cache_ok_def option.simps(9))
  then obtain x where "find_elem d ds = Some x" "theWeight x = ce_weight c" by auto
  then show ?thesis using that find_elem_Some by blast
qed

lemma map_of_filter_distinct:
  "distinct (map fst m) \<Longrightarrow>
     map_of (filter P m) k = (case map_of m k of None \<Rightarrow> None | Some v \<Rightarrow> if P (k, v) then Some v else None)"
  by (induction m) (auto simp: map_of_eq_None_iff split: option.splits dest: map_of_SomeD)

lemma mwf_filter: "mwf m \<Longrightarrow> mwf (filter P m)"
  by (induction m) auto

lemma mkeys_map_snd [simp]: "mkeys (map (\<lambda>(k, c). (k, f c)) m) = mkeys m"
  by (induction m) auto

lemma map_of_map_snd [simp]: "map_of (map (\<lambda>(k, c). (k, f c)) m) d = map_option f (map_of m d)"
  by (induction m) auto

lemma rr_cache_ok_map:
  assumes "rr_cache_ok ds m"
    and "\<And>c. rr_elem_ok c \<Longrightarrow> rr_elem_ok (f c) \<and> ce_weight (f c) = ce_weight c"
  shows "rr_cache_ok ds (map (\<lambda>(k, c). (k, f c)) m)"
proof -
  have "map_option ce_weight (map_option f (map_of m d)) = map_option ce_weight (map_of m d)" for d
    using assms by (cases "map_of m d") (auto simp: rr_cache_ok_def)
  then show ?thesis using assms by (auto simp: rr_cache_ok_def simp del: map_map)
qed

section \<open>The smallest deficit\<close>

lemma rr_min_loop_Inr:
  "set q \<subseteq> fst ` set m \<Longrightarrow> \<exists>r. rr_min_loop m q a = Inr r"
  by (induction q arbitrary: a) (auto simp: in_fst_set_iff split: option.split)

lemma rr_min_loop_Inl:
  "\<not> set q \<subseteq> fst ` set m \<Longrightarrow> rr_min_loop m q a = Inl (Undefined ''erased element dereferenced'')"
proof (induction q arbitrary: a)
  case Nil
  then show ?case by simp
next
  case (Cons k q)
  show ?case
  proof (cases "map_of m k")
    case None
    then show ?thesis by simp
  next
    case (Some c)
    then have "k \<in> fst ` set m" by (metis in_fst_set_iff)
    then show ?thesis using Some Cons by simp
  qed
qed

section \<open>The active set\<close>

lemma rr_samples_weights:
  assumes "rr_cache_ok ds m" and "dests_wf ds"
  shows "set (rr_updateStat m) = theWeight ` set ds \<and> length (rr_updateStat m) = length ds"
proof -
  have dm: "distinct (mkeys m)" and dd: "distinct (map theDestination ds)"
    using assms mwf_distinct by (auto simp: rr_cache_ok_def)
  have nr: "\<not> ce_removed c" if "(k, c) \<in> set m" for k c
    using assms(1) that dm by (auto simp: rr_cache_ok_def rr_elem_ok_def)
  then have ws: "rr_updateStat m = map (\<lambda>p. ce_weight (snd p)) m"
    by (auto simp: rr_updateStat_def intro!: arg_cong[of _ _ "map _"] filter_True)
  have sub: "ce_weight c \<in> theWeight ` set ds" if "(k, c) \<in> set m" for k c
    using rr_cache_Some[OF assms(1) dd, of k c] that dm by (metis map_of_is_SomeI image_eqI)
  have sup: "theWeight x \<in> (\<lambda>p. ce_weight (snd p)) ` set m" if "x \<in> set ds" for x
  proof -
    have "map_option ce_weight (map_of m (theDestination x)) = Some (theWeight x)"
      using assms(1) find_elem_mem[OF dd that] by (simp add: rr_cache_ok_def)
    then obtain c where "map_of m (theDestination x) = Some c" "ce_weight c = theWeight x" by auto
    then show ?thesis by (metis image_eqI map_of_SomeD snd_conv)
  qed
  have "length m = length ds"
    using rr_cache_keys[OF assms(1)] dm dd by (metis distinct_card length_map list.set_map)
  then show ?thesis using ws sub sup by (auto simp: image_def)
qed

lemma rr_good_iff:
  assumes "summary_stat_ok (env_stat E)" and "rr_cache_ok ds m" and "dests_wf ds" and "ds \<noteq> []"
    and "w \<in> theWeight ` set ds"
  shows "rr_good E (rr_updateStat m) w \<longleftrightarrow> w \<le> 2 * min_weight ds"
proof -
  let ?ws = "rr_updateStat m"
  have ws: "set ?ws = theWeight ` set ds" "length ?ws = length ds"
    using rr_samples_weights[OF assms(2,3)] by auto
  then have "?ws \<noteq> []" using assms(4) by auto
  then have S: "ss_count (env_stat E) ?ws = length ds" "ss_min (env_stat E) ?ws = min_weight ds"
    using assms(1) ws by (auto simp: summary_stat_ok_def min_weight_def)
  have "w \<le> 2 * min_weight ds" if "length ds = 1"
  proof -
    obtain x where "ds = [x]" using \<open>length ds = 1\<close> by (cases ds) auto
    then show ?thesis using assms(3,5) by (auto simp: min_weight_def dests_wf_def)
  qed
  then show ?thesis using S by (auto simp: rr_good_def mult.commute)
qed

lemma rr_admit_props:
  assumes "rr_elem_ok c"
  shows "rr_elem_ok (fst (rr_admit E ws md c))" "ce_weight (fst (rr_admit E ws md c)) = ce_weight c"
    "snd (rr_admit E ws md c) \<longleftrightarrow>
       rr_good E ws (ce_weight c) \<or> ce_lastUpdated (fst (rr_admit E ws md c)) < 0"
  using assms
  by (auto simp: rr_admit_def rr_elem_ok_def resetStalePeriod_def updateStalePeriod_def Let_def
      initialStalePeriod_def maximumStalePeriod_def backoffCoefficient_def)

lemma rr_updateActiveSet_inv:
  assumes "summary_stat_ok (env_stat E)" and "dests_wf ds" and "ds \<noteq> []"
    and "rr_cache_ok ds (theCache p)" and "set (theQueue p) \<subseteq> fst ` set (theCache p)"
  shows "\<exists>p'. rr_updateActiveSet E p = Inr p' \<and> rr_inv ds p'"
proof -
  let ?m = "theCache p"
  let ?ws = "rr_updateStat ?m"
  have dm: "distinct (mkeys ?m)" and dd: "distinct (map theDestination ds)"
    and ok: "\<And>d c. map_of ?m d = Some c \<Longrightarrow> rr_elem_ok c"
    using assms(2,4) mwf_distinct by (auto simp: rr_cache_ok_def)
  have "ss_count (env_stat E) ?ws = length ds"
    using assms(1) rr_samples_weights[OF assms(4,2)] by (simp add: summary_stat_ok_def)
  moreover obtain md where "rr_minDeficit p = Inr md"
    using rr_min_loop_Inr[OF assms(5)] by (auto simp: rr_minDeficit_def)
  ultimately have res: "rr_updateActiveSet E p = Inr
      \<lparr>theCache = map (\<lambda>(k, c). (k, fst (rr_admit E ?ws md c))) ?m,
       theQueue = map fst (filter (\<lambda>(k, c). snd (rr_admit E ?ws md c)) ?m)\<rparr>" (is "_ = Inr ?p")
    using assms(3) by (simp add: rr_updateActiveSet_def Let_def)
  have cok: "rr_cache_ok ds (theCache ?p)"
    using rr_cache_ok_map[OF assms(4), of "\<lambda>c. fst (rr_admit E ?ws md c)"] rr_admit_props(1,2) by simp
  have q: "d \<in> set (theQueue ?p) \<longleftrightarrow> (\<exists>c. map_of ?m d = Some c \<and> snd (rr_admit E ?ws md c))" for d
    using dm by (force simp: image_iff)
  have act: "snd (rr_admit E ?ws md c) \<longleftrightarrow>
      ce_weight c \<le> 2 * min_weight ds \<or> ce_lastUpdated (fst (rr_admit E ?ws md c)) < 0"
    if s: "map_of ?m d = Some c" for d c
  proof -
    obtain x where "x \<in> set ds" "theWeight x = ce_weight c"
      using rr_cache_Some[OF assms(4) dd s] by metis
    then have "ce_weight c \<in> theWeight ` set ds" by (metis image_eqI)
    from rr_good_iff[OF assms(1) assms(4) assms(2,3) this] show ?thesis
      using rr_admit_props(3)[OF ok[OF s]] by simp
  qed
  have dq: "distinct (theQueue ?p)" using dm by (simp add: distinct_map_filter)
  have act': "(\<exists>c. map_of ?m d = Some c \<and> snd (rr_admit E ?ws md c)) \<longleftrightarrow>
      (\<exists>c. map_of (theCache ?p) d = Some c \<and>
         (ce_weight c \<le> 2 * min_weight ds \<or> ce_lastUpdated c < 0))" for d
    using act[of d] ok[of d] rr_admit_props(2)[of _ E ?ws md] by (cases "map_of ?m d") auto
  have "rr_inv ds ?p"
    unfolding rr_inv_def by (intro conjI allI cok dq) (rule trans[OF q act'])
  then show ?thesis using res by blast
qed

lemma rr_insert_dest_map:
  assumes "distinct (map theDestination ds)" and "mwf m"
  shows "mwf (foldl (rr_insert_dest md) m ds) \<and>
    map_of (foldl (rr_insert_dest md) m ds) d =
      (case find_elem d ds of
         None \<Rightarrow> map_of m d
       | Some x \<Rightarrow> (case map_of m d of
           None \<Rightarrow> Some (mk_cache_elem (theWeight x) md)
         | Some c \<Rightarrow> Some (c\<lparr>ce_removed := False, ce_weight := theWeight x\<rparr>)))"
  using assms
proof (induction ds arbitrary: m)
  case Nil
  then show ?case by simp
next
  case (Cons x ds)
  let ?m = "rr_insert_dest md m x"
  have wf: "mwf ?m" using Cons.prems(2) by (auto simp: rr_insert_dest_def split: option.split)
  have mo: "map_of ?m d = (if d = theDestination x then
      (case map_of m d of None \<Rightarrow> Some (mk_cache_elem (theWeight x) md)
       | Some c \<Rightarrow> Some (c\<lparr>ce_removed := False, ce_weight := theWeight x\<rparr>)) else map_of m d)"
    by (auto simp: rr_insert_dest_def split: option.split)
  have "find_elem (theDestination x) ds = None"
    using Cons.prems(1) by (simp add: find_elem_None)
  then show ?case using Cons.IH[OF _ wf] Cons.prems(1) mo by (auto split: option.split)
qed

text \<open>
  What \<open>updateList\<close> does to the cache before it recomputes the active set: elements of destinations
  that are gone are erased, those that stay take the current weight, new ones are created.
\<close>

lemma rr_updateList_cache:
  assumes "dests_wf ds" and "mwf m" and "\<And>d c. map_of m d = Some c \<Longrightarrow> rr_elem_ok c"
  shows "rr_cache_ok ds (filter (\<lambda>(k, c). \<not> ce_removed c)
    (foldl (rr_insert_dest md) (map (\<lambda>(k, c). (k, c\<lparr>ce_removed := True\<rparr>)) m) ds))" (is "rr_cache_ok ds ?f")
proof -
  let ?k = "map (\<lambda>(k, c). (k, c\<lparr>ce_removed := True\<rparr>)) m"
  let ?g = "foldl (rr_insert_dest md) ?k ds"
  have wk: "mwf ?k" using assms(2) by (simp del: map_map)
  have wg: "mwf ?g" using rr_insert_dest_map[OF _ wk] assms(1) by simp
  have mf: "map_of ?f d = (case find_elem d ds of None \<Rightarrow> None
      | Some x \<Rightarrow> (case map_of m d of None \<Rightarrow> Some (mk_cache_elem (theWeight x) md)
         | Some c \<Rightarrow> Some (c\<lparr>ce_removed := False, ce_weight := theWeight x\<rparr>)))" for d
    using rr_insert_dest_map[OF _ wk, of ds md d] assms(1) mwf_distinct[OF wg]
    by (auto simp: map_of_filter_distinct mk_cache_elem_def split: option.split)
  have "mwf ?f" by (rule mwf_filter[OF wg])
  moreover have "map_option ce_weight (map_of ?f d) = map_option theWeight (find_elem d ds)" for d
    by (auto simp: mf mk_cache_elem_def split: option.split)
  moreover have "rr_elem_ok c" if "map_of ?f d = Some c" for d c
    using that assms(3)
    by (fastforce simp: mf mk_cache_elem_def rr_elem_ok_def initialStalePeriod_def split: option.splits)
  ultimately show ?thesis by (simp add: rr_cache_ok_def)
qed

lemma rr_updateList_inv:
  assumes "summary_stat_ok (env_stat E)" and "dests_wf ds" and "ds \<noteq> []"
    and "rr_inv ds0 p" and "set (theQueue p) \<subseteq> dests_of ds"
  shows "\<exists>p'. rr_updateList E ds p = Inr p' \<and> rr_inv ds p'"
proof -
  let ?k = "map (\<lambda>(k, c). (k, c\<lparr>ce_removed := True\<rparr>)) (theCache p)"
  have wf: "mwf (theCache p)" "\<And>d c. map_of (theCache p) d = Some c \<Longrightarrow> rr_elem_ok c"
    and q: "set (theQueue p) \<subseteq> fst ` set (theCache p)"
    using assms(4) by (auto simp: rr_inv_def rr_cache_ok_def in_fst_set_iff)
  have "set (theQueue p) \<subseteq> fst ` set ?k" using q by force
  from rr_min_loop_Inr[OF this, of flt_max]
  obtain md where md: "rr_minDeficit (p\<lparr>theCache := ?k\<rparr>) = Inr md"
    by (auto simp: rr_minDeficit_def)
  let ?f = "filter (\<lambda>(k, c). \<not> ce_removed c) (foldl (rr_insert_dest md) ?k ds)"
  have c: "rr_cache_ok ds ?f" by (rule rr_updateList_cache[OF assms(2) wf])
  have "set (theQueue (p\<lparr>theCache := ?f\<rparr>)) \<subseteq> fst ` set (theCache (p\<lparr>theCache := ?f\<rparr>))"
    using assms(5) rr_cache_keys[OF c] by simp
  then show ?thesis
    using rr_updateActiveSet_inv[OF assms(1-3), of "p\<lparr>theCache := ?f\<rparr>"] c md assms(3)
    by (simp add: rr_updateList_def Let_def)
qed

section \<open>The laws of a policy\<close>

lemma rr_queue_keys: "rr_inv ds p \<Longrightarrow> set (theQueue p) \<subseteq> dests_of ds"
  using rr_cache_keys[of ds "theCache p"] unfolding rr_inv_def by (metis in_fst_set_iff subsetI)

lemma rr_queue_cache: "rr_inv ds p \<Longrightarrow> set (theQueue p) \<subseteq> fst ` set (theCache p)"
  using rr_queue_keys[of ds p] rr_cache_keys[of ds "theCache p"] by (simp add: rr_inv_def)

lemma rr_weight_law:
  assumes "summary_stat_ok (env_stat E)" and "dests_wf ds" and "find_elem d ds = Some x" and "0 < w"
    and "rr_inv ds p"
  shows "\<exists>p'. rr_updateWeight E (upd_elem d (set_wf w f) ds) p d (theWeight x) w = Inr p' \<and>
    rr_inv (upd_elem d (set_wf w f) ds) p'"
proof -
  let ?ds = "upd_elem d (set_wf w f) ds"
  let ?m = "mupd d (\<lambda>c. c\<lparr>ce_weight := w, ce_lastUpdated := env_now E\<rparr>) (theCache p)"
  have ok: "rr_cache_ok ds (theCache p)" using assms(5) by (simp add: rr_inv_def)
  have "map_option ce_weight (map_of (theCache p) d) = Some (theWeight x)"
    using ok assms(3) by (simp add: rr_cache_ok_def)
  then obtain c where c: "map_of (theCache p) d = Some c" by auto
  have ok': "rr_cache_ok ?ds ?m"
    using ok assms(3) c by (auto simp: rr_cache_ok_def find_elem_upd_elem rr_elem_ok_def)
  have keys: "fst ` set ?m = dests_of ds" using rr_cache_keys[OF ok'] by simp
  then obtain md where md: "rr_minDeficit (p\<lparr>theCache := ?m\<rparr>) = Inr md"
    using rr_min_loop_Inr[of "theQueue p" ?m flt_max] rr_queue_keys[OF assms(5)]
    by (auto simp: rr_minDeficit_def)
  let ?s = "map (\<lambda>(k, c). (k, c\<lparr>ce_deficit := env_fl E (ce_deficit c - md)\<rparr>)) ?m"
  have s: "rr_cache_ok ?ds ?s" by (rule rr_cache_ok_map[OF ok']) (simp add: rr_elem_ok_def)
  have "fst ` set ?s = dests_of ds" using rr_cache_keys[OF s] by simp
  then have q: "set (theQueue (p\<lparr>theCache := ?s\<rparr>)) \<subseteq> fst ` set (theCache (p\<lparr>theCache := ?s\<rparr>))"
    using rr_queue_keys[OF assms(5)] by simp
  have "?ds \<noteq> []" using assms(3) by auto
  then show ?thesis
    using rr_updateActiveSet_inv[OF assms(1) _ _ _ q, of ?ds] s md c assms(2,4)
    by (simp add: rr_updateWeight_def Let_def)
qed

lemma rr_queue_nonempty:
  assumes "rr_inv ds p" and "dests_wf ds" and "ds \<noteq> []"
  shows "theQueue p \<noteq> []"
proof -
  have "min_weight ds \<in> theWeight ` set ds" using assms(3) by (simp add: min_weight_def)
  then obtain x where x: "x \<in> set ds" "theWeight x = min_weight ds" by auto
  have "map_option ce_weight (map_of (theCache p) (theDestination x)) = Some (theWeight x)"
    using assms(1,2) find_elem_mem[OF _ x(1)] by (simp add: rr_inv_def rr_cache_ok_def)
  then obtain c where "map_of (theCache p) (theDestination x) = Some c" "ce_weight c = theWeight x"
    by auto
  moreover have "0 < theWeight x" using assms(2) x(1) by (simp add: dests_wf_def)
  ultimately have "theDestination x \<in> set (theQueue p)"
    using assms(1) x(2) by (simp add: rr_inv_def)
  then show ?thesis by auto
qed

text \<open>The deficit of a destination, and the selection: a smallest deficit, which grows by the weight.\<close>

definition rr_deficit :: "rr_pol \<Rightarrow> string \<Rightarrow> real" where
  "rr_deficit p k = (case map_of (theCache p) k of None \<Rightarrow> 0 | Some c \<Rightarrow> ce_deficit c)"

definition rr_weight :: "rr_pol \<Rightarrow> string \<Rightarrow> real" where
  "rr_weight p k = (case map_of (theCache p) k of None \<Rightarrow> 0 | Some c \<Rightarrow> ce_weight c)"

lemma min_deficit_exists: "q \<noteq> [] \<Longrightarrow> \<exists>k\<in>set q. \<forall>k'\<in>set q. (f k :: real) \<le> f k'"
  using min_element_exists[of q f] min_element_SomeD[of f q] by metis

lemma rr_select_min:
  assumes "theQueue p \<noteq> []" and "set (theQueue p) \<subseteq> fst ` set (theCache p)"
  shows "\<exists>k\<in>set (theQueue p). (\<forall>k'\<in>set (theQueue p). rr_deficit p k \<le> rr_deficit p k') \<and>
    rr_select E ds p = Inr (k, p\<lparr>theCache :=
      mupd k (\<lambda>c. c\<lparr>ce_deficit := env_fl E (ce_deficit c + ce_weight c)\<rparr>) (theCache p)\<rparr>)"
proof -
  let ?t = "filter (\<lambda>k. \<forall>k'\<in>set (theQueue p). rr_deficit p k \<le> rr_deficit p k') (theQueue p)"
  let ?k = "?t ! (env_tie E mod length ?t)"
  have "\<not> (\<exists>k\<in>set (theQueue p). map_of (theCache p) k = None)"
    using assms(2) by (auto simp: map_of_eq_None_iff)
  then have sel: "rr_select E ds p = Inr (?k, p\<lparr>theCache :=
      mupd ?k (\<lambda>c. c\<lparr>ce_deficit := env_fl E (ce_deficit c + ce_weight c)\<rparr>) (theCache p)\<rparr>)"
    using assms(1) by (simp add: rr_select_def Let_def rr_deficit_def)
  have "?t \<noteq> []" using min_deficit_exists[OF assms(1), of "rr_deficit p"] by (simp add: filter_empty_conv)
  then have "?k \<in> set ?t" by (intro nth_mem) simp
  then show ?thesis using sel by auto
qed

lemma rr_inv_set_deficit:
  assumes "rr_inv ds p"
  shows "rr_inv ds (p\<lparr>theCache := mupd k (\<lambda>c. c\<lparr>ce_deficit := g c\<rparr>) (theCache p)\<rparr>)"
proof -
  have "rr_cache_ok ds (mupd k (\<lambda>c. c\<lparr>ce_deficit := g c\<rparr>) (theCache p))"
    using assms by (auto simp: rr_inv_def rr_cache_ok_def rr_elem_ok_def option.map_comp o_def)
  then show ?thesis using assms by (auto simp: rr_inv_def)
qed

lemma rr_select_law:
  assumes "dests_wf ds" and "rr_inv ds p" and "ds \<noteq> []"
  shows "\<exists>d p'. rr_select E ds p = Inr (d, p') \<and> d \<in> dests_of ds \<and> rr_inv ds p'"
proof -
  from rr_select_min[OF rr_queue_nonempty[OF assms(2,1,3)] rr_queue_cache[OF assms(2)], of E ds]
  obtain k where "k \<in> set (theQueue p)" "rr_select E ds p = Inr (k, p\<lparr>theCache :=
      mupd k (\<lambda>c. c\<lparr>ce_deficit := env_fl E (ce_deficit c + ce_weight c)\<rparr>) (theCache p)\<rparr>)" by blast
  then show ?thesis using rr_inv_set_deficit[OF assms(2)] rr_queue_keys[OF assms(2)] by auto
qed

lemma rr_inv_Nil: "rr_inv [] p \<longleftrightarrow> p = rr_init"
proof
  assume "rr_inv [] p"
  then have "theCache p = []" "theQueue p = []"
    using rr_cache_keys[of "[]" "theCache p"] rr_queue_keys[of "[]" p] by (auto simp: rr_inv_def)
  then show "p = rr_init" by (simp add: rr_init_def)
qed (simp add: rr_inv_def rr_init_def rr_cache_ok_def)

definition rr_del_ok :: "element list \<Rightarrow> rr_pol \<Rightarrow> string \<Rightarrow> bool" where
  "rr_del_ok ds p d \<longleftrightarrow> d \<notin> set (theQueue p) \<or> del_elem d ds = []"

lemma rr_del_law:
  assumes "summary_stat_ok (env_stat E)" and "dests_wf ds" and "rr_inv ds p" and "rr_del_ok ds p d"
  shows "\<exists>p'. rr_updateDelDest E (del_elem d ds) p d w = Inr p' \<and> rr_inv (del_elem d ds) p'"
proof (cases "del_elem d ds = []")
  case True
  then show ?thesis by (simp add: rr_updateDelDest_def rr_updateList_def rr_inv_Nil rr_init_def)
next
  case False
  then have "set (theQueue p) \<subseteq> dests_of (del_elem d ds)"
    using rr_queue_keys[OF assms(3)] assms(2,4) by (auto simp: dests_of_del_elem rr_del_ok_def)
  then show ?thesis
    using rr_updateList_inv[OF assms(1) _ False assms(3)] assms(2) by (simp add: rr_updateDelDest_def)
qed

interpretation rr: entry_policy rr_hooks "\<lambda>E. summary_stat_ok (env_stat E)" rr_inv rr_del_ok rr_init
proof (unfold_locales, goal_cases)
  case 1
  then show ?case by (simp add: rr_inv_Nil)
next
  case (2 E ds x p)
  then show ?case
    using rr_updateList_inv[of E "ds @ [x]" ds p] rr_queue_keys[of ds p]
    by (auto simp: rr_hooks_def rr_updateAddDest_def)
next
  case (3 E ds d x w p f)
  then show ?case using rr_weight_law by (simp add: rr_hooks_def)
next
  case (4 E ds d x p)
  then show ?case using rr_del_law by (simp add: rr_hooks_def)
next
  case (5 E ds p)
  then show ?case using rr_select_law by (simp add: rr_hooks_def)
next
  case (6 p E)
  then show ?case by (simp add: rr_hooks_def rr_select_def rr_inv_Nil rr_init_def)
qed

section \<open>Properties\<close>

text \<open>
  C11: after a destination of a round-robin entry is added or changed, a destination is in the active
  set exactly when its weight is at most twice the smallest weight, or it was never used or is being
  probed; and every stale period is between 1 and 30 seconds.
\<close>

theorem round_robin_active_set:
  assumes "summary_stat_ok (env_stat E)" and "entry_inv rr_inv e" and "d \<noteq> []" and "0 < w"
  shows "\<exists>e'. entry_change rr_hooks E d w f e = (Inr (), e') \<and>
    (\<forall>x\<in>set (theDestinations e'). \<exists>c. map_of (theCache (thePolicy e')) (theDestination x) = Some c \<and>
       ce_weight c = theWeight x \<and> 1 \<le> ce_stalePeriod c \<and> ce_stalePeriod c \<le> 30 \<and>
       (theDestination x \<in> set (theQueue (thePolicy e')) \<longleftrightarrow>
          (\<forall>y\<in>set (theDestinations e'). theWeight x \<le> 2 * theWeight y) \<or> ce_lastUpdated c < 0))"
proof -
  obtain e' where e': "entry_change rr_hooks E d w f e = (Inr (), e')" "entry_inv rr_inv e'"
    using rr.change_ok[OF assms] by blast
  let ?ds = "theDestinations e'" and ?p = "thePolicy e'"
  have inv: "dests_wf ?ds" "rr_inv ?ds ?p" using e'(2) by (auto simp: entry_inv_def)
  have "\<exists>c. map_of (theCache ?p) (theDestination x) = Some c \<and>
      ce_weight c = theWeight x \<and> 1 \<le> ce_stalePeriod c \<and> ce_stalePeriod c \<le> 30 \<and>
      (theDestination x \<in> set (theQueue ?p) \<longleftrightarrow>
        (\<forall>y\<in>set ?ds. theWeight x \<le> 2 * theWeight y) \<or> ce_lastUpdated c < 0)" if x: "x \<in> set ?ds" for x
  proof -
    have "map_option ce_weight (map_of (theCache ?p) (theDestination x)) = Some (theWeight x)"
      using inv find_elem_mem[OF _ x] by (simp add: rr_inv_def rr_cache_ok_def)
    then obtain c where c: "map_of (theCache ?p) (theDestination x) = Some c" "ce_weight c = theWeight x"
      by auto
    have "?ds \<noteq> []" using x by auto
    then have "theWeight x / 2 \<le> min_weight ?ds \<longleftrightarrow> (\<forall>y\<in>set ?ds. theWeight x / 2 \<le> theWeight y)"
      unfolding min_weight_def by (subst Min_ge_iff) auto
    then have "theWeight x \<le> 2 * min_weight ?ds \<longleftrightarrow> (\<forall>y\<in>set ?ds. theWeight x \<le> 2 * theWeight y)"
      by (simp add: divide_le_eq mult.commute)
    then show ?thesis using c inv(2) by (auto simp: rr_inv_def rr_cache_ok_def rr_elem_ok_def)
  qed
  then show ?thesis using e'(1) by blast
qed

definition rr_elem_ex :: "real \<Rightarrow> real \<Rightarrow> cache_elem" where
  "rr_elem_ex w dfc = (mk_cache_elem w dfc)"

definition rr_entry_ex :: "rr_pol entry" where
  "rr_entry_ex = \<lparr>theDestinations = dests_ex,
     thePolicy = \<lparr>theCache = [(''a'', rr_elem_ex 1 0), (''b'', rr_elem_ex 2 0)], theQueue = [''a'', ''b'']\<rparr>\<rparr>"

lemma rr_entry_ex_inv: "entry_inv rr_inv rr_entry_ex"
  by (auto simp: entry_inv_def rr_entry_ex_def dests_ex_def dests_wf_def rr_inv_def rr_cache_ok_def
      rr_elem_ex_def mk_cache_elem_def rr_elem_ok_def initialStalePeriod_def split: if_splits)

theorem round_robin_active_set_witness:
  "\<exists>e'. entry_change rr_hooks (env_ex 1 0) ''c'' 5 True rr_entry_ex = (Inr (), e') \<and>
    (\<forall>x\<in>set (theDestinations e'). \<exists>c. map_of (theCache (thePolicy e')) (theDestination x) = Some c \<and>
       ce_weight c = theWeight x \<and> 1 \<le> ce_stalePeriod c \<and> ce_stalePeriod c \<le> 30 \<and>
       (theDestination x \<in> set (theQueue (thePolicy e')) \<longleftrightarrow>
          (\<forall>y\<in>set (theDestinations e'). theWeight x \<le> 2 * theWeight y) \<or> ce_lastUpdated c < 0))"
  by (rule round_robin_active_set) (simp_all add: env_ex_def stat_ex_ok rr_entry_ex_inv)

text \<open>Weighted round robin: a sequence of selections with no update in between.\<close>

fun rr_run :: "env list \<Rightarrow> element list \<Rightarrow> rr_pol \<Rightarrow> exn + string list \<times> rr_pol" where
  "rr_run [] ds p = Inr ([], p)"
| "rr_run (E # Es) ds p =
     rbind (rr_select E ds p) (\<lambda>(d, p'). rbind (rr_run Es ds p') (\<lambda>(l, p''). Inr (d # l, p'')))"

lemma rr_select_step:
  assumes "theQueue p \<noteq> []" and "set (theQueue p) \<subseteq> fst ` set (theCache p)" and "env_fl E = id"
  shows "\<exists>k p'. rr_select E ds p = Inr (k, p') \<and> k \<in> set (theQueue p) \<and>
    (\<forall>k'\<in>set (theQueue p). rr_deficit p k \<le> rr_deficit p k') \<and>
    theQueue p' = theQueue p \<and> fst ` set (theCache p') = fst ` set (theCache p) \<and>
    rr_weight p' = rr_weight p \<and>
    rr_deficit p' = (\<lambda>j. rr_deficit p j + (if j = k then rr_weight p k else 0))"
proof -
  obtain k where k: "k \<in> set (theQueue p)" "\<forall>k'\<in>set (theQueue p). rr_deficit p k \<le> rr_deficit p k'"
    and sel: "rr_select E ds p = Inr (k, p\<lparr>theCache :=
      mupd k (\<lambda>c. c\<lparr>ce_deficit := env_fl E (ce_deficit c + ce_weight c)\<rparr>) (theCache p)\<rparr>)"
      (is "_ = Inr (k, ?p)")
    using rr_select_min[OF assms(1,2)] by blast
  obtain c where c: "map_of (theCache p) k = Some c" using k(1) assms(2) by (metis in_fst_set_iff subsetD)
  have "rr_weight ?p = rr_weight p"
    by (auto simp: rr_weight_def fun_eq_iff split: option.split)
  moreover have "rr_deficit ?p = (\<lambda>j. rr_deficit p j + (if j = k then rr_weight p k else 0))"
    using c by (auto simp: rr_deficit_def rr_weight_def assms(3) fun_eq_iff)
  ultimately show ?thesis using k sel by auto
qed

lemma rr_run_deficits:
  assumes "theQueue p \<noteq> []" and "set (theQueue p) \<subseteq> fst ` set (theCache p)"
    and "\<forall>E\<in>set Es. env_fl E = id"
    and "\<forall>k\<in>set (theQueue p). 0 < rr_weight p k \<and> rr_weight p k \<le> B"
    and "\<forall>k\<in>set (theQueue p). \<forall>k'\<in>set (theQueue p). rr_deficit p k - rr_deficit p k' \<le> B"
  shows "\<exists>l p'. rr_run Es ds p = Inr (l, p') \<and> length l = length Es \<and> set l \<subseteq> set (theQueue p) \<and>
    (\<forall>k\<in>set (theQueue p). \<forall>k'\<in>set (theQueue p).
       (rr_deficit p k + count_list l k * rr_weight p k) -
       (rr_deficit p k' + count_list l k' * rr_weight p k') \<le> B)"
  using assms
proof (induction Es arbitrary: p)
  case Nil
  then show ?case by simp
next
  case (Cons E Es)
  have "env_fl E = id" using Cons.prems(3) by (simp add: id_def)
  from rr_select_step[OF Cons.prems(1,2) this, of ds]
  obtain k p1 where sel: "rr_select E ds p = Inr (k, p1)" and k: "k \<in> set (theQueue p)"
    "\<forall>k'\<in>set (theQueue p). rr_deficit p k \<le> rr_deficit p k'"
    and q: "theQueue p1 = theQueue p" "fst ` set (theCache p1) = fst ` set (theCache p)"
    and w: "rr_weight p1 = rr_weight p"
    and d: "rr_deficit p1 = (\<lambda>j. rr_deficit p j + (if j = k then rr_weight p k else 0))"
    by blast
  have spread: "\<forall>i\<in>set (theQueue p). \<forall>j\<in>set (theQueue p). rr_deficit p1 i - rr_deficit p1 j \<le> B"
  proof (intro ballI)
    fix i j assume "i \<in> set (theQueue p)" "j \<in> set (theQueue p)"
    then have "rr_deficit p i - rr_deficit p j \<le> B" "rr_deficit p k \<le> rr_deficit p j"
      "0 < rr_weight p k" "rr_weight p k \<le> B"
      using Cons.prems(4,5) k by blast+
    then show "rr_deficit p1 i - rr_deficit p1 j \<le> B" by (auto simp: d)
  qed
  have "\<forall>E\<in>set Es. env_fl E = id" using Cons.prems(3) by (simp add: id_def)
  then obtain l p' where "rr_run Es ds p1 = Inr (l, p')" "length l = length Es" "set l \<subseteq> set (theQueue p)"
    and lp: "\<forall>i\<in>set (theQueue p). \<forall>j\<in>set (theQueue p).
       (rr_deficit p1 i + count_list l i * rr_weight p i) -
       (rr_deficit p1 j + count_list l j * rr_weight p j) \<le> B"
    using Cons.IH[of p1] Cons.prems(1,2,4) spread unfolding q w by blast
  moreover have "rr_deficit p i + count_list (k # l) i * rr_weight p i =
      rr_deficit p1 i + count_list l i * rr_weight p i" for i
    by (simp add: d algebra_simps)
  ultimately show ?case using k(1) sel by simp
qed

lemma rr_run_entry_weights:
  assumes "dests_wf ds" and "rr_inv ds p" and "x \<in> set ds"
  shows "rr_weight p (theDestination x) = theWeight x"
proof -
  have "map_option ce_weight (map_of (theCache p) (theDestination x)) = Some (theWeight x)"
    using assms find_elem_mem[OF _ assms(3)] by (simp add: rr_inv_def rr_cache_ok_def)
  then show ?thesis by (auto simp: rr_weight_def)
qed



text \<open>
  Removing an active destination while others remain makes \<open>updateList\<close> erase the cache element
  and then scan the old queue, which still holds an iterator to it: undefined behaviour.
\<close>

theorem round_robin_remove_active_undefined:
  assumes "summary_stat_ok (env_stat E)" and "entry_inv rr_inv e"
    and "d \<in> set (theQueue (thePolicy e))" and "del_elem d (theDestinations e) \<noteq> []"
  shows "fst (entry_remove rr_hooks E d e) = Inl (Undefined ''erased element dereferenced'')"
proof -
  let ?ds = "theDestinations e" and ?p = "thePolicy e"
  let ?k = "map (\<lambda>(k, c). (k, c\<lparr>ce_removed := True\<rparr>)) (theCache ?p)"
  have inv: "dests_wf ?ds" "rr_inv ?ds ?p" using assms(2) by (auto simp: entry_inv_def)
  have "d \<in> dests_of ?ds" using rr_queue_keys[OF inv(2)] assms(3) by auto
  then obtain x where x: "find_elem d ?ds = Some x" by (metis find_elem_None option.exhaust)
  have wf: "mwf (theCache ?p)" "\<And>d c. map_of (theCache ?p) d = Some c \<Longrightarrow> rr_elem_ok c"
    using inv(2) by (simp_all add: rr_inv_def rr_cache_ok_def)
  have keys: "set (theQueue ?p) \<subseteq> fst ` set ?k"
    using rr_queue_cache[OF inv(2)] by force
  from rr_min_loop_Inr[OF keys, of flt_max]
  obtain md where md: "rr_minDeficit (?p\<lparr>theCache := ?k\<rparr>) = Inr md"
    by (auto simp: rr_minDeficit_def)
  let ?f = "filter (\<lambda>(k, c). \<not> ce_removed c) (foldl (rr_insert_dest md) ?k (del_elem d ?ds))"
  have c: "rr_cache_ok (del_elem d ?ds) ?f"
    by (rule rr_updateList_cache[OF dests_wf_del_elem[OF inv(1)] wf])
  have "\<not> set (theQueue ?p) \<subseteq> fst ` set ?f"
    using rr_cache_keys[OF c] assms(3) inv(1) by (auto simp: dests_of_del_elem)
  then have ub: "rr_minDeficit (?p\<lparr>theCache := ?f\<rparr>) = Inl (Undefined ''erased element dereferenced'')"
    by (simp add: rr_minDeficit_def rr_min_loop_Inl)
  have "length (rr_updateStat ?f) = length (del_elem d ?ds)"
    using rr_samples_weights[OF c] inv(1) by simp
  then have "ss_count (env_stat E) (rr_updateStat ?f) \<noteq> 0"
    using assms(1,4) by (simp add: summary_stat_ok_def)
  then show ?thesis using x md ub assms(4) find_elem_Some[OF x]
    by (simp add: entry_remove_def run_hook_def Let_def rr_hooks_def rr_updateDelDest_def
        rr_updateList_def rr_updateActiveSet_def)
qed

theorem round_robin_remove_active_undefined_witness:
  "fst (entry_remove rr_hooks (env_ex 1 0) ''a'' rr_entry_ex) =
     Inl (Undefined ''erased element dereferenced'')"
  by (rule round_robin_remove_active_undefined)
     (simp_all add: env_ex_def stat_ex_ok rr_entry_ex_inv, simp_all add: rr_entry_ex_def dests_ex_def)

end
