(* ===== verification/Entry_PropFair.thy ===== *)
theory Entry_PropFair
  imports Entry
begin

text \<open>
  The proportional-fairness policy, \<open>Edge/Entries/entryproportionalfairness.cpp\<close>: the entry keeps,
  for each destination, how many requests it served and the time of the last one, and selects the
  destination with the largest coefficient \<open>(1 / latency) ^ alpha / (count / elapsed) ^ beta\<close>.
\<close>

record pf_pol =
  thePFstats :: "(string, int \<times> real) smap"
  theAlpha :: real
  theBeta :: real

definition pf_init :: "real \<Rightarrow> real \<Rightarrow> pf_pol" where
  "pf_init aAlpha aBeta = \<lparr>thePFstats = [], theAlpha = aAlpha, theBeta = aBeta\<rparr>"

text \<open>
  \<open>computeWeight\<close>. When no time has elapsed the ratio is a division by zero, infinite in IEEE
  arithmetic: its power is infinite for a positive exponent and 1 for exponent 0.
\<close>

definition computeWeight :: "env \<Rightarrow> pf_pol \<Rightarrow> real \<Rightarrow> int \<Rightarrow> real \<Rightarrow> real \<Rightarrow> real" where
  "computeWeight E p experiencedLatency theLambdaServedCount theDestinationTimestamp curTimestamp =
     (let T = (1 / experiencedLatency) powr theAlpha p
      in env_fl E
        (if curTimestamp = theDestinationTimestamp then (if theBeta p = 0 then T else 0)
         else T / (real_of_int theLambdaServedCount / (curTimestamp - theDestinationTimestamp)) powr theBeta p))"

text \<open>The loop of \<open>operator()\<close>: the pair is \<open>ret\<close> and \<open>myMaxWeight\<close>.\<close>

fun pf_scan :: "env \<Rightarrow> pf_pol \<Rightarrow> element list \<Rightarrow> string \<times> real \<Rightarrow> exn + string \<times> real" where
  "pf_scan E p [] (ret, mx) = Inr (ret, mx)"
| "pf_scan E p (x # ds) (ret, mx) =
     (case map_of (thePFstats p) (theDestination x) of
        None \<Rightarrow> Inl (Undefined ''destinationStatsIt != thePFstats.end()'')
      | Some (n, t) \<Rightarrow>
          (let w = computeWeight E p (theWeight x) n t (env_now E)
           in if ret = [] \<or> w > mx then pf_scan E p ds (theDestination x, w)
              else pf_scan E p ds (ret, mx)))"

definition pf_select :: "env \<Rightarrow> element list \<Rightarrow> pf_pol \<Rightarrow> exn + string \<times> pf_pol" where
  "pf_select E ds p =
     (if ds = [] then Inl (NoDestinations None)
      else rbind (pf_scan E p ds ([], 0)) (\<lambda>(ret, _). Inr (ret, p)))"

definition pf_updateWeight ::
  "env \<Rightarrow> element list \<Rightarrow> pf_pol \<Rightarrow> string \<Rightarrow> real \<Rightarrow> real \<Rightarrow> exn + pf_pol" where
  "pf_updateWeight E ds p aDest aOldWeight aNewWeight =
     (case map_of (thePFstats p) aDest of
        None \<Rightarrow> Inl (Undefined ''it != thePFstats.end()'')
      | Some (n, t) \<Rightarrow> Inr (p\<lparr>thePFstats := mput aDest (n + 1, env_now E) (thePFstats p)\<rparr>))"

definition pf_updateAddDest ::
  "env \<Rightarrow> element list \<Rightarrow> pf_pol \<Rightarrow> string \<Rightarrow> real \<Rightarrow> exn + pf_pol" where
  "pf_updateAddDest E ds p aDest aWeight =
     Inr (p\<lparr>thePFstats := memplace aDest (1, env_now E) (thePFstats p)\<rparr>)"

definition pf_updateDelDest ::
  "env \<Rightarrow> element list \<Rightarrow> pf_pol \<Rightarrow> string \<Rightarrow> real \<Rightarrow> exn + pf_pol" where
  "pf_updateDelDest E ds p aDest aWeight =
     (case map_of (thePFstats p) aDest of
        None \<Rightarrow> Inl (Undefined ''it != thePFstats.end()'')
      | Some _ \<Rightarrow> Inr (p\<lparr>thePFstats := merase aDest (thePFstats p)\<rparr>))"

definition pf_hooks :: "pf_pol hooks" where
  "pf_hooks = \<lparr>hk_select = pf_select, hk_updateWeight = pf_updateWeight,
     hk_updateAddDest = pf_updateAddDest, hk_updateDelDest = pf_updateDelDest\<rparr>"

lemmas pf_hook_defs =
  pf_hooks_def pf_updateWeight_def pf_updateAddDest_def pf_updateDelDest_def

section \<open>The statistics follow the destinations\<close>

text \<open>
  There is one record of statistics per destination and no other, and each count is at least one
  (the comment of \<open>updateAddDest\<close>: otherwise the coefficient would divide by zero).
\<close>

definition pf_inv :: "real \<Rightarrow> real \<Rightarrow> element list \<Rightarrow> pf_pol \<Rightarrow> bool" where
  "pf_inv a b ds p \<longleftrightarrow> mwf (thePFstats p) \<and> fst ` set (thePFstats p) = dests_of ds \<and>
     (\<forall>d n t. map_of (thePFstats p) d = Some (n, t) \<longrightarrow> 1 \<le> n) \<and> theAlpha p = a \<and> theBeta p = b"

lemma pf_inv_stat:
  "pf_inv a b ds p \<Longrightarrow> d \<in> dests_of ds \<longleftrightarrow> (\<exists>n t. map_of (thePFstats p) d = Some (n, t))"
  unfolding pf_inv_def by (metis in_fst_set_iff prod.exhaust)

lemma pf_add_law:
  assumes "dests_wf (ds @ [x])" and "pf_inv a b ds p"
  shows "\<exists>p'. pf_updateAddDest E (ds @ [x]) p (theDestination x) (theWeight x) = Inr p' \<and>
    pf_inv a b (ds @ [x]) p'"
proof -
  have "map_of (thePFstats p) (theDestination x) = None"
    using assms pf_inv_stat[OF assms(2), of "theDestination x"] by (auto simp: dests_wf_snoc)
  then show ?thesis using assms(2)
    by (auto simp: pf_updateAddDest_def pf_inv_def memplace_def)
qed

lemma pf_weight_law:
  assumes "find_elem d ds = Some x" and "pf_inv a b ds p"
  shows "\<exists>p'. pf_updateWeight E ds' p d (theWeight x) w = Inr p' \<and> pf_inv a b ds p'"
proof -
  have d: "d \<in> dests_of ds" using find_elem_Some[OF assms(1)] by auto
  then obtain n t where nt: "map_of (thePFstats p) d = Some (n, t)"
    using pf_inv_stat[OF assms(2)] by blast
  have "1 \<le> n + 1" using assms(2) nt by (force simp: pf_inv_def)
  then show ?thesis using assms(2) nt d
    by (auto simp: pf_updateWeight_def pf_inv_def)
qed

lemma pf_inv_upd_elem [simp]: "pf_inv a b (upd_elem d (set_wf w f) ds) p = pf_inv a b ds p"
  by (simp add: pf_inv_def)

lemma pf_del_law:
  assumes "dests_wf ds" and "find_elem d ds = Some x" and "pf_inv a b ds p"
  shows "\<exists>p'. pf_updateDelDest E ds' p d (theWeight x) = Inr p' \<and> pf_inv a b (del_elem d ds) p'"
proof -
  have d: "d \<in> dests_of ds" using find_elem_Some[OF assms(2)] by auto
  then obtain n t where nt: "map_of (thePFstats p) d = Some (n, t)"
    using pf_inv_stat[OF assms(3)] by blast
  then show ?thesis using assms(1,3)
    by (auto simp: pf_updateDelDest_def pf_inv_def dests_of_del_elem)
qed

section \<open>Selection\<close>

text \<open>The coefficient of a destination, read from the statistics.\<close>

definition pf_coeff :: "env \<Rightarrow> pf_pol \<Rightarrow> element \<Rightarrow> real" where
  "pf_coeff E p x = (case map_of (thePFstats p) (theDestination x) of
     None \<Rightarrow> 0 | Some (n, t) \<Rightarrow> computeWeight E p (theWeight x) n t (env_now E))"

lemma pf_scan_argmax:
  assumes "\<forall>x\<in>set ds. theDestination x \<noteq> [] \<and> theDestination x \<in> fst ` set (thePFstats p)"
    and "ret \<noteq> []"
  shows "\<exists>d mx'. pf_scan E p ds (ret, mx) = Inr (d, mx') \<and> mx \<le> mx' \<and>
    (\<forall>x\<in>set ds. pf_coeff E p x \<le> mx') \<and>
    (d = ret \<and> mx' = mx \<or> (\<exists>x\<in>set ds. theDestination x = d \<and> pf_coeff E p x = mx'))"
  using assms
proof (induction ds arbitrary: ret mx)
  case Nil
  then show ?case by simp
next
  case (Cons x ds)
  have "theDestination x \<in> fst ` set (thePFstats p)" using Cons.prems(1) by simp
  then obtain v where "map_of (thePFstats p) (theDestination x) = Some v"
    by (auto simp: in_fst_set_iff simp del: map_of_eq_None_iff)
  then obtain n t where nt: "map_of (thePFstats p) (theDestination x) = Some (n, t)"
    by (cases v) auto
  let ?w = "pf_coeff E p x"
  have step: "pf_scan E p (x # ds) (ret, mx) =
    (if ?w > mx then pf_scan E p ds (theDestination x, ?w) else pf_scan E p ds (ret, mx))"
    using nt Cons.prems(2) by (simp add: pf_coeff_def Let_def)
  show ?case
  proof (cases "?w > mx")
    case True
    obtain d mx' where "pf_scan E p ds (theDestination x, ?w) = Inr (d, mx')" "?w \<le> mx'"
      "\<forall>y\<in>set ds. pf_coeff E p y \<le> mx'"
      "d = theDestination x \<and> mx' = ?w \<or> (\<exists>y\<in>set ds. theDestination y = d \<and> pf_coeff E p y = mx')"
      using Cons.IH[of "theDestination x" ?w] Cons.prems(1) by auto
    then show ?thesis using True step by auto
  next
    case False
    obtain d mx' where "pf_scan E p ds (ret, mx) = Inr (d, mx')" "mx \<le> mx'"
      "\<forall>y\<in>set ds. pf_coeff E p y \<le> mx'"
      "d = ret \<and> mx' = mx \<or> (\<exists>y\<in>set ds. theDestination y = d \<and> pf_coeff E p y = mx')"
      using Cons.IH[of ret mx] Cons.prems by auto
    then show ?thesis using False step by auto
  qed
qed

lemma pf_select_argmax:
  assumes "ds \<noteq> []" and "dests_wf ds" and "pf_inv a b ds p"
  shows "\<exists>x\<in>set ds. pf_select E ds p = Inr (theDestination x, p) \<and>
    (\<forall>y\<in>set ds. pf_coeff E p y \<le> pf_coeff E p x)"
proof -
  obtain x0 ds' where ds: "ds = x0 # ds'" using assms(1) by (cases ds) auto
  have mem: "\<forall>x\<in>set ds. theDestination x \<noteq> [] \<and> theDestination x \<in> fst ` set (thePFstats p)"
    using assms(2,3) by (auto simp: dests_wf_def pf_inv_def)
  have "theDestination x0 \<in> dests_of ds" using ds by simp
  then obtain n t where nt: "map_of (thePFstats p) (theDestination x0) = Some (n, t)"
    using pf_inv_stat[OF assms(3)] by blast
  have step: "pf_scan E p ds ([], 0) = pf_scan E p ds' (theDestination x0, pf_coeff E p x0)"
    using nt by (simp add: ds pf_coeff_def Let_def)
  obtain d mx where "pf_scan E p ds' (theDestination x0, pf_coeff E p x0) = Inr (d, mx)"
    "pf_coeff E p x0 \<le> mx" "\<forall>x\<in>set ds'. pf_coeff E p x \<le> mx"
    "d = theDestination x0 \<and> mx = pf_coeff E p x0 \<or>
      (\<exists>x\<in>set ds'. theDestination x = d \<and> pf_coeff E p x = mx)"
    using pf_scan_argmax[of ds' p "theDestination x0" E "pf_coeff E p x0"] mem ds by auto
  then show ?thesis using assms(1) step by (auto simp: pf_select_def ds)
qed

interpretation pf: entry_policy pf_hooks "\<lambda>_. True" "pf_inv a b" "\<lambda>_ _ _. True" "pf_init a b"
proof (unfold_locales, goal_cases)
  case 1
  then show ?case by (simp add: pf_inv_def pf_init_def)
next
  case (2 E ds x p)
  then show ?case using pf_add_law by (simp add: pf_hooks_def)
next
  case (3 E ds d x w p f)
  then show ?case using pf_weight_law by (simp add: pf_hooks_def)
next
  case (4 E ds d x p)
  then show ?case using pf_del_law by (simp add: pf_hooks_def)
next
  case (5 E ds p)
  then show ?case using pf_select_argmax[of ds a b p E] by (auto simp: pf_hooks_def)
next
  case (6 p E)
  then show ?case by (simp add: pf_hooks_def pf_select_def)
qed

text \<open>
  C25: an entry with the proportional-fairness policy selects a destination whose prioritization
  coefficient is the largest among all the destinations, and leaves its state as it is.
\<close>

theorem prop_fair_selects_maximum_coefficient:
  assumes "entry_inv (pf_inv a b) e" and "\<not> entry_empty e"
  shows "\<exists>x\<in>set (theDestinations e). entry_select pf_hooks E e = (Inr (theDestination x), e) \<and>
    (\<forall>y\<in>set (theDestinations e). pf_coeff E (thePolicy e) y \<le> pf_coeff E (thePolicy e) x)"
proof -
  obtain x where x: "x \<in> set (theDestinations e)"
    "pf_select E (theDestinations e) (thePolicy e) = Inr (theDestination x, thePolicy e)"
    "\<forall>y\<in>set (theDestinations e). pf_coeff E (thePolicy e) y \<le> pf_coeff E (thePolicy e) x"
    using pf_select_argmax[of "theDestinations e" a b "thePolicy e" E] assms
    by (auto simp: entry_inv_def entry_empty_def)
  then show ?thesis by (auto simp: entry_select_def pf_hooks_def)
qed

definition pf_entry_ex :: "real \<Rightarrow> real \<Rightarrow> pf_pol entry" where
  "pf_entry_ex a b = \<lparr>theDestinations = dests_ex,
     thePolicy = \<lparr>thePFstats = [(''a'', (4, 1)), (''b'', (1, 2))], theAlpha = a, theBeta = b\<rparr>\<rparr>"

lemma pf_entry_ex_inv: "entry_inv (pf_inv a b) (pf_entry_ex a b)"
  by (auto simp: entry_inv_def pf_entry_ex_def pf_inv_def dests_ex_def dests_wf_def split: if_splits)

theorem prop_fair_selects_maximum_coefficient_witness:
  "\<exists>x\<in>set (theDestinations (pf_entry_ex 1 1)).
     entry_select pf_hooks (env_ex 5 0) (pf_entry_ex 1 1) = (Inr (theDestination x), pf_entry_ex 1 1) \<and>
     (\<forall>y\<in>set (theDestinations (pf_entry_ex 1 1)).
        pf_coeff (env_ex 5 0) (thePolicy (pf_entry_ex 1 1)) y \<le> pf_coeff (env_ex 5 0) (thePolicy (pf_entry_ex 1 1)) x)"
  by (rule prop_fair_selects_maximum_coefficient[OF pf_entry_ex_inv])
     (simp add: pf_entry_ex_def dests_ex_def entry_empty_def)

text \<open>
  With \<open>alpha = 1\<close> and \<open>beta = 0\<close>, the setting documented as maximum throughput, the selected
  destination is one of least latency: the policy coincides with least impedance.
\<close>

theorem prop_fair_max_throughput:
  assumes "entry_inv (pf_inv 1 0) e" and "\<not> entry_empty e" and "env_fl E = id"
  shows "\<exists>x\<in>set (theDestinations e). fst (entry_select pf_hooks E e) = Inr (theDestination x) \<and>
    (\<forall>y\<in>set (theDestinations e). theWeight x \<le> theWeight y)"
proof -
  let ?ds = "theDestinations e" and ?p = "thePolicy e"
  have inv: "dests_wf ?ds" "pf_inv 1 0 ?ds ?p" and ne: "?ds \<noteq> []"
    using assms(1,2) by (auto simp: entry_inv_def entry_empty_def)
  obtain x where x: "x \<in> set ?ds" "pf_select E ?ds ?p = Inr (theDestination x, ?p)"
    "\<forall>y\<in>set ?ds. pf_coeff E ?p y \<le> pf_coeff E ?p x"
    using pf_select_argmax[OF ne inv] by blast
  have coeff: "pf_coeff E ?p y = 1 / theWeight y \<and> 0 < theWeight y" if y: "y \<in> set ?ds" for y
  proof -
    obtain n t where nt: "map_of (thePFstats ?p) (theDestination y) = Some (n, t)"
      using pf_inv_stat[OF inv(2)] y by blast
    then have "1 \<le> n" "theAlpha ?p = 1" "theBeta ?p = 0" "0 < theWeight y"
      using inv y nt unfolding pf_inv_def dests_wf_def by blast+
    then show ?thesis using nt assms(3)
      by (simp add: pf_coeff_def computeWeight_def Let_def)
  qed
  have "theWeight x \<le> theWeight y" if y: "y \<in> set ?ds" for y
  proof -
    have "1 / theWeight y \<le> 1 / theWeight x" using x(3) coeff[OF y] coeff[OF x(1)] y by metis
    then show ?thesis using coeff[OF y] coeff[OF x(1)] by (simp add: field_simps)
  qed
  then show ?thesis using x by (auto simp: entry_select_def pf_hooks_def)
qed

theorem prop_fair_max_throughput_witness:
  "\<exists>x\<in>set (theDestinations (pf_entry_ex 1 0)).
     fst (entry_select pf_hooks (env_ex 5 0) (pf_entry_ex 1 0)) = Inr (theDestination x) \<and>
     (\<forall>y\<in>set (theDestinations (pf_entry_ex 1 0)). theWeight x \<le> theWeight y)"
  by (rule prop_fair_max_throughput[OF pf_entry_ex_inv])
     (simp_all add: pf_entry_ex_def dests_ex_def entry_empty_def env_ex_def)

end
