(* ===== verification/ForwardingTable.thy ===== *)
theory ForwardingTable
  imports ForwardingTableInterface Entry_Random Entry_LeastImpedance Entry_RoundRobin Entry_PropFair
begin

text \<open>
  The forwarding table, \<open>Edge/forwardingtable.h\<close> and \<open>forwardingtable.cpp\<close>, and its factory.

  The table maps a lambda function to an entry; the entries of a table all have the scheduling policy
  of the table's type. The pointer to the derived class is the sum type \<open>policy\<close>, and the
  dispatch of the virtual functions is \<open>any_hooks\<close>. Every operation holds the mutex of the table for
  its whole duration: it is one atomic transition.
\<close>

section \<open>Dynamic dispatch on the policy\<close>

datatype ft_type = Random | LeastImpedance | RoundRobin | ProportionalFairness

datatype policy =
    PRandom rnd_pol
  | PLeast li_pol
  | PRound rr_pol
  | PFair pf_pol

definition lift_sel :: "('q \<Rightarrow> policy) \<Rightarrow> exn + string \<times> 'q \<Rightarrow> exn + string \<times> policy" where
  "lift_sel C r = map_sum id (map_prod id C) r"

definition lift_upd :: "('q \<Rightarrow> policy) \<Rightarrow> exn + 'q \<Rightarrow> exn + policy" where
  "lift_upd C r = map_sum id C r"

definition any_select :: "env \<Rightarrow> element list \<Rightarrow> policy \<Rightarrow> exn + string \<times> policy" where
  "any_select E ds p = (case p of
      PRandom q \<Rightarrow> lift_sel PRandom (hk_select rnd_hooks E ds q)
    | PLeast q \<Rightarrow> lift_sel PLeast (hk_select li_hooks E ds q)
    | PRound q \<Rightarrow> lift_sel PRound (hk_select rr_hooks E ds q)
    | PFair q \<Rightarrow> lift_sel PFair (hk_select pf_hooks E ds q))"

definition any_updateWeight ::
  "env \<Rightarrow> element list \<Rightarrow> policy \<Rightarrow> string \<Rightarrow> real \<Rightarrow> real \<Rightarrow> exn + policy" where
  "any_updateWeight E ds p d w w' = (case p of
      PRandom q \<Rightarrow> lift_upd PRandom (hk_updateWeight rnd_hooks E ds q d w w')
    | PLeast q \<Rightarrow> lift_upd PLeast (hk_updateWeight li_hooks E ds q d w w')
    | PRound q \<Rightarrow> lift_upd PRound (hk_updateWeight rr_hooks E ds q d w w')
    | PFair q \<Rightarrow> lift_upd PFair (hk_updateWeight pf_hooks E ds q d w w'))"

definition any_updateAddDest ::
  "env \<Rightarrow> element list \<Rightarrow> policy \<Rightarrow> string \<Rightarrow> real \<Rightarrow> exn + policy" where
  "any_updateAddDest E ds p d w = (case p of
      PRandom q \<Rightarrow> lift_upd PRandom (hk_updateAddDest rnd_hooks E ds q d w)
    | PLeast q \<Rightarrow> lift_upd PLeast (hk_updateAddDest li_hooks E ds q d w)
    | PRound q \<Rightarrow> lift_upd PRound (hk_updateAddDest rr_hooks E ds q d w)
    | PFair q \<Rightarrow> lift_upd PFair (hk_updateAddDest pf_hooks E ds q d w))"

definition any_updateDelDest ::
  "env \<Rightarrow> element list \<Rightarrow> policy \<Rightarrow> string \<Rightarrow> real \<Rightarrow> exn + policy" where
  "any_updateDelDest E ds p d w = (case p of
      PRandom q \<Rightarrow> lift_upd PRandom (hk_updateDelDest rnd_hooks E ds q d w)
    | PLeast q \<Rightarrow> lift_upd PLeast (hk_updateDelDest li_hooks E ds q d w)
    | PRound q \<Rightarrow> lift_upd PRound (hk_updateDelDest rr_hooks E ds q d w)
    | PFair q \<Rightarrow> lift_upd PFair (hk_updateDelDest pf_hooks E ds q d w))"

definition any_hooks :: "policy hooks" where
  "any_hooks = \<lparr>hk_select = any_select, hk_updateWeight = any_updateWeight,
     hk_updateAddDest = any_updateAddDest, hk_updateDelDest = any_updateDelDest\<rparr>"

section \<open>State and operations of the table\<close>

record fwd_table =
  theType :: ft_type
  theTable :: "(string, policy entry) smap"
  ft_alpha :: real
  ft_beta :: real

definition ft_new :: "ft_type \<Rightarrow> real \<Rightarrow> real \<Rightarrow> fwd_table" where
  "ft_new aType aAlpha aBeta =
     \<lparr>theType = aType, theTable = [], ft_alpha = aAlpha, ft_beta = aBeta\<rparr>"

text \<open>The entry that \<open>change\<close> allocates for a lambda that is not in the table.\<close>

definition new_policy :: "ft_type \<Rightarrow> real \<Rightarrow> real \<Rightarrow> policy" where
  "new_policy t aAlpha aBeta = (case t of
      Random \<Rightarrow> PRandom rnd_init
    | LeastImpedance \<Rightarrow> PLeast None
    | RoundRobin \<Rightarrow> PRound rr_init
    | ProportionalFairness \<Rightarrow> PFair (pf_init aAlpha aBeta))"

definition new_entry :: "fwd_table \<Rightarrow> policy entry" where
  "new_entry T = \<lparr>theDestinations = [], thePolicy = new_policy (theType T) (ft_alpha T) (ft_beta T)\<rparr>"

definition ft_put :: "string \<Rightarrow> policy entry \<Rightarrow> fwd_table \<Rightarrow> fwd_table" where
  "ft_put l e T = T\<lparr>theTable := mput l e (theTable T)\<rparr>"

definition ft_change ::
  "env \<Rightarrow> string \<Rightarrow> string \<Rightarrow> real \<Rightarrow> bool \<Rightarrow> fwd_table \<Rightarrow> (exn + unit) \<times> fwd_table" where
  "ft_change E aLambda aDest aWeight aFinal T =
     (if aWeight < 0 then (Inl (InvalidWeight aWeight), T)
      else
        (let e = (case map_of (theTable T) aLambda of None \<Rightarrow> new_entry T | Some e \<Rightarrow> e);
             (r, e') = entry_change any_hooks E aDest aWeight aFinal e
         in (r, ft_put aLambda e' T)))"

definition ft_change_weight ::
  "env \<Rightarrow> string \<Rightarrow> string \<Rightarrow> real \<Rightarrow> fwd_table \<Rightarrow> (exn + unit) \<times> fwd_table" where
  "ft_change_weight E aLambda aDest aWeight T =
     (if aDest = [] then (Inl (NoDestinations None), T)
      else if aWeight < 0 then (Inl (InvalidWeight aWeight), T)
      else case map_of (theTable T) aLambda of
        None \<Rightarrow> (Inl (NoDestinations None), T)
      | Some e \<Rightarrow>
          (let (r, e') = entry_change_weight any_hooks E aDest aWeight e
           in (r, ft_put aLambda e' T)))"

definition ft_multiply ::
  "env \<Rightarrow> string \<Rightarrow> string \<Rightarrow> real \<Rightarrow> fwd_table \<Rightarrow> (exn + unit) \<times> fwd_table" where
  "ft_multiply E aLambda aDest aFactor T =
     (if aDest = [] then (Inl (NoDestinations None), T)
      else if aFactor \<le> 0 then (Inl (InvalidWeightFactor aFactor), T)
      else case map_of (theTable T) aLambda of
        None \<Rightarrow> (Inl (NoDestinations None), T)
      | Some e \<Rightarrow>
          (case entry_weight aDest e of
             Inl x \<Rightarrow> (Inl x, T)
           | Inr myWeight \<Rightarrow>
               (let (r, e') = entry_change_weight any_hooks E aDest (env_fl E (myWeight * aFactor)) e
                in (r, ft_put aLambda e' T))))"

definition ft_remove :: "env \<Rightarrow> string \<Rightarrow> string \<Rightarrow> fwd_table \<Rightarrow> (exn + unit) \<times> fwd_table" where
  "ft_remove E aLambda aDest T =
     (case map_of (theTable T) aLambda of
        None \<Rightarrow> (Inr (), T)
      | Some e \<Rightarrow>
          (case entry_remove any_hooks E aDest e of
             (Inl x, e') \<Rightarrow> (Inl x, ft_put aLambda e' T)
           | (Inr myRemoved, e') \<Rightarrow>
               (Inr (), if entry_empty e' then T\<lparr>theTable := merase aLambda (theTable T)\<rparr>
                        else ft_put aLambda e' T)))"

definition ft_remove_lambda :: "string \<Rightarrow> fwd_table \<Rightarrow> fwd_table" where
  "ft_remove_lambda aLambda T = T\<lparr>theTable := merase aLambda (theTable T)\<rparr>"

definition ft_select :: "env \<Rightarrow> string \<Rightarrow> fwd_table \<Rightarrow> (exn + string) \<times> fwd_table" where
  "ft_select E aLambda T =
     (case map_of (theTable T) aLambda of
        None \<Rightarrow> (Inl (NoDestinations None), T)
      | Some e \<Rightarrow> (let (r, e') = entry_select any_hooks E e in (r, ft_put aLambda e' T)))"

definition ft_lambdas :: "fwd_table \<Rightarrow> string sset" where
  "ft_lambdas T = foldl (\<lambda>s p. sinsert (fst p) s) [] (theTable T)"

definition ft_destinations :: "string \<Rightarrow> fwd_table \<Rightarrow> (string, real \<times> bool) smap" where
  "ft_destinations aLambda T =
     (case map_of (theTable T) aLambda of None \<Rightarrow> [] | Some e \<Rightarrow> entry_destinations e)"

text \<open>\<open>myRet[lambda][destination] = value\<close>, which creates the inner map on first use.\<close>

definition tab_put :: "string \<Rightarrow> string \<Rightarrow> real \<times> bool \<Rightarrow> full_table \<Rightarrow> full_table" where
  "tab_put l d v m = mput l (mput d v (case map_of m l of None \<Rightarrow> [] | Some i \<Rightarrow> i)) m"

definition ft_fullTable :: "fwd_table \<Rightarrow> full_table" where
  "ft_fullTable T =
     foldl (\<lambda>m (l, e). foldl (\<lambda>m (d, v). tab_put l d v m) m (entry_destinations e)) [] (theTable T)"

section \<open>Type names and the factory\<close>

definition ft_toString :: "ft_type \<Rightarrow> string" where
  "ft_toString t = (case t of
      Random \<Rightarrow> ''random''
    | LeastImpedance \<Rightarrow> ''least-impedance''
    | RoundRobin \<Rightarrow> ''round-robin''
    | ProportionalFairness \<Rightarrow> ''proportional-fairness'')"

text \<open>The last branch asserts that the name is the only one left.\<close>

definition forwardingTableTypeFromString :: "string \<Rightarrow> exn + ft_type" where
  "forwardingTableTypeFromString s =
     (if s = ''random'' then Inr Random
      else if s = ''least-impedance'' then Inr LeastImpedance
      else if s = ''round-robin'' then Inr RoundRobin
      else if s = ''proportional-fairness'' then Inr ProportionalFairness
      else Inl (Undefined ''aType == proportional-fairness''))"

text \<open>
  \<open>ForwardingTableFactory::make\<close>; the look-ups of the configuration object, a class of the support
  library, are parameters: as a string (\<open>conf\<close>) and as a number (\<open>getDouble\<close>).
\<close>

definition ft_factory_make ::
  "(string \<Rightarrow> exn + string) \<Rightarrow> (string \<Rightarrow> exn + real) \<Rightarrow> exn + fwd_table" where
  "ft_factory_make conf getDouble =
     rbind (conf ''type'') (\<lambda>myType.
       if myType = ''random'' \<or> myType = ''round-robin'' \<or> myType = ''least-impedance'' then
         rbind (forwardingTableTypeFromString myType) (\<lambda>t. Inr (ft_new t 0 0))
       else if myType = ''proportional-fairness'' then
         rbind (forwardingTableTypeFromString myType) (\<lambda>t.
           rbind (getDouble ''alpha'') (\<lambda>a. rbind (getDouble ''beta'') (\<lambda>b. Inr (ft_new t a b))))
       else Inl (RuntimeError (''Invalid forwarding table type: '' @ myType)))"

section \<open>The dispatch keeps the contract of a policy\<close>

definition any_inv :: "ft_type \<Rightarrow> real \<Rightarrow> real \<Rightarrow> element list \<Rightarrow> policy \<Rightarrow> bool" where
  "any_inv t a b ds p = (case t of
      Random \<Rightarrow> (case p of PRandom _ \<Rightarrow> True | _ \<Rightarrow> False)
    | LeastImpedance \<Rightarrow> (case p of PLeast q \<Rightarrow> li_inv ds q | _ \<Rightarrow> False)
    | RoundRobin \<Rightarrow> (case p of PRound q \<Rightarrow> rr_inv ds q | _ \<Rightarrow> False)
    | ProportionalFairness \<Rightarrow> (case p of PFair q \<Rightarrow> pf_inv a b ds q | _ \<Rightarrow> False))"

definition any_del_ok :: "element list \<Rightarrow> policy \<Rightarrow> string \<Rightarrow> bool" where
  "any_del_ok ds p d = (case p of
      PRandom _ \<Rightarrow> True
    | PLeast q \<Rightarrow> q \<noteq> Some d
    | PRound q \<Rightarrow> rr_del_ok ds q d
    | PFair _ \<Rightarrow> True)"

definition ok_env :: "env \<Rightarrow> bool" where
  "ok_env E \<longleftrightarrow> summary_stat_ok (env_stat E)"

lemmas any_defs = any_hooks_def any_select_def any_updateWeight_def any_updateAddDest_def
  any_updateDelDest_def any_inv_def any_del_ok_def lift_sel_def lift_upd_def ok_env_def

lemma any_inv_cases:
  assumes "any_inv t a b ds p"
  obtains q where "t = Random" "p = PRandom q"
    | q where "t = LeastImpedance" "p = PLeast q" "li_inv ds q"
    | q where "t = RoundRobin" "p = PRound q" "rr_inv ds q"
    | q where "t = ProportionalFairness" "p = PFair q" "pf_inv a b ds q"
  using assms by (cases t; cases p) (auto simp: any_inv_def)

interpretation any: entry_policy any_hooks ok_env "any_inv t a b" any_del_ok "new_policy t a b"
proof (unfold_locales, goal_cases)
  case 1
  then show ?case
    using rr.pinv_init pf.pinv_init
    by (cases t) (auto simp: any_inv_def new_policy_def)
next
  case (2 E ds x p)
  note prem = this
  then have inv: "any_inv t a b ds p" by simp
  show ?case
  proof (cases rule: any_inv_cases[OF inv])
    case (1 q)
    then show ?thesis using prem rnd_any.add_law[where p = q and E = E and ds = ds and x = x] by (auto simp: any_defs)
  next
    case (2 q)
    then show ?thesis using prem li.add_law[where p = q and E = E and ds = ds and x = x] by (auto simp: any_defs)
  next
    case (3 q)
    then show ?thesis using prem rr.add_law[where p = q and E = E and ds = ds and x = x] by (auto simp: any_defs)
  next
    case (4 q)
    then show ?thesis using prem pf.add_law[where a = a and b = b and p = q and E = E and ds = ds and x = x] by (auto simp: any_defs)
  qed
next
  case (3 E ds d x w p f)
  note prem = this
  then have inv: "any_inv t a b ds p" by simp
  show ?case
  proof (cases rule: any_inv_cases[OF inv])
    case (1 q)
    then show ?thesis using prem rnd_any.weight_law[where p = q and E = E and ds = ds and d = d and x = x and w = w and f = f] by (auto simp: any_defs)
  next
    case (2 q)
    then show ?thesis using prem li.weight_law[where p = q and E = E and ds = ds and d = d and x = x and w = w and f = f] by (auto simp: any_defs)
  next
    case (3 q)
    then show ?thesis using prem rr.weight_law[where p = q and E = E and ds = ds and d = d and x = x and w = w and f = f] by (auto simp: any_defs)
  next
    case (4 q)
    then show ?thesis using prem pf.weight_law[where a = a and b = b and p = q and E = E and ds = ds and d = d and x = x and w = w and f = f] by (auto simp: any_defs)
  qed
next
  case (4 E ds d x p)
  note prem = this
  then have inv: "any_inv t a b ds p" by simp
  show ?case
  proof (cases rule: any_inv_cases[OF inv])
    case (1 q)
    then show ?thesis using prem rnd_any.del_law[where p = q and E = E and ds = ds and d = d and x = x] by (auto simp: any_defs)
  next
    case (2 q)
    then show ?thesis using prem li.del_law[where p = q and E = E and ds = ds and d = d and x = x] by (auto simp: any_defs)
  next
    case (3 q)
    then show ?thesis using prem rr.del_law[where p = q and E = E and ds = ds and d = d and x = x] by (auto simp: any_defs)
  next
    case (4 q)
    then show ?thesis using prem pf.del_law[where a = a and b = b and p = q and E = E and ds = ds and d = d and x = x] by (auto simp: any_defs)
  qed
next
  case (5 E ds p)
  note prem = this
  then have inv: "any_inv t a b ds p" by simp
  show ?case
  proof (cases rule: any_inv_cases[OF inv])
    case (1 q)
    then show ?thesis using prem rnd_any.select_law[where p = q and E = E and ds = ds] by (auto simp: any_defs)
  next
    case (2 q)
    then show ?thesis using prem li.select_law[where p = q and E = E and ds = ds] by (auto simp: any_defs)
  next
    case (3 q)
    then show ?thesis using prem rr.select_law[where p = q and E = E and ds = ds] by (auto simp: any_defs)
  next
    case (4 q)
    then show ?thesis using prem pf.select_law[where a = a and b = b and p = q and E = E and ds = ds] by (auto simp: any_defs)
  qed
next
  case (6 p E)
  note prem = this
  then have inv: "any_inv t a b [] p" by simp
  show ?case
  proof (cases rule: any_inv_cases[OF inv])
    case (1 q)
    then show ?thesis using prem rnd_any.select_empty_law[where p = q and E = E] by (auto simp: any_defs)
  next
    case (2 q)
    then show ?thesis using prem li.select_empty_law[where p = q and E = E] by (auto simp: any_defs)
  next
    case (3 q)
    then show ?thesis using prem rr.select_empty_law[where p = q and E = E] by (auto simp: any_defs)
  next
    case (4 q)
    then show ?thesis using prem pf.select_empty_law[where a = a and b = b and p = q and E = E] by (auto simp: any_defs)
  qed
qed

section \<open>The table as a nested dictionary\<close>

text \<open>
  The specification of a forwarding table: a map from lambdas to maps from destinations to weights and
  final flags. The invariant of the table: the entries keep the contract of the table's policy and none
  is empty.
\<close>

type_synonym ft_spec = "string \<rightharpoonup> (string \<rightharpoonup> real \<times> bool)"

abbreviation ft_pinv :: "fwd_table \<Rightarrow> element list \<Rightarrow> policy \<Rightarrow> bool" where
  "ft_pinv T \<equiv> any_inv (theType T) (ft_alpha T) (ft_beta T)"

definition ft_inv :: "fwd_table \<Rightarrow> bool" where
  "ft_inv T \<longleftrightarrow> mwf (theTable T) \<and>
     (\<forall>l e. map_of (theTable T) l = Some e \<longrightarrow> entry_inv (ft_pinv T) e \<and> \<not> entry_empty e)"

definition ft_abs :: "fwd_table \<Rightarrow> ft_spec" where
  "ft_abs T l = map_option (\<lambda>e. dest_map (theDestinations e)) (map_of (theTable T) l)"

definition ft_rem_ok :: "fwd_table \<Rightarrow> string \<Rightarrow> string \<Rightarrow> bool" where
  "ft_rem_ok T l d \<longleftrightarrow> (case map_of (theTable T) l of None \<Rightarrow> True
     | Some e \<Rightarrow> d \<in> dests_of (theDestinations e) \<longrightarrow> any_del_ok (theDestinations e) (thePolicy e) d)"

definition spec_change :: "string \<Rightarrow> string \<Rightarrow> real \<times> bool \<Rightarrow> ft_spec \<Rightarrow> ft_spec" where
  "spec_change l d v A = A(l \<mapsto> (case A l of None \<Rightarrow> Map.empty | Some m \<Rightarrow> m)(d \<mapsto> v))"

definition spec_remove :: "string \<Rightarrow> string \<Rightarrow> ft_spec \<Rightarrow> ft_spec" where
  "spec_remove l d A = (case A l of None \<Rightarrow> A
     | Some m \<Rightarrow> A(l := (if dom m - {d} = {} then None else Some (m(d := None)))))"

lemma ft_put_sel [simp]:
  "theType (ft_put l e T) = theType T" "ft_alpha (ft_put l e T) = ft_alpha T"
  "ft_beta (ft_put l e T) = ft_beta T" "theTable (ft_put l e T) = mput l e (theTable T)"
  by (simp_all add: ft_put_def)

lemma ft_inv_put:
  "ft_inv T \<Longrightarrow> entry_inv (ft_pinv T) e \<Longrightarrow> \<not> entry_empty e \<Longrightarrow> ft_inv (ft_put l e T)"
  by (auto simp: ft_inv_def)

lemma ft_inv_erase: "ft_inv T \<Longrightarrow> ft_inv (T\<lparr>theTable := merase l (theTable T)\<rparr>)"
  by (auto simp: ft_inv_def split: if_splits)

lemma ft_abs_put: "ft_abs (ft_put l e T) = (ft_abs T)(l \<mapsto> dest_map (theDestinations e))"
  by (auto simp: ft_abs_def fun_eq_iff)

lemma ft_abs_erase: "ft_abs (T\<lparr>theTable := merase l (theTable T)\<rparr>) = (ft_abs T)(l := None)"
  by (auto simp: ft_abs_def fun_eq_iff)

lemma new_entry_inv: "entry_inv (ft_pinv T) (new_entry T)"
  by (simp add: entry_inv_def new_entry_def any.pinv_init)

lemma entry_not_empty_map: "dest_map (theDestinations e) \<noteq> Map.empty \<Longrightarrow> \<not> entry_empty e"
  by (auto simp: entry_empty_def)

lemma ft_change_sim:
  assumes "ok_env E" and "ft_inv T" and "d \<noteq> []" and "0 < w"
  shows "\<exists>T'. ft_change E l d w f T = (Inr (), T') \<and> ft_inv T' \<and> ft_abs T' = spec_change l d (w, f) (ft_abs T)"
proof -
  let ?e = "case map_of (theTable T) l of None \<Rightarrow> new_entry T | Some e \<Rightarrow> e"
  have inv: "entry_inv (ft_pinv T) ?e"
    using assms(2) new_entry_inv by (auto simp: ft_inv_def split: option.split)
  obtain e' where e': "entry_change any_hooks E d w f ?e = (Inr (), e')" "entry_inv (ft_pinv T) e'"
    "dest_map (theDestinations e') = (dest_map (theDestinations ?e))(d \<mapsto> (w, f))"
    using any.change_ok[OF assms(1) inv assms(3,4)] by blast
  have "\<not> entry_empty e'" using e'(3) by (intro entry_not_empty_map) simp
  then have "ft_inv (ft_put l e' T)" using ft_inv_put assms(2) e'(2) by blast
  moreover have "ft_abs (ft_put l e' T) = spec_change l d (w, f) (ft_abs T)"
    unfolding ft_abs_put e'(3) spec_change_def
    by (auto simp: ft_abs_def new_entry_def split: option.split)
  ultimately show ?thesis using e'(1) assms(4) by (simp add: ft_change_def Let_def)
qed

lemma ft_change_weight_sim:
  assumes "ok_env E" and "ft_inv T" and "d \<noteq> []" and "0 < w"
    and "ft_abs T l = Some m" and "m d = Some (w0, f)"
  shows "\<exists>T'. ft_change_weight E l d w T = (Inr (), T') \<and> ft_inv T' \<and> ft_abs T' = (ft_abs T)(l \<mapsto> m(d \<mapsto> (w, f)))"
proof -
  obtain e where e: "map_of (theTable T) l = Some e" "dest_map (theDestinations e) = m"
    using assms(5) by (auto simp: ft_abs_def)
  have inv: "entry_inv (ft_pinv T) e" using assms(2) e(1) by (auto simp: ft_inv_def)
  obtain e' where e': "entry_change_weight any_hooks E d w e = (Inr (), e')" "entry_inv (ft_pinv T) e'"
    "dest_map (theDestinations e') = m(d \<mapsto> (w, f))"
    using any.change_weight_ok[OF assms(1) inv assms(3,4)] assms(6) e(2) by blast
  have "\<not> entry_empty e'" using e'(3) by (intro entry_not_empty_map) simp
  then show ?thesis using assms(2-4) e e' by (simp add: ft_change_weight_def Let_def ft_inv_put ft_abs_put)
qed

lemma ft_multiply_sim:
  assumes "ok_env E" and "ft_inv T" and "d \<noteq> []" and "0 < k"
    and "ft_abs T l = Some m" and "m d = Some (w, f)" and "0 < env_fl E (w * k)"
  shows "\<exists>T'. ft_multiply E l d k T = (Inr (), T') \<and> ft_inv T' \<and>
    ft_abs T' = (ft_abs T)(l \<mapsto> m(d \<mapsto> (env_fl E (w * k), f)))"
proof -
  obtain e where e: "map_of (theTable T) l = Some e" "dest_map (theDestinations e) = m"
    using assms(5) by (auto simp: ft_abs_def)
  have inv: "entry_inv (ft_pinv T) e" using assms(2) e(1) by (auto simp: ft_inv_def)
  obtain e' where e': "entry_change_weight any_hooks E d (env_fl E (w * k)) e = (Inr (), e')"
    "entry_inv (ft_pinv T) e'" "dest_map (theDestinations e') = m(d \<mapsto> (env_fl E (w * k), f))"
    using any.change_weight_ok[OF assms(1) inv assms(3,7)] assms(6) e(2) by blast
  have "entry_weight d e = Inr w" using assms(3,6) e(2) by (simp add: entry_weight_map)
  moreover have "\<not> entry_empty e'" using e'(3) by (intro entry_not_empty_map) simp
  ultimately show ?thesis using assms(2-4) e e' by (simp add: ft_multiply_def Let_def ft_inv_put ft_abs_put)
qed

lemma ft_remove_sim:
  assumes "ok_env E" and "ft_inv T" and "ft_rem_ok T l d"
  shows "\<exists>T'. ft_remove E l d T = (Inr (), T') \<and> ft_inv T' \<and> ft_abs T' = spec_remove l d (ft_abs T)"
proof (cases "map_of (theTable T) l")
  case None
  then show ?thesis using assms(2) by (simp add: ft_remove_def spec_remove_def ft_abs_def)
next
  case (Some e)
  have inv: "entry_inv (ft_pinv T) e" using assms(2) Some by (auto simp: ft_inv_def)
  obtain e' where e': "entry_remove any_hooks E d e = (Inr (d \<in> dests_of (theDestinations e)), e')"
    "entry_inv (ft_pinv T) e'" "dest_map (theDestinations e') = (dest_map (theDestinations e))(d := None)"
    using any.remove_ok[OF assms(1) inv, of d] assms(3) Some by (auto simp: ft_rem_ok_def)
  have abs: "ft_abs T l = Some (dest_map (theDestinations e))" using Some by (simp add: ft_abs_def)
  have "entry_empty e' \<longleftrightarrow> dom (dest_map (theDestinations e')) = {}"
    by (simp add: dom_dest_map entry_empty_def del: dom_eq_empty_conv)
  also have "\<dots> \<longleftrightarrow> dom (dest_map (theDestinations e)) - {d} = {}"
    unfolding e'(3) by auto
  finally show ?thesis using Some e' assms(2) abs
    by (auto simp: ft_remove_def spec_remove_def ft_inv_erase ft_abs_erase ft_inv_put ft_abs_put
        simp del: dom_eq_empty_conv)
qed

lemma ft_remove_lambda_sim:
  "ft_inv T \<Longrightarrow> ft_inv (ft_remove_lambda l T) \<and> ft_abs (ft_remove_lambda l T) = (ft_abs T)(l := None)"
  by (simp add: ft_remove_lambda_def ft_inv_erase ft_abs_erase)

lemma ft_select_sim:
  assumes "ok_env E" and "ft_inv T"
  shows "case ft_abs T l of
      None \<Rightarrow> ft_select E l T = (Inl (NoDestinations None), T)
    | Some m \<Rightarrow> \<exists>d T'. ft_select E l T = (Inr d, T') \<and> d \<in> dom m \<and> ft_inv T' \<and> ft_abs T' = ft_abs T"
proof (cases "map_of (theTable T) l")
  case None
  then show ?thesis by (simp add: ft_abs_def ft_select_def)
next
  case (Some e)
  have inv: "entry_inv (ft_pinv T) e" "\<not> entry_empty e" using assms(2) Some by (auto simp: ft_inv_def)
  obtain d e' where e': "entry_select any_hooks E e = (Inr d, e')" "d \<in> dests_of (theDestinations e)"
    "entry_inv (ft_pinv T) e'" "theDestinations e' = theDestinations e"
    using any.select_ok[OF assms(1) inv] by blast
  have "\<not> entry_empty e'" using inv(2) e'(4) by (simp add: entry_empty_def)
  then have "ft_inv (ft_put l e' T)" using ft_inv_put assms(2) e'(3) by blast
  moreover have "ft_abs (ft_put l e' T) = ft_abs T"
    using Some e'(4) by (auto simp: ft_abs_put ft_abs_def fun_eq_iff)
  ultimately show ?thesis
    using Some e' by (simp add: ft_abs_def ft_select_def dom_dest_map)
qed

section \<open>Reading the table\<close>

lemma mput_append: "\<forall>k'\<in>fst ` set m. k' < k \<Longrightarrow> mput k v m = m @ [(k, v)]"
  by (induction m) auto

lemma mput_mput [simp]: "mwf m \<Longrightarrow> mput k v (mput k v' m) = mput k v m"
  by (rule smap_ext) auto

lemma foldl_mput_append:
  "mwf (m @ xs) \<Longrightarrow> foldl (\<lambda>i (d, v). mput d v i) m xs = m @ xs"
proof (induction xs arbitrary: m)
  case Nil
  then show ?case by simp
next
  case (Cons x xs)
  obtain d v where x: "x = (d, v)" by (cases x)
  have "mput d v m = m @ [(d, v)]"
    using Cons.prems by (intro mput_append) (auto simp: sorted_wrt_append x)
  then show ?case using Cons.IH[of "m @ [x]"] Cons.prems by (simp add: x)
qed

lemma foldl_tab_put:
  assumes "ds \<noteq> []" and "mwf m"
  shows "foldl (\<lambda>m (d, v). tab_put l d v m) m ds =
    mput l (foldl (\<lambda>i (d, v). mput d v i) (case map_of m l of None \<Rightarrow> [] | Some i \<Rightarrow> i) ds) m"
  using assms
proof (induction ds arbitrary: m)
  case Nil
  then show ?case by simp
next
  case (Cons x ds)
  obtain d v where x: "x = (d, v)" by (cases x)
  show ?case
  proof (cases "ds = []")
    case True
    then show ?thesis by (simp add: x tab_put_def)
  next
    case False
    have "mwf (tab_put l d v m)" using Cons.prems by (simp add: tab_put_def)
    from Cons.IH[OF False this] show ?thesis using Cons.prems by (simp add: x tab_put_def)
  qed
qed

lemma ft_fullTable_fold:
  assumes "mwf m" and "sorted_wrt (<) (map fst m @ map fst tab)"
    and "\<forall>p\<in>set tab. dests_wf (theDestinations (snd p)) \<and> \<not> entry_empty (snd p)"
  shows "foldl (\<lambda>m (l, e). foldl (\<lambda>m (d, v). tab_put l d v m) m (entry_destinations e)) m tab =
    m @ map (\<lambda>(l, e). (l, entry_destinations e)) tab"
  using assms
proof (induction tab arbitrary: m)
  case Nil
  then show ?case by simp
next
  case (Cons x tab)
  obtain l e where x: "x = (l, e)" by (cases x)
  have e: "dests_wf (theDestinations e)" "\<not> entry_empty e" using Cons.prems(3) x by auto
  then have ed: "entry_destinations e \<noteq> []" "mwf (entry_destinations e)"
    using entry_destinations_empty entry_destinations_map by auto
  have lt: "\<forall>k\<in>fst ` set m. k < l" using Cons.prems(2) by (auto simp: sorted_wrt_append x)
  then have "map_of m l = None" by (auto simp: map_of_eq_None_iff)
  then have step: "foldl (\<lambda>m (d, v). tab_put l d v m) m (entry_destinations e) =
      m @ [(l, entry_destinations e)]"
    using foldl_tab_put[OF ed(1) Cons.prems(1), of l] foldl_mput_append[of "[]"] ed(2) mput_append[OF lt]
    by simp
  have "mwf (m @ [(l, entry_destinations e)])" "sorted_wrt (<) (map fst (m @ [(l, entry_destinations e)]) @ map fst tab)"
    using Cons.prems(1,2) by (auto simp: sorted_wrt_append x)
  from Cons.IH[OF this] Cons.prems(3) show ?case by (simp add: x step)
qed

lemma ft_fullTable_eq:
  assumes "ft_inv T"
  shows "ft_fullTable T = map (\<lambda>(l, e). (l, entry_destinations e)) (theTable T)"
proof -
  have "map_of (theTable T) l = Some e" if "(l, e) \<in> set (theTable T)" for l e
    using assms that mwf_distinct[of "theTable T"] by (simp add: ft_inv_def)
  then have "\<forall>p\<in>set (theTable T). dests_wf (theDestinations (snd p)) \<and> \<not> entry_empty (snd p)"
    using assms unfolding ft_inv_def entry_inv_def by (metis prod.collapse)
  then show ?thesis using ft_fullTable_fold[of "[]" "theTable T"] assms
    by (simp add: ft_fullTable_def ft_inv_def)
qed

lemma ft_lambdas_set: "set (ft_lambdas T) = fst ` set (theTable T) \<and> swf (ft_lambdas T)"
proof -
  have "set (foldl (\<lambda>s p. sinsert (fst p) s) s xs) = set s \<union> fst ` set xs \<and>
    (swf s \<longrightarrow> swf (foldl (\<lambda>s p. sinsert (fst p) s) s xs))" for s :: "string sset" and xs :: "(string \<times> 'a) list"
    by (induction xs arbitrary: s) auto
  from this[of "[]" "theTable T"] show ?thesis by (simp add: ft_lambdas_def)
qed

text \<open>The view of the contents as a nested map of a full table.\<close>

definition full_table_map :: "full_table \<Rightarrow> ft_spec" where
  "full_table_map m l = map_option map_of (map_of m l)"

lemma ft_fullTable_map:
  assumes "ft_inv T"
  shows "full_table_wf (ft_fullTable T) \<and> full_table_map (ft_fullTable T) = ft_abs T"
proof -
  have m: "map_of (ft_fullTable T) l = map_option entry_destinations (map_of (theTable T) l)" for l
    by (simp add: ft_fullTable_eq[OF assms])
  have e: "mwf (entry_destinations e) \<and> entry_destinations e \<noteq> [] \<and>
      map_of (entry_destinations e) = dest_map (theDestinations e)"
    if "map_of (theTable T) l = Some e" for l e
    using assms that entry_destinations_map[of e] entry_destinations_empty[of e]
    by (auto simp: ft_inv_def entry_inv_def)
  have "mwf (ft_fullTable T)"
    using assms by (simp add: ft_fullTable_eq ft_inv_def del: map_map)
  then have "full_table_wf (ft_fullTable T)" using e by (auto simp: full_table_wf_def m)
  moreover have "full_table_map (ft_fullTable T) l = ft_abs T l" for l
    using e[of l] by (cases "map_of (theTable T) l") (auto simp: full_table_map_def m ft_abs_def)
  ultimately show ?thesis by auto
qed

section \<open>The table implements the interface\<close>

definition ft_iface :: "fwd_table ft_if" where
  "ft_iface = \<lparr>if_change = ft_change, if_change_weight = ft_change_weight, if_remove = ft_remove,
     if_remove_lambda = (\<lambda>E l T. (Inr (), ft_remove_lambda l T)),
     if_lambdas = ft_lambdas, if_fullTable = ft_fullTable\<rparr>"

definition ft_dests :: "fwd_table \<Rightarrow> string \<Rightarrow> string set" where
  "ft_dests T l = (case ft_abs T l of None \<Rightarrow> {} | Some m \<Rightarrow> dom m)"

lemma ft_dests_change: "ft_abs T' = spec_change l d v (ft_abs T) \<Longrightarrow>
    ft_dests T' = (ft_dests T)(l := insert d (ft_dests T l))"
  by (auto simp: ft_dests_def spec_change_def fun_eq_iff split: option.split)

lemma ft_dests_remove: "ft_abs T' = spec_remove l d (ft_abs T) \<Longrightarrow>
    ft_dests T' = (ft_dests T)(l := ft_dests T l - {d})"
  by (rule ext, cases "ft_abs T l") (auto simp: ft_dests_def spec_remove_def)

lemma ft_abs_nonempty: "ft_inv T \<Longrightarrow> ft_abs T l = Some m \<Longrightarrow> dom m \<noteq> {}"
  by (auto simp: ft_inv_def ft_abs_def dom_dest_map entry_empty_def simp del: dom_eq_empty_conv)

interpretation ft: forwarding_table_if ft_iface ok_env ft_inv ft_dests ft_rem_ok
proof (unfold_locales, goal_cases)
  case (1 E s d w l f)
  then obtain T' where "ft_change E l d w f s = (Inr (), T')" "ft_inv T'"
    "ft_abs T' = spec_change l d (w, f) (ft_abs s)"
    using ft_change_sim by blast
  then show ?case using ft_dests_change by (auto simp: ft_iface_def)
next
  case (2 E s l d)
  then obtain T' where "ft_remove E l d s = (Inr (), T')" "ft_inv T'"
    "ft_abs T' = spec_remove l d (ft_abs s)"
    using ft_remove_sim by blast
  then show ?case using ft_dests_remove by (auto simp: ft_iface_def)
next
  case (3 E s l)
  then show ?case using ft_remove_lambda_sim[of s l] by (auto simp: ft_iface_def ft_dests_def fun_eq_iff)
next
  case (4 s)
  have "{l. ft_dests s l \<noteq> {}} = fst ` set (theTable s)"
  proof -
    have "ft_dests s l \<noteq> {} \<longleftrightarrow> (\<exists>e. map_of (theTable s) l = Some e)" for l
    proof (cases "map_of (theTable s) l")
      case None
      then show ?thesis by (simp add: ft_dests_def ft_abs_def)
    next
      case (Some e)
      then have "ft_abs s l = Some (dest_map (theDestinations e))" by (simp add: ft_abs_def)
      from ft_abs_nonempty[OF 4 this] this show ?thesis using Some
        by (simp add: ft_dests_def del: dom_eq_empty_conv)
    qed
    then show ?thesis using in_fst_set_iff[of _ "theTable s"] by blast
  qed
  then show ?case using ft_lambdas_set[of s] by (simp add: ft_iface_def)
next
  case (5 s)
  have "full_table_dests (ft_fullTable s) l = ft_dests s l" for l
  proof -
    have "ft_abs s l = full_table_map (ft_fullTable s) l" using ft_fullTable_map[OF 5] by simp
    then show ?thesis
      by (cases "map_of (ft_fullTable s) l")
         (auto simp: full_table_dests_def ft_dests_def full_table_map_def dom_map_of_conv_image_fst)
  qed
  then show ?case using ft_fullTable_map[OF 5] by (auto simp: ft_iface_def)
qed

section \<open>Properties\<close>

text \<open>
  The states a table of a given type can reach through calls with valid arguments, beside the contents
  it should have. The guards are those of the code; removals are those whose policy hook is defined.
\<close>

inductive ft_reach :: "ft_type \<Rightarrow> real \<Rightarrow> real \<Rightarrow> fwd_table \<Rightarrow> ft_spec \<Rightarrow> bool" for t a b where
  created: "ft_reach t a b (ft_new t a b) Map.empty"
| changed: "\<lbrakk>ft_reach t a b T A; ok_env E; d \<noteq> []; 0 < w\<rbrakk> \<Longrightarrow>
    ft_reach t a b (snd (ft_change E l d w f T)) (spec_change l d (w, f) A)"
| rejected: "\<lbrakk>ft_reach t a b T A; w < 0\<rbrakk> \<Longrightarrow> ft_reach t a b (snd (ft_change E l d w f T)) A"
| reweighted: "\<lbrakk>ft_reach t a b T A; ok_env E; d \<noteq> []; 0 < w; A l = Some m; m d = Some (w0, f)\<rbrakk> \<Longrightarrow>
    ft_reach t a b (snd (ft_change_weight E l d w T)) (A(l \<mapsto> m(d \<mapsto> (w, f))))"
| multiplied: "\<lbrakk>ft_reach t a b T A; ok_env E; d \<noteq> []; 0 < k; A l = Some m; m d = Some (w, f);
      0 < env_fl E (w * k)\<rbrakk> \<Longrightarrow>
    ft_reach t a b (snd (ft_multiply E l d k T)) (A(l \<mapsto> m(d \<mapsto> (env_fl E (w * k), f))))"
| removed: "\<lbrakk>ft_reach t a b T A; ok_env E; ft_rem_ok T l d\<rbrakk> \<Longrightarrow>
    ft_reach t a b (snd (ft_remove E l d T)) (spec_remove l d A)"
| removed_lambda: "ft_reach t a b T A \<Longrightarrow> ft_reach t a b (ft_remove_lambda l T) (A(l := None))"
| selected: "\<lbrakk>ft_reach t a b T A; ok_env E\<rbrakk> \<Longrightarrow> ft_reach t a b (snd (ft_select E l T)) A"

lemma ft_inv_new: "ft_inv (ft_new t a b)" "ft_abs (ft_new t a b) = Map.empty"
  by (auto simp: ft_inv_def ft_new_def ft_abs_def)

lemma ft_reach_inv: "ft_reach t a b T A \<Longrightarrow> ft_inv T \<and> ft_abs T = A"
proof (induction rule: ft_reach.induct)
  case created
  then show ?case by (simp add: ft_inv_new)
next
  case (changed T A E d w l f)
  then show ?case using ft_change_sim[of E T d w l f] by auto
next
  case (rejected T A w E l d f)
  then show ?case by (simp add: ft_change_def)
next
  case (reweighted T A E d w l m w0 f)
  then show ?case using ft_change_weight_sim[of E T d w l m w0 f] by auto
next
  case (multiplied T A E d k l m w f)
  then show ?case using ft_multiply_sim[of E T d k l m w f] by auto
next
  case (removed T A E l d)
  then show ?case using ft_remove_sim[of E T l d] by auto
next
  case (removed_lambda T A l)
  then show ?case using ft_remove_lambda_sim by auto
next
  case (selected T A E l)
  then show ?case using ft_select_sim[of E T l] by (cases "ft_abs T l") auto
qed


text \<open>A table with the destinations of the concrete entry, for any policy.\<close>

definition ft_ex :: "ft_type \<Rightarrow> fwd_table" where
  "ft_ex t = snd (ft_change (env_ex 0 0) ''f'' ''b'' 2 True
     (snd (ft_change (env_ex 0 0) ''f'' ''a'' 1 True (ft_new t 1 1))))"

lemma ok_env_ex: "ok_env (env_ex now r)"
  by (simp add: ok_env_def env_ex_def stat_ex_ok)

definition spec_ex :: ft_spec where
  "spec_ex = spec_change ''f'' ''b'' (2, True) (spec_change ''f'' ''a'' (1, True) Map.empty)"

lemma ft_ex_reach: "ft_reach t 1 1 (ft_ex t) spec_ex"
  unfolding ft_ex_def spec_ex_def by (intro ft_reach.changed ft_reach.created ok_env_ex) simp_all

lemma ft_ex_inv: "ft_inv (ft_ex t)" "ft_abs (ft_ex t) = spec_ex"
  using ft_reach_inv[OF ft_ex_reach] by auto


text \<open>
  A change with weight 0 passes the check for negative weights of \<open>ForwardingTable::change\<close> and is
  refused only by the entry, with \<open>InvalidDestination\<close> and not the documented \<open>InvalidWeight\<close>, after an
  entry was created for a new lambda: the table then lists a lambda for which no destination exists.
\<close>

theorem change_zero_weight_leaves_empty_entry:
  assumes "ft_inv T" and "ft_abs T l = None"
  shows "\<exists>T'. ft_change E l d 0 f T = (Inl (InvalidDestination d 0), T') \<and>
    l \<in> set (ft_lambdas T') \<and> ft_destinations l T' = [] \<and>
    fst (ft_select E l T') = Inl (NoDestinations None)"
proof -
  let ?e = "new_entry T"
  have n: "map_of (theTable T) l = None" using assms(2) by (simp add: ft_abs_def)
  have "entry_change any_hooks E d 0 f ?e = (Inl (InvalidDestination d 0), ?e)"
    by (simp add: entry_change_def)
  then have c: "ft_change E l d 0 f T = (Inl (InvalidDestination d 0), ft_put l ?e T)"
    using n by (simp add: ft_change_def)
  have "entry_select any_hooks E ?e = (Inl (NoDestinations None), ?e)"
    using any.select_empty[OF new_entry_inv] by (simp add: entry_empty_def new_entry_def)
  then have "fst (ft_select E l (ft_put l ?e T)) = Inl (NoDestinations None)"
    by (simp add: ft_select_def)
  then show ?thesis using c ft_lambdas_set[of "ft_put l ?e T"]
    by (simp add: ft_destinations_def entry_destinations_def new_entry_def)
qed

theorem change_zero_weight_leaves_empty_entry_witness:
  "\<exists>T'. ft_change (env_ex 0 0) ''f'' ''a'' 0 True (ft_new Random 0 0) = (Inl (InvalidDestination ''a'' 0), T') \<and>
    ''f'' \<in> set (ft_lambdas T') \<and> ft_destinations ''f'' T' = [] \<and>
    fst (ft_select (env_ex 0 0) ''f'' T') = Inl (NoDestinations None)"
  by (rule change_zero_weight_leaves_empty_entry) (simp_all add: ft_inv_new)

text \<open>
  The name of every table type is read back as that type, and the factory builds, from any of the
  four names, an empty table of that type.
\<close>

theorem type_name_roundtrip:
  "forwardingTableTypeFromString (ft_toString t) = Inr t \<and>
   (\<exists>a b. ft_factory_make (\<lambda>k. Inr (ft_toString t)) (\<lambda>k. Inr 1) = Inr (ft_new t a b))"
  by (cases t) (auto simp: forwardingTableTypeFromString_def ft_toString_def ft_factory_make_def)

end
