(* ===== verification/ForwardingTableServer.thy ===== *)
theory ForwardingTableServer
  imports ForwardingTable
begin

text \<open>
  The configuration service of an edge router: \<open>Edge/forwardingtableserver.cpp\<close> (the gRPC handlers,
  which drive one or two objects with the forwarding-table interface), \<open>forwardingtableclient.cpp\<close> (its
  client) and the route commands of \<open>edgecontrollerrpc.h\<close>, which a controller uses to configure the
  routers.

  The messages are records with the fields of \<open>Rpc/edgerouter.proto\<close>. The gRPC channel is a parameter:
  \<open>net n\<close> says whether the \<open>n\<close>-th call is delivered (a call that is not makes \<open>rpc::checkStatus\<close>
  throw). In a handler \<open>E i\<close> is the environment in which the \<open>i\<close>-th table runs; in a sequence of calls
  \<open>E n i\<close> is that of the \<open>n\<close>-th call.
\<close>

section \<open>Messages\<close>

datatype conf_action = FLUSH | CHANGE | REMOVE | OtherAction int

record edge_router_conf =
  cf_action :: conf_action
  cf_lambda :: string
  cf_destination :: string
  cf_weight :: real
  cf_final :: bool

record table_entry =
  te_lambda :: string
  te_destination :: string
  te_weight :: real
  te_final :: bool

text \<open>The message of the reply: \<open>OK\<close>, or \<open>Error:\<close> and the description of the exception caught.\<close>

datatype conf_reply = ReplyOK | ReplyError exn

section \<open>Server\<close>

text \<open>A loop over the tables, which stops at the first exception.\<close>

fun for_tables :: "(nat \<Rightarrow> 's \<Rightarrow> (exn + unit) \<times> 's) \<Rightarrow> nat \<Rightarrow> 's list \<Rightarrow> (exn + unit) \<times> 's list" where
  "for_tables f i [] = (Inr (), [])"
| "for_tables f i (t # ts) =
     (case f i t of
        (Inl e, t') \<Rightarrow> (Inl e, t' # ts)
      | (Inr _, t') \<Rightarrow> (let (r, ts') = for_tables f (Suc i) ts in (r, t' # ts')))"

definition flush_table :: "'s ft_if \<Rightarrow> env \<Rightarrow> 's \<Rightarrow> (exn + unit) \<times> 's" where
  "flush_table I E t = sfor (if_lambdas I t) (if_remove_lambda I E) t"

definition srv_Configure ::
  "'s ft_if \<Rightarrow> (nat \<Rightarrow> env) \<Rightarrow> edge_router_conf \<Rightarrow> 's list \<Rightarrow> conf_reply \<times> 's list" where
  "srv_Configure I E req ts =
     (let (r, ts') =
        (case cf_action req of
           FLUSH \<Rightarrow> for_tables (\<lambda>i. flush_table I (E i)) 0 ts
         | CHANGE \<Rightarrow>
             (if length ts = 1 \<or> length ts = 2 then
                for_tables (\<lambda>i t.
                  if length ts = 1 \<or> i = 0 \<or> cf_final req
                  then if_change I (E i) (cf_lambda req) (cf_destination req) (cf_weight req) (cf_final req) t
                  else (Inr (), t)) 0 ts
              else (Inl (Undefined ''theTables.size() == 1 or theTables.size() == 2''), ts))
         | REMOVE \<Rightarrow> for_tables (\<lambda>i. if_remove I (E i) (cf_lambda req) (cf_destination req)) 0 ts
         | OtherAction n \<Rightarrow>
             (Inl (RuntimeError ''Invalid action found in the configuration of a forwarding table''), ts))
      in (case r of Inr _ \<Rightarrow> ReplyOK | Inl e \<Rightarrow> ReplyError e, ts'))"

definition mk_entry :: "string \<Rightarrow> string \<times> real \<times> bool \<Rightarrow> table_entry" where
  "mk_entry l v = \<lparr>te_lambda = l, te_destination = fst v, te_weight = fst (snd v), te_final = snd (snd v)\<rparr>"

definition srv_GetTable :: "'s ft_if \<Rightarrow> nat \<Rightarrow> 's list \<Rightarrow> table_entry list" where
  "srv_GetTable I myTableId ts =
     (if myTableId < length ts
      then concat (map (\<lambda>(l, row). map (mk_entry l) row) (if_fullTable I (ts ! myTableId)))
      else [])"

definition srv_GetNumTables :: "'s list \<Rightarrow> nat" where
  "srv_GetNumTables ts = length ts"

section \<open>Client\<close>

definition client_insert :: "full_table \<Rightarrow> table_entry \<Rightarrow> full_table" where
  "client_insert m e =
     (let v = (te_weight e, te_final e)
      in case map_of m (te_lambda e) of
           None \<Rightarrow> mput (te_lambda e) [(te_destination e, v)] m
         | Some i \<Rightarrow> mupd (te_lambda e) (\<lambda>i. memplace (te_destination e) v i) m)"

definition client_table :: "table_entry list \<Rightarrow> full_table" where
  "client_table es = foldl client_insert [] es"

definition msg_flush :: edge_router_conf where
  "msg_flush = \<lparr>cf_action = FLUSH, cf_lambda = [], cf_destination = [], cf_weight = 0, cf_final = False\<rparr>"

definition msg_change :: "string \<Rightarrow> string \<Rightarrow> real \<Rightarrow> bool \<Rightarrow> edge_router_conf" where
  "msg_change l d w f = \<lparr>cf_action = CHANGE, cf_lambda = l, cf_destination = d, cf_weight = w, cf_final = f\<rparr>"

definition msg_remove :: "string \<Rightarrow> string \<Rightarrow> edge_router_conf" where
  "msg_remove l d = \<lparr>cf_action = REMOVE, cf_lambda = l, cf_destination = d, cf_weight = 0, cf_final = False\<rparr>"

text \<open>
  \<open>ForwardingTableClient::send\<close>: only the status of the call is checked, the message of the reply is
  dropped.
\<close>

definition client_send ::
  "'s ft_if \<Rightarrow> (nat \<Rightarrow> env) \<Rightarrow> bool \<Rightarrow> edge_router_conf \<Rightarrow> 's list \<Rightarrow> (exn + unit) \<times> 's list" where
  "client_send I E delivered req ts =
     (if delivered then (let (reply, ts') = srv_Configure I E req ts in (Inr (), ts'))
      else (Inl (RuntimeError ''RPC failed''), ts))"

section \<open>Route commands of a controller\<close>

fun send_all ::
  "'s ft_if \<Rightarrow> (nat \<Rightarrow> nat \<Rightarrow> env) \<Rightarrow> (nat \<Rightarrow> bool) \<Rightarrow> nat \<Rightarrow> edge_router_conf list \<Rightarrow> 's list \<Rightarrow>
     (exn + unit) \<times> 's list" where
  "send_all I E net n [] ts = (Inr (), ts)"
| "send_all I E net n (req # reqs) ts =
     sbind (client_send I (E n) (net n) req ts) (\<lambda>_ ts'. send_all I E net (Suc n) reqs ts')"

definition forwardingTableCommand :: "(exn + unit) \<times> 's list \<Rightarrow> bool \<times> 's list" where
  "forwardingTableCommand r = (case r of (Inr _, ts) \<Rightarrow> (True, ts) | (Inl _, ts) \<Rightarrow> (False, ts))"

definition rpc_changeRoutes ::
  "'s ft_if \<Rightarrow> (nat \<Rightarrow> nat \<Rightarrow> env) \<Rightarrow> (nat \<Rightarrow> bool) \<Rightarrow> nat \<Rightarrow> (string \<times> string \<times> real \<times> bool) list \<Rightarrow> 's list \<Rightarrow>
     bool \<times> 's list" where
  "rpc_changeRoutes I E net n aLambdas ts =
     forwardingTableCommand (send_all I E net n (map (\<lambda>(l, d, w, f). msg_change l d w f) aLambdas) ts)"

definition rpc_removeRoutes ::
  "'s ft_if \<Rightarrow> (nat \<Rightarrow> nat \<Rightarrow> env) \<Rightarrow> (nat \<Rightarrow> bool) \<Rightarrow> nat \<Rightarrow> string \<Rightarrow> string list \<Rightarrow> 's list \<Rightarrow> bool \<times> 's list" where
  "rpc_removeRoutes I E net n aEdgeComputerEndpoint aLambdas ts =
     forwardingTableCommand
       (send_all I E net n (map (\<lambda>l. msg_remove l aEdgeComputerEndpoint) aLambdas) ts)"

definition rpc_flushRoutes ::
  "'s ft_if \<Rightarrow> (nat \<Rightarrow> nat \<Rightarrow> env) \<Rightarrow> (nat \<Rightarrow> bool) \<Rightarrow> nat \<Rightarrow> 's list \<Rightarrow> bool \<times> 's list" where
  "rpc_flushRoutes I E net n ts = forwardingTableCommand (send_all I E net n [msg_flush] ts)"

section \<open>Transferring a table\<close>

lemma client_insert_append:
  assumes "\<forall>k\<in>fst ` set acc. k < l" and "pre \<noteq> []" and "mwf (pre @ row)"
  shows "foldl client_insert (acc @ [(l, pre)]) (map (mk_entry l) row) = acc @ [(l, pre @ row)]"
  using assms(2,3)
proof (induction row arbitrary: pre)
  case Nil
  then show ?case by simp
next
  case (Cons x row)
  obtain d v where x: "x = (d, v)" by (cases x)
  have lt: "\<forall>k\<in>fst ` set pre. k < d" using Cons.prems(2) by (auto simp: x sorted_wrt_append)
  then have "map_of pre d = None" by (auto simp: map_of_eq_None_iff)
  then have pre: "memplace d v pre = pre @ [(d, v)]" by (simp add: memplace_def mput_append[OF lt])
  have none: "map_of acc l = None" using assms(1) by (auto simp: map_of_eq_None_iff)
  then have some: "map_of (acc @ [(l, pre)]) l = Some pre" by (simp add: map_add_def)
  have "mupd l g acc = acc" for g :: "(string, real \<times> bool) smap \<Rightarrow> _"
    using assms(1) by (auto simp: mupd_def intro!: map_idI)
  then have "mupd l (memplace d v) (acc @ [(l, pre)]) = acc @ [(l, pre @ [(d, v)])]"
    using pre by (simp add: mupd_def)
  then have "client_insert (acc @ [(l, pre)]) (mk_entry l x) = acc @ [(l, pre @ [(d, v)])]"
    using some by (simp add: client_insert_def Let_def mk_entry_def x del: map_of_append)
  then show ?case using Cons.IH[of "pre @ [(d, v)]"] Cons.prems(2) by (simp add: x)
qed

lemma client_insert_row:
  assumes "\<forall>k\<in>fst ` set acc. k < l" and "row \<noteq> []" and "mwf row"
  shows "foldl client_insert acc (map (mk_entry l) row) = acc @ [(l, row)]"
proof -
  obtain d v row' where row: "row = (d, v) # row'" using assms(2) by (cases row) auto
  have "map_of acc l = None" using assms(1) by (auto simp: map_of_eq_None_iff)
  then have "client_insert acc (mk_entry l (d, v)) = acc @ [(l, [(d, v)])]"
    using mput_append[OF assms(1)] by (simp add: client_insert_def Let_def mk_entry_def)
  then show ?thesis using client_insert_append[OF assms(1), of "[(d, v)]" row'] assms(3)
    by (simp add: row)
qed

lemma client_insert_rows:
  assumes "mwf (acc @ m)" and "\<forall>p\<in>set m. mwf (snd p) \<and> snd p \<noteq> []"
  shows "foldl client_insert acc (concat (map (\<lambda>(l, row). map (mk_entry l) row) m)) = acc @ m"
  using assms
proof (induction m arbitrary: acc)
  case Nil
  then show ?case by simp
next
  case (Cons x m)
  obtain l row where x: "x = (l, row)" by (cases x)
  have "foldl client_insert acc (map (mk_entry l) row) = acc @ [(l, row)]"
    using Cons.prems by (intro client_insert_row) (auto simp: x sorted_wrt_append)
  then show ?case using Cons.IH[of "acc @ [x]"] Cons.prems by (simp add: x)
qed

lemma client_table_roundtrip:
  assumes "full_table_wf m"
  shows "client_table (concat (map (\<lambda>(l, row). map (mk_entry l) row) m)) = m"
proof -
  have "mwf m" "\<forall>p\<in>set m. mwf (snd p) \<and> snd p \<noteq> []"
    using assms mwf_distinct[of m] by (auto simp: full_table_wf_def)
  then show ?thesis using client_insert_rows[of "[]" m] by (simp add: client_table_def)
qed

section \<open>What the service does to the tables\<close>

lemma for_tables_inv:
  assumes "\<And>j t. j < length ts \<Longrightarrow> t = ts ! j \<Longrightarrow> \<exists>t'. f (i + j) t = (Inr (), t') \<and> Q j t t'"
  shows "\<exists>ts'. for_tables f i ts = (Inr (), ts') \<and> length ts' = length ts \<and>
    (\<forall>j<length ts. Q j (ts ! j) (ts' ! j))"
  using assms
proof (induction ts arbitrary: i Q)
  case Nil
  then show ?case by simp
next
  case (Cons t ts)
  obtain t' where t': "f i t = (Inr (), t')" "Q 0 t t'" using Cons.prems[of 0 t] by auto
  have "\<exists>ts'. for_tables f (Suc i) ts = (Inr (), ts') \<and> length ts' = length ts \<and>
    (\<forall>j<length ts. Q (Suc j) (ts ! j) (ts' ! j))"
    using Cons.IH[of "Suc i" "\<lambda>j. Q (Suc j)"] Cons.prems[of "Suc _"] by simp
  then obtain ts' where "for_tables f (Suc i) ts = (Inr (), ts')" "length ts' = length ts"
    "\<forall>j<length ts. Q (Suc j) (ts ! j) (ts' ! j)" by blast
  then show ?case using t' by (auto simp: nth_Cons split: nat.split)
qed

context forwarding_table_if
begin

lemma getTable_roundtrip:
  assumes "i < length ts" and "invar (ts ! i)"
  shows "client_table (srv_GetTable I i ts) = if_fullTable I (ts ! i)"
  using fullTable_law[OF assms(2)] assms(1) by (simp add: srv_GetTable_def client_table_roundtrip)

lemma configure_flush:
  assumes "\<And>i. env_ok (E i)" and "\<forall>t\<in>set ts. invar t"
  shows "\<exists>ts'. srv_Configure I E msg_flush ts = (ReplyOK, ts') \<and> length ts' = length ts \<and>
    (\<forall>t\<in>set ts'. invar t \<and> if_fullTable I t = [])"
proof -
  have "\<exists>ts'. for_tables (\<lambda>i. flush_table I (E i)) 0 ts = (Inr (), ts') \<and> length ts' = length ts \<and>
    (\<forall>j<length ts. invar (ts' ! j) \<and> if_fullTable I (ts' ! j) = [])"
    by (rule for_tables_inv) (use flush_dests assms in \<open>fastforce simp: flush_table_def\<close>)
  then show ?thesis by (auto simp: srv_Configure_def msg_flush_def in_set_conv_nth)
qed

lemma configure_change:
  assumes "\<And>i. env_ok (E i)" and "\<forall>t\<in>set ts. invar t" and "d \<noteq> []" and "0 < w"
    and "length ts = 1 \<or> length ts = 2"
  shows "\<exists>ts'. srv_Configure I E (msg_change l d w f) ts = (ReplyOK, ts') \<and> length ts' = length ts \<and>
    (\<forall>t\<in>set ts'. invar t) \<and>
    dests (ts' ! 0) = (dests (ts ! 0))(l := insert d (dests (ts ! 0) l)) \<and>
    (length ts = 2 \<longrightarrow>
       dests (ts' ! 1) = (if f then (dests (ts ! 1))(l := insert d (dests (ts ! 1) l)) else dests (ts ! 1)))"
proof -
  let ?g = "\<lambda>i t. if length ts = 1 \<or> i = 0 \<or> f then if_change I (E i) l d w f t else (Inr (), t)"
  have "\<exists>ts'. for_tables ?g 0 ts = (Inr (), ts') \<and> length ts' = length ts \<and>
    (\<forall>j<length ts. invar (ts' ! j) \<and> dests (ts' ! j) =
       (if length ts = 1 \<or> j = 0 \<or> f then (dests (ts ! j))(l := insert d (dests (ts ! j) l))
        else dests (ts ! j)))"
  proof (rule for_tables_inv)
    fix j t assume "j < length ts" "t = ts ! j"
    then have "invar t" using assms(2) by simp
    then show "\<exists>t'. ?g (0 + j) t = (Inr (), t') \<and> invar t' \<and> dests t' =
       (if length ts = 1 \<or> j = 0 \<or> f then (dests t)(l := insert d (dests t l)) else dests t)"
      using change_law[OF assms(1)[of j] _ assms(3,4), of t l f] by auto
  qed
  then obtain ts' where ts': "for_tables ?g 0 ts = (Inr (), ts')" "length ts' = length ts"
    "\<forall>j<length ts. invar (ts' ! j) \<and> dests (ts' ! j) =
       (if length ts = 1 \<or> j = 0 \<or> f then (dests (ts ! j))(l := insert d (dests (ts ! j) l))
        else dests (ts ! j))"
    by blast
  have "srv_Configure I E (msg_change l d w f) ts = (ReplyOK, ts')"
    using ts'(1) assms(5) by (auto simp: srv_Configure_def msg_change_def cong: if_cong)
  moreover have "\<forall>t\<in>set ts'. invar t" using ts'(2,3) by (auto simp: in_set_conv_nth)
  ultimately show ?thesis using ts'(2,3) assms(5) by auto
qed

lemma configure_remove:
  assumes "\<And>i. env_ok (E i)" and "\<forall>t\<in>set ts. invar t \<and> rem_ok t l d"
  shows "\<exists>ts'. srv_Configure I E (msg_remove l d) ts = (ReplyOK, ts') \<and> length ts' = length ts \<and>
    (\<forall>j<length ts. invar (ts' ! j) \<and> dests (ts' ! j) = (dests (ts ! j))(l := dests (ts ! j) l - {d}))"
proof -
  have "\<exists>ts'. for_tables (\<lambda>i. if_remove I (E i) l d) 0 ts = (Inr (), ts') \<and> length ts' = length ts \<and>
    (\<forall>j<length ts. invar (ts' ! j) \<and> dests (ts' ! j) = (dests (ts ! j))(l := dests (ts ! j) l - {d}))"
    by (rule for_tables_inv) (use remove_law assms in fastforce)
  then show ?thesis by (auto simp: srv_Configure_def msg_remove_def)
qed

end

section \<open>Properties\<close>

text \<open>
  C23: the table that a client receives is the one the server has: for a table reachable through valid
  calls, the map rebuilt by the client from the reply of \<open>GetTable\<close> equals the full table of the
  server, and a request for a table that does not exist gives the empty map.
\<close>

theorem get_table_roundtrip:
  assumes "\<forall>T\<in>set ts. ft_inv T"
  shows "client_table (srv_GetTable ft_iface i ts) = (if i < length ts then ft_fullTable (ts ! i) else [])"
proof (cases "i < length ts")
  case True
  then show ?thesis using ft.getTable_roundtrip[of i ts] assms by (simp add: ft_iface_def)
next
  case False
  then show ?thesis by (simp add: srv_GetTable_def client_table_def)
qed

theorem get_table_roundtrip_witness:
  "client_table (srv_GetTable ft_iface 0 [ft_ex LeastImpedance]) = ft_fullTable (ft_ex LeastImpedance)"
  using get_table_roundtrip[of "[ft_ex LeastImpedance]" 0] by (simp add: ft_ex_inv)

text \<open>
  The invariant of a router with two tables: a destination of the table of the final destinations is
  also in the overall table.
\<close>

definition dual_ok :: "fwd_table list \<Rightarrow> bool" where
  "dual_ok ts \<longleftrightarrow> (\<forall>T\<in>set ts. ft_inv T) \<and> length ts = 2 \<and> (\<forall>l. ft_dests (ts ! 1) l \<subseteq> ft_dests (ts ! 0) l)"

definition valid_conf :: "fwd_table list \<Rightarrow> edge_router_conf \<Rightarrow> bool" where
  "valid_conf ts req \<longleftrightarrow> req = msg_flush \<or>
     (\<exists>l d w f. req = msg_change l d w f \<and> d \<noteq> [] \<and> 0 < w) \<or>
     (\<exists>l d. req = msg_remove l d \<and> (\<forall>T\<in>set ts. ft_rem_ok T l d))"


lemma valid_conf_change: "d \<noteq> [] \<Longrightarrow> 0 < w \<Longrightarrow> valid_conf ts (msg_change l d w f)"
  unfolding valid_conf_def by blast

lemma dual_ok_new: "dual_ok [ft_new t a b, ft_new t' a' b']"
  by (auto simp: dual_ok_def ft_inv_new ft_dests_def)


text \<open>
  A router with two tables logs its second table as the one with only the final destinations, but a
  request that turns a final destination into a non-final one updates the first table only: the second
  keeps the destination, and keeps it as final.
\<close>

theorem final_table_keeps_demoted_destination:
  assumes "dual_ok [T0, T1]" and "\<And>i. ok_env (E i)" and "d \<noteq> []" and "0 < w"
    and "ft_abs T1 l = Some m" and "m d = Some (w1, True)"
  shows "\<exists>T0' m'. srv_Configure ft_iface E (msg_change l d w False) [T0, T1] = (ReplyOK, [T0', T1]) \<and>
    ft_abs T0' l = Some m' \<and> m' d = Some (w, False) \<and> ft_abs T1 l = Some m \<and> m d = Some (w1, True)"
proof -
  have "ft_inv T0" using assms(1) by (simp add: dual_ok_def)
  then obtain T0' where T0': "ft_change (E 0) l d w False T0 = (Inr (), T0')"
    "ft_abs T0' = spec_change l d (w, False) (ft_abs T0)"
    using ft_change_sim[OF assms(2)[of 0] _ assms(3,4)] by blast
  have "srv_Configure ft_iface E (msg_change l d w False) [T0, T1] = (ReplyOK, [T0', T1])"
    using T0'(1) by (simp add: srv_Configure_def msg_change_def ft_iface_def)
  then show ?thesis using T0'(2) assms(5,6) by (auto simp: spec_change_def)
qed

lemma dual_ok_ex: "dual_ok [ft_ex t, ft_ex t']"
  by (simp add: dual_ok_def ft_ex_inv ft_dests_def)

theorem final_table_keeps_demoted_destination_witness:
  "\<exists>T0' m'. srv_Configure ft_iface (\<lambda>_. env_ex 0 0) (msg_change ''f'' ''a'' 3 False)
      [ft_ex RoundRobin, ft_ex LeastImpedance] = (ReplyOK, [T0', ft_ex LeastImpedance]) \<and>
    ft_abs T0' ''f'' = Some m' \<and> m' ''a'' = Some (3, False) \<and>
    ft_abs (ft_ex LeastImpedance) ''f'' = Some [''a'' \<mapsto> (1, True), ''b'' \<mapsto> (2, True)] \<and>
    [''a'' \<mapsto> (1, True), ''b'' \<mapsto> (2, True)] ''a'' = Some (1::real, True)"
  by (rule final_table_keeps_demoted_destination[OF dual_ok_ex])
     (simp_all add: ok_env_ex ft_ex_inv spec_ex_def spec_change_def)

text \<open>
  The client drops the message of the reply, so a controller believes that a route was installed
  even if the router refused it: with a channel that delivers every call, changing, removing and
  flushing routes always report success, whatever the routers answer.
\<close>

theorem route_commands_ignore_errors:
  assumes "\<And>n. net n"
  shows "fst (rpc_changeRoutes I E net n routes ts) \<and> fst (rpc_removeRoutes I E net n c ls ts) \<and>
    fst (rpc_flushRoutes I E net n ts)"
proof -
  have "fst (send_all I E net n reqs us) = Inr ()" for n reqs us
    using assms
    by (induction reqs arbitrary: n us) (auto simp: client_send_def Let_def split: prod.split)
  moreover have "fst r = Inr () \<Longrightarrow> fst (forwardingTableCommand r)" for r :: "(exn + unit) \<times> 'a list"
    by (cases r) (auto simp: forwardingTableCommand_def)
  ultimately show ?thesis
    unfolding rpc_changeRoutes_def rpc_removeRoutes_def rpc_flushRoutes_def by blast
qed

theorem route_commands_ignore_errors_witness:
  "fst (rpc_changeRoutes ft_iface (\<lambda>_ _. env_ex 0 0) (\<lambda>_. True) 0 [(''f'', ''a'', -1, True)] [ft_new Random 0 0]) \<and>
   fst (srv_Configure ft_iface (\<lambda>_. env_ex 0 0) (msg_change ''f'' ''a'' (-1) True) [ft_new Random 0 0]) =
     ReplyError (InvalidWeight (-1))"
  using route_commands_ignore_errors[of "\<lambda>_. True" ft_iface "\<lambda>_ _. env_ex 0 0" 0 "[(''f'', ''a'', -1, True)]"
      "[ft_new Random 0 0]"]
  by (simp add: srv_Configure_def msg_change_def ft_iface_def ft_change_def)

end
