(* ===== verification/RouteInstaller.thy ===== *)
theory RouteInstaller
  imports ForwardingTableServer
begin

text \<open>
  The abstract class \<open>Edge/edgecontrollerinstaller.h\<close>, through which a controller changes the forwarding
  tables of the routers, as a record of functions and the locale \<open>route_installer\<close> of what the
  controllers rely on; and its implementation by remote procedure calls (\<open>edgecontrollerrpc.h\<close>) over a
  network of routers.
\<close>

type_synonym route = "string \<times> string \<times> real \<times> bool"

record 'n installer =
  ins_changeRoutes :: "string \<Rightarrow> route list \<Rightarrow> 'n \<Rightarrow> bool \<times> 'n"
  ins_removeRoutes :: "string \<Rightarrow> string \<Rightarrow> string list \<Rightarrow> 'n \<Rightarrow> bool \<times> 'n"
  ins_flushRoutes :: "string \<Rightarrow> 'n \<Rightarrow> bool \<times> 'n"

text \<open>The pairs of lambda and destination of a list of routes.\<close>

definition route_pairs :: "route list \<Rightarrow> (string \<times> string) set" where
  "route_pairs es = (\<lambda>(l, d, w, f). (l, d)) ` set es"

definition routes_ok :: "route list \<Rightarrow> bool" where
  "routes_ok es \<longleftrightarrow> (\<forall>(l, d, w, f)\<in>set es. d \<noteq> [] \<and> 0 < w)"

text \<open>
  The contract, on the set of routes (\<open>view\<close>) installed at each forwarding-table end-point: a command that
  reports success has done what it says, one that reports failure may have done part of it, and no
  command touches another end-point.
\<close>

locale route_installer =
  fixes Ins :: "'n installer"
    and ninv :: "'n \<Rightarrow> bool"
    and view :: "'n \<Rightarrow> string \<Rightarrow> (string \<times> string) set"
  assumes change_law: "\<lbrakk>ninv n; routes_ok es; ins_changeRoutes Ins fwd es n = (ok, n')\<rbrakk> \<Longrightarrow>
      ninv n' \<and> (\<forall>e. e \<noteq> fwd \<longrightarrow> view n' e = view n e) \<and> view n fwd \<subseteq> view n' fwd \<and>
      view n' fwd \<subseteq> view n fwd \<union> route_pairs es \<and> (ok \<longrightarrow> view n' fwd = view n fwd \<union> route_pairs es)"
    and remove_law: "\<lbrakk>ninv n; ins_removeRoutes Ins fwd d ls n = (ok, n')\<rbrakk> \<Longrightarrow>
      ninv n' \<and> (\<forall>e. e \<noteq> fwd \<longrightarrow> view n' e = view n e) \<and> view n' fwd \<subseteq> view n fwd \<and>
      view n fwd - {(l, d) | l. l \<in> set ls} \<subseteq> view n' fwd \<and>
      (ok \<longrightarrow> view n' fwd = view n fwd - {(l, d) | l. l \<in> set ls})"
    and flush_law: "\<lbrakk>ninv n; ins_flushRoutes Ins fwd n = (ok, n')\<rbrakk> \<Longrightarrow>
      ninv n' \<and> (\<forall>e. e \<noteq> fwd \<longrightarrow> view n' e = view n e) \<and> (ok \<longrightarrow> view n' fwd = {})"

section \<open>Installation by remote procedure calls\<close>

text \<open>
  The network: the tables of the router behind each forwarding-table end-point, and the number of calls
  made so far. The outcome of the calls is the parameter \<open>net\<close>, their environments the parameter \<open>E\<close>.
\<close>

record rpc_network =
  rn_tables :: "string \<Rightarrow> fwd_table list"
  rn_calls :: nat

definition rn_update :: "string \<Rightarrow> nat \<Rightarrow> bool \<times> fwd_table list \<Rightarrow> rpc_network \<Rightarrow> bool \<times> rpc_network" where
  "rn_update fwd k r n = (fst r, n\<lparr>rn_tables := (rn_tables n)(fwd := snd r), rn_calls := rn_calls n + k\<rparr>)"

definition rpc_installer :: "(nat \<Rightarrow> nat \<Rightarrow> env) \<Rightarrow> (nat \<Rightarrow> bool) \<Rightarrow> rpc_network installer" where
  "rpc_installer E net =
     \<lparr>ins_changeRoutes = (\<lambda>fwd es n. rn_update fwd (length es)
        (rpc_changeRoutes ft_iface E net (rn_calls n) es (rn_tables n fwd)) n),
      ins_removeRoutes = (\<lambda>fwd d ls n. rn_update fwd (length ls)
        (rpc_removeRoutes ft_iface E net (rn_calls n) d ls (rn_tables n fwd)) n),
      ins_flushRoutes = (\<lambda>fwd n. rn_update fwd 1
        (rpc_flushRoutes ft_iface E net (rn_calls n) (rn_tables n fwd)) n)\<rparr>"

text \<open>
  The invariant of the network: every router has one or two tables that keep their invariant, with a
  policy for which removing a destination is always defined.
\<close>

definition removable :: "fwd_table \<Rightarrow> bool" where
  "removable T \<longleftrightarrow> ft_inv T \<and> (theType T = Random \<or> theType T = ProportionalFairness)"

definition tables_ok :: "fwd_table list \<Rightarrow> bool" where
  "tables_ok ts \<longleftrightarrow> (length ts = 1 \<or> length ts = 2) \<and> (\<forall>T\<in>set ts. removable T)"

definition rn_inv :: "rpc_network \<Rightarrow> bool" where
  "rn_inv n \<longleftrightarrow> (\<forall>fwd. tables_ok (rn_tables n fwd))"

definition table_routes :: "fwd_table list \<Rightarrow> (string \<times> string) set" where
  "table_routes ts = {(l, d). d \<in> ft_dests (ts ! 0) l}"

definition rn_view :: "rpc_network \<Rightarrow> string \<Rightarrow> (string \<times> string) set" where
  "rn_view n fwd = table_routes (rn_tables n fwd)"

lemma removable_rem_ok:
  assumes "removable T"
  shows "ft_rem_ok T l d"
proof (cases "map_of (theTable T) l")
  case None
  then show ?thesis by (simp add: ft_rem_ok_def)
next
  case (Some e)
  then have inv: "ft_pinv T (theDestinations e) (thePolicy e)"
    using assms by (auto simp: removable_def ft_inv_def entry_inv_def)
  show ?thesis
    using assms by (cases rule: any_inv_cases[OF inv]) (auto simp: ft_rem_ok_def Some any_del_ok_def removable_def)
qed

lemma ft_type_kept:
  "theType (snd (ft_change E l d w f T)) = theType T"
  "theType (snd (ft_remove E l d T)) = theType T"
  "theType (ft_remove_lambda l T) = theType T"
  by (auto simp: ft_change_def ft_remove_def ft_remove_lambda_def Let_def
      split: prod.split sum.split option.split)

text \<open>The forwarding table implements the interface with removals that always succeed.\<close>

interpretation ftr: forwarding_table_if ft_iface ok_env removable ft_dests "\<lambda>_ _ _. True"
proof (unfold_locales, goal_cases)
  case (1 E s d w l f)
  then show ?case
    using ft.change_law[of E s d w l f] ft_type_kept(1)[of E l d w f s]
    by (auto simp: removable_def ft_iface_def)
next
  case (2 E s l d)
  then show ?case
    using ft.remove_law[of E s l d] removable_rem_ok[of s l d] ft_type_kept(2)[of E l d s]
    by (auto simp: removable_def ft_iface_def)
next
  case (3 E s l)
  then show ?case
    using ft.remove_lambda_law[of E s l] ft_type_kept(3)[of l s]
    by (auto simp: removable_def ft_iface_def)
next
  case (4 s)
  then show ?case using ft.lambdas_law by (simp add: removable_def)
next
  case (5 s)
  then show ?case using ft.fullTable_law by (simp add: removable_def)
qed

section \<open>The commands on one router\<close>

lemma send_change_step:
  assumes "tables_ok ts" and "\<And>i. ok_env (E i)" and "d \<noteq> []" and "0 < w"
  shows "\<exists>ts'. srv_Configure ft_iface E (msg_change l d w f) ts = (ReplyOK, ts') \<and> tables_ok ts' \<and>
    table_routes ts' = insert (l, d) (table_routes ts)"
proof -
  obtain ts' where ts': "srv_Configure ft_iface E (msg_change l d w f) ts = (ReplyOK, ts')"
    "length ts' = length ts" "\<forall>t\<in>set ts'. removable t"
    "ft_dests (ts' ! 0) = (ft_dests (ts ! 0))(l := insert d (ft_dests (ts ! 0) l))"
    using ftr.configure_change[of E ts d w l f] assms by (auto simp: tables_ok_def)
  then have "table_routes ts' = insert (l, d) (table_routes ts)"
    by (auto simp: table_routes_def split: if_splits)
  then show ?thesis using ts' assms(1) by (auto simp: tables_ok_def)
qed

lemma send_remove_step:
  assumes "tables_ok ts" and "\<And>i. ok_env (E i)"
  shows "\<exists>ts'. srv_Configure ft_iface E (msg_remove l d) ts = (ReplyOK, ts') \<and> tables_ok ts' \<and>
    table_routes ts' = table_routes ts - {(l, d)}"
proof -
  obtain ts' where ts': "srv_Configure ft_iface E (msg_remove l d) ts = (ReplyOK, ts')"
    "length ts' = length ts"
    "\<forall>j<length ts. removable (ts' ! j) \<and> ft_dests (ts' ! j) = (ft_dests (ts ! j))(l := ft_dests (ts ! j) l - {d})"
    using ftr.configure_remove[of E ts l d] assms by (auto simp: tables_ok_def)
  have "0 < length ts" using assms(1) by (auto simp: tables_ok_def)
  then have "table_routes ts' = table_routes ts - {(l, d)}"
    using ts'(3) by (auto simp: table_routes_def split: if_splits)
  then show ?thesis using ts' assms(1) by (auto simp: tables_ok_def in_set_conv_nth)
qed

lemma send_changes:
  assumes "tables_ok ts" and "\<And>n i. ok_env (E n i)" and "routes_ok es"
    and "send_all ft_iface E net n (map (\<lambda>(l, d, w, f). msg_change l d w f) es) ts = (r, ts')"
  shows "tables_ok ts' \<and> table_routes ts \<subseteq> table_routes ts' \<and>
    table_routes ts' \<subseteq> table_routes ts \<union> route_pairs es \<and>
    (r = Inr () \<longrightarrow> table_routes ts' = table_routes ts \<union> route_pairs es)"
  using assms(1,3,4)
proof (induction es arbitrary: n ts)
  case Nil
  then show ?case by (simp add: route_pairs_def)
next
  case (Cons x es)
  obtain l d w f where x: "x = (l, d, w, f)" by (cases x)
  have rp: "route_pairs (x # es) = insert (l, d) (route_pairs es)" by (simp add: route_pairs_def x)
  show ?case
  proof (cases "net n")
    case False
    then show ?thesis using Cons.prems by (auto simp: client_send_def x)
  next
    case True
    obtain ts1 where ts1: "srv_Configure ft_iface (E n) (msg_change l d w f) ts = (ReplyOK, ts1)"
      "tables_ok ts1" "table_routes ts1 = insert (l, d) (table_routes ts)"
      using send_change_step[OF Cons.prems(1), of "E n" d w l f] assms(2) Cons.prems(2)
      by (auto simp: routes_ok_def x)
    have "send_all ft_iface E net (Suc n) (map (\<lambda>(l, d, w, f). msg_change l d w f) es) ts1 = (r, ts')"
      using Cons.prems(3) True ts1(1) by (simp add: client_send_def x)
    moreover have "routes_ok es" using Cons.prems(2) by (simp add: routes_ok_def)
    ultimately show ?thesis using Cons.IH[OF ts1(2)] ts1(3) rp by fastforce
  qed
qed

lemma send_removes:
  assumes "tables_ok ts" and "\<And>n i. ok_env (E n i)"
    and "send_all ft_iface E net n (map (\<lambda>l. msg_remove l d) ls) ts = (r, ts')"
  shows "tables_ok ts' \<and> table_routes ts' \<subseteq> table_routes ts \<and>
    table_routes ts - {(l, d) | l. l \<in> set ls} \<subseteq> table_routes ts' \<and>
    (r = Inr () \<longrightarrow> table_routes ts' = table_routes ts - {(l, d) | l. l \<in> set ls})"
  using assms(1,3)
proof (induction ls arbitrary: n ts)
  case Nil
  then show ?case by simp
next
  case (Cons l ls)
  show ?case
  proof (cases "net n")
    case False
    then show ?thesis using Cons.prems by (auto simp: client_send_def)
  next
    case True
    obtain ts1 where ts1: "srv_Configure ft_iface (E n) (msg_remove l d) ts = (ReplyOK, ts1)"
      "tables_ok ts1" "table_routes ts1 = table_routes ts - {(l, d)}"
      using send_remove_step[OF Cons.prems(1), of "E n" l d] assms(2) by auto
    have "send_all ft_iface E net (Suc n) (map (\<lambda>l. msg_remove l d) ls) ts1 = (r, ts')"
      using Cons.prems(2) True ts1(1) by (simp add: client_send_def)
    from Cons.IH[OF ts1(2) this] show ?thesis using ts1(3) by fastforce
  qed
qed

lemma send_flush:
  assumes "tables_ok ts" and "\<And>n i. ok_env (E n i)"
    and "send_all ft_iface E net n [msg_flush] ts = (r, ts')"
  shows "tables_ok ts' \<and> (r = Inr () \<longrightarrow> table_routes ts' = {})"
proof (cases "net n")
  case False
  then show ?thesis using assms(1,3) by (auto simp: client_send_def)
next
  case True
  obtain ts1 where ts1: "srv_Configure ft_iface (E n) msg_flush ts = (ReplyOK, ts1)"
    "length ts1 = length ts" "\<forall>t\<in>set ts1. removable t \<and> if_fullTable ft_iface t = []"
    using ftr.configure_flush[of "E n" ts] assms(1,2) by (auto simp: tables_ok_def)
  then have ts': "ts' = ts1" using assms(3) True by (simp add: client_send_def)
  have "ts1 ! 0 \<in> set ts1" using ts1(2) assms(1) by (intro nth_mem) (auto simp: tables_ok_def)
  then have "ft_dests (ts1 ! 0) = (\<lambda>_. {})"
    using ts1(3) ftr.fullTable_law[of "ts1 ! 0"] by (auto simp: full_table_dests_def fun_eq_iff)
  then show ?thesis using ts' ts1(2,3) assms(1) by (auto simp: tables_ok_def table_routes_def)
qed

lemma forwardingTableCommand_eq: "forwardingTableCommand r = (fst r = Inr (), snd r)"
  by (cases r) (auto simp: forwardingTableCommand_def split: sum.split)

text \<open>
  The remote procedure calls implement the contract of an installer, whatever the outcome of the calls.
\<close>

definition rn_envs :: "(nat \<Rightarrow> nat \<Rightarrow> env) \<Rightarrow> nat \<Rightarrow> nat \<Rightarrow> env" where
  "rn_envs E n i = (if ok_env (E n i) then E n i else env_ex 0 0)"

lemma rn_envs_ok [simp]: "ok_env (rn_envs E n i)"
  by (simp add: rn_envs_def ok_env_ex)

lemma rn_update_laws:
  assumes "rn_inv n" and "rn_update fwd k r n = (ok, n')" and "tables_ok (snd r)"
  shows "rn_inv n'" "e \<noteq> fwd \<Longrightarrow> rn_view n' e = rn_view n e" "rn_view n' fwd = table_routes (snd r)" "ok = fst r"
  using assms by (auto simp: rn_inv_def rn_update_def rn_view_def)

interpretation rpc: route_installer "rpc_installer (rn_envs E) net" rn_inv rn_view
proof (unfold_locales, goal_cases)
  case (1 n es fwd ok n')
  let ?r = "send_all ft_iface (rn_envs E) net (rn_calls n) (map (\<lambda>(l, d, w, f). msg_change l d w f) es) (rn_tables n fwd)"
  have ts: "tables_ok (rn_tables n fwd)" using 1(1) by (simp add: rn_inv_def)
  have u: "rn_update fwd (length es) (forwardingTableCommand ?r) n = (ok, n')"
    using 1(3) by (simp add: rpc_installer_def rpc_changeRoutes_def)
  show ?case
    using send_changes[OF ts _ 1(2), of "rn_envs E" net "rn_calls n" "fst ?r" "snd ?r"] rn_update_laws[OF 1(1) u]
    by (simp add: forwardingTableCommand_eq rn_view_def[of n fwd])
next
  case (2 n fwd d ls ok n')
  let ?r = "send_all ft_iface (rn_envs E) net (rn_calls n) (map (\<lambda>l. msg_remove l d) ls) (rn_tables n fwd)"
  have ts: "tables_ok (rn_tables n fwd)" using 2(1) by (simp add: rn_inv_def)
  have u: "rn_update fwd (length ls) (forwardingTableCommand ?r) n = (ok, n')"
    using 2(2) by (simp add: rpc_installer_def rpc_removeRoutes_def)
  show ?case
    using send_removes[OF ts, of "rn_envs E" net "rn_calls n" d ls "fst ?r" "snd ?r"] rn_update_laws[OF 2(1) u]
    by (simp add: forwardingTableCommand_eq rn_view_def[of n fwd])
next
  case (3 n fwd ok n')
  let ?r = "send_all ft_iface (rn_envs E) net (rn_calls n) [msg_flush] (rn_tables n fwd)"
  have ts: "tables_ok (rn_tables n fwd)" using 3(1) by (simp add: rn_inv_def)
  have u: "rn_update fwd 1 (forwardingTableCommand ?r) n = (ok, n')"
    using 3(2) by (simp add: rpc_installer_def rpc_flushRoutes_def)
  show ?case
    using send_flush[OF ts, of "rn_envs E" net "rn_calls n" "fst ?r" "snd ?r"] rn_update_laws[OF 3(1) u]
    by (simp add: forwardingTableCommand_eq del: send_all.simps)
qed

end
