(* ===== verification/EdgeControllerFlat.thy ===== *)
theory EdgeControllerFlat
  imports EdgeController RouteInstaller
begin

text \<open>
  The flat controller, \<open>Edge/edgecontrollerflat.cpp\<close>: every computer is announced to every router. The
  state of the derived class is the network it configures through an installer.
\<close>

section \<open>Operations\<close>

text \<open>The notifications of the base class are empty in the flat controller.\<close>

definition flat_ignore :: "'n ctl_op" where
  "flat_ignore s = (Inr (), s)"

definition flat_privateRemoveRouter :: "string \<Rightarrow> 'n ctl_op" where
  "flat_privateRemoveRouter srv s = (Inr (), s)"

text \<open>
  The loop over the routers of \<open>privateAnnounceComputer\<close>: the routers that failed, and the network.
\<close>

fun flat_notify :: "'n installer \<Rightarrow> route list \<Rightarrow> (string \<times> string) list \<Rightarrow> 'n \<Rightarrow> string list \<times> 'n" where
  "flat_notify Ins es [] n = ([], n)"
| "flat_notify Ins es ((srv, fwd) # rs) n =
     (let (ok, n1) = ins_changeRoutes Ins fwd es n;
          (bad, n2) = flat_notify Ins es rs n1
      in (if ok then bad else srv # bad, n2))"

definition flat_privateAnnounceComputer :: "'n installer \<Rightarrow> string \<Rightarrow> container list \<Rightarrow> 'n ctl_op" where
  "flat_privateAnnounceComputer Ins ep cs s =
     (let es = map (\<lambda>c. (ct_lambda c, ep, 1, True)) cs;
          (bad, n) = flat_notify Ins es (theRouters s) (ct_derived s)
      in sfor bad (removeRouter flat_privateRemoveRouter) (s\<lparr>ct_derived := n\<rparr>))"

definition flat_privateAnnounceRouter :: "'n installer \<Rightarrow> string \<Rightarrow> string \<Rightarrow> 'n ctl_op" where
  "flat_privateAnnounceRouter Ins srv fwd s =
     (let es = map (\<lambda>(l, ep). (l, ep, 1, True)) (computers_lambdas (theComputers s))
      in if es = [] then (Inr (), s)
         else (let (ok, n) = ins_changeRoutes Ins fwd es (ct_derived s)
               in if ok then (Inr (), s\<lparr>ct_derived := n\<rparr>)
                  else removeRouter flat_privateRemoveRouter srv (s\<lparr>ct_derived := n\<rparr>)))"

definition flat_withdraw :: "'n installer \<Rightarrow> string \<Rightarrow> string list \<Rightarrow> string \<times> string \<Rightarrow> 'n ctl_op" where
  "flat_withdraw Ins ep ls r s =
     (let (ok, n) = ins_removeRoutes Ins (snd r) ep ls (ct_derived s)
      in if ok then (Inr (), s\<lparr>ct_derived := n\<rparr>)
         else removeRouter flat_privateRemoveRouter (fst r) (s\<lparr>ct_derived := n\<rparr>))"

definition flat_privateRemoveComputer :: "'n installer \<Rightarrow> string \<Rightarrow> string list \<Rightarrow> 'n ctl_op" where
  "flat_privateRemoveComputer Ins ep ls s = sfor (theRouters s) (flat_withdraw Ins ep ls) s"

definition flat_hooks :: "'n installer \<Rightarrow> 'n ctl_hooks" where
  "flat_hooks Ins = \<lparr>
     ch_addComputer = (\<lambda>ep ls. flat_ignore), ch_delComputer = (\<lambda>ep ls. flat_ignore),
     ch_addLambda = (\<lambda>l. flat_ignore), ch_delLambda = (\<lambda>l. flat_ignore),
     ch_announceComputer = flat_privateAnnounceComputer Ins,
     ch_announceRouter = flat_privateAnnounceRouter Ins,
     ch_removeComputer = flat_privateRemoveComputer Ins,
     ch_removeRouter = flat_privateRemoveRouter\<rparr>"

section \<open>The hooks keep the base class\<close>

lemma flat_removeRouter [simp]:
  "removeRouter flat_privateRemoveRouter srv s = (Inr (), s\<lparr>theRouters := merase srv (theRouters s)\<rparr>)"
  by (simp add: removeRouter_def flat_privateRemoveRouter_def routers_remove_def)

lemma flat_removeRouter_keeps: "keeps_base s (snd (removeRouter flat_privateRemoveRouter srv s))"
  using keeps_base_erase[where s = s and n = "ct_derived s" and srv = srv] by simp

interpretation flat: controller_hooks "flat_hooks Ins"
proof (unfold_locales, goal_cases)
  case (5 s ep cs)
  obtain bad n where b: "flat_notify Ins (map (\<lambda>c. (ct_lambda c, ep, 1, True)) cs) (theRouters s) (ct_derived s) = (bad, n)"
    by fastforce
  have "keeps_base (s\<lparr>ct_derived := n\<rparr>) (snd (sfor bad (removeRouter flat_privateRemoveRouter) (s\<lparr>ct_derived := n\<rparr>)))"
    by (rule keeps_base_sfor) (rule flat_removeRouter_keeps)
  then show ?case using keeps_base_trans[OF keeps_base_derived] b
    by (simp add: flat_hooks_def flat_privateAnnounceComputer_def Let_def del: flat_removeRouter)
next
  case (6 s srv fwd)
  then show ?case
    by (auto simp: flat_hooks_def flat_privateAnnounceRouter_def Let_def keeps_base_derived
        keeps_base_erase split: prod.split)
next
  case (7 s ep ls)
  have "keeps_base s (snd (flat_withdraw Ins ep ls r s))" for r and s :: "'a controller"
    by (auto simp: flat_withdraw_def keeps_base_derived keeps_base_erase split: prod.split)
  then show ?case by (simp add: flat_hooks_def flat_privateRemoveComputer_def keeps_base_sfor)
qed (simp_all add: flat_hooks_def flat_ignore_def flat_privateRemoveRouter_def)

section \<open>Every known router has exactly the routes of the known computers\<close>

definition all_routes :: "(string, container list) smap \<Rightarrow> (string \<times> string) set" where
  "all_routes m = {(l, ep). serves m ep l}"

definition endpoints_ok :: "(string, container list) smap \<Rightarrow> bool" where
  "endpoints_ok m \<longleftrightarrow> [] \<notin> fst ` set m"

definition flat_inv ::
  "('n \<Rightarrow> bool) \<Rightarrow> ('n \<Rightarrow> string \<Rightarrow> (string \<times> string) set) \<Rightarrow> 'n controller \<Rightarrow> bool" where
  "flat_inv ninv view s \<longleftrightarrow> ctl_inv s \<and> endpoints_ok (theComputers s) \<and> ninv (ct_derived s) \<and>
     (\<forall>srv fwd. map_of (theRouters s) srv = Some fwd \<longrightarrow>
        view (ct_derived s) fwd = all_routes (theComputers s))"

text \<open>The same relation for a set of routes \<open>R\<close> that may be behind the computers for a moment.\<close>

definition routers_have ::
  "('n \<Rightarrow> string \<Rightarrow> (string \<times> string) set) \<Rightarrow> (string \<times> string) set \<Rightarrow> (string, string) smap \<Rightarrow> 'n \<Rightarrow> bool" where
  "routers_have view R rs n \<longleftrightarrow> (\<forall>srv fwd. map_of rs srv = Some fwd \<longrightarrow> view n fwd = R)"

lemma routers_have_le:
  "routers_have view R rs n \<Longrightarrow> map_of rs' \<subseteq>\<^sub>m map_of rs \<Longrightarrow> routers_have view R rs' n"
  by (auto simp: routers_have_def map_le_def dom_def)

lemma all_routes_put:
  "map_of m ep = None \<Longrightarrow>
     all_routes (mput ep cs m) = all_routes m \<union> (\<lambda>c. (ct_lambda c, ep)) ` set cs"
  by (auto simp: all_routes_def serves_def)

lemma all_routes_erase:
  "all_routes (merase ep m) = all_routes m - {(l, ep) | l. l \<in> set (fst (computers_remove ep m))}"
  by (auto simp: all_routes_def serves_def computers_remove_def split: if_splits option.splits)

lemma computers_lambdas_set:
  assumes "mwf m"
  shows "set (computers_lambdas m) = all_routes m"
  using mwf_distinct[OF assms]
  by (force simp: computers_lambdas_def all_routes_def serves_def dest: map_of_SomeD)

text \<open>The loops over the lambdas leave the routers and the network alone.\<close>

lemma sfor_frame:
  assumes "\<And>x s. theRouters (snd (f x s)) = theRouters s \<and> ct_derived (snd (f x s)) = ct_derived s"
  shows "theRouters (snd (sfor xs f s)) = theRouters s \<and> ct_derived (snd (sfor xs f s)) = ct_derived s"
proof (induction xs arbitrary: s)
  case Nil
  then show ?case by simp
next
  case (Cons x xs)
  obtain r s1 where f: "f x s = (r, s1)" by fastforce
  then show ?case using Cons.IH[of s1] assms[where x = x and s = s] by (cases r) auto
qed

lemma flat_serve_frame:
  "theRouters (snd (sfor ls (serve_lambda (flat_hooks Ins) ep) s)) = theRouters s \<and>
   ct_derived (snd (sfor ls (serve_lambda (flat_hooks Ins) ep) s)) = ct_derived s"
  by (rule sfor_frame) (auto simp: serve_lambda_def flat_hooks_def flat_ignore_def Let_def)

lemma flat_unserve_frame:
  "theRouters (snd (sfor ls (unserve_lambda (flat_hooks Ins) ep) s)) = theRouters s \<and>
   ct_derived (snd (sfor ls (unserve_lambda (flat_hooks Ins) ep) s)) = ct_derived s"
  by (rule sfor_frame) (auto simp: unserve_lambda_def flat_hooks_def flat_ignore_def split: option.split)

lemma sfor_removeRouter:
  "sfor bad (removeRouter flat_privateRemoveRouter) s =
     (Inr (), s\<lparr>theRouters := filter (\<lambda>p. fst p \<notin> set bad) (theRouters s)\<rparr>)"
  by (induction bad arbitrary: s) (auto simp: merase_def intro!: filter_cong)

text \<open>
  \<open>flat_shrunk view D s xs t\<close>: between the states \<open>s\<close> and \<open>t\<close> routers were forgotten and routes of \<open>D\<close>
  removed at most, and those of \<open>xs\<close> that are still known have none of \<open>D\<close> left.
\<close>

definition flat_shrunk :: "('n \<Rightarrow> string \<Rightarrow> (string \<times> string) set) \<Rightarrow> (string \<times> string) set \<Rightarrow>
    'n controller \<Rightarrow> (string \<times> string) list \<Rightarrow> 'n controller \<Rightarrow> bool" where
  "flat_shrunk view D s xs t \<longleftrightarrow> map_of (theRouters t) \<subseteq>\<^sub>m map_of (theRouters s) \<and>
     (\<forall>e. view (ct_derived t) e \<subseteq> view (ct_derived s) e \<and>
          view (ct_derived s) e - D \<subseteq> view (ct_derived t) e) \<and>
     (\<forall>x\<in>set xs. fst x \<in> dom (map_of (theRouters t)) \<longrightarrow> view (ct_derived t) (snd x) \<inter> D = {})"

lemma flat_shrunk_trans:
  assumes "flat_shrunk view D s xs t" and "flat_shrunk view D t ys u"
  shows "flat_shrunk view D s (xs @ ys) u"
  unfolding flat_shrunk_def
proof (intro conjI ballI allI impI)
  have le: "map_of (theRouters u) \<subseteq>\<^sub>m map_of (theRouters t)" using assms(2) by (simp add: flat_shrunk_def)
  show "map_of (theRouters u) \<subseteq>\<^sub>m map_of (theRouters s)"
    using assms(1) le map_le_trans by (auto simp: flat_shrunk_def)
  fix e
  show "view (ct_derived u) e \<subseteq> view (ct_derived s) e" "view (ct_derived s) e - D \<subseteq> view (ct_derived u) e"
    using assms unfolding flat_shrunk_def by blast+
next
  fix x assume x: "x \<in> set (xs @ ys)" "fst x \<in> dom (map_of (theRouters u))"
  have "fst x \<in> dom (map_of (theRouters t))"
    using x(2) assms(2) map_le_implies_dom_le unfolding flat_shrunk_def by blast
  then show "view (ct_derived u) (snd x) \<inter> D = {}"
    using x assms unfolding flat_shrunk_def by (metis Int_mono Un_iff set_append subset_empty order_refl)
qed

context route_installer
begin

text \<open>A change sent to all the routers of a list, some of which fail.\<close>

lemma flat_notify_view:
  assumes "ninv n" and "routes_ok es" and "flat_notify Ins es rs n = (bad, n')"
  shows "ninv n' \<and> (\<forall>e. view n e \<subseteq> view n' e \<and> view n' e \<subseteq> view n e \<union> route_pairs es) \<and>
    (\<forall>(srv, fwd)\<in>set rs. srv \<notin> set bad \<longrightarrow> view n' fwd = view n fwd \<union> route_pairs es)"
  using assms(1,3)
proof (induction rs arbitrary: n bad n')
  case Nil
  then show ?case by simp
next
  case (Cons r rs)
  obtain srv fwd where r: "r = (srv, fwd)" by (cases r)
  obtain ok n1 where c: "ins_changeRoutes Ins fwd es n = (ok, n1)" by fastforce
  obtain bad1 n2 where b: "flat_notify Ins es rs n1 = (bad1, n2)" by fastforce
  have bad: "bad = (if ok then bad1 else srv # bad1)" "n' = n2" using Cons.prems(2) by (auto simp: r c b)
  have law: "ninv n1" "\<And>e. e \<noteq> fwd \<Longrightarrow> view n1 e = view n e" "view n fwd \<subseteq> view n1 fwd"
    "view n1 fwd \<subseteq> view n fwd \<union> route_pairs es" "ok \<Longrightarrow> view n1 fwd = view n fwd \<union> route_pairs es"
    using change_law[OF Cons.prems(1) assms(2) c] by auto
  have IH: "ninv n2" "\<And>e. view n1 e \<subseteq> view n2 e \<and> view n2 e \<subseteq> view n1 e \<union> route_pairs es"
    "\<And>srv fwd. (srv, fwd) \<in> set rs \<Longrightarrow> srv \<notin> set bad1 \<Longrightarrow> view n2 fwd = view n1 fwd \<union> route_pairs es"
    using Cons.IH[OF law(1) b] by auto
  have le: "view n e \<subseteq> view n1 e \<and> view n1 e \<subseteq> view n e \<union> route_pairs es" for e
    using law(2)[of e] law(3,4) by (cases "e = fwd") auto
  have all: "view n2 fwd' = view n fwd' \<union> route_pairs es"
    if "(srv', fwd') \<in> set (r # rs)" "srv' \<notin> set bad" for srv' fwd'
  proof (cases "(srv', fwd') \<in> set rs")
    case True
    then show ?thesis using IH(3)[OF True] that(2) le[of fwd'] bad(1) by (auto split: if_splits)
  next
    case False
    then have [simp]: "srv' = srv" "fwd' = fwd" using that(1) by (auto simp: r)
    have ok using that(2) bad(1) by (auto split: if_splits)
    then show ?thesis using law(5) IH(2)[of fwd] by auto
  qed
  then show ?case using IH(1,2) le unfolding bad(2) by (auto, blast+)
qed

lemma flat_announceComputer_view:
  assumes "ctl_inv s" and "ninv (ct_derived s)" and "ep \<noteq> []"
    and "routers_have view R (theRouters s) (ct_derived s)"
    and "flat_privateAnnounceComputer Ins ep cs s = (r, s')"
  shows "r = Inr () \<and> ninv (ct_derived s') \<and>
    routers_have view (R \<union> (\<lambda>c. (ct_lambda c, ep)) ` set cs) (theRouters s') (ct_derived s')"
proof -
  let ?es = "map (\<lambda>c. (ct_lambda c, ep, 1, True)) cs"
  obtain bad n where b: "flat_notify Ins ?es (theRouters s) (ct_derived s) = (bad, n)" by fastforce
  have ok: "routes_ok ?es" using assms(3) by (auto simp: routes_ok_def)
  have rp: "route_pairs ?es = (\<lambda>c. (ct_lambda c, ep)) ` set cs" by (auto simp: route_pairs_def image_image)
  have s': "r = Inr ()" "s' = s\<lparr>ct_derived := n, theRouters := filter (\<lambda>p. fst p \<notin> set bad) (theRouters s)\<rparr>"
    using assms(5) by (auto simp: flat_privateAnnounceComputer_def b sfor_removeRouter)
  note v = flat_notify_view[OF assms(2) ok b]
  have "distinct (mkeys (theRouters s))" using assms(1) mwf_distinct by (auto simp: ctl_inv_def)
  then have known: "(srv, fwd) \<in> set (theRouters s) \<and> srv \<notin> set bad \<and> map_of (theRouters s) srv = Some fwd"
    if "map_of (filter (\<lambda>p. fst p \<notin> set bad) (theRouters s)) srv = Some fwd" for srv fwd
    using that by (auto simp: map_of_filter_distinct split: option.splits if_splits dest: map_of_SomeD)
  have "view n fwd = R \<union> route_pairs ?es"
    if f: "map_of (filter (\<lambda>p. fst p \<notin> set bad) (theRouters s)) srv = Some fwd" for srv fwd
  proof -
    have "view n fwd = view (ct_derived s) fwd \<union> route_pairs ?es" using known[OF f] v by blast
    moreover have "view (ct_derived s) fwd = R" using known[OF f] assms(4) unfolding routers_have_def by blast
    ultimately show ?thesis by simp
  qed
  then have "routers_have view (R \<union> route_pairs ?es) (theRouters s') n"
    by (simp add: routers_have_def s'(2))
  then show ?thesis using v s' rp by simp
qed

lemma flat_withdraw_step:
  assumes "ninv (ct_derived t)"
  shows "\<exists>t'. flat_withdraw Ins ep ls x t = (Inr (), t') \<and> ninv (ct_derived t') \<and>
    flat_shrunk view {(l, ep) | l. l \<in> set ls} t [x] t'"
proof -
  let ?D = "{(l, ep) | l. l \<in> set ls}"
  obtain ok n where c: "ins_removeRoutes Ins (snd x) ep ls (ct_derived t) = (ok, n)" by fastforce
  have law: "ninv n" "\<And>e. e \<noteq> snd x \<Longrightarrow> view n e = view (ct_derived t) e"
    "view n (snd x) \<subseteq> view (ct_derived t) (snd x)" "view (ct_derived t) (snd x) - ?D \<subseteq> view n (snd x)"
    "ok \<Longrightarrow> view n (snd x) = view (ct_derived t) (snd x) - ?D"
    using remove_law[OF assms c] by auto
  have le: "view n e \<subseteq> view (ct_derived t) e \<and> view (ct_derived t) e - ?D \<subseteq> view n e" for e
    using law(2)[of e] law(3,4) by (cases "e = snd x") auto
  show ?thesis
  proof (cases ok)
    case True
    have "view n (snd x) \<inter> ?D = {}" using law(5)[OF True] by blast
    then show ?thesis using c law(1) le True by (simp add: flat_withdraw_def flat_shrunk_def)
  next
    case False
    then show ?thesis using c law(1) le merase_map_le[of "fst x" "theRouters t"]
      by (simp add: flat_withdraw_def flat_shrunk_def)
  qed
qed

lemma flat_removeComputer_view:
  assumes "ninv (ct_derived s)" and "routers_have view R (theRouters s) (ct_derived s)"
    and "flat_privateRemoveComputer Ins ep ls s = (r, s')"
  shows "r = Inr () \<and> ninv (ct_derived s') \<and>
    routers_have view (R - {(l, ep) | l. l \<in> set ls}) (theRouters s') (ct_derived s')"
proof -
  let ?D = "{(l, ep) | l. l \<in> set ls}"
  have "\<exists>t. sfor (theRouters s) (flat_withdraw Ins ep ls) s = (Inr (), t) \<and>
      ninv (ct_derived t) \<and> flat_shrunk view ?D s (theRouters s) t"
  proof (rule sfor_inv[where I = "\<lambda>xs t. ninv (ct_derived t) \<and> flat_shrunk view ?D s xs t"])
    fix xs x t
    assume "ninv (ct_derived t) \<and> flat_shrunk view ?D s xs t"
    then show "\<exists>t'. flat_withdraw Ins ep ls x t = (Inr (), t') \<and>
        ninv (ct_derived t') \<and> flat_shrunk view ?D s (xs @ [x]) t'"
      using flat_withdraw_step[of t ep ls x] flat_shrunk_trans by blast
  qed (use assms(1) in \<open>simp add: flat_shrunk_def\<close>)
  then have t: "r = Inr ()" "ninv (ct_derived s')" "flat_shrunk view ?D s (theRouters s) s'"
    using assms(3) by (auto simp: flat_privateRemoveComputer_def)
  have "view (ct_derived s') fwd = R - ?D" if f: "map_of (theRouters s') srv = Some fwd" for srv fwd
  proof -
    have old: "map_of (theRouters s) srv = Some fwd"
      using t(3) f by (auto simp: flat_shrunk_def map_le_def dom_def)
    from map_of_SomeD[OF this] have "view (ct_derived s') fwd \<inter> ?D = {}"
      using t(3) f by (force simp: flat_shrunk_def)
    moreover have "view (ct_derived s) fwd = R" using assms(2) old by (auto simp: routers_have_def)
    moreover have "view (ct_derived s') fwd \<subseteq> view (ct_derived s) fwd"
      "view (ct_derived s) fwd - ?D \<subseteq> view (ct_derived s') fwd" using t(3) by (auto simp: flat_shrunk_def)
    ultimately show ?thesis by blast
  qed
  then show ?thesis using t(1,2) by (auto simp: routers_have_def)
qed

lemma flat_removal:
  assumes "flat_inv ninv view s"
  shows "\<exists>s'. removeComputer (flat_hooks Ins) ep s = (Inr (), s') \<and> flat_inv ninv view s' \<and>
    theComputers s' = merase ep (theComputers s)"
proof -
  let ?ls = "fst (computers_remove ep (theComputers s))"
  have inv: "ctl_inv s" and nv: "ninv (ct_derived s)"
    and rh: "routers_have view (all_routes (theComputers s)) (theRouters s) (ct_derived s)"
    using assms by (auto simp: flat_inv_def routers_have_def)
  obtain s1 where s1: "theComputers s1 = merase ep (theComputers s)" "ctl_inv s1"
    "removeComputer (flat_hooks Ins) ep s = ch_removeComputer (flat_hooks Ins) ep ?ls s1"
    "sbind (sfor ?ls (unserve_lambda (flat_hooks Ins) ep)
        (s\<lparr>theComputers := snd (computers_remove ep (theComputers s))\<rparr>))
      (\<lambda>_. ch_delComputer (flat_hooks Ins) ep ?ls) = (Inr (), s1)"
    using flat.privateRemoveComputer_inv[OF inv, where Ins = Ins and ep = ep] by (auto simp: removeComputer_def)
  have fr: "theRouters s1 = theRouters s" "ct_derived s1 = ct_derived s"
    using s1(4) flat_unserve_frame[of ?ls Ins ep "s\<lparr>theComputers := snd (computers_remove ep (theComputers s))\<rparr>"]
    by (cases "sfor ?ls (unserve_lambda (flat_hooks Ins) ep)
        (s\<lparr>theComputers := snd (computers_remove ep (theComputers s))\<rparr>)";
        auto simp: sbind_def flat_hooks_def flat_ignore_def split: sum.splits)+
  obtain r s' where r: "flat_privateRemoveComputer Ins ep ?ls s1 = (r, s')" by fastforce
  have v: "r = Inr ()" "ninv (ct_derived s')"
    "routers_have view (all_routes (merase ep (theComputers s))) (theRouters s') (ct_derived s')"
    using flat_removeComputer_view[OF _ _ r] nv rh fr by (simp_all add: all_routes_erase)
  have k: "keeps_base s1 s'" using flat.removeComputer_law[where s = s1 and Ins = Ins and ep = ep and ls = ?ls] r by (simp add: flat_hooks_def)
  then have "ctl_inv s'" "theComputers s' = merase ep (theComputers s)"
    using s1(1,2) by (auto simp: ctl_inv_def keeps_base_def)
  then have "flat_inv ninv view s'"
    using v assms by (auto simp: flat_inv_def routers_have_def endpoints_ok_def)
  then show ?thesis using s1(3) r v(1) \<open>theComputers s' = _\<close> by (simp add: flat_hooks_def)
qed

lemma flat_addition:
  assumes "flat_inv ninv view s" and "ep \<noteq> []" and "map_of (theComputers s) ep = None"
  shows "\<exists>s'. sbind (sfor (map ct_lambda cs) (serve_lambda (flat_hooks Ins) ep)
      (s\<lparr>theComputers := mput ep cs (theComputers s)\<rparr>)) (\<lambda>_ s2.
        sbind (ch_addComputer (flat_hooks Ins) ep (map ct_lambda cs) s2)
          (\<lambda>_. ch_announceComputer (flat_hooks Ins) ep cs)) = (Inr (), s') \<and>
    flat_inv ninv view s' \<and> theComputers s' = mput ep cs (theComputers s)"
proof -
  let ?H = "flat_hooks Ins"
  let ?s = "s\<lparr>theComputers := mput ep cs (theComputers s)\<rparr>"
  have inv: "ctl_inv s" and nv: "ninv (ct_derived s)"
    and rh: "routers_have view (all_routes (theComputers s)) (theRouters s) (ct_derived s)"
    using assms(1) by (auto simp: flat_inv_def routers_have_def)
  obtain s3 where s3: "theComputers s3 = mput ep cs (theComputers s)" "ctl_inv s3"
    "\<And>f. sbind (sfor (map ct_lambda cs) (serve_lambda ?H ep) ?s) (\<lambda>_ s2.
        sbind (ch_addComputer ?H ep (map ct_lambda cs) s2) (\<lambda>_ s3. (f s3 :: (exn + unit) \<times> 'n controller))) = f s3"
    using flat.serve_computer_inv[OF inv assms(3), where Ins = Ins and cs = cs] by auto
  have fr: "theRouters s3 = theRouters s" "ct_derived s3 = ct_derived s"
    using s3(3)[of "\<lambda>s. (Inr (), s)"] flat_serve_frame[of "map ct_lambda cs" Ins ep ?s]
    by (cases "sfor (map ct_lambda cs) (serve_lambda ?H ep) ?s";
        auto simp: sbind_def flat_hooks_def flat_ignore_def split: sum.splits)+
  obtain r s' where r: "flat_privateAnnounceComputer Ins ep cs s3 = (r, s')" by fastforce
  have v: "r = Inr ()" "ninv (ct_derived s')"
    "routers_have view (all_routes (mput ep cs (theComputers s))) (theRouters s') (ct_derived s')"
    using flat_announceComputer_view[OF s3(2) _ assms(2) _ r] nv rh fr
    by (simp_all add: all_routes_put[OF assms(3)])
  have k: "keeps_base s3 s'" using flat.announceComputer_law[where s = s3 and Ins = Ins and ep = ep and cs = cs] r by (simp add: flat_hooks_def)
  then have "ctl_inv s'" "theComputers s' = mput ep cs (theComputers s)"
    using s3(1,2) by (auto simp: ctl_inv_def keeps_base_def)
  then have "flat_inv ninv view s'"
    using v assms(1,2) by (auto simp: flat_inv_def routers_have_def endpoints_ok_def)
  then show ?thesis using s3(3)[of "ch_announceComputer ?H ep cs"] r v(1) \<open>theComputers s' = _\<close>
    by (simp add: flat_hooks_def)
qed

lemma flat_announceComputer:
  assumes "flat_inv ninv view s" and "ep \<noteq> []"
  shows "\<exists>s'. announceComputer (flat_hooks Ins) ep cs s = (Inr (), s') \<and> flat_inv ninv view s' \<and>
    map_of (theComputers s') = (map_of (theComputers s))(ep \<mapsto> cs)"
proof (cases "map_of (theComputers s) ep")
  case None
  then show ?thesis using flat_addition[OF assms None, of cs]
    by (auto simp: announceComputer_def computers_add_def)
next
  case (Some cs')
  show ?thesis
  proof (cases "cs' = cs")
    case True
    then show ?thesis using Some assms(1) by (auto simp: announceComputer_def computers_add_def)
  next
    case False
    obtain s1 where s1: "privateRemoveComputer (flat_hooks Ins) ep s = (Inr (), s1)"
      "flat_inv ninv view s1" "theComputers s1 = merase ep (theComputers s)"
      using flat_removal[OF assms(1), of ep] by (auto simp: removeComputer_def)
    have "map_of (theComputers s1) ep = None" using s1(3) by simp
    from flat_addition[OF s1(2) assms(2) this, of cs] this show ?thesis
      using Some False s1 by (auto simp: announceComputer_def computers_add_def)
  qed
qed

lemma flat_announceRouter:
  assumes "flat_inv ninv view s" and "view (ct_derived s) fwd \<subseteq> all_routes (theComputers s)"
  shows "\<exists>s'. announceRouter (flat_hooks Ins) srv fwd s = (Inr (), s') \<and> flat_inv ninv view s' \<and>
    theComputers s' = theComputers s"
proof -
  let ?es = "map (\<lambda>(l, ep). (l, ep, 1, True)) (computers_lambdas (theComputers s))"
  let ?s = "s\<lparr>theRouters := mput srv fwd (theRouters s)\<rparr>"
  have inv: "ctl_inv s" "endpoints_ok (theComputers s)" "ninv (ct_derived s)"
    and old: "\<And>a b. map_of (theRouters s) a = Some b \<Longrightarrow> view (ct_derived s) b = all_routes (theComputers s)"
    using assms(1) by (auto simp: flat_inv_def)
  have set: "set (computers_lambdas (theComputers s)) = all_routes (theComputers s)"
    using computers_lambdas_set inv(1) by (auto simp: ctl_inv_def)
  then have rp: "route_pairs ?es = all_routes (theComputers s)" by (force simp: route_pairs_def)
  have "(l, []) \<notin> all_routes (theComputers s)" for l
    using inv(2) unfolding all_routes_def serves_def endpoints_ok_def by (auto simp: in_fst_set_iff)
  then have ok: "routes_ok ?es" using set by (force simp: routes_ok_def)
  have cinv: "ctl_inv ?s" using inv(1) by (simp add: ctl_inv_def)
  have eq: "announceRouter (flat_hooks Ins) srv fwd s = flat_privateAnnounceRouter Ins srv fwd ?s"
    by (simp add: announceRouter_def flat_hooks_def routers_add_def)
  show ?thesis
  proof (cases "?es = []")
    case True
    then have "view (ct_derived s) fwd = all_routes (theComputers s)" using assms(2) set by auto
    then show ?thesis using True eq cinv inv old
      by (auto simp: flat_privateAnnounceRouter_def flat_inv_def)
  next
    case False
    obtain k n where c: "ins_changeRoutes Ins fwd ?es (ct_derived s) = (k, n)" by fastforce
    have law: "ninv n" "\<And>e. e \<noteq> fwd \<Longrightarrow> view n e = view (ct_derived s) e" "view (ct_derived s) fwd \<subseteq> view n fwd"
      "view n fwd \<subseteq> view (ct_derived s) fwd \<union> all_routes (theComputers s)"
      "k \<Longrightarrow> view n fwd = view (ct_derived s) fwd \<union> all_routes (theComputers s)"
      using change_law[OF inv(3) ok c] rp by auto
    have known: "view n b = all_routes (theComputers s)" if "map_of (theRouters s) a = Some b" for a b
      using old[OF that] law(2)[of b] law(3,4) by (cases "b = fwd") auto
    show ?thesis
    proof (cases k)
      case True
      then have "view n fwd = all_routes (theComputers s)" using law(5) assms(2) by auto
      then show ?thesis using True False eq c cinv inv law(1) known
        by (auto simp: flat_privateAnnounceRouter_def flat_inv_def ctl_inv_def)
    next
      case k: False
      show ?thesis using k False eq c cinv inv law(1) known
        by (auto simp: flat_privateAnnounceRouter_def flat_inv_def ctl_inv_def split: if_splits)
    qed
  qed
qed

end

section \<open>Properties\<close>

text \<open>
  The states that a flat controller over remote procedure calls can reach from the network \<open>n0\<close>. Calls may
  fail at any time (\<open>net\<close>). A router announces itself with a table that has no route to a computer or
  lambda unknown to the controller, such as an empty one: the flat controller never flushes a table.
\<close>

inductive flat_reach ::
  "(nat \<Rightarrow> nat \<Rightarrow> env) \<Rightarrow> (nat \<Rightarrow> bool) \<Rightarrow> rpc_network \<Rightarrow> rpc_network controller \<Rightarrow> bool"
  for E net n0 where
  start: "flat_reach E net n0 (ctl_new n0)"
| computer: "flat_reach E net n0 s \<Longrightarrow> ep \<noteq> [] \<Longrightarrow>
    flat_reach E net n0 (snd (announceComputer (flat_hooks (rpc_installer E net)) ep cs s))"
| leave: "flat_reach E net n0 s \<Longrightarrow>
    flat_reach E net n0 (snd (removeComputer (flat_hooks (rpc_installer E net)) ep s))"
| router: "flat_reach E net n0 s \<Longrightarrow> rn_view (ct_derived s) fwd \<subseteq> all_routes (theComputers s) \<Longrightarrow>
    flat_reach E net n0 (snd (announceRouter (flat_hooks (rpc_installer E net)) srv fwd s))"

lemma rn_envs_id: "(\<And>n i. ok_env (E n i)) \<Longrightarrow> rn_envs E = E"
  by (simp add: rn_envs_def fun_eq_iff)

lemma flat_reach_inv:
  assumes "flat_reach E net n0 s" and "rn_inv n0" and "\<And>n i. ok_env (E n i)"
  shows "flat_inv rn_inv rn_view s"
  using assms(1)
proof (induction rule: flat_reach.induct)
  case start
  then show ?case using assms(2)
    by (simp add: flat_inv_def ctl_new_def ctl_inv_def lambdas_ok_def serves_def endpoints_ok_def)
next
  case (computer s ep cs)
  then show ?case using rpc.flat_announceComputer[of s ep E net cs] rn_envs_id[of E] assms(3) by auto
next
  case (leave s ep)
  then show ?case using rpc.flat_removal[of s E net ep] rn_envs_id[of E] assms(3) by auto
next
  case (router s fwd srv)
  then show ?case using rpc.flat_announceRouter[of s fwd E net srv] rn_envs_id[of E] assms(3) by auto
qed


text \<open>A concrete run: a router with an empty table of random policy, then a computer.\<close>

definition net_ex :: rpc_network where
  "net_ex = \<lparr>rn_tables = (\<lambda>_. [ft_new Random 0 0]), rn_calls = 0\<rparr>"

definition container_ex :: container where
  "container_ex = \<lparr>ct_name = ''k'', ct_processor = ''p'', ct_lambda = ''f'', ct_numWorkers = 1\<rparr>"

definition flat_ex :: "rpc_network controller" where
  "flat_ex = snd (announceComputer (flat_hooks (rpc_installer (\<lambda>_ _. env_ex 0 0) (\<lambda>_. True))) ''c'' [container_ex]
     (snd (announceRouter (flat_hooks (rpc_installer (\<lambda>_ _. env_ex 0 0) (\<lambda>_. True))) ''r'' ''rf'' (ctl_new net_ex))))"

lemma net_ex_inv: "rn_inv net_ex"
  by (simp add: rn_inv_def net_ex_def tables_ok_def removable_def ft_inv_new) (simp add: ft_new_def)

lemma flat_ex_reach: "flat_reach (\<lambda>_ _. env_ex 0 0) (\<lambda>_. True) net_ex flat_ex"
  unfolding flat_ex_def
  by (intro flat_reach.computer flat_reach.router flat_reach.start)
     (simp_all add: ctl_new_def net_ex_def rn_view_def table_routes_def ft_dests_def ft_inv_new)

lemma flat_ex_state: "map_of (theRouters flat_ex) ''r'' = Some ''rf'' \<and> serves (theComputers flat_ex) ''c'' ''f''"
  by (simp add: flat_ex_def announceComputer_def announceRouter_def flat_hooks_def ctl_new_def
      computers_add_def flat_privateAnnounceRouter_def flat_privateAnnounceComputer_def computers_lambdas_def
      serve_lambda_def flat_ignore_def routers_add_def container_ex_def Let_def rpc_installer_def rn_update_def
      rpc_changeRoutes_def forwardingTableCommand_def client_send_def serves_def split: prod.split)


text \<open>
  The message of a computer's announcement carries its containers faithfully, and a request is
  applied to each controller on its own: a controller that throws changes neither the others nor
  the reply.
\<close>

theorem announce_message_roundtrip:
  "containerListFromProtobuf (toProtobuf ep cs) = cs \<and>
   srv_AnnounceComputer H (toProtobuf ep cs) ctls = map (\<lambda>c. snd (announceComputer H ep cs c)) ctls"
proof -
  have "foldl (\<lambda>acc c. acc @ [\<lparr>ct_name = ct_name c, ct_processor = ct_processor c,
      ct_lambda = ct_lambda c, ct_numWorkers = ct_numWorkers c\<rparr>]) xs cs = xs @ cs" for xs
    by (induction cs arbitrary: xs) simp_all
  then have "containerListFromProtobuf (toProtobuf ep cs) = cs"
    by (simp add: containerListFromProtobuf_def toProtobuf_def map_nth)
  then show ?thesis by (simp add: srv_AnnounceComputer_def server_apply_def) (simp add: toProtobuf_def)
qed

end
