(* ===== verification/Topology.thy ===== *)
theory Topology
  imports Entry
begin

text \<open>
  The network topology of the hierarchical controller, \<open>Edge/topology.cpp\<close>: a distance matrix over named
  nodes, read from a text file.

  The file is the list of its lines. The name is the first word of a line; the distances that
  \<open>std::istream\<close> extracts from the rest of the line, up to the first one that is not a number, are a
  parameter \<open>doubles\<close> of the constructor.
\<close>

section \<open>State and operations\<close>

record topology =
  tp_names :: "(string, nat) smap"
  tp_distances :: "real list"

definition is_space :: "char \<Rightarrow> bool" where
  "is_space c \<longleftrightarrow> c = CHR 0x20 \<or> c = CHR 0x09 \<or> c = CHR 0x0A \<or> c = CHR 0x0B \<or> c = CHR 0x0C \<or> c = CHR 0x0D"

definition first_word :: "string \<Rightarrow> string" where
  "first_word s = takeWhile (\<lambda>c. \<not> is_space c) (dropWhile is_space s)"

definition after_word :: "string \<Rightarrow> string" where
  "after_word s = dropWhile (\<lambda>c. \<not> is_space c) (dropWhile is_space s)"

definition InvalidTopologyFile :: "string \<Rightarrow> exn" where
  "InvalidTopologyFile f = RuntimeError (''Invalid or non-existing topology file '' @ [CHR 0x27] @ f @ [CHR 0x27])"

definition InvalidNode :: "string \<Rightarrow> exn" where
  "InvalidNode n = RuntimeError (''Invalid or unknown node '' @ [CHR 0x27] @ n @ [CHR 0x27])"

text \<open>The loop over the elements of a row that copies it into the matrix.\<close>

definition copy_row :: "nat \<Rightarrow> real list \<Rightarrow> real list \<Rightarrow> real list" where
  "copy_row cur row ds = foldl (\<lambda>ds i. ds[cur * length row + i := row ! i]) ds [0..<length row]"

text \<open>
  The loop over the lines: the number of nodes (none before the first row), the current node, the
  names and the matrix.
\<close>

fun topology_lines :: "(string \<Rightarrow> real list) \<Rightarrow> string \<Rightarrow> string list \<Rightarrow> nat option \<Rightarrow> nat \<Rightarrow> topology \<Rightarrow> exn + nat \<times> topology" where
  "topology_lines doubles f [] n cur T = Inr (cur, T)"
| "topology_lines doubles f (line # rest) n cur T =
     (if line = [] \<or> hd line = CHR ''#'' then topology_lines doubles f rest n cur T
      else if (case n of None \<Rightarrow> False | Some k \<Rightarrow> cur \<ge> k) then Inl (InvalidTopologyFile f)
      else (let name = first_word line; row = doubles (after_word line)
            in if name = [] then Inl (InvalidTopologyFile f)
               else if map_of (tp_names T) name \<noteq> None then Inl (InvalidTopologyFile f)
               else (let T = T\<lparr>tp_names := mput name cur (tp_names T)\<rparr>
                     in case n of
                          None \<Rightarrow>
                            (if row = [] then Inl (InvalidTopologyFile f)
                             else topology_lines doubles f rest (Some (length row)) (Suc cur)
                                    (T\<lparr>tp_distances := copy_row cur row (replicate (length row * length row) 0)\<rparr>))
                        | Some k \<Rightarrow>
                            (if k \<noteq> length row then Inl (InvalidTopologyFile f)
                             else topology_lines doubles f rest n (Suc cur)
                                    (T\<lparr>tp_distances := copy_row cur row (tp_distances T)\<rparr>)))))"

definition topology_new :: "(string \<Rightarrow> real list) \<Rightarrow> string \<Rightarrow> string list option \<Rightarrow> exn + topology" where
  "topology_new doubles f content = (case content of
       None \<Rightarrow> Inl (InvalidTopologyFile f)
     | Some ls \<Rightarrow> rbind (topology_lines doubles f ls None 0 \<lparr>tp_names = [], tp_distances = []\<rparr>) (\<lambda>(cur, T).
         if cur \<noteq> length (tp_names T) then Inl (Undefined ''assertion myCurNode == theNames.size()'')
         else if tp_distances T = [] then Inl (InvalidTopologyFile f)
         else if length (tp_distances T) \<noteq> length (tp_names T) * length (tp_names T) then Inl (InvalidTopologyFile f)
         else Inr T))"

definition numNodes :: "topology \<Rightarrow> nat" where
  "numNodes T = length (tp_names T)"

definition topology_distance :: "string \<Rightarrow> string \<Rightarrow> topology \<Rightarrow> exn + real" where
  "topology_distance src dst T = (case map_of (tp_names T) src of
       None \<Rightarrow> Inl (InvalidNode src)
     | Some i \<Rightarrow> (case map_of (tp_names T) dst of
           None \<Rightarrow> Inl (InvalidNode dst)
         | Some j \<Rightarrow> (let k = i * length (tp_names T) + j
             in if k < length (tp_distances T) then Inr (tp_distances T ! k)
                else Inl (Undefined ''assertion myDistNdx < theDistances.size()''))))"

text \<open>The loops of \<open>randomize\<close> over the pairs of nodes; \<open>rnd\<close> is the sequence of random values.\<close>

definition topology_randomize :: "(nat \<Rightarrow> real) \<Rightarrow> topology \<Rightarrow> topology" where
  "topology_randomize rnd T =
     (let n = length (tp_names T);
          ijs = concat (map (\<lambda>i. map (\<lambda>j. (i, j)) [0..<n]) [0..<n])
      in T\<lparr>tp_distances := fst (foldl (\<lambda>(ds, k) (i, j).
            if i \<noteq> j then (ds[i * n + j := rnd k], Suc k) else (ds, k)) (tp_distances T, 0) ijs)\<rparr>)"

section \<open>A topology that was read is well formed\<close>

definition topology_ok :: "topology \<Rightarrow> bool" where
  "topology_ok T \<longleftrightarrow> mwf (tp_names T) \<and> snd ` set (tp_names T) = {0..<length (tp_names T)} \<and>
     length (tp_distances T) = length (tp_names T) * length (tp_names T) \<and> tp_names T \<noteq> []"

lemma length_copy_row [simp]: "length (copy_row cur row ds) = length ds"
proof -
  have "length (foldl (\<lambda>ds i. ds[cur * length row + i := row ! i]) ds is) = length ds" for "is"
    by (induction "is" arbitrary: ds) auto
  then show ?thesis by (simp add: copy_row_def)
qed

lemma length_mput: "map_of m k = None \<Longrightarrow> length (mput k v m) = Suc (length m)"
  by (induction m) (auto split: if_splits)

lemma set_mput: "map_of m k = None \<Longrightarrow> set (mput k v m) = insert (k, v) (set m)"
  by (induction m) (auto split: if_splits)

text \<open>The invariant of the loop.\<close>

definition lines_inv :: "nat option \<Rightarrow> nat \<Rightarrow> topology \<Rightarrow> bool" where
  "lines_inv n cur T \<longleftrightarrow> mwf (tp_names T) \<and> length (tp_names T) = cur \<and> snd ` set (tp_names T) = {0..<cur} \<and>
     (case n of None \<Rightarrow> cur = 0 \<and> tp_distances T = []
      | Some k \<Rightarrow> 0 < k \<and> cur \<le> k \<and> 0 < cur \<and> length (tp_distances T) = k * k)"

lemma lines_inv_add:
  assumes "lines_inv n cur T" and "map_of (tp_names T) name = None" and "length ds = k * k" and "0 < k" and "cur < k"
  shows "lines_inv (Some k) (Suc cur) (T\<lparr>tp_names := mput name cur (tp_names T), tp_distances := ds\<rparr>)"
  using assms by (auto simp: lines_inv_def length_mput set_mput)

lemma topology_lines_inv:
  "topology_lines doubles f ls n cur T = Inr (cur', T') \<Longrightarrow> lines_inv n cur T \<Longrightarrow> \<exists>n'. lines_inv n' cur' T'"
proof (induction doubles f ls n cur T rule: topology_lines.induct)
  case (1 doubles f n cur T)
  then show ?case by auto
next
  case (2 doubles f line rest n cur T)
  show ?case
  proof (cases "line = [] \<or> hd line = CHR ''#''")
    case True
    then show ?thesis using 2(1)[OF True] 2(4,5) by simp
  next
    case False
    let ?name = "first_word line" and ?row = "doubles (after_word line)"
    have g: "\<not> (case n of None \<Rightarrow> False | Some k \<Rightarrow> cur \<ge> k)" "?name \<noteq> []" "map_of (tp_names T) ?name = None"
      using 2(4) False by (auto simp: Let_def split: if_splits)
    show ?thesis
    proof (cases n)
      case None
      then have row: "?row \<noteq> []" and z: "cur = 0" using 2(4,5) False g by (auto simp: Let_def lines_inv_def split: if_splits)
      let ?T = "T\<lparr>tp_names := mput ?name cur (tp_names T), tp_distances := copy_row cur ?row (replicate (length ?row * length ?row) 0)\<rparr>"
      have "lines_inv (Some (length ?row)) (Suc cur) ?T"
        using row z by (intro lines_inv_add[OF 2(5) g(3)]) auto
      moreover have "topology_lines doubles f rest (Some (length ?row)) (Suc cur) ?T = Inr (cur', T')"
        using 2(4) False g None row by (simp add: Let_def)
      ultimately show ?thesis using 2(2)[OF False g(1) refl refl g(2) _ refl None] g(3) row by simp
    next
      case (Some k)
      then have row: "k = length ?row" "cur < k" using 2(4) False g by (auto simp: Let_def split: if_splits)
      let ?T = "T\<lparr>tp_names := mput ?name cur (tp_names T), tp_distances := copy_row cur ?row (tp_distances T)\<rparr>"
      have "lines_inv (Some k) (Suc cur) ?T"
        using row 2(5) Some by (intro lines_inv_add[OF 2(5) g(3)]) (auto simp: lines_inv_def)
      moreover have "topology_lines doubles f rest n (Suc cur) ?T = Inr (cur', T')"
        using 2(4) False g Some row by (simp add: Let_def)
      ultimately show ?thesis using 2(3)[OF False g(1) refl refl g(2) _ refl Some] g(3) row Some by simp
    qed
  qed
qed

lemma topology_new_ok:
  assumes "topology_new doubles f c = Inr T"
  shows "topology_ok T"
proof -
  obtain ls cur where l: "topology_lines doubles f ls None 0 \<lparr>tp_names = [], tp_distances = []\<rparr> = Inr (cur, T)"
    and c: "cur = length (tp_names T)" "tp_distances T \<noteq> []" "length (tp_distances T) = length (tp_names T) * length (tp_names T)"
    using assms by (auto simp: topology_new_def rbind_eq_Inr split: option.splits if_splits)
  have "lines_inv None 0 \<lparr>tp_names = [], tp_distances = []\<rparr>" by (simp add: lines_inv_def)
  from topology_lines_inv[OF l this] obtain n' where "lines_inv n' cur T" ..
  then show ?thesis using c by (auto simp: lines_inv_def topology_ok_def)
qed

lemma topology_index:
  assumes "topology_ok T" and "map_of (tp_names T) a = Some i"
  shows "i < length (tp_names T)"
proof -
  have "i \<in> snd ` set (tp_names T)" using map_of_SomeD[OF assms(2)] by force
  then show ?thesis using assms(1) by (auto simp: topology_ok_def)
qed

lemma topology_distance_ok:
  assumes "topology_ok T"
  shows "topology_distance a b T = (if a \<notin> fst ` set (tp_names T) then Inl (InvalidNode a)
    else if b \<notin> fst ` set (tp_names T) then Inl (InvalidNode b)
    else Inr (tp_distances T ! (the (map_of (tp_names T) a) * length (tp_names T) + the (map_of (tp_names T) b))))"
proof (cases "map_of (tp_names T) a")
  case None
  then have "a \<notin> fst ` set (tp_names T)" using map_of_eq_None_iff by metis
  then show ?thesis using None by (simp add: topology_distance_def)
next
  case (Some i)
  show ?thesis
  proof (cases "map_of (tp_names T) b")
    case None
    then have "b \<notin> fst ` set (tp_names T)" using map_of_eq_None_iff by metis
    then show ?thesis using None Some in_fst_set_iff[of a "tp_names T"] by (simp add: topology_distance_def)
  next
    case (Some j)
    let ?n = "length (tp_names T)"
    have ij: "i < ?n" "j < ?n" using topology_index[OF assms] \<open>map_of (tp_names T) a = Some i\<close> Some by auto
    then have "i * ?n + j < Suc i * ?n" by simp
    also have "\<dots> \<le> ?n * ?n" using ij(1) by (intro mult_le_mono) auto
    finally show ?thesis using \<open>map_of (tp_names T) a = Some i\<close> Some assms in_fst_set_iff[of a "tp_names T"] in_fst_set_iff[of b "tp_names T"]
      by (simp add: topology_distance_def topology_ok_def Let_def)
  qed
qed

section \<open>Property\<close>


definition digits_ex :: "string \<Rightarrow> real list" where
  "digits_ex s = map (\<lambda>c. real (of_char c - (48::nat))) (filter (\<lambda>c. c \<in> set ''0123456789'') s)"

definition topology_ex :: topology where
  "topology_ex = \<lparr>tp_names = [(''a'', 1), (''b'', 0)], tp_distances = [0, 3, 4, 0]\<rparr>"

lemma topology_ex_read: "topology_new digits_ex ''f'' (Some [''# nodes'', ''b 0 3'', ''a 4 0'']) = Inr topology_ex"
  by code_simp


end
