(* ===== verification/EdgeControllerHier.thy ===== *)
theory EdgeControllerHier
  imports EdgeController RouteInstaller Topology
begin

text \<open>
  The hierarchical controller, \<open>Edge/edgecontrollerhier.cpp\<close>: a computer is announced to the closest
  router, its home, as a final destination; the home router is announced to the other routers as an
  intermediate destination for its lambdas.

  \<open>removeRouter\<close> resets the tables of all the routers, which may find another router that does not
  answer and remove it in turn: the functions take the removal as the parameter \<open>rm\<close>, and
  \<open>hier_removeRouter\<close> ties the knot with a bound on the depth of the recursion. A router is forgotten at
  each level, hence the number of routers is a sufficient bound.
\<close>

section \<open>State\<close>

datatype objective_type = MinMax | MinAvg

definition objectiveFromString :: "string \<Rightarrow> exn + objective_type" where
  "objectiveFromString s = (if s = ''min-max'' then Inr MinMax else if s = ''min-avg'' then Inr MinAvg
     else Inl (RuntimeError (''Invalid hierarchical controller objective: '' @ s)))"

definition objective_toString :: "objective_type \<Rightarrow> string" where
  "objective_toString obj = (case obj of MinMax \<Rightarrow> ''min-max'' | MinAvg \<Rightarrow> ''min-avg'')"

record 'n hier =
  hi_objective :: "objective_type option"
  hi_topology :: "topology option"
  hi_routerAddresses :: "(string, string list) smap"
  hi_closest :: "(string, string) smap"
  hi_announced :: "(string, (string, string sset) smap) smap"
  hi_endpoints :: "(string, string) smap"
  hi_draws :: nat
  hi_net :: 'n

definition hier_new :: "'n \<Rightarrow> 'n hier" where
  "hier_new n = \<lparr>hi_objective = None, hi_topology = None, hi_routerAddresses = [], hi_closest = [], hi_announced = [],
     hi_endpoints = [], hi_draws = 0, hi_net = n\<rparr>"

definition hier_objective :: "objective_type \<Rightarrow> 'n hier \<Rightarrow> (exn + unit) \<times> 'n hier" where
  "hier_objective obj h = (if hi_objective h \<noteq> None
     then (Inl (RuntimeError ''Objective already set, cannot be changed afterwards''), h)
     else (Inr (), h\<lparr>hi_objective := Some obj\<rparr>))"

definition loadTopology :: "topology \<Rightarrow> 'n hier \<Rightarrow> (exn + unit) \<times> 'n hier" where
  "loadTopology T h = (if hi_topology h \<noteq> None
     then (Inl (RuntimeError ''Topology already loaded, cannot be changed afterwards''), h)
     else (Inr (), h\<lparr>hi_topology := Some T\<rparr>))"

section \<open>The home router of a computer\<close>

definition hier_address :: "string \<Rightarrow> exn + string" where
  "hier_address ep = (let a = takeWhile (\<lambda>c. c \<noteq> CHR '':'') ep
     in if a = ep \<or> a = [] \<or> length a = length ep - 1 then Inl (RuntimeError (''Invalid end-point: '' @ ep)) else Inr a)"

definition dbl_max :: real where
  "dbl_max = (2 - 1 / 2 ^ 52) * 2 ^ 1023"

text \<open>The loop over the other routers: the maximum and the sum of the distances.\<close>

definition router_costs :: "topology \<Rightarrow> string \<Rightarrow> string list \<Rightarrow> exn + real \<times> real" where
  "router_costs T a others = foldl (\<lambda>r b. rbind r (\<lambda>(m, s).
     rbind (topology_distance a b T) (\<lambda>d. Inr (max m d, s + d)))) (Inr (- dbl_max, 0)) others"

definition router_score :: "objective_type \<Rightarrow> topology \<Rightarrow> string list \<Rightarrow> string \<Rightarrow> string \<Rightarrow> exn + real" where
  "router_score obj T addrs computer a =
     (let omega = 1 + 2 * real (numNodes T) * real (numNodes T)
      in rbind (router_costs T a addrs) (\<lambda>(mx, sm).
           rbind (topology_distance a computer T) (\<lambda>d.
             (let maxCost = d + mx; avgCost = real (numNodes T) * d + sm
              in Inr (case obj of MinMax \<Rightarrow> omega * maxCost + avgCost | MinAvg \<Rightarrow> maxCost + omega * avgCost)))))"

definition router_ranking :: "objective_type \<Rightarrow> topology \<Rightarrow> string list \<Rightarrow> string \<Rightarrow> exn + (string \<times> real) list" where
  "router_ranking obj T addrs computer = foldl (\<lambda>r a. rbind r (\<lambda>ranking.
     rbind (router_score obj T addrs computer a) (\<lambda>x. Inr (ranking @ [(a, x)])))) (Inr []) addrs"

definition findClosest :: "string \<Rightarrow> 'n hier \<Rightarrow> (exn + string) \<times> 'n hier" where
  "findClosest computer h = (case hi_topology h of
       None \<Rightarrow> (Inl (RuntimeError ''Topology has not been loaded''), h)
     | Some T \<Rightarrow> (case hi_objective h of
           None \<Rightarrow> (Inl (RuntimeError ''Objective not set''), h)
         | Some obj \<Rightarrow>
             if hi_routerAddresses h = [] then (Inr [], h)
             else (case map_of (hi_closest h) computer of
                 Some a \<Rightarrow> (Inr a, h)
               | None \<Rightarrow> (case router_ranking obj T (mkeys (hi_routerAddresses h)) computer of
                     Inl e \<Rightarrow> (Inl e, h)
                   | Inr ranking \<Rightarrow> (case min_element snd ranking of
                         None \<Rightarrow> (Inl (Undefined ''assertion myMinElem != myRanking.end()''), h)
                       | Some (a, _) \<Rightarrow> (Inr a, h\<lparr>hi_closest := memplace computer a (hi_closest h)\<rparr>))))))"

text \<open>
  The random choice among the end-points of an address; the random values are a sequence, and the number
  of those drawn is part of the state. The loop draws again when the product rounds up to the size.
\<close>

partial_function (option) draw_index :: "(nat \<Rightarrow> real) \<Rightarrow> nat \<Rightarrow> nat \<Rightarrow> (nat \<times> nat) option" where
  "draw_index rnd n k = (let i = nat \<lfloor>rnd k * real n\<rfloor> in if i = n then draw_index rnd n (Suc k) else Some (i, Suc k))"

definition routerEndpoint :: "(nat \<Rightarrow> real) \<Rightarrow> string \<Rightarrow> 'n hier \<Rightarrow> (exn + string) \<times> 'n hier" where
  "routerEndpoint rnd a h = (case map_of (hi_routerAddresses h) a of
       None \<Rightarrow> (Inl (Undefined ''assertion it != theRouterAddresses.end()''), h)
     | Some eps \<Rightarrow>
         if length eps = 1 then (Inr (hd eps), h)
         else (case draw_index rnd (length eps) (hi_draws h) of
             None \<Rightarrow> (Inl (Undefined ''the loop does not end''), h)
           | Some (i, k) \<Rightarrow> if i < length eps then (Inr (eps ! i), h\<lparr>hi_draws := k\<rparr>)
               else (Inl (Undefined ''assertion myRnd < it->second.size()''), h\<lparr>hi_draws := k\<rparr>)))"

section \<open>The virtual functions\<close>

type_synonym 'n hier_op = "'n hier controller \<Rightarrow> (exn + unit) \<times> 'n hier controller"

definition on_hier :: "('n hier \<Rightarrow> (exn + 'a) \<times> 'n hier) \<Rightarrow> 'n hier controller \<Rightarrow> (exn + 'a) \<times> 'n hier controller" where
  "on_hier f s = (case f (ct_derived s) of (r, h) \<Rightarrow> (r, s\<lparr>ct_derived := h\<rparr>))"

definition on_net :: "('n \<Rightarrow> bool \<times> 'n) \<Rightarrow> 'n hier controller \<Rightarrow> bool \<times> 'n hier controller" where
  "on_net f s = (case f (hi_net (ct_derived s)) of (ok, n) \<Rightarrow> (ok, s\<lparr>ct_derived := (ct_derived s)\<lparr>hi_net := n\<rparr>\<rparr>))"

text \<open>
  The loop over the entries: an entry stays, as an intermediate one, if the home router did not announce
  the lambda yet.
\<close>

fun hier_entries :: "string \<Rightarrow> string \<Rightarrow> route list \<Rightarrow> (string, string sset) smap \<Rightarrow> route list \<times> (string, string sset) smap" where
  "hier_entries home ep [] ls = ([], ls)"
| "hier_entries home ep ((l, d, w, f) # es) ls =
     (let S = (case map_of ls l of None \<Rightarrow> [] | Some S \<Rightarrow> S);
          S' = sinsert ep S;
          (es', ls') = hier_entries home ep es (mput l S' ls)
      in (if ep \<in> set S \<or> length S' > 1 then es' else (l, home, w, False) # es', ls'))"

text \<open>The loop over the routers, which stops at the first one that does not answer.\<close>

fun hier_notify :: "'n installer \<Rightarrow> (string \<Rightarrow> 'n hier_op) \<Rightarrow> string \<Rightarrow> route list \<Rightarrow> (string \<times> string) list \<Rightarrow> 'n hier_op" where
  "hier_notify Ins rm home es [] s = (Inr (), s)"
| "hier_notify Ins rm home es ((srv, fwd) # rs) s =
     (if srv = home \<or> es = [] then hier_notify Ins rm home es rs s
      else (case on_net (ins_changeRoutes Ins fwd es) s of (ok, s) \<Rightarrow>
        if ok then hier_notify Ins rm home es rs s else rm srv s))"

text \<open>The announcement once the home router is known.\<close>

definition hier_install :: "'n installer \<Rightarrow> (string \<Rightarrow> 'n hier_op) \<Rightarrow> string \<Rightarrow> string \<Rightarrow> container list \<Rightarrow> 'n hier_op" where
  "hier_install Ins rm home ep cs s =
     (let es = map (\<lambda>c. (ct_lambda c, ep, 1, True)) cs;
          fwd = forwardingServerEndpoint home (theRouters s);
          (ok, s) = (if fwd \<noteq> [] then on_net (ins_changeRoutes Ins fwd es) s else (True, s))
      in if \<not> ok then rm home s
         else (let h = ct_derived s;
                   (es', ls) = hier_entries home ep es (case map_of (hi_announced h) home of None \<Rightarrow> [] | Some m \<Rightarrow> m);
                   s = s\<lparr>ct_derived := h\<lparr>hi_announced := mput home ls (hi_announced h)\<rparr>\<rparr>
               in hier_notify Ins rm home es' (theRouters s) s))"

definition hier_privateAnnounceComputer ::
  "(nat \<Rightarrow> real) \<Rightarrow> 'n installer \<Rightarrow> (string \<Rightarrow> 'n hier_op) \<Rightarrow> string \<Rightarrow> container list \<Rightarrow> 'n hier_op" where
  "hier_privateAnnounceComputer rnd Ins rm ep cs s =
     (if hi_routerAddresses (ct_derived s) = [] then (Inr (), s)
      else case hier_address ep of Inl e \<Rightarrow> (Inl e, s) | Inr adr \<Rightarrow>
        sbind (on_hier (findClosest adr) s) (\<lambda>homeAdr s.
        if homeAdr = [] then (Inl (Undefined ''assertion not myHomeRouterAddress.empty()''), s) else
        sbind (on_hier (routerEndpoint rnd homeAdr) s) (\<lambda>home s.
        if home = [] then (Inl (Undefined ''assertion not myRouterEndpoint.empty()''), s)
        else hier_install Ins rm home ep cs s)))"

text \<open>The loop of \<open>reset\<close> that flushes the routers; it tells whether to go on.\<close>

fun hier_flush :: "'n installer \<Rightarrow> (string \<times> string) list \<Rightarrow> 'n hier controller \<Rightarrow> string option \<times> 'n hier controller" where
  "hier_flush Ins [] s = (None, s)"
| "hier_flush Ins ((srv, fwd) # rs) s =
     (case on_net (ins_flushRoutes Ins fwd) s of (ok, s) \<Rightarrow>
        if ok then hier_flush Ins rs s else (Some srv, s))"

definition hier_reset :: "(nat \<Rightarrow> real) \<Rightarrow> 'n installer \<Rightarrow> (string \<Rightarrow> 'n hier_op) \<Rightarrow> 'n hier_op" where
  "hier_reset rnd Ins rm s =
     (case hier_flush Ins (hi_endpoints (ct_derived s)) s of
        (Some srv, s) \<Rightarrow> rm srv s
      | (None, s) \<Rightarrow>
          sfor (theComputers s) (\<lambda>(ep, cs). hier_privateAnnounceComputer rnd Ins rm ep cs)
            (s\<lparr>ct_derived := (ct_derived s)\<lparr>hi_announced := []\<rparr>\<rparr>))"

definition hier_privateAnnounceRouter ::
  "(nat \<Rightarrow> real) \<Rightarrow> 'n installer \<Rightarrow> (string \<Rightarrow> 'n hier_op) \<Rightarrow> string \<Rightarrow> string \<Rightarrow> 'n hier_op" where
  "hier_privateAnnounceRouter rnd Ins rm srv fwd s =
     (case hier_address srv of Inl e \<Rightarrow> (Inl e, s) | Inr a \<Rightarrow>
        (let h = ct_derived s;
             h = (case map_of (hi_routerAddresses h) a of
                    None \<Rightarrow> h\<lparr>hi_routerAddresses := mput a [srv] (hi_routerAddresses h), hi_closest := []\<rparr>
                  | Some eps \<Rightarrow> h\<lparr>hi_routerAddresses := mput a (eps @ [srv]) (hi_routerAddresses h)\<rparr>);
             dup = map_of (hi_endpoints h) srv \<noteq> None;
             h = h\<lparr>hi_endpoints := memplace srv fwd (hi_endpoints h)\<rparr>;
             s = s\<lparr>ct_derived := h\<rparr>
         in if dup then (Inl (Undefined ''assertion myInserted''), s) else hier_reset rnd Ins rm s))"

record remove_elem =
  rv_server :: string
  rv_table :: string
  rv_destination :: string
  rv_lambda :: string

text \<open>
  The part of the loop of \<open>privateRemoveComputer\<close> for one lambda: the first router that announced the
  computer for it. The removal of the final entry carries the end-point of the lambda server of the
  home router as the one of the table, as the code does.
\<close>

fun find_home :: "string \<Rightarrow> string \<Rightarrow> (string, (string, string sset) smap) smap \<Rightarrow> (string \<times> string sset) option" where
  "find_home ep l [] = None"
| "find_home ep l ((r, ls) # m) = (case map_of ls l of
       None \<Rightarrow> find_home ep l m
     | Some S \<Rightarrow> if ep \<in> set S then Some (r, S) else find_home ep l m)"

definition hier_withdraw :: "string \<Rightarrow> string \<Rightarrow> 'n hier \<Rightarrow> (exn + remove_elem list) \<times> 'n hier" where
  "hier_withdraw ep l h = (case find_home ep l (hi_announced h) of
       None \<Rightarrow> (Inr [], h)
     | Some (r, S) \<Rightarrow>
         (let ls = mput l (serase ep S) (the (map_of (hi_announced h) r))
          in case map_of (hi_endpoints h) r of
               None \<Rightarrow> (Inl (Undefined ''assertion myHomeForwardingTableIt != end''),
                        h\<lparr>hi_announced := mput r ls (hi_announced h)\<rparr>)
             | Some fwd \<Rightarrow>
                 (let e = \<lparr>rv_server = r, rv_table = r, rv_destination = ep, rv_lambda = l\<rparr>
                  in if serase ep S = []
                     then (let ls = merase l ls;
                               others = map (\<lambda>(srv, fwd). \<lparr>rv_server = srv, rv_table = fwd, rv_destination = r, rv_lambda = l\<rparr>)
                                 (filter (\<lambda>p. fst p \<noteq> r) (hi_endpoints h))
                           in (Inr (e # others),
                               h\<lparr>hi_announced := (if ls = [] then merase r (hi_announced h) else mput r ls (hi_announced h))\<rparr>))
                     else (Inr [e], h\<lparr>hi_announced := mput r ls (hi_announced h)\<rparr>))))"

fun hier_withdraw_all :: "string \<Rightarrow> string list \<Rightarrow> remove_elem list \<Rightarrow> 'n hier \<Rightarrow> (exn + remove_elem list) \<times> 'n hier" where
  "hier_withdraw_all ep [] acc h = (Inr acc, h)"
| "hier_withdraw_all ep (l # ls) acc h = sbind (hier_withdraw ep l h) (\<lambda>es h. hier_withdraw_all ep ls (acc @ es) h)"

fun hier_send_removals :: "'n installer \<Rightarrow> (string \<Rightarrow> 'n hier_op) \<Rightarrow> remove_elem list \<Rightarrow> 'n hier_op" where
  "hier_send_removals Ins rm [] s = (Inr (), s)"
| "hier_send_removals Ins rm (e # es) s =
     (case on_net (ins_removeRoutes Ins (rv_table e) (rv_destination e) [rv_lambda e]) s of (ok, s) \<Rightarrow>
        if ok then hier_send_removals Ins rm es s else rm (rv_server e) s)"

definition hier_privateRemoveComputer :: "'n installer \<Rightarrow> (string \<Rightarrow> 'n hier_op) \<Rightarrow> string \<Rightarrow> string list \<Rightarrow> 'n hier_op" where
  "hier_privateRemoveComputer Ins rm ep ls s =
     sbind (on_hier (hier_withdraw_all ep ls []) s) (\<lambda>es s. hier_send_removals Ins rm es s)"

definition hier_privateRemoveRouter ::
  "(nat \<Rightarrow> real) \<Rightarrow> 'n installer \<Rightarrow> (string \<Rightarrow> 'n hier_op) \<Rightarrow> string \<Rightarrow> 'n hier_op" where
  "hier_privateRemoveRouter rnd Ins rm srv s =
     (case hier_address srv of Inl e \<Rightarrow> (Inl e, s) | Inr a \<Rightarrow>
        (let h = ct_derived s
         in case map_of (hi_routerAddresses h) a of
              None \<Rightarrow> (Inl (Undefined ''assertion it != theRouterAddresses.end()''), s)
            | Some eps \<Rightarrow>
                (let eps' = remove1 srv eps;
                     h = (if eps' = [] then h\<lparr>hi_routerAddresses := merase a (hi_routerAddresses h), hi_closest := []\<rparr>
                          else h\<lparr>hi_routerAddresses := mput a eps' (hi_routerAddresses h)\<rparr>);
                     missing = map_of (hi_endpoints h) srv = None;
                     s = s\<lparr>ct_derived := h\<lparr>hi_endpoints := merase srv (hi_endpoints h)\<rparr>\<rparr>
                 in if missing then (Inl (Undefined ''assertion myErased == 1''), s)
                    else hier_reset rnd Ins rm s)))"

definition TooDeep :: exn where
  "TooDeep = Undefined ''recursion deeper than the bound''"

fun hier_removeRouter :: "(nat \<Rightarrow> real) \<Rightarrow> 'n installer \<Rightarrow> nat \<Rightarrow> string \<Rightarrow> 'n hier_op" where
  "hier_removeRouter rnd Ins 0 srv s = (Inl TooDeep, s)"
| "hier_removeRouter rnd Ins (Suc n) srv s =
     removeRouter (hier_privateRemoveRouter rnd Ins (hier_removeRouter rnd Ins n)) srv s"

definition hier_hooks :: "(nat \<Rightarrow> real) \<Rightarrow> 'n installer \<Rightarrow> nat \<Rightarrow> 'n hier ctl_hooks" where
  "hier_hooks rnd Ins n = \<lparr>
     ch_addComputer = (\<lambda>ep ls s. (Inr (), s)), ch_delComputer = (\<lambda>ep ls s. (Inr (), s)),
     ch_addLambda = (\<lambda>l s. (Inr (), s)), ch_delLambda = (\<lambda>l s. (Inr (), s)),
     ch_announceComputer = hier_privateAnnounceComputer rnd Ins (hier_removeRouter rnd Ins n),
     ch_announceRouter = hier_privateAnnounceRouter rnd Ins (hier_removeRouter rnd Ins n),
     ch_removeComputer = hier_privateRemoveComputer Ins (hier_removeRouter rnd Ins n),
     ch_removeRouter = hier_privateRemoveRouter rnd Ins (hier_removeRouter rnd Ins n)\<rparr>"

section \<open>The recursion is bounded by the number of routers\<close>

abbreviation n_routers :: "'n hier controller \<Rightarrow> nat" where
  "n_routers s \<equiv> length (hi_endpoints (ct_derived s))"

text \<open>A result that does not exceed the bound and does not add routers.\<close>

definition bounded :: "nat \<Rightarrow> (exn + 'a) \<times> 'n hier controller \<Rightarrow> bool" where
  "bounded k r \<longleftrightarrow> fst r \<noteq> Inl TooDeep \<and> n_routers (snd r) \<le> k"

lemma bounded_error [simp]: "e \<noteq> TooDeep \<Longrightarrow> bounded k (Inl e, s) \<longleftrightarrow> n_routers s \<le> k"
  by (simp add: bounded_def)

lemma bounded_ok [simp]: "bounded k (Inr x, s) \<longleftrightarrow> n_routers s \<le> k"
  by (simp add: bounded_def)

lemma bounded_sbind:
  assumes "bounded k r" and "\<And>x s. n_routers s \<le> k \<Longrightarrow> bounded k (f x s)"
  shows "bounded k (sbind r f)"
proof (cases r)
  case (Pair a s)
  then show ?thesis using assms by (cases a) (auto simp: bounded_def)
qed

lemma bounded_sfor:
  assumes "\<And>x s. n_routers s \<le> k \<Longrightarrow> bounded k (f x s)" and "n_routers s \<le> k"
  shows "bounded k (sfor xs f s)"
  using assms(2)
proof (induction xs arbitrary: s)
  case (Cons x xs)
  show ?case using Cons.IH assms(1)[OF Cons.prems, of x] by (auto intro: bounded_sbind)
qed simp

lemma on_net_routers: "on_net f s = (ok, s') \<Longrightarrow> hi_endpoints (ct_derived s') = hi_endpoints (ct_derived s) \<and>
    hi_routerAddresses (ct_derived s') = hi_routerAddresses (ct_derived s) \<and> theRouters s' = theRouters s"
  by (auto simp: on_net_def split: prod.splits)

lemma distance_error: "topology_distance a b T = Inl e \<Longrightarrow> e \<noteq> TooDeep"
  by (auto simp: topology_distance_def TooDeep_def InvalidNode_def Let_def split: option.splits if_splits)

lemma costs_error: "router_costs T a os = Inl e \<Longrightarrow> e \<noteq> TooDeep"
  unfolding router_costs_def by (auto dest!: foldl_rbind_Inl simp: rbind_eq_Inl dest: distance_error)

lemma score_error: "router_score obj T as c a = Inl e \<Longrightarrow> e \<noteq> TooDeep"
  by (auto simp: router_score_def Let_def rbind_eq_Inl dest: costs_error distance_error)

lemma ranking_error: "router_ranking obj T as c = Inl e \<Longrightarrow> e \<noteq> TooDeep"
  unfolding router_ranking_def by (auto dest!: foldl_rbind_Inl simp: rbind_eq_Inl dest: score_error)

lemma findClosest_endpoints: "findClosest a h = (r, h') \<Longrightarrow> hi_endpoints h' = hi_endpoints h \<and> r \<noteq> Inl TooDeep"
  by (auto simp: findClosest_def TooDeep_def split: option.splits if_splits sum.splits prod.splits
      dest: ranking_error[unfolded TooDeep_def])

lemma routerEndpoint_endpoints: "routerEndpoint rnd a h = (r, h') \<Longrightarrow> hi_endpoints h' = hi_endpoints h \<and> r \<noteq> Inl TooDeep"
  by (auto simp: routerEndpoint_def TooDeep_def split: option.splits if_splits prod.splits)

lemma address_error: "hier_address ep = Inl e \<Longrightarrow> e \<noteq> TooDeep"
  by (auto simp: hier_address_def TooDeep_def Let_def split: if_splits)

lemma bounded_on_hier:
  assumes "\<And>h r h'. f h = (r, h') \<Longrightarrow> hi_endpoints h' = hi_endpoints h \<and> r \<noteq> Inl TooDeep" and "n_routers s \<le> k"
  shows "bounded k (on_hier f s)"
  using assms by (auto simp: on_hier_def bounded_def split: prod.splits)

lemma bounded_notify:
  assumes rm: "\<And>srv s. n_routers s \<le> k \<Longrightarrow> bounded k (rm srv s)" and "n_routers s \<le> k"
  shows "bounded k (hier_notify Ins rm home es rs s)"
  using assms(2)
proof (induction rs arbitrary: s)
  case (Cons p rs)
  obtain srv fwd where p: "p = (srv, fwd)" by (cases p)
  obtain ok s' where n: "on_net (ins_changeRoutes Ins fwd es) s = (ok, s')" by fastforce
  then have "n_routers s' \<le> k" using on_net_routers[OF n] Cons.prems by simp
  then show ?case using Cons rm[of s' srv] n by (simp add: p)
qed simp

lemma bounded_install:
  assumes rm: "\<And>srv s. n_routers s \<le> k \<Longrightarrow> bounded k (rm srv s)" and "n_routers s \<le> k"
  shows "bounded k (hier_install Ins rm home ep cs s)"
proof -
  let ?es = "map (\<lambda>c. (ct_lambda c, ep, 1, True)) cs" and ?fwd = "forwardingServerEndpoint home (theRouters s)"
  obtain ok s' where n: "(if ?fwd \<noteq> [] then on_net (ins_changeRoutes Ins ?fwd ?es) s else (True, s)) = (ok, s')" by fastforce
  then have "n_routers s' \<le> k" using assms(2) on_net_routers by (fastforce split: if_splits)
  then show ?thesis using n rm by (auto simp: hier_install_def Let_def split: prod.split intro!: bounded_notify)
qed

lemma bounded_announce:
  assumes rm: "\<And>srv s. n_routers s \<le> k \<Longrightarrow> bounded k (rm srv s)" and k: "n_routers s \<le> k"
  shows "bounded k (hier_privateAnnounceComputer rnd Ins rm ep cs s)"
proof -
  have undef: "Undefined ''assertion not myHomeRouterAddress.empty()'' \<noteq> TooDeep"
    "Undefined ''assertion not myRouterEndpoint.empty()'' \<noteq> TooDeep" by (simp_all add: TooDeep_def)
  show ?thesis unfolding hier_privateAnnounceComputer_def
    using k undef bounded_install[of k rm, OF rm]
    by (auto split: sum.split dest: address_error
        intro!: bounded_sbind bounded_on_hier dest!: findClosest_endpoints routerEndpoint_endpoints)
qed

lemma flush_routers: "hier_flush Ins rs s = (r, s') \<Longrightarrow> hi_endpoints (ct_derived s') = hi_endpoints (ct_derived s)"
  by (induction Ins rs s rule: hier_flush.induct) (auto split: prod.splits if_splits dest: on_net_routers)

lemma bounded_reset:
  assumes rm: "\<And>srv s. n_routers s \<le> k \<Longrightarrow> bounded k (rm srv s)" and k: "n_routers s \<le> k"
  shows "bounded k (hier_reset rnd Ins rm s)"
proof -
  obtain r s' where f: "hier_flush Ins (hi_endpoints (ct_derived s)) s = (r, s')" by fastforce
  have s': "n_routers s' \<le> k" using flush_routers[OF f] k by simp
  have "bounded k (sfor (theComputers s') (\<lambda>(ep, cs). hier_privateAnnounceComputer rnd Ins rm ep cs)
      (s'\<lparr>ct_derived := (ct_derived s')\<lparr>hi_announced := []\<rparr>\<rparr>))"
    using s' rm by (intro bounded_sfor) (auto intro: bounded_announce split: prod.split)
  then show ?thesis using rm[OF s'] by (cases r) (simp_all add: hier_reset_def f)
qed

lemma bounded_mono: "bounded k r \<Longrightarrow> k \<le> k' \<Longrightarrow> bounded k' r"
  by (auto simp: bounded_def)

lemma length_merase: "map_of m k \<noteq> None \<Longrightarrow> length (merase k m) < length m"
proof (induction m)
  case (Cons p m)
  have "length (filter (\<lambda>p. fst p \<noteq> k) m) \<le> length m" by (rule length_filter_le)
  then show ?case using Cons by (auto simp: merase_def less_Suc_eq_le split: if_splits)
qed simp

text \<open>The removal of a router fails, or resets the tables with one router less.\<close>

lemma privateRemoveRouter_cases:
  obtains (error) e s' where "hier_privateRemoveRouter rnd Ins rm srv s = (Inl e, s')" "e \<noteq> TooDeep" "n_routers s' \<le> n_routers s"
    | (reset) s' where "hier_privateRemoveRouter rnd Ins rm srv s = hier_reset rnd Ins rm s'" "n_routers s' < n_routers s"
proof (cases "hier_address srv")
  case (Inl e)
  then show ?thesis using error[of e s] address_error[OF Inl] by (simp add: hier_privateRemoveRouter_def)
next
  case (Inr a)
  let ?h = "ct_derived s"
  show ?thesis
  proof (cases "map_of (hi_routerAddresses ?h) a")
    case None
    then show ?thesis using Inr error[of "Undefined ''assertion it != theRouterAddresses.end()''" s]
      by (simp add: hier_privateRemoveRouter_def TooDeep_def Let_def)
  next
    case (Some eps)
    define h where "h = (if remove1 srv eps = [] then ?h\<lparr>hi_routerAddresses := merase a (hi_routerAddresses ?h), hi_closest := []\<rparr>
      else ?h\<lparr>hi_routerAddresses := mput a (remove1 srv eps) (hi_routerAddresses ?h)\<rparr>)"
    have h: "hi_endpoints h = hi_endpoints ?h" by (simp add: h_def)
    let ?s = "s\<lparr>ct_derived := h\<lparr>hi_endpoints := merase srv (hi_endpoints h)\<rparr>\<rparr>"
    have r: "hier_privateRemoveRouter rnd Ins rm srv s = (if map_of (hi_endpoints h) srv = None
        then (Inl (Undefined ''assertion myErased == 1''), ?s) else hier_reset rnd Ins rm ?s)"
      using Inr Some by (simp add: hier_privateRemoveRouter_def Let_def h_def)
    show ?thesis
    proof (cases "map_of (hi_endpoints h) srv = None")
      case True
      then show ?thesis using error[of "Undefined ''assertion myErased == 1''" ?s] r h by (simp add: TooDeep_def merase_def)
    next
      case False
      then have "hier_privateRemoveRouter rnd Ins rm srv s = hier_reset rnd Ins rm ?s"
        unfolding r by (rule if_not_P)
      moreover have "n_routers ?s < n_routers s" using False h length_merase[of "hi_endpoints h" srv] by simp
      ultimately show ?thesis by (rule reset)
    qed
  qed
qed

lemma bounded_removeRouter:
  "n_routers s \<le> n \<Longrightarrow> bounded n (hier_removeRouter rnd Ins (Suc n) srv s)"
proof (induction n arbitrary: s srv)
  case 0
  let ?s = "s\<lparr>theRouters := snd (routers_remove srv (theRouters s))\<rparr>"
  show ?case
    by (cases rule: privateRemoveRouter_cases[of rnd Ins "hier_removeRouter rnd Ins 0" srv ?s])
       (use 0 in \<open>simp_all add: removeRouter_def\<close>)
next
  case (Suc n)
  let ?s = "s\<lparr>theRouters := snd (routers_remove srv (theRouters s))\<rparr>" and ?rm = "hier_removeRouter rnd Ins (Suc n)"
  have e: "hier_removeRouter rnd Ins (Suc (Suc n)) srv s = hier_privateRemoveRouter rnd Ins ?rm srv ?s"
    by (simp add: removeRouter_def)
  show ?case unfolding e
  proof (cases rule: privateRemoveRouter_cases[of rnd Ins ?rm srv ?s])
    case (error e s')
    then show "bounded (Suc n) (hier_privateRemoveRouter rnd Ins ?rm srv ?s)" using Suc.prems by (simp del: hier_removeRouter.simps)
  next
    case (reset s')
    then have "n_routers s' \<le> n" using Suc.prems by simp
    then have "bounded n (hier_reset rnd Ins ?rm s')" using Suc.IH by (intro bounded_reset) auto
    then show "bounded (Suc n) (hier_privateRemoveRouter rnd Ins ?rm srv ?s)" using reset(1) bounded_mono[of n _ "Suc n"] by simp
  qed
qed

lemma bounded_send_removals:
  assumes rm: "\<And>srv s. n_routers s \<le> k \<Longrightarrow> bounded k (rm srv s)" and "n_routers s \<le> k"
  shows "bounded k (hier_send_removals Ins rm es s)"
  using assms(2)
proof (induction es arbitrary: s)
  case (Cons e es)
  obtain ok s' where n: "on_net (ins_removeRoutes Ins (rv_table e) (rv_destination e) [rv_lambda e]) s = (ok, s')" by fastforce
  then have "n_routers s' \<le> k" using on_net_routers[OF n] Cons.prems by simp
  then show ?case using Cons rm[of s' "rv_server e"] n by simp
qed simp

lemma withdraw_all_endpoints:
  "hier_withdraw_all ep ls acc h = (r, h') \<Longrightarrow> hi_endpoints h' = hi_endpoints h \<and> r \<noteq> Inl TooDeep"
proof (induction ls arbitrary: acc h)
  case (Cons l ls)
  obtain r1 h1 where w: "hier_withdraw ep l h = (r1, h1)" by fastforce
  then have "hi_endpoints h1 = hi_endpoints h \<and> r1 \<noteq> Inl TooDeep"
    by (auto simp: hier_withdraw_def Let_def TooDeep_def split: option.splits if_splits prod.splits)
  then show ?case using Cons.IH Cons.prems w by (cases r1) auto
qed auto

lemma bounded_removeComputer:
  assumes rm: "\<And>srv s. n_routers s \<le> k \<Longrightarrow> bounded k (rm srv s)" and k: "n_routers s \<le> k"
  shows "bounded k (hier_privateRemoveComputer Ins rm ep ls s)"
  unfolding hier_privateRemoveComputer_def
  using withdraw_all_endpoints rm k by (intro bounded_sbind bounded_on_hier bounded_send_removals) blast+

section \<open>The hooks keep the base class\<close>

lemma keeps_on_net: "on_net f s = (ok, s') \<Longrightarrow> keeps_base s s'"
  by (auto simp: on_net_def keeps_base_derived split: prod.splits)

lemma keeps_on_hier: "keeps_base s (snd (on_hier f s))"
  by (auto simp: on_hier_def keeps_base_derived split: prod.split)

lemma keeps_sbind:
  assumes "keeps_base s (snd r)" and "\<And>x s. keeps_base s (snd (f x s))"
  shows "keeps_base s (snd (sbind r f))"
proof (cases r)
  case (Pair a t)
  then show ?thesis using assms by (cases a) (auto intro: keeps_base_trans)
qed

lemma keeps_notify:
  assumes rm: "\<And>srv s. keeps_base s (snd (rm srv s))"
  shows "keeps_base s (snd (hier_notify Ins rm home es rs s))"
proof (induction rs arbitrary: s)
  case (Cons p rs)
  obtain srv fwd where p: "p = (srv, fwd)" by (cases p)
  obtain ok s' where n: "on_net (ins_changeRoutes Ins fwd es) s = (ok, s')" by fastforce
  show ?case using Cons rm[of s' srv] n keeps_on_net[OF n] by (auto simp: p intro: keeps_base_trans)
qed simp

lemma keeps_install:
  assumes rm: "\<And>srv s. keeps_base s (snd (rm srv s))"
  shows "keeps_base s (snd (hier_install Ins rm home ep cs s))"
proof -
  let ?es = "map (\<lambda>c. (ct_lambda c, ep, 1, True)) cs" and ?fwd = "forwardingServerEndpoint home (theRouters s)"
  obtain ok s' where n: "(if ?fwd \<noteq> [] then on_net (ins_changeRoutes Ins ?fwd ?es) s else (True, s)) = (ok, s')" by fastforce
  then have k: "keeps_base s s'" using keeps_on_net by (fastforce split: if_splits)
  have nt: "keeps_base s (snd (hier_notify Ins rm home es' rs (s'\<lparr>ct_derived := x\<rparr>)))" for es' rs x
    by (rule keeps_base_trans[OF k keeps_base_trans[OF keeps_base_derived keeps_notify[OF rm]]])
  have "keeps_base s (snd (rm home s'))" by (rule keeps_base_trans[OF k rm])
  then show ?thesis using n by (auto simp: hier_install_def Let_def nt split: prod.split)
qed

lemma keeps_announce:
  assumes rm: "\<And>srv s. keeps_base s (snd (rm srv s))"
  shows "keeps_base s (snd (hier_privateAnnounceComputer rnd Ins rm ep cs s))"
  unfolding hier_privateAnnounceComputer_def using keeps_install[OF rm]
  by (auto split: sum.split intro!: keeps_sbind keeps_on_hier)

lemma keeps_flush: "hier_flush Ins rs s = (r, s') \<Longrightarrow> keeps_base s s'"
  by (induction Ins rs s rule: hier_flush.induct)
     (auto split: prod.splits if_splits dest: keeps_on_net intro: keeps_base_trans)

lemma keeps_reset:
  assumes rm: "\<And>srv s. keeps_base s (snd (rm srv s))"
  shows "keeps_base s (snd (hier_reset rnd Ins rm s))"
proof -
  obtain r s' where f: "hier_flush Ins (hi_endpoints (ct_derived s)) s = (r, s')" by fastforce
  have "keeps_base s' (snd (sfor (theComputers s') (\<lambda>(ep, cs). hier_privateAnnounceComputer rnd Ins rm ep cs)
      (s'\<lparr>ct_derived := (ct_derived s')\<lparr>hi_announced := []\<rparr>\<rparr>)))"
    by (rule keeps_base_trans[OF keeps_base_derived], rule keeps_base_sfor)
       (auto intro: keeps_announce[OF rm] split: prod.split)
  then show ?thesis using rm[of s'] keeps_flush[OF f] by (cases r) (auto simp: hier_reset_def f intro: keeps_base_trans)
qed

lemma keeps_privateRemoveRouter:
  assumes rm: "\<And>srv s. keeps_base s (snd (rm srv s))"
  shows "keeps_base s (snd (hier_privateRemoveRouter rnd Ins rm srv s))"
  unfolding hier_privateRemoveRouter_def Let_def
  by (auto split: sum.split option.split simp: keeps_base_derived
      intro!: keeps_base_trans[OF keeps_base_derived keeps_reset[OF rm]])

lemma keeps_routers: "keeps_base s (s\<lparr>theRouters := snd (routers_remove srv (theRouters s))\<rparr>)"
  using merase_map_le[of srv "theRouters s"] by (simp add: keeps_base_def routers_remove_def del: map_of_merase)

lemma keeps_removeRouter: "keeps_base s (snd (hier_removeRouter rnd Ins n srv s))"
proof (induction n arbitrary: srv s)
  case (Suc n)
  show ?case unfolding hier_removeRouter.simps removeRouter_def
    by (rule keeps_base_trans[OF keeps_routers keeps_privateRemoveRouter[OF Suc.IH]])
qed simp

lemma keeps_send_removals:
  assumes rm: "\<And>srv s. keeps_base s (snd (rm srv s))"
  shows "keeps_base s (snd (hier_send_removals Ins rm es s))"
proof (induction es arbitrary: s)
  case (Cons e es)
  obtain ok s' where n: "on_net (ins_removeRoutes Ins (rv_table e) (rv_destination e) [rv_lambda e]) s = (ok, s')" by fastforce
  show ?case using Cons rm[of s' "rv_server e"] n keeps_on_net[OF n] by (auto intro: keeps_base_trans)
qed simp

interpretation hierc: controller_hooks "hier_hooks rnd Ins n" for rnd Ins n
proof (unfold_locales, goal_cases)
  case (5 s ep cs)
  then show ?case by (simp add: hier_hooks_def keeps_announce keeps_removeRouter)
next
  case (6 s srv fwd)
  then show ?case
    by (auto simp: hier_hooks_def hier_privateAnnounceRouter_def Let_def keeps_base_derived split: sum.split option.split
        intro!: keeps_base_trans[OF keeps_base_derived keeps_reset] keeps_removeRouter)
next
  case (7 s ep ls)
  then show ?case by (simp add: hier_hooks_def hier_privateRemoveComputer_def keeps_sbind keeps_on_hier keeps_send_removals keeps_removeRouter)
next
  case (8 s srv)
  then show ?case by (simp add: hier_hooks_def keeps_privateRemoveRouter keeps_removeRouter)
qed (simp_all add: hier_hooks_def)

end
