(* ===== verification/HierRoutes.thy ===== *)
theory HierRoutes
  imports EdgeControllerHier EdgeControllerFlat
begin

text \<open>
  What the hierarchical controller installs. \<open>hier_conf\<close> is the invariant of the routers it knows,
  \<open>hier_routes\<close> that the table of every router holds exactly the computers announced to that router and, for
  each other router, the lambdas announced to it. Both are proved for every installer that satisfies the
  contract \<open>route_installer\<close>, hence also when the routers do not answer, the controller forgets them and
  starts again.
\<close>

section \<open>The operations of the base class do not exceed the bound\<close>

lemma bounded_serve: "n_routers s \<le> k \<Longrightarrow> bounded k (serve_lambda (hier_hooks rnd Ins n) ep l s)"
  by (simp add: serve_lambda_def hier_hooks_def Let_def)

lemma bounded_unserve: "n_routers s \<le> k \<Longrightarrow> bounded k (unserve_lambda (hier_hooks rnd Ins n) ep l s)"
  by (auto simp: unserve_lambda_def hier_hooks_def split: option.split)

lemma bounded_base_remove:
  assumes "n_routers s \<le> n"
  shows "bounded n (privateRemoveComputer (hier_hooks rnd Ins (Suc n)) ep s)"
proof -
  have rm: "bounded n (ch_removeComputer (hier_hooks rnd Ins (Suc n)) ep ls s)"
    if "n_routers s \<le> n" for ls and s :: "'a hier controller"
    using that bounded_removeRouter[of _ n rnd Ins] unfolding hier_hooks_def ctl_hooks.simps
    by (intro bounded_removeComputer) blast+
  have "bounded n (ch_delComputer (hier_hooks rnd Ins (Suc n)) ep ls s)"
    if "n_routers s \<le> n" for ls and s :: "'a hier controller"
    using that by (simp add: hier_hooks_def)
  then show ?thesis using assms unfolding privateRemoveComputer_def Let_def split_beta
    by (intro bounded_sbind bounded_sfor bounded_unserve rm) simp_all
qed

lemma bounded_base_announce:
  assumes "n_routers s \<le> n"
  shows "bounded n (announceComputer (hier_hooks rnd Ins (Suc n)) ep cs s)"
proof -
  have an: "bounded n (ch_announceComputer (hier_hooks rnd Ins (Suc n)) ep cs s)"
    if "n_routers s \<le> n" for s :: "'a hier controller"
    using that bounded_removeRouter[of _ n rnd Ins] unfolding hier_hooks_def ctl_hooks.simps
    by (intro bounded_announce) blast+
  have ad: "bounded n (ch_addComputer (hier_hooks rnd Ins (Suc n)) ep ls s)"
    if "n_routers s \<le> n" for ls and s :: "'a hier controller"
    using that by (simp add: hier_hooks_def)
  have re: "bounded n (let (status', m') = computers_add ep cs (theComputers s)
      in if status' = NotPresent then (Inr (), s\<lparr>theComputers := m'\<rparr>)
         else (Inl (Undefined ''myNewStatus == NotPresent''), s\<lparr>theComputers := m'\<rparr>))"
    if "n_routers s \<le> n" for s :: "'a hier controller"
    using that by (simp add: Let_def split_beta TooDeep_def)
  have ch: "bounded n (if c then sbind (privateRemoveComputer (hier_hooks rnd Ins (Suc n)) ep s) (\<lambda>_ s1.
      (let (status', m') = computers_add ep cs (theComputers s1)
       in if status' = NotPresent then (Inr (), s1\<lparr>theComputers := m'\<rparr>)
          else (Inl (Undefined ''myNewStatus == NotPresent''), s1\<lparr>theComputers := m'\<rparr>))) else (Inr (), s))"
    if "n_routers s \<le> n" for c and s :: "'a hier controller"
    using that by (cases c) (simp_all only: if_True if_False bounded_ok bounded_sbind[OF bounded_base_remove re])
  obtain st m where add: "computers_add ep cs (theComputers s) = (st, m)" by fastforce
  have "n_routers (s\<lparr>theComputers := m\<rparr>) \<le> n" using assms by simp
  then show ?thesis unfolding announceComputer_def add Let_def prod.case
    by (cases "st = AlreadyPresent")
       (simp, simp only: if_False, intro bounded_sbind ch[unfolded Let_def] bounded_sfor bounded_serve ad an)
qed

lemma bounded_base_router:
  assumes "n_routers s \<le> n"
  shows "bounded (Suc n) (announceRouter (hier_hooks rnd Ins (Suc (Suc n))) srv fwd s)"
proof (cases "hier_address srv")
  case (Inl e)
  then show ?thesis using assms address_error[OF Inl] by (simp add: announceRouter_def hier_hooks_def hier_privateAnnounceRouter_def)
next
  case (Inr a)
  let ?h = "ct_derived s"
  define h where "h = (case map_of (hi_routerAddresses ?h) a of
      None \<Rightarrow> ?h\<lparr>hi_routerAddresses := mput a [srv] (hi_routerAddresses ?h), hi_closest := []\<rparr>
    | Some eps \<Rightarrow> ?h\<lparr>hi_routerAddresses := mput a (eps @ [srv]) (hi_routerAddresses ?h)\<rparr>)"
  have h: "hi_endpoints h = hi_endpoints ?h" by (simp add: h_def split: option.split)
  let ?s = "s\<lparr>theRouters := routers_add srv fwd (theRouters s), ct_derived := h\<lparr>hi_endpoints := memplace srv fwd (hi_endpoints h)\<rparr>\<rparr>"
  have eq: "announceRouter (hier_hooks rnd Ins (Suc (Suc n))) srv fwd s =
      (if map_of (hi_endpoints h) srv \<noteq> None then (Inl (Undefined ''assertion myInserted''), ?s)
       else hier_reset rnd Ins (hier_removeRouter rnd Ins (Suc (Suc n))) ?s)"
    using Inr by (simp add: announceRouter_def hier_hooks_def hier_privateAnnounceRouter_def Let_def h_def del: hier_removeRouter.simps)
  have "n_routers ?s \<le> Suc n"
    using assms h by (simp add: memplace_def length_mput split: option.split)
  then show ?thesis unfolding eq using bounded_removeRouter[of _ "Suc n" rnd Ins]
    by (simp add: bounded_reset TooDeep_def del: hier_removeRouter.simps)
qed

text \<open>
  C8: the recursion ends. A router that does not answer is forgotten and all the tables are installed
  again, which may find another router that does not answer; with at most \<open>n\<close> routers no operation of the
  hierarchical controller goes deeper than \<open>n + 1\<close> levels, or \<open>n + 2\<close> when it adds a router, whatever the
  outcome of the calls to the routers.
\<close>

theorem hier_recursion_bounded:
  assumes "n_routers s \<le> n"
  shows "fst (announceComputer (hier_hooks rnd Ins (Suc n)) ep cs s) \<noteq> Inl TooDeep \<and>
    fst (removeComputer (hier_hooks rnd Ins (Suc n)) ep s) \<noteq> Inl TooDeep \<and>
    fst (announceRouter (hier_hooks rnd Ins (Suc (Suc n))) srv fwd s) \<noteq> Inl TooDeep"
  using bounded_base_announce[OF assms, of rnd Ins ep cs] bounded_base_remove[OF assms, of rnd Ins ep]
    bounded_base_router[OF assms, of rnd Ins srv fwd]
  by (simp add: bounded_def removeComputer_def)

section \<open>The invariants\<close>

text \<open>
  The routers: the base class and the derived one know the same, with distinct forwarding-table
  end-points, and the end-points listed for an address are those of the routers at that address.
\<close>

definition addresses_ok :: "(string, string list) smap \<Rightarrow> (string, string) smap \<Rightarrow> bool" where
  "addresses_ok A R \<longleftrightarrow> mwf A \<and>
     (\<forall>a eps. map_of A a = Some eps \<longrightarrow> eps \<noteq> [] \<and> distinct eps) \<and>
     (\<forall>a srv. (\<exists>eps. map_of A a = Some eps \<and> srv \<in> set eps) \<longleftrightarrow> srv \<in> fst ` set R \<and> hier_address srv = Inr a) \<and>
     (\<forall>srv\<in>fst ` set R. \<exists>a. hier_address srv = Inr a)"

definition hier_conf :: "'n hier controller \<Rightarrow> bool" where
  "hier_conf s \<longleftrightarrow> mwf (theRouters s) \<and> theRouters s = hi_endpoints (ct_derived s) \<and>
     distinct (map snd (theRouters s)) \<and> [] \<notin> snd ` set (theRouters s) \<and>
     addresses_ok (hi_routerAddresses (ct_derived s)) (theRouters s)"

text \<open>\<open>has ls l ep\<close>: the computer \<open>ep\<close> is in the set of the lambda \<open>l\<close>.\<close>

definition has :: "(string, string sset) smap \<Rightarrow> string \<Rightarrow> string \<Rightarrow> bool" where
  "has ls l ep \<longleftrightarrow> (\<exists>S. map_of ls l = Some S \<and> ep \<in> set S)"

definition announced :: "(string, (string, string sset) smap) smap \<Rightarrow> string \<Rightarrow> string \<Rightarrow> string \<Rightarrow> bool" where
  "announced A r l ep \<longleftrightarrow> (\<exists>ls. map_of A r = Some ls \<and> has ls l ep)"

text \<open>The routes that a router must have: its own computers, and the other routers that have some.\<close>

definition routes_of :: "(string, (string, string sset) smap) smap \<Rightarrow> string \<Rightarrow> (string \<times> string) set" where
  "routes_of A srv = {(l, ep). announced A srv l ep} \<union> {(l, r). r \<noteq> srv \<and> (\<exists>ep. announced A r l ep)}"

definition hier_routes :: "('n \<Rightarrow> bool) \<Rightarrow> ('n \<Rightarrow> string \<Rightarrow> (string \<times> string) set) \<Rightarrow> 'n hier controller \<Rightarrow> bool" where
  "hier_routes ninv view s \<longleftrightarrow> hier_conf s \<and> ninv (hi_net (ct_derived s)) \<and>
     (\<forall>(srv, fwd)\<in>set (theRouters s). view (hi_net (ct_derived s)) fwd = routes_of (hi_announced (ct_derived s)) srv) \<and>
     (\<forall>r l ep. announced (hi_announced (ct_derived s)) r l ep \<longrightarrow> r \<in> fst ` set (theRouters s) \<and>
        (\<exists>cs. (ep, cs) \<in> set (theComputers s) \<and> l \<in> ct_lambda ` set cs))"

text \<open>The lambdas of the computers in \<open>D\<close> are announced to some router, if there is any.\<close>

definition covers :: "'n hier controller \<Rightarrow> (string \<times> container list) set \<Rightarrow> bool" where
  "covers s D \<longleftrightarrow> theRouters s = [] \<or>
     (\<forall>ep cs l. (ep, cs) \<in> D \<longrightarrow> l \<in> ct_lambda ` set cs \<longrightarrow> (\<exists>r. announced (hi_announced (ct_derived s)) r l ep))"

definition hier_good :: "('n \<Rightarrow> bool) \<Rightarrow> ('n \<Rightarrow> string \<Rightarrow> (string \<times> string) set) \<Rightarrow> 'n hier controller \<Rightarrow> bool" where
  "hier_good ninv view s \<longleftrightarrow> hier_routes ninv view s \<and> covers s (set (theComputers s))"

text \<open>What the loop over the entries does: the home router is announced for the lambdas it had not.\<close>

lemma has_mput: "has (mput l S ls) k e \<longleftrightarrow> (if k = l then e \<in> set S else has ls k e)"
  by (simp add: has_def)

lemma length_sinsert: "ep \<notin> set S \<Longrightarrow> length (sinsert ep S) = Suc (length S)"
  by (induction S) auto

lemma hier_entries_eq:
  assumes "hier_entries home ep (map (\<lambda>c. (ct_lambda c, ep, 1, True)) cs) ls = (es', ls')"
  shows "\<forall>l e. has ls' l e \<longleftrightarrow> has ls l e \<or> e = ep \<and> l \<in> ct_lambda ` set cs"
    and "route_pairs es' = {(l, home) | l. l \<in> ct_lambda ` set cs \<and> (\<forall>e. \<not> has ls l e)}"
    and "home \<noteq> [] \<Longrightarrow> routes_ok es'"
proof -
  have "(\<forall>l e. has ls' l e \<longleftrightarrow> has ls l e \<or> e = ep \<and> l \<in> ct_lambda ` set cs) \<and>
    route_pairs es' = {(l, home) | l. l \<in> ct_lambda ` set cs \<and> (\<forall>e. \<not> has ls l e)} \<and> (home \<noteq> [] \<longrightarrow> routes_ok es')"
    using assms
  proof (induction cs arbitrary: ls es')
    case Nil
    then show ?case by (auto simp: route_pairs_def routes_ok_def)
  next
    case (Cons c cs)
    let ?l = "ct_lambda c"
    let ?S = "case map_of ls ?l of None \<Rightarrow> [] | Some S \<Rightarrow> S"
    let ?ls = "mput ?l (sinsert ep ?S) ls"
    obtain es1 where es1: "hier_entries home ep (map (\<lambda>c. (ct_lambda c, ep, 1, True)) cs) ?ls = (es1, ls')"
      and es': "es' = (if ep \<in> set ?S \<or> length (sinsert ep ?S) > 1 then es1 else (?l, home, 1, False) # es1)"
      using Cons.prems by (auto simp: Let_def split: prod.splits)
    have S: "e \<in> set ?S \<longleftrightarrow> has ls ?l e" for e by (cases "map_of ls ?l") (auto simp: has_def)
    have keep: "ep \<in> set ?S \<or> length (sinsert ep ?S) > 1 \<longleftrightarrow> (\<exists>e. has ls ?l e)"
      unfolding S[symmetric] using length_sinsert[of ep ?S] by (cases ?S) auto
    have has: "has ?ls k e \<longleftrightarrow> has ls k e \<or> e = ep \<and> k = ?l" for k e
      using S by (auto simp: has_mput)
    note IH = Cons.IH[OF es1]
    have "\<forall>l e. has ls' l e \<longleftrightarrow> has ls l e \<or> e = ep \<and> l \<in> ct_lambda ` set (c # cs)"
      using IH has by auto
    moreover have "route_pairs es1 = {(l, home) | l. l \<in> ct_lambda ` set cs \<and> l \<noteq> ?l \<and> (\<forall>e. \<not> has ls l e)}"
      using IH has by auto
    then have "route_pairs es' = {(l, home) | l. l \<in> ct_lambda ` set (c # cs) \<and> (\<forall>e. \<not> has ls l e)}"
      unfolding es' keep by (auto simp: route_pairs_def)
    moreover have "home \<noteq> [] \<longrightarrow> routes_ok es'" using IH by (auto simp: es' routes_ok_def)
    ultimately show ?case by blast
  qed
  then show "\<forall>l e. has ls' l e \<longleftrightarrow> has ls l e \<or> e = ep \<and> l \<in> ct_lambda ` set cs"
    and "route_pairs es' = {(l, home) | l. l \<in> ct_lambda ` set cs \<and> (\<forall>e. \<not> has ls l e)}"
    and "home \<noteq> [] \<Longrightarrow> routes_ok es'" by blast+
qed

text \<open>The routes after a computer was announced to its home router.\<close>

lemma announced_mput:
  assumes "\<forall>l e. has ls' l e \<longleftrightarrow> has (case map_of A home of None \<Rightarrow> [] | Some m \<Rightarrow> m) l e \<or> e = ep \<and> l \<in> L"
  shows "announced (mput home ls' A) r l e \<longleftrightarrow> announced A r l e \<or> r = home \<and> e = ep \<and> l \<in> L"
proof -
  have "has (case map_of A home of None \<Rightarrow> [] | Some m \<Rightarrow> m) l e \<longleftrightarrow> announced A home l e" for l e
    by (cases "map_of A home") (auto simp: announced_def has_def)
  then show ?thesis using assms by (auto simp: announced_def)
qed

lemma routes_of_announce:
  assumes "\<And>r l e. announced A' r l e \<longleftrightarrow> announced A r l e \<or> r = home \<and> e = ep \<and> l \<in> L"
  shows "routes_of A' srv = routes_of A srv \<union> (if srv = home then {(l, ep) | l. l \<in> L}
    else {(l, home) | l. l \<in> L \<and> (\<forall>e. \<not> announced A home l e)})"
  unfolding routes_of_def assms by auto

section \<open>Installation of the routes\<close>

abbreviation net_of :: "'n hier controller \<Rightarrow> 'n" where
  "net_of s \<equiv> hi_net (ct_derived s)"

abbreviation set_net :: "'n \<Rightarrow> 'n hier controller \<Rightarrow> 'n hier controller" where
  "set_net n s \<equiv> s\<lparr>ct_derived := (ct_derived s)\<lparr>hi_net := n\<rparr>\<rparr>"

text \<open>What the loops rely on when a router does not answer.\<close>

definition removal_ok :: "('n \<Rightarrow> bool) \<Rightarrow> ('n \<Rightarrow> string \<Rightarrow> (string \<times> string) set) \<Rightarrow> (string \<Rightarrow> 'n hier_op) \<Rightarrow> bool" where
  "removal_ok ninv view rm \<longleftrightarrow> (\<forall>srv s s'. hier_conf s \<and> ninv (net_of s) \<and> rm srv s = (Inr (), s') \<longrightarrow>
     hier_good ninv view s' \<and> theComputers s' = theComputers s)"

lemma removal_okD:
  "\<lbrakk>removal_ok ninv view rm; rm srv s = (Inr (), s'); hier_conf s; ninv (net_of s)\<rbrakk> \<Longrightarrow>
     hier_good ninv view s' \<and> theComputers s' = theComputers s"
  by (auto simp: removal_ok_def)

lemma on_net_eq: "on_net f s = (fst (f (net_of s)), set_net (snd (f (net_of s))) s)"
  by (simp add: on_net_def split: prod.split)

lemma hier_confD:
  assumes "hier_conf s"
  shows "mwf (theRouters s)" "hi_endpoints (ct_derived s) = theRouters s" "distinct (map snd (theRouters s))"
    "(srv, fwd) \<in> set (theRouters s) \<Longrightarrow> fwd \<noteq> []" "addresses_ok (hi_routerAddresses (ct_derived s)) (theRouters s)"
  using assms unfolding hier_conf_def by force+

lemma hier_conf_cong:
  "\<lbrakk>theRouters s' = theRouters s; hi_endpoints (ct_derived s') = hi_endpoints (ct_derived s);
    hi_routerAddresses (ct_derived s') = hi_routerAddresses (ct_derived s)\<rbrakk> \<Longrightarrow> hier_conf s' = hier_conf s"
  by (simp add: hier_conf_def)

lemma hier_conf_set_net [simp]: "hier_conf (set_net n s) = hier_conf s"
  by (rule hier_conf_cong) simp_all

lemma distinct_snd: "distinct (map snd m) \<Longrightarrow> (a, c) \<in> set m \<Longrightarrow> (b, c) \<in> set m \<Longrightarrow> a = b"
  by (induction m) force+

lemma mwf_map_of: "mwf m \<Longrightarrow> (k, v) \<in> set m \<Longrightarrow> map_of m k = Some v"
  by (simp add: mwf_distinct)

lemma covers_mono: "covers s D \<Longrightarrow> D' \<subseteq> D \<Longrightarrow> covers s D'"
  unfolding covers_def by blast

lemma addresses_okD:
  assumes "addresses_ok A R"
  shows "mwf A" "map_of A a = Some eps \<Longrightarrow> eps \<noteq> [] \<and> distinct eps"
    "(\<exists>eps. map_of A a = Some eps \<and> srv \<in> set eps) \<longleftrightarrow> srv \<in> fst ` set R \<and> hier_address srv = Inr a"
    "srv \<in> fst ` set R \<Longrightarrow> \<exists>a. hier_address srv = Inr a"
  using assms unfolding addresses_ok_def by blast+

lemma addresses_ok_remove:
  assumes ok: "addresses_ok A R" and a: "hier_address srv = Inr a" "map_of A a = Some eps"
  shows "addresses_ok (if remove1 srv eps = [] then merase a A else mput a (remove1 srv eps) A) (merase srv R)"
proof -
  let ?A = "if remove1 srv eps = [] then merase a A else mput a (remove1 srv eps) A"
  have m: "map_of ?A = (map_of A)(a := if remove1 srv eps = [] then None else Some (remove1 srv eps))" by simp
  have "distinct eps" using addresses_okD(2)[OF ok a(2)] by simp
  then have e: "set (remove1 srv eps) = set eps - {srv}" "distinct (remove1 srv eps)" by simp_all
  have "(\<exists>es. map_of ?A b = Some es \<and> x \<in> set es) \<longleftrightarrow> x \<in> fst ` set (merase srv R) \<and> hier_address x = Inr b" for b x
  proof -
    have old: "(\<exists>es. map_of A b = Some es \<and> x \<in> set es) \<longleftrightarrow> x \<in> fst ` set R \<and> hier_address x = Inr b"
      by (rule addresses_okD(3)[OF ok])
    have "(\<exists>es. map_of ?A b = Some es \<and> x \<in> set es) \<longleftrightarrow> (\<exists>es. map_of A b = Some es \<and> x \<in> set es) \<and> \<not> (b = a \<and> x = srv)"
    proof (cases "b = a")
      case True
      have "(\<exists>es. map_of ?A a = Some es \<and> x \<in> set es) \<longleftrightarrow> x \<in> set (remove1 srv eps)" unfolding m by simp
      then show ?thesis using True e(1) a(2) by simp
    qed (simp add: m)
    then show ?thesis unfolding old using a(1) by auto
  qed
  moreover have "mwf ?A" using addresses_okD(1)[OF ok] by simp
  moreover have "es \<noteq> [] \<and> distinct es" if "map_of ?A b = Some es" for b es
    using that addresses_okD(2)[OF ok, of b es] e(2) unfolding m by (cases "b = a") (auto split: if_splits)
  moreover have "\<exists>b. hier_address x = Inr b" if "x \<in> fst ` set (merase srv R)" for x
    using that addresses_okD(4)[OF ok, of x] by simp
  ultimately show ?thesis unfolding addresses_ok_def by blast
qed

lemma addresses_ok_add:
  assumes ok: "addresses_ok A R" and a: "hier_address srv = Inr a" and new: "srv \<notin> fst ` set R"
  shows "addresses_ok (mput a ((case map_of A a of None \<Rightarrow> [] | Some eps \<Rightarrow> eps) @ [srv]) A) (mput srv fwd R)"
proof -
  let ?eps = "case map_of A a of None \<Rightarrow> [] | Some eps \<Rightarrow> eps"
  let ?A = "mput a (?eps @ [srv]) A"
  have old: "(\<exists>es. map_of A b = Some es \<and> x \<in> set es) \<longleftrightarrow> x \<in> fst ` set R \<and> hier_address x = Inr b" for b x
    by (rule addresses_okD(3)[OF ok])
  have eps: "x \<in> set ?eps \<longleftrightarrow> x \<in> fst ` set R \<and> hier_address x = Inr a" for x
    unfolding old[symmetric] by (cases "map_of A a") simp_all
  have "(\<exists>es. map_of ?A b = Some es \<and> x \<in> set es) \<longleftrightarrow> x \<in> fst ` set (mput srv fwd R) \<and> hier_address x = Inr b" for b x
  proof (cases "b = a")
    case True
    have "(\<exists>es. map_of ?A a = Some es \<and> x \<in> set es) \<longleftrightarrow> x \<in> set ?eps \<or> x = srv" by (cases "map_of A a") auto
    then show ?thesis using True a unfolding eps by auto
  next
    case False
    then show ?thesis using old[of b x] a by auto
  qed
  moreover have "mwf ?A" using addresses_okD(1)[OF ok] by simp
  moreover have "distinct ?eps" using addresses_okD(2)[OF ok, of a] by (cases "map_of A a") simp_all
  then have "es \<noteq> [] \<and> distinct es" if "map_of ?A b = Some es" for b es
    using that addresses_okD(2)[OF ok, of b es] eps[of srv] new by (cases "b = a") auto
  moreover have "\<exists>b. hier_address x = Inr b" if "x \<in> fst ` set (mput srv fwd R)" for x
    using that addresses_okD(4)[OF ok, of x] a by auto
  ultimately show ?thesis unfolding addresses_ok_def by blast
qed

lemma mput_snd:
  assumes "map_of m k = None"
  shows "snd ` set (mput k v m) = insert v (snd ` set m)"
    and "distinct (map snd m) \<Longrightarrow> v \<notin> snd ` set m \<Longrightarrow> distinct (map snd (mput k v m))"
proof -
  show "snd ` set (mput k v m) = insert v (snd ` set m)" using assms by (simp add: set_mput)
  show "distinct (map snd m) \<Longrightarrow> v \<notin> snd ` set m \<Longrightarrow> distinct (map snd (mput k v m))"
    using assms by (induction m) (auto simp: set_mput split: if_splits)
qed

lemma merase_snd: "distinct (map snd m) \<Longrightarrow> distinct (map snd (merase k m))" "snd ` set (merase k m) \<subseteq> snd ` set m"
  by (auto simp: merase_def distinct_map_filter)

lemma addresses_Nil: "addresses_ok [] R \<Longrightarrow> R = []"
  by (cases R) (force simp: addresses_ok_def)+

lemma sbind_eq_Inr: "sbind r f = (Inr x, s') \<longleftrightarrow> (\<exists>a s. r = (Inr a, s) \<and> f a s = (Inr x, s'))"
  by (cases r; cases "fst r") auto

text \<open>The choice of the home router leaves the routes alone.\<close>

definition same_routes :: "'n hier controller \<Rightarrow> 'n hier controller \<Rightarrow> bool" where
  "same_routes s s' \<longleftrightarrow> theRouters s' = theRouters s \<and> theComputers s' = theComputers s \<and>
     hi_endpoints (ct_derived s') = hi_endpoints (ct_derived s) \<and>
     hi_routerAddresses (ct_derived s') = hi_routerAddresses (ct_derived s) \<and>
     hi_announced (ct_derived s') = hi_announced (ct_derived s) \<and> net_of s' = net_of s"

lemma same_routes:
  assumes "same_routes s s'"
  shows "hier_routes ninv view s' = hier_routes ninv view s" "covers s' D = covers s D"
  using assms hier_conf_cong[of s' s] by (simp_all add: hier_routes_def covers_def same_routes_def)

lemma findClosest_same: "on_hier (findClosest adr) s = (Inr a, s') \<Longrightarrow> same_routes s s'"
  by (auto simp: on_hier_def findClosest_def same_routes_def split: prod.splits option.splits sum.splits if_splits)

lemma routerEndpoint_same: "on_hier (routerEndpoint rnd a) s = (Inr home, s') \<Longrightarrow> same_routes s s'"
  by (auto simp: on_hier_def routerEndpoint_def same_routes_def split: prod.splits option.splits sum.splits if_splits)

lemma routerEndpoint_mem:
  assumes "on_hier (routerEndpoint rnd a) s = (Inr home, s')"
  shows "\<exists>eps. map_of (hi_routerAddresses (ct_derived s)) a = Some eps \<and> home \<in> set eps"
proof -
  obtain eps where eps: "map_of (hi_routerAddresses (ct_derived s)) a = Some eps"
    using assms by (cases "map_of (hi_routerAddresses (ct_derived s)) a") (auto simp: on_hier_def routerEndpoint_def)
  have "home = hd eps \<and> length eps = 1 \<or> (\<exists>i<length eps. home = eps ! i)"
    using assms eps by (auto simp: on_hier_def routerEndpoint_def split: option.splits prod.splits if_splits)
  then have "home \<in> set eps" using nth_mem by (auto simp: length_Suc_conv)
  then show ?thesis using eps by blast
qed

context route_installer
begin

lemma hier_notify_routes:
  assumes "removal_ok ninv view rm" and "routes_ok es" and "hier_conf s" and "ninv (net_of s)"
    and "distinct (map snd rs)" and "hier_notify Ins rm home es rs s = (Inr (), s')"
  shows "hier_good ninv view s' \<and> theComputers s' = theComputers s \<or>
    (\<exists>n'. s' = set_net n' s \<and> ninv n' \<and>
      (\<forall>(srv, fwd)\<in>set rs. view n' fwd = view (net_of s) fwd \<union> (if srv = home then {} else route_pairs es)) \<and>
      (\<forall>fwd. fwd \<notin> snd ` set rs \<longrightarrow> view n' fwd = view (net_of s) fwd))"
  using assms(3-6)
proof (induction rs arbitrary: s)
  case Nil
  then show ?case by (intro disjI2 exI[of _ "net_of s"]) simp
next
  case (Cons p rs)
  obtain srv fwd where p: "p = (srv, fwd)" by (cases p)
  have fresh: "fwd \<notin> snd ` set rs" "distinct (map snd rs)" using Cons.prems(3) by (auto simp: p)
  show ?case
  proof (cases "srv = home \<or> es = []")
    case True
    then have "hier_notify Ins rm home es rs s = (Inr (), s')" using Cons.prems(4) by (auto simp: p)
    from Cons.IH[OF Cons.prems(1,2) fresh(2) this] show ?thesis
      using True fresh(1) by (auto simp: p route_pairs_def)
  next
    case False
    obtain ok n1 where c: "ins_changeRoutes Ins fwd es (net_of s) = (ok, n1)" by fastforce
    note law = change_law[OF Cons.prems(2) assms(2) c]
    show ?thesis
    proof (cases ok)
      case True
      then have n: "hier_notify Ins rm home es rs (set_net n1 s) = (Inr (), s')"
        using Cons.prems(4) False c by (simp add: p on_net_eq)
      have conf: "hier_conf (set_net n1 s)" using Cons.prems(1) by simp
      have "ninv (net_of (set_net n1 s))" using law by simp
      from Cons.IH[OF conf this fresh(2) n] consider
          (good) "hier_good ninv view s' \<and> theComputers s' = theComputers s"
        | (all) n' where "s' = set_net n' s" "ninv n'"
            "\<forall>(srv, f)\<in>set rs. view n' f = view n1 f \<union> (if srv = home then {} else route_pairs es)"
            "\<forall>f. f \<notin> snd ` set rs \<longrightarrow> view n' f = view n1 f" by auto
      then show ?thesis
      proof cases
        case all
        have other: "f \<noteq> fwd \<Longrightarrow> view n1 f = view (net_of s) f" for f using law by simp
        have "view n1 f = view (net_of s) f" if "(srv', f) \<in> set rs" for srv' f
          using fresh(1) that other[of f] by force
        then have "\<forall>(srv, f)\<in>set rs. view n' f = view (net_of s) f \<union> (if srv = home then {} else route_pairs es)"
          using all(3) by fastforce
        moreover have "view n' fwd = view (net_of s) fwd \<union> route_pairs es" using all(4) fresh(1) law True by simp
        moreover have "\<forall>f. f \<notin> snd ` set (p # rs) \<longrightarrow> view n' f = view (net_of s) f" using all(4) law by (simp add: p)
        ultimately show ?thesis using all(1,2) False by (intro disjI2 exI[of _ n'] conjI) (simp_all add: p)
      qed blast
    next
      case no: False
      then have "rm srv (set_net n1 s) = (Inr (), s')" using Cons.prems(4) False c by (simp add: p on_net_eq)
      then show ?thesis using removal_okD[OF assms(1), of srv "set_net n1 s" s'] Cons.prems(1) law by simp
    qed
  qed
qed

lemma hier_install_routes:
  assumes rm: "removal_ok ninv view rm" and s: "hier_routes ninv view s" and c: "(ep, cs) \<in> set (theComputers s)"
    and D: "covers s D" "D \<subseteq> set (theComputers s)" and h: "home \<in> fst ` set (theRouters s)" "home \<noteq> []" and "ep \<noteq> []"
    and "hier_install Ins rm home ep cs s = (Inr (), s')"
  shows "hier_routes ninv view s' \<and> covers s' (insert (ep, cs) D) \<and> theComputers s' = theComputers s"
proof -
  let ?es = "map (\<lambda>c. (ct_lambda c, ep, 1, True)) cs" and ?L = "ct_lambda ` set cs"
  let ?A = "hi_announced (ct_derived s)"
  have conf: "hier_conf s" "ninv (net_of s)" using s by (simp_all add: hier_routes_def)
  obtain fwd where fwd: "map_of (theRouters s) home = Some fwd" using h(1) by (auto simp: in_fst_set_iff)
  have fwd': "(home, fwd) \<in> set (theRouters s)" by (rule map_of_SomeD[OF fwd])
  have "fwd \<noteq> []" by (rule hier_confD(4)[OF conf(1) fwd'])
  then have f: "forwardingServerEndpoint home (theRouters s) \<noteq> []" "forwardingServerEndpoint home (theRouters s) = fwd"
    using fwd by (simp_all add: forwardingServerEndpoint_def)
  have es: "routes_ok ?es" "route_pairs ?es = {(l, ep) | l. l \<in> ?L}"
    using \<open>ep \<noteq> []\<close> by (auto simp: routes_ok_def route_pairs_def image_image)
  obtain ok n1 where ch: "ins_changeRoutes Ins fwd ?es (net_of s) = (ok, n1)" by fastforce
  note law = change_law[OF conf(2) es(1) ch]
  have gd: ?thesis if "hier_good ninv view s'" "theComputers s' = theComputers s"
    using that c D(2) covers_mono[of s' "set (theComputers s)" "insert (ep, cs) D"] by (simp add: hier_good_def)
  show ?thesis
  proof (cases ok)
    case False
    then have "rm home (set_net n1 s) = (Inr (), s')" using assms(9) f ch by (simp add: hier_install_def on_net_eq)
    then show ?thesis using removal_okD[OF rm, of home "set_net n1 s" s'] conf law gd by simp
  next
    case True
    obtain es' ls where e: "hier_entries home ep ?es (case map_of ?A home of None \<Rightarrow> [] | Some m \<Rightarrow> m) = (es', ls)" by fastforce
    define A' where "A' = mput home ls ?A"
    define s1 where "s1 = (set_net n1 s)\<lparr>ct_derived := (ct_derived (set_net n1 s))\<lparr>hi_announced := A'\<rparr>\<rparr>"
    have n: "hier_notify Ins rm home es' (theRouters s1) s1 = (Inr (), s')"
      using assms(9) f ch True e by (simp add: hier_install_def on_net_eq s1_def A'_def)
    have "hier_conf s1 = hier_conf s" by (rule hier_conf_cong) (simp_all add: s1_def)
    then have s1: "hier_conf s1" "ninv (net_of s1)" "theRouters s1 = theRouters s" "theComputers s1 = theComputers s" "net_of s1 = n1"
      using conf law by (simp_all add: s1_def)
    have ann: "announced A' r l e \<longleftrightarrow> announced ?A r l e \<or> r = home \<and> e = ep \<and> l \<in> ?L" for r l e
      unfolding A'_def by (rule announced_mput[OF hier_entries_eq(1)[OF e]])
    have has: "has (case map_of ?A home of None \<Rightarrow> [] | Some m \<Rightarrow> m) l e \<longleftrightarrow> announced ?A home l e" for l e
      by (cases "map_of ?A home") (auto simp: announced_def has_def)
    from hier_notify_routes[OF rm hier_entries_eq(3)[OF e h(2)] s1(1,2) hier_confD(3)[OF s1(1)] n]
    consider (good) "hier_good ninv view s' \<and> theComputers s' = theComputers s1"
      | (all) n' where "s' = set_net n' s1" "ninv n'"
        "\<forall>(srv, f)\<in>set (theRouters s). view n' f = view n1 f \<union> (if srv = home then {} else route_pairs es')"
      by (auto simp: s1(3,5))
    then show ?thesis
    proof cases
      case good
      then show ?thesis using s1(4) gd by simp
    next
      case all
      have "view n' f = routes_of A' srv" if sf: "(srv, f) \<in> set (theRouters s)" for srv f
      proof -
        have "f = fwd \<longleftrightarrow> srv = home"
          using sf fwd' fwd distinct_snd[OF hier_confD(3)[OF conf(1)]] mwf_map_of[OF hier_confD(1)[OF conf(1)] sf] by auto
        then have "view n1 f = view (net_of s) f \<union> (if srv = home then {(l, ep) | l. l \<in> ?L} else {})"
          using law True es(2) by auto
        moreover have "view n' f = view n1 f \<union> (if srv = home then {} else route_pairs es')"
          using bspec[OF all(3) sf] by simp
        moreover have "view (net_of s) f = routes_of ?A srv" using s sf by (auto simp: hier_routes_def)
        ultimately show ?thesis
          using hier_entries_eq(2)[OF e, unfolded has] unfolding routes_of_announce[OF ann] by (simp split: if_split)
      qed
      moreover have "\<forall>r l e. announced A' r l e \<longrightarrow> r \<in> fst ` set (theRouters s) \<and>
          (\<exists>cs. (e, cs) \<in> set (theComputers s) \<and> l \<in> ct_lambda ` set cs)"
        unfolding ann using s c h(1) by (auto simp: hier_routes_def)
      moreover have s': "hi_announced (ct_derived s') = A'" "theRouters s' = theRouters s" by (simp_all add: all(1) s1_def)
      moreover have "covers s' (insert (ep, cs) D)"
        using D(1) unfolding covers_def s' ann by blast
      ultimately show ?thesis
        using all(1,2) hier_conf_set_net[of n' s1] s1(1) by (auto simp: hier_routes_def s1_def)
    qed
  qed
qed

lemma hier_announce_routes:
  assumes rm: "removal_ok ninv view rm" and s: "hier_routes ninv view s" and c: "(ep, cs) \<in> set (theComputers s)"
    and D: "covers s D" "D \<subseteq> set (theComputers s)"
    and "hier_privateAnnounceComputer rnd Ins rm ep cs s = (Inr (), s')"
  shows "hier_routes ninv view s' \<and> covers s' (insert (ep, cs) D) \<and> theComputers s' = theComputers s"
proof (cases "hi_routerAddresses (ct_derived s) = []")
  case True
  have "theRouters s = []" using addresses_Nil[of "theRouters s"] hier_confD(5)[of s] s True by (simp add: hier_routes_def)
  then show ?thesis using assms True by (simp add: hier_privateAnnounceComputer_def covers_def)
next
  case False
  then obtain adr homeAdr s1 home s2 where adr: "hier_address ep = Inr adr"
    and s1: "on_hier (findClosest adr) s = (Inr homeAdr, s1)" and s2: "on_hier (routerEndpoint rnd homeAdr) s1 = (Inr home, s2)"
    and home: "home \<noteq> []" and i: "hier_install Ins rm home ep cs s2 = (Inr (), s')"
    using assms(6) by (auto simp: hier_privateAnnounceComputer_def sbind_eq_Inr split: sum.splits if_splits)
  have a: "same_routes s s2" using findClosest_same[OF s1] routerEndpoint_same[OF s2] by (auto simp: same_routes_def)
  have ep: "ep \<noteq> []" using adr by (auto simp: hier_address_def Let_def)
  have "addresses_ok (hi_routerAddresses (ct_derived s1)) (theRouters s2)"
    using hier_confD(5)[of s] s findClosest_same[OF s1] a by (simp add: hier_routes_def same_routes_def)
  then have "home \<in> fst ` set (theRouters s2)"
    using routerEndpoint_mem[OF s2] unfolding addresses_ok_def by blast
  then show ?thesis
    using hier_install_routes[OF rm _ _ _ _ _ home ep i, of D] s c D a same_routes[OF a] by (simp add: same_routes_def)
qed

lemma hier_flush_routes:
  assumes "ninv (net_of s)" and "hier_flush Ins rs s = (r, s')"
  shows "\<exists>n'. s' = set_net n' s \<and> ninv n' \<and> (r = None \<longrightarrow>
    (\<forall>f. view (net_of s) f = {} \<longrightarrow> view n' f = {}) \<and> (\<forall>(srv, fwd)\<in>set rs. view n' fwd = {}))"
  using assms
proof (induction rs arbitrary: s)
  case Nil
  then show ?case by (intro exI[of _ "net_of s"]) auto
next
  case (Cons p rs)
  obtain srv fwd where p: "p = (srv, fwd)" by (cases p)
  obtain ok n1 where f: "ins_flushRoutes Ins fwd (net_of s) = (ok, n1)" by fastforce
  note law = flush_law[OF Cons.prems(1) f]
  show ?case
  proof (cases ok)
    case True
    then have n1: "ninv (net_of (set_net n1 s))" "hier_flush Ins rs (set_net n1 s) = (r, s')" "view n1 fwd = {}"
      using law Cons.prems(2) f by (simp_all add: p on_net_eq)
    have e: "view (net_of s) g = {} \<Longrightarrow> view n1 g = {}" for g using law True by (cases "g = fwd") auto
    show ?thesis using Cons.IH[OF n1(1,2)] n1(3) e by (auto simp: p)
  next
    case False
    then show ?thesis using Cons.prems(2) f law by (auto simp: p on_net_eq)
  qed
qed

lemma hier_announce_all:
  assumes "removal_ok ninv view rm" and "hier_routes ninv view s" and "covers s D"
    and "D \<union> set xs \<subseteq> set (theComputers s)"
    and "sfor xs (\<lambda>(ep, cs). hier_privateAnnounceComputer rnd Ins rm ep cs) s = (Inr (), s')"
  shows "hier_routes ninv view s' \<and> covers s' (D \<union> set xs) \<and> theComputers s' = theComputers s"
  using assms(2-5)
proof (induction xs arbitrary: s D)
  case (Cons p xs)
  obtain ep cs where p: "p = (ep, cs)" by (cases p)
  obtain s1 where s1: "hier_privateAnnounceComputer rnd Ins rm ep cs s = (Inr (), s1)"
    and rest: "sfor xs (\<lambda>(ep, cs). hier_privateAnnounceComputer rnd Ins rm ep cs) s1 = (Inr (), s')"
    using Cons.prems(4) by (auto simp: p sbind_eq_Inr)
  have "hier_routes ninv view s1 \<and> covers s1 (insert p D) \<and> theComputers s1 = theComputers s"
    using hier_announce_routes[OF assms(1) Cons.prems(1) _ Cons.prems(2) _ s1] Cons.prems(3) p by auto
  then show ?case using Cons.IH[of s1 "insert p D"] rest Cons.prems(3) by auto
qed auto

lemma hier_reset_routes:
  assumes rm: "removal_ok ninv view rm" and s: "hier_conf s" "ninv (net_of s)"
    and r: "hier_reset rnd Ins rm s = (Inr (), s')"
  shows "hier_good ninv view s' \<and> theComputers s' = theComputers s"
proof -
  obtain r s1 where f: "hier_flush Ins (hi_endpoints (ct_derived s)) s = (r, s1)" by fastforce
  obtain n1 where n1: "s1 = set_net n1 s" "ninv n1" "r = None \<Longrightarrow> \<forall>(srv, fwd)\<in>set (theRouters s). view n1 fwd = {}"
    using hier_flush_routes[OF s(2) f] hier_confD(2)[OF s(1)] by auto
  show ?thesis
  proof (cases r)
    case (Some srv)
    then show ?thesis using r f removal_okD[OF rm, of srv s1 s'] n1(1,2) s(1) by (simp add: hier_reset_def)
  next
    case None
    define s2 where "s2 = s1\<lparr>ct_derived := (ct_derived s1)\<lparr>hi_announced := []\<rparr>\<rparr>"
    have c: "hier_conf s2 = hier_conf s" by (rule hier_conf_cong) (simp_all add: s2_def n1(1))
    have "announced [] r l e \<longleftrightarrow> False" for r l e by (simp add: announced_def)
    then have "hier_routes ninv view s2" using c s(1) n1(2) n1(3)[OF None]
      by (simp add: hier_routes_def) (simp add: s2_def n1(1) routes_of_def)
    moreover have "covers s2 {}" by (simp add: covers_def)
    moreover have "sfor (theComputers s2) (\<lambda>(ep, cs). hier_privateAnnounceComputer rnd Ins rm ep cs) s2 = (Inr (), s')"
      using r f None by (simp add: hier_reset_def s2_def)
    ultimately show ?thesis using hier_announce_all[OF rm, of s2 "{}" "theComputers s2" rnd s']
      by (simp add: hier_good_def s2_def n1(1))
  qed
qed

lemma hier_removal_ok: "removal_ok ninv view (hier_removeRouter rnd Ins n)"
proof (induction n)
  case 0
  then show ?case by (simp add: removal_ok_def)
next
  case (Suc n)
  have "hier_good ninv view s' \<and> theComputers s' = theComputers s"
    if s: "hier_conf s" "ninv (net_of s)" and r: "hier_removeRouter rnd Ins (Suc n) srv s = (Inr (), s')" for srv s s'
  proof -
    let ?h = "ct_derived s" and ?R = "merase srv (theRouters s)"
    obtain a eps where a: "hier_address srv = Inr a" "map_of (hi_routerAddresses ?h) a = Some eps"
      using r by (auto simp: removeRouter_def hier_privateRemoveRouter_def Let_def split: sum.splits option.splits)
    define A where "A = (if remove1 srv eps = [] then merase a (hi_routerAddresses ?h)
      else mput a (remove1 srv eps) (hi_routerAddresses ?h))"
    define C where "C = (if remove1 srv eps = [] then [] else hi_closest ?h)"
    define s1 where "s1 = s\<lparr>theRouters := ?R, ct_derived := ?h\<lparr>hi_routerAddresses := A, hi_closest := C,
      hi_endpoints := merase srv (hi_endpoints ?h)\<rparr>\<rparr>"
    have "hier_reset rnd Ins (hier_removeRouter rnd Ins n) s1 = (Inr (), s')"
      using r a by (auto simp: removeRouter_def routers_remove_def hier_privateRemoveRouter_def Let_def s1_def A_def C_def
          split: if_splits)
    moreover have "hier_conf s1"
      using s(1) hier_confD(1-3)[OF s(1)] merase_snd[where m = "theRouters s" and k = srv] addresses_ok_remove[OF hier_confD(5)[OF s(1)] a]
      by (auto simp: hier_conf_def s1_def A_def)
    ultimately show ?thesis using hier_reset_routes[OF Suc.IH, of s1 rnd s'] s(2) by (simp add: s1_def)
  qed
  then show ?case unfolding removal_ok_def by blast
qed

text \<open>A new router, then a new computer.\<close>

lemma hier_announceRouter_good:
  assumes s: "hier_conf s" "ninv (net_of s)" and fwd: "fwd \<noteq> []" "fwd \<notin> snd ` set (theRouters s)"
    and r: "announceRouter (hier_hooks rnd Ins n) srv fwd s = (Inr (), s')"
  shows "hier_good ninv view s' \<and> theComputers s' = theComputers s"
proof -
  let ?h = "ct_derived s"
  obtain a where a: "hier_address srv = Inr a" and "map_of (hi_endpoints ?h) srv = None"
    using r by (auto simp: announceRouter_def hier_hooks_def hier_privateAnnounceRouter_def Let_def split: sum.splits option.splits if_splits)
  then have none: "map_of (theRouters s) srv = None" using hier_confD(2)[OF s(1)] by simp
  then have new: "srv \<notin> fst ` set (theRouters s)" by (simp add: map_of_eq_None_iff)
  define A where "A = mput a ((case map_of (hi_routerAddresses ?h) a of None \<Rightarrow> [] | Some eps \<Rightarrow> eps) @ [srv]) (hi_routerAddresses ?h)"
  define C where "C = (case map_of (hi_routerAddresses ?h) a of None \<Rightarrow> [] | Some eps \<Rightarrow> hi_closest ?h)"
  define s1 where "s1 = s\<lparr>theRouters := mput srv fwd (theRouters s), ct_derived := ?h\<lparr>hi_routerAddresses := A,
      hi_closest := C, hi_endpoints := mput srv fwd (hi_endpoints ?h)\<rparr>\<rparr>"
  have "hier_reset rnd Ins (hier_removeRouter rnd Ins n) s1 = (Inr (), s')"
    using r a none hier_confD(2)[OF s(1)]
    by (cases "map_of (hi_routerAddresses ?h) a")
       (auto simp: announceRouter_def hier_hooks_def hier_privateAnnounceRouter_def Let_def s1_def A_def C_def
          routers_add_def memplace_def)
  moreover have "hier_conf s1"
    using s(1) hier_confD(1-3)[OF s(1)] fwd mput_snd[OF none, of fwd] addresses_ok_add[OF hier_confD(5)[OF s(1)] a new, of fwd]
    by (auto simp: hier_conf_def s1_def A_def)
  ultimately show ?thesis using hier_reset_routes[OF hier_removal_ok, of s1 rnd rnd n s'] s(2) by (simp add: s1_def)
qed

lemma serve_lambda_hier:
  "\<exists>ls. serve_lambda (hier_hooks rnd Ins n) ep l s = (Inr (), s\<lparr>theLambdas := ls\<rparr>)"
  by (auto simp: serve_lambda_def hier_hooks_def Let_def)

lemma serve_lambdas_hier:
  "\<exists>ls. sfor xs (serve_lambda (hier_hooks rnd Ins n) ep) s = (Inr (), s\<lparr>theLambdas := ls\<rparr>)"
proof (induction xs arbitrary: s)
  case Nil
  show ?case by (intro exI[of _ "theLambdas s"]) simp
next
  case (Cons x xs)
  obtain ls where ls: "serve_lambda (hier_hooks rnd Ins n) ep x s = (Inr (), s\<lparr>theLambdas := ls\<rparr>)"
    using serve_lambda_hier by blast
  show ?case using Cons.IH[of "s\<lparr>theLambdas := ls\<rparr>"] ls by auto
qed

lemma hier_announceComputer_good:
  assumes s: "hier_good ninv view s" and new: "map_of (theComputers s) ep = None"
    and r: "announceComputer (hier_hooks rnd Ins n) ep cs s = (Inr (), s')"
  shows "hier_good ninv view s'"
proof -
  let ?s = "s\<lparr>theComputers := mput ep cs (theComputers s)\<rparr>"
  obtain ls where "sfor (map ct_lambda cs) (serve_lambda (hier_hooks rnd Ins n) ep) ?s = (Inr (), ?s\<lparr>theLambdas := ls\<rparr>)"
    using serve_lambdas_hier by blast
  then have an: "hier_privateAnnounceComputer rnd Ins (hier_removeRouter rnd Ins n) ep cs (?s\<lparr>theLambdas := ls\<rparr>) = (Inr (), s')"
    using r new by (simp add: announceComputer_def computers_add_def) (simp add: hier_hooks_def)
  have comp: "set (theComputers (?s\<lparr>theLambdas := ls\<rparr>)) = insert (ep, cs) (set (theComputers s))"
    using new by (simp add: set_mput)
  have "hier_conf (?s\<lparr>theLambdas := ls\<rparr>) = hier_conf s" by (rule hier_conf_cong) simp_all
  then have "hier_routes ninv view (?s\<lparr>theLambdas := ls\<rparr>)"
    using s comp unfolding hier_good_def hier_routes_def by simp blast
  moreover have "covers (?s\<lparr>theLambdas := ls\<rparr>) (set (theComputers s))" using s by (simp add: hier_good_def covers_def)
  ultimately show ?thesis 
    using hier_announce_routes[OF hier_removal_ok _ _ _ _ an, of "set (theComputers s)"] comp
    by (simp add: hier_good_def subset_insertI)
qed

end

section \<open>The states that the controller can reach\<close>

text \<open>
  Routers and computers announce themselves in any order; each call to a router may fail, and then the
  controller forgets the router. The objective and the topology are those loaded at the beginning. An
  operation that throws, which the server reports and ignores, ends the run.
\<close>

inductive hier_reach ::
  "(nat \<Rightarrow> real) \<Rightarrow> 'n installer \<Rightarrow> objective_type option \<Rightarrow> topology option \<Rightarrow> 'n \<Rightarrow> 'n hier controller \<Rightarrow> bool"
  for rnd Ins obj T n0 where
  start: "hier_reach rnd Ins obj T n0 (ctl_new ((hier_new n0)\<lparr>hi_objective := obj, hi_topology := T\<rparr>))"
| computer: "\<lbrakk>hier_reach rnd Ins obj T n0 s; map_of (theComputers s) ep = None \<or> map_of (theComputers s) ep = Some cs;
    announceComputer (hier_hooks rnd Ins n) ep cs s = (Inr (), s')\<rbrakk> \<Longrightarrow> hier_reach rnd Ins obj T n0 s'"
| router: "\<lbrakk>hier_reach rnd Ins obj T n0 s; fwd \<noteq> []; fwd \<notin> snd ` set (theRouters s);
    announceRouter (hier_hooks rnd Ins n) srv fwd s = (Inr (), s')\<rbrakk> \<Longrightarrow> hier_reach rnd Ins obj T n0 s'"

context route_installer
begin

lemma hier_reach_good:
  assumes "hier_reach rnd Ins obj T n0 s" and "ninv n0"
  shows "hier_good ninv view s \<and> ctl_inv s"
  using assms(1)
proof (induction rule: hier_reach.induct)
  case start
  then show ?case using assms(2)
    by (simp add: hier_good_def hier_routes_def hier_conf_def ctl_new_def hier_new_def addresses_ok_def covers_def
        announced_def ctl_inv_def lambdas_ok_def serves_def)
next
  case (computer s ep cs n s')
  have "ctl_inv s'" using hierc.announceComputer_inv[of s rnd Ins n ep cs] computer by simp
  moreover have "hier_good ninv view s'"
  proof (cases "map_of (theComputers s) ep")
    case None
    then show ?thesis using hier_announceComputer_good computer by blast
  next
    case (Some x)
    then have "map_of (theComputers s) ep = Some cs" using computer(2) by simp
    then have "s' = s" using computer(3) by (simp add: announceComputer_def computers_add_def)
    then show ?thesis using computer.IH by simp
  qed
  ultimately show ?case by simp
next
  case (router s fwd n srv s')
  have "ctl_inv s'" using hierc.announceRouter_inv[of s rnd Ins n srv fwd] router by simp
  moreover have "hier_conf s" "ninv (net_of s)" using router.IH by (simp_all add: hier_good_def hier_routes_def)
  then have "hier_good ninv view s'" using hier_announceRouter_good router by blast
  ultimately show ?case by simp
qed

end
lemma hier_reach_routes:
  assumes "hier_reach rnd (rpc_installer E net) obj T n0 s" and "rn_inv n0" and "\<And>n i. ok_env (E n i)"
    and "map_of (theRouters s) srv = Some fwd"
  shows "tables_ok (rn_tables (net_of s) fwd)"
    and "d \<in> ft_dests (rn_tables (net_of s) fwd ! 0) l \<longleftrightarrow>
      announced (hi_announced (ct_derived s)) srv l d \<or> d \<noteq> srv \<and> (\<exists>ep. announced (hi_announced (ct_derived s)) d l ep)"
    and "announced (hi_announced (ct_derived s)) r l ep \<Longrightarrow> serves (theComputers s) ep l \<and> (\<exists>f. map_of (theRouters s) r = Some f)"
    and "serves (theComputers s) ep l \<Longrightarrow> \<exists>r. announced (hi_announced (ct_derived s)) r l ep"
proof -
  let ?A = "hi_announced (ct_derived s)"
  have good: "hier_good rn_inv rn_view s" "ctl_inv s"
    using rpc.hier_reach_good[of rnd E net obj T n0 s] rn_envs_id[of E] assms(1-3) by auto
  then have routes: "hier_routes rn_inv rn_view s" by (simp add: hier_good_def)
  have comp: "mwf (theComputers s)" using good(2) by (simp add: ctl_inv_def)
  show "tables_ok (rn_tables (net_of s) fwd)" using routes by (simp add: hier_routes_def rn_inv_def)
  have "table_routes (rn_tables (net_of s) fwd) = routes_of ?A srv"
    using routes map_of_SomeD[OF assms(4)] by (auto simp: hier_routes_def rn_view_def)
  then show "d \<in> ft_dests (rn_tables (net_of s) fwd ! 0) l \<longleftrightarrow> announced ?A srv l d \<or> d \<noteq> srv \<and> (\<exists>ep. announced ?A d l ep)"
    by (auto simp: table_routes_def routes_of_def set_eq_iff)
  show "serves (theComputers s) ep l \<and> (\<exists>f. map_of (theRouters s) r = Some f)" if a: "announced ?A r l ep"
  proof -
    have "r \<in> fst ` set (theRouters s) \<and> (\<exists>cs. (ep, cs) \<in> set (theComputers s) \<and> l \<in> ct_lambda ` set cs)"
      using routes a unfolding hier_routes_def by blast
    then show ?thesis using mwf_map_of[OF comp] by (auto simp: serves_def in_fst_set_iff)
  qed
  show "\<exists>r. announced ?A r l ep" if "serves (theComputers s) ep l"
  proof -
    have "theRouters s \<noteq> []" using assms(4) by auto
    then show ?thesis using good(1) that by (auto simp: hier_good_def covers_def serves_def dest: map_of_SomeD)
  qed
qed


text \<open>A concrete run: a router announces itself, then a computer at another address of the topology.\<close>

abbreviation ins_ex :: "rpc_network installer" where
  "ins_ex \<equiv> rpc_installer (\<lambda>_ _. env_ex 0 0) (\<lambda>_. True)"

definition hier_ex0 :: "rpc_network hier controller" where
  "hier_ex0 = ctl_new ((hier_new net_ex)\<lparr>hi_objective := Some MinMax, hi_topology := Some topology_ex\<rparr>)"

definition hier_ex1 :: "rpc_network hier controller" where
  "hier_ex1 = snd (announceRouter (hier_hooks (\<lambda>_. 0) ins_ex 2) ''a:1'' ''a:2'' hier_ex0)"

definition hier_ex :: "rpc_network hier controller" where
  "hier_ex = snd (announceComputer (hier_hooks (\<lambda>_. 0) ins_ex 2) ''b:1'' [container_ex] hier_ex1)"

lemma hier_ex1_eq:
  "announceRouter (hier_hooks (\<lambda>_. 0) ins_ex 2) ''a:1'' ''a:2'' hier_ex0 = (Inr (), hier_ex1)"
  "theRouters hier_ex1 = [(''a:1'', ''a:2'')]" "theComputers hier_ex1 = []" "theLambdas hier_ex1 = []"
  "hi_objective (ct_derived hier_ex1) = Some MinMax" "hi_topology (ct_derived hier_ex1) = Some topology_ex"
  "hi_routerAddresses (ct_derived hier_ex1) = [(''a'', [''a:1''])]" "hi_closest (ct_derived hier_ex1) = []"
  "hi_endpoints (ct_derived hier_ex1) = [(''a:1'', ''a:2'')]" "hi_announced (ct_derived hier_ex1) = []"
proof -
  have a: "hier_address ''a:1'' = Inr ''a''" by code_simp
  show "announceRouter (hier_hooks (\<lambda>_. 0) ins_ex 2) ''a:1'' ''a:2'' hier_ex0 = (Inr (), hier_ex1)"
  "theRouters hier_ex1 = [(''a:1'', ''a:2'')]" "theComputers hier_ex1 = []" "theLambdas hier_ex1 = []"
  "hi_objective (ct_derived hier_ex1) = Some MinMax" "hi_topology (ct_derived hier_ex1) = Some topology_ex"
  "hi_routerAddresses (ct_derived hier_ex1) = [(''a'', [''a:1''])]" "hi_closest (ct_derived hier_ex1) = []"
  "hi_endpoints (ct_derived hier_ex1) = [(''a:1'', ''a:2'')]" "hi_announced (ct_derived hier_ex1) = []"
    by (simp_all add: hier_ex1_def hier_ex0_def announceRouter_def hier_hooks_def hier_privateAnnounceRouter_def a
        hier_new_def ctl_new_def Let_def routers_add_def memplace_def hier_reset_def on_net_def rpc_installer_def
        rn_update_def rpc_flushRoutes_def forwardingTableCommand_def client_send_def split: prod.split)
qed

lemma findClosest_ex:
  assumes "hi_objective h = Some MinMax" "hi_topology h = Some topology_ex" "hi_routerAddresses h = [(''a'', [''a:1''])]" "hi_closest h = []"
  shows "findClosest ''b'' h = (Inr ''a'', h\<lparr>hi_closest := [(''b'', ''a'')]\<rparr>)"
proof -
  have "topology_distance ''a'' ''a'' topology_ex = Inr 0" "topology_distance ''a'' ''b'' topology_ex = Inr 4"
    by (simp_all add: topology_distance_def topology_ex_def Let_def numNodes_def)
  then show ?thesis using assms
    by (simp add: findClosest_def router_ranking_def router_score_def router_costs_def Let_def memplace_def)
qed

lemma hier_ex_eq:
  "announceComputer (hier_hooks (\<lambda>_. 0) ins_ex 2) ''b:1'' [container_ex] hier_ex1 = (Inr (), hier_ex)"
  "theRouters hier_ex = [(''a:1'', ''a:2'')]" "theComputers hier_ex = [(''b:1'', [container_ex])]"
  "hi_endpoints (ct_derived hier_ex) = [(''a:1'', ''a:2'')]"
  "hi_announced (ct_derived hier_ex) = [(''a:1'', [(''f'', [''b:1''])])]"
proof -
  have a: "hier_address ''b:1'' = Inr ''b''" by code_simp
  show "announceComputer (hier_hooks (\<lambda>_. 0) ins_ex 2) ''b:1'' [container_ex] hier_ex1 = (Inr (), hier_ex)"
  "theRouters hier_ex = [(''a:1'', ''a:2'')]" "theComputers hier_ex = [(''b:1'', [container_ex])]"
  "hi_endpoints (ct_derived hier_ex) = [(''a:1'', ''a:2'')]"
  "hi_announced (ct_derived hier_ex) = [(''a:1'', [(''f'', [''b:1''])])]"
    by (simp_all add: hier_ex_def announceComputer_def hier_hooks_def hier_privateAnnounceComputer_def a hier_ex1_eq(2-)
        computers_add_def serve_lambda_def on_hier_def findClosest_ex routerEndpoint_def hier_install_def
        Let_def on_net_def rpc_installer_def forwardingServerEndpoint_def container_ex_def
        rn_update_def rpc_changeRoutes_def forwardingTableCommand_def client_send_def split: prod.split)
qed

lemma hier_ex_reach: "hier_reach (\<lambda>_. 0) ins_ex (Some MinMax) (Some topology_ex) net_ex hier_ex"
proof -
  have "hier_reach (\<lambda>_. 0) ins_ex (Some MinMax) (Some topology_ex) net_ex hier_ex0"
    unfolding hier_ex0_def by (rule hier_reach.start)
  then have "hier_reach (\<lambda>_. 0) ins_ex (Some MinMax) (Some topology_ex) net_ex hier_ex1"
    by (rule hier_reach.router[OF _ _ _ hier_ex1_eq(1)]) (simp_all add: hier_ex0_def ctl_new_def)
  then show ?thesis by (rule hier_reach.computer[OF _ _ hier_ex_eq(1)]) (simp add: hier_ex1_eq)
qed

lemma hier_ex_serves: "serves (theComputers hier_ex) ''b:1'' ''f''"
  by (simp add: serves_def hier_ex_eq container_ex_def)

theorem hier_recursion_bounded_witness:
  "fst (removeComputer (hier_hooks (\<lambda>_. 0) ins_ex 2) ''b:1'' hier_ex) \<noteq> Inl TooDeep"
  using hier_recursion_bounded[of hier_ex 1 "\<lambda>_. 0" ins_ex "''b:1''"] hier_ex_eq(4) by (simp add: numeral_2_eq_2)


section \<open>The removal of a computer\<close>

text \<open>
  The removals name the server end-points of the routers as tables where they carry the computer, and the
  forwarding-table end-points only where they carry a router.
\<close>

definition removal_elem :: "string \<Rightarrow> 'n hier \<Rightarrow> remove_elem \<Rightarrow> bool" where
  "removal_elem ep h e \<longleftrightarrow> rv_table e \<in> fst ` set (hi_endpoints h) \<and> rv_destination e = ep \<or>
     rv_table e \<in> snd ` set (hi_endpoints h) \<and> rv_destination e \<in> fst ` set (hi_endpoints h)"

lemma hier_withdraw_elems:
  assumes "hier_withdraw ep l h = (Inr es, h')"
  shows "hi_net h' = hi_net h \<and> hi_endpoints h' = hi_endpoints h \<and> (\<forall>e\<in>set es. removal_elem ep h e)"
proof (cases "find_home ep l (hi_announced h)")
  case None
  then show ?thesis using assms by (simp add: hier_withdraw_def)
next
  case (Some p)
  obtain r S where p: "p = (r, S)" by (cases p)
  obtain fwd where fwd: "map_of (hi_endpoints h) r = Some fwd"
    using assms Some p by (cases "map_of (hi_endpoints h) r") (auto simp: hier_withdraw_def Let_def)
  then have r: "r \<in> fst ` set (hi_endpoints h)" by (auto simp: in_fst_set_iff)
  show ?thesis
    using assms Some p fwd r by (auto simp: hier_withdraw_def Let_def removal_elem_def split: if_splits) force+
qed

lemma hier_withdraw_all_elems:
  assumes "hier_withdraw_all ep ls acc h = (Inr es, h')" and "\<forall>e\<in>set acc. removal_elem ep h e"
  shows "hi_net h' = hi_net h \<and> hi_endpoints h' = hi_endpoints h \<and> (\<forall>e\<in>set es. removal_elem ep h e)"
  using assms
proof (induction ls arbitrary: acc h)
  case (Cons l ls)
  obtain es1 h1 where w: "hier_withdraw ep l h = (Inr es1, h1)" "hier_withdraw_all ep ls (acc @ es1) h1 = (Inr es, h')"
    using Cons.prems(1) by (auto simp: sbind_eq_Inr)
  have e: "removal_elem ep h1 e = removal_elem ep h e" for e
    using hier_withdraw_elems[OF w(1)] by (simp add: removal_elem_def)
  show ?case using Cons.IH[OF w(2)] hier_withdraw_elems[OF w(1)] Cons.prems(2) by (auto simp: e)
qed auto

context route_installer
begin

lemma hier_send_removals_view:
  assumes ok: "\<And>n fwd d ls. ninv n \<Longrightarrow> fst (ins_removeRoutes Ins fwd d ls n)"
    and "ninv (net_of s)" and "(l, d) \<in> view (net_of s) fwd"
    and "\<forall>e\<in>set es. rv_table e = fwd \<longrightarrow> rv_destination e \<noteq> d"
  shows "\<exists>n'. hier_send_removals Ins rm es s = (Inr (), set_net n' s) \<and> (l, d) \<in> view n' fwd"
  using assms(2-)
proof (induction es arbitrary: s)
  case Nil
  then show ?case by (intro exI[of _ "net_of s"]) simp
next
  case (Cons e es)
  obtain b n1 where r: "ins_removeRoutes Ins (rv_table e) (rv_destination e) [rv_lambda e] (net_of s) = (b, n1)" by fastforce
  have b: b using ok[OF Cons.prems(1), of "rv_table e" "rv_destination e" "[rv_lambda e]"] r by simp
  note law = remove_law[OF Cons.prems(1) r]
  have "(l, d) \<in> view n1 fwd"
    using law Cons.prems(2,3) by (cases "rv_table e = fwd") auto
  then show ?case using Cons.IH[of "set_net n1 s"] law r b Cons.prems(3) by (auto simp: on_net_eq)
qed

end
lemma unserve_lambdas_hier:
  "\<exists>ms. sfor xs (unserve_lambda (hier_hooks rnd Ins n) ep) s = (Inr (), s\<lparr>theLambdas := ms\<rparr>)"
proof (induction xs arbitrary: s)
  case Nil
  show ?case by (intro exI[of _ "theLambdas s"]) simp
next
  case (Cons x xs)
  have "\<exists>ms. unserve_lambda (hier_hooks rnd Ins n) ep x s = (Inr (), s\<lparr>theLambdas := ms\<rparr>)"
    by (cases "map_of (theLambdas s) x") (auto simp: unserve_lambda_def hier_hooks_def intro: exI[of _ "theLambdas s"])
  then obtain ms where "unserve_lambda (hier_hooks rnd Ins n) ep x s = (Inr (), s\<lparr>theLambdas := ms\<rparr>)" by blast
  then show ?case using Cons.IH[of "s\<lparr>theLambdas := ms\<rparr>"] by auto
qed

lemma rpc_removeRoutes_ok: "fst (ins_removeRoutes (rpc_installer E (\<lambda>_. True)) fwd d ls n)"
proof -
  have "fst (send_all ft_iface E (\<lambda>_. True) k reqs ts) = Inr ()" for k reqs and ts :: "fwd_table list"
    by (induction reqs arbitrary: k ts) (auto simp: client_send_def split: prod.split)
  then show ?thesis by (simp add: rpc_installer_def rn_update_def rpc_removeRoutes_def forwardingTableCommand_eq)
qed

text \<open>
  C26: an entry that is never removed. When a computer is removed, its home router is asked to remove it at
  the end-point where the router serves the lambda functions and not at the one where it serves its table.
  When the two sets of end-points are disjoint, the computer remains in the table of its home router, even
  when every call succeeds.
\<close>

theorem hier_removal_leaves_home_entry:
  assumes "hier_reach rnd (rpc_installer E (\<lambda>_. True)) obj T n0 s" and "rn_inv n0" and "\<And>n i. ok_env (E n i)"
    and "map_of (theRouters s) srv = Some fwd" and "announced (hi_announced (ct_derived s)) srv l ep"
    and "ep \<notin> fst ` set (theRouters s)" and "fst ` set (theRouters s) \<inter> snd ` set (theRouters s) = {}"
    and "removeComputer (hier_hooks rnd (rpc_installer E (\<lambda>_. True)) n) ep s = (Inr (), s')"
  shows "map_of (theComputers s') ep = None \<and> map_of (theRouters s') srv = Some fwd \<and>
    ep \<in> ft_dests (rn_tables (hi_net (ct_derived s')) fwd ! 0) l"
proof -
  let ?Ins = "rpc_installer E (\<lambda>_. True)"
  have E: "rn_envs E = E" by (rule rn_envs_id[OF assms(3)])
  have good: "hier_good rn_inv rn_view s" "ctl_inv s"
    using rpc.hier_reach_good[of rnd E "\<lambda>_. True" obj T n0 s] E assms(1,2) by auto
  then have conf: "hier_conf s" "rn_inv (net_of s)" by (simp_all add: hier_good_def hier_routes_def)
  have dest: "(l, ep) \<in> rn_view (net_of s) fwd"
    using hier_reach_routes(2)[OF assms(1-4), of ep l] assms(5) by (simp add: rn_view_def table_routes_def)
  define m where "m = snd (computers_remove ep (theComputers s))"
  define ks where "ks = fst (computers_remove ep (theComputers s))"
  obtain ms where "sfor ks (unserve_lambda (hier_hooks rnd ?Ins n) ep) (s\<lparr>theComputers := m\<rparr>) =
      (Inr (), s\<lparr>theComputers := m, theLambdas := ms\<rparr>)"
    using unserve_lambdas_hier[of ks rnd ?Ins n ep "s\<lparr>theComputers := m\<rparr>"] by auto
  then have rem: "hier_privateRemoveComputer ?Ins (hier_removeRouter rnd ?Ins n) ep ks (s\<lparr>theComputers := m, theLambdas := ms\<rparr>) = (Inr (), s')"
    using assms(8) by (simp add: removeComputer_def privateRemoveComputer_def split_beta m_def ks_def Let_def hier_hooks_def)
  then obtain es h where w: "hier_withdraw_all ep ks [] (ct_derived s) = (Inr es, h)"
    and send: "hier_send_removals ?Ins (hier_removeRouter rnd ?Ins n) es
      (s\<lparr>theComputers := m, theLambdas := ms, ct_derived := h\<rparr>) = (Inr (), s')"
    by (auto simp: hier_privateRemoveComputer_def on_hier_def sbind_eq_Inr split: prod.splits)
  have h: "hi_net h = net_of s" "\<forall>e\<in>set es. removal_elem ep (ct_derived s) e"
    using hier_withdraw_all_elems[OF w] by simp_all
  have "fwd \<in> snd ` set (theRouters s)" using map_of_SomeD[OF assms(4)] by force
  then have "\<forall>e\<in>set es. rv_table e = fwd \<longrightarrow> rv_destination e \<noteq> ep"
    using h(2) assms(6,7) hier_confD(2)[OF conf(1)] unfolding removal_elem_def by (metis IntI empty_iff)
  then obtain n' where "s' = set_net n' (s\<lparr>theComputers := m, theLambdas := ms, ct_derived := h\<rparr>)" "(l, ep) \<in> rn_view n' fwd"
    using rpc.hier_send_removals_view[of E "\<lambda>_. True" "s\<lparr>theComputers := m, theLambdas := ms, ct_derived := h\<rparr>" l ep fwd es
        "hier_removeRouter rnd ?Ins n"] rpc_removeRoutes_ok conf(2) dest send h(1) E by auto
  then show ?thesis using assms(4)
    by (simp add: rn_view_def table_routes_def) (auto simp: m_def computers_remove_def split: option.split)
qed

text \<open>In the concrete run, the computer is removed and its entry remains.\<close>

theorem hier_removal_leaves_home_entry_witness:
  "\<exists>s'. removeComputer (hier_hooks (\<lambda>_. 0) ins_ex 2) ''b:1'' hier_ex = (Inr (), s') \<and>
    map_of (theComputers s') ''b:1'' = None \<and> ''b:1'' \<in> ft_dests (rn_tables (hi_net (ct_derived s')) ''a:2'' ! 0) ''f''"
proof -
  have m: "map_of (theRouters hier_ex) ''a:1'' = Some ''a:2''" by (simp add: hier_ex_eq)
  have a: "announced (hi_announced (ct_derived hier_ex)) ''a:1'' ''f'' ''b:1''"
    by (simp add: hier_ex_eq announced_def has_def)
  obtain ms where ms: "sfor [''f''] (unserve_lambda (hier_hooks (\<lambda>_. 0) ins_ex 2) ''b:1'') (hier_ex\<lparr>theComputers := []\<rparr>) =
      (Inr (), hier_ex\<lparr>theComputers := [], theLambdas := ms\<rparr>)"
    using unserve_lambdas_hier[of "[''f'']" "\<lambda>_. 0" ins_ex 2 "''b:1''" "hier_ex\<lparr>theComputers := []\<rparr>"] by auto
  have c: "computers_remove ''b:1'' (theComputers hier_ex) = ([''f''], [])"
    by (simp add: computers_remove_def hier_ex_eq merase_def container_ex_def)
  have "\<exists>s'. removeComputer (hier_hooks (\<lambda>_. 0) ins_ex 2) ''b:1'' hier_ex = (Inr (), s')"
    unfolding removeComputer_def privateRemoveComputer_def c Let_def prod.case ms
    by (simp add: hier_hooks_def hier_privateRemoveComputer_def on_hier_def hier_withdraw_def hier_ex_eq serase_def
        Let_def on_net_eq rpc_removeRoutes_ok)
  then obtain s' where s': "removeComputer (hier_hooks (\<lambda>_. 0) ins_ex 2) ''b:1'' hier_ex = (Inr (), s')" by blast
  then show ?thesis
    using hier_removal_leaves_home_entry[OF hier_ex_reach net_ex_inv ok_env_ex m a _ _ s'] by (simp add: hier_ex_eq)
qed

end
