(* ===== verification/FunctionModel.thy ===== *)
theory FunctionModel
  imports Entry
begin

text \<open>
  The model of stateful function invocations, \<open>Edge/Model/states.cpp\<close>, \<open>chain.cpp\<close> and
  \<open>dag.cpp\<close>: the dependencies of functions on states, chains and directed graphs of functions,
  and their JSON text.

  The JSON library is outside the repository. Its value type is the datatype \<open>json\<close>, with the
  documented behaviour of the accessors the code uses; parsing and printing are the parameters
  \<open>parse\<close> and \<open>dump\<close> (both may throw), of which the round trips use only that a printed value
  is read back, \<open>json_lib\<close>.

  \<open>Dag::ancestors\<close> recurses over the predecessors, which the constructor does not require to be
  acyclic: the recursion takes fuel, with \<open>None\<close> when the fuel ends (or when an index is out of
  range). On an acyclic graph as much fuel as there are functions is enough; on a cycle no fuel is.
\<close>

section \<open>JSON values\<close>

datatype json =
    JNull
  | JBool bool
  | JInt int
  | JFloat real
  | JStr string
  | JArr "json list"
  | JObj "(string, json) smap"

definition json_lib :: "(string \<Rightarrow> exn + json) \<Rightarrow> (json \<Rightarrow> exn + string) \<Rightarrow> bool" where
  "json_lib parse dump \<longleftrightarrow> (\<forall>j s. dump j = Inr s \<longrightarrow> parse s = Inr j)"

text \<open>
  \<open>find\<close>, assignment through \<open>operator[]\<close> and \<open>push_back\<close>: a null value turns into an object or
  an array at the first insertion (the code never applies them to other values).
\<close>

definition js_find :: "string \<Rightarrow> json \<Rightarrow> json option" where
  "js_find k j = (case j of JObj m \<Rightarrow> map_of m k | _ \<Rightarrow> None)"

definition js_put :: "string \<Rightarrow> json \<Rightarrow> json \<Rightarrow> json" where
  "js_put k v j = (case j of JObj m \<Rightarrow> JObj (mput k v m) | _ \<Rightarrow> JObj [(k, v)])"

definition js_push :: "json \<Rightarrow> json \<Rightarrow> json" where
  "js_push v j = (case j of JArr vs \<Rightarrow> JArr (vs @ [v]) | _ \<Rightarrow> JArr [v])"

text \<open>The range of a loop over the elements or the items of a value.\<close>

definition js_elems :: "json \<Rightarrow> json list" where
  "js_elems j = (case j of JNull \<Rightarrow> [] | JArr vs \<Rightarrow> vs | JObj m \<Rightarrow> map snd m | v \<Rightarrow> [v])"

definition js_items :: "json \<Rightarrow> (string \<times> json) list" where
  "js_items j = (case j of JNull \<Rightarrow> [] | JArr vs \<Rightarrow> zip (map to_string [0..<length vs]) vs
     | JObj m \<Rightarrow> m | v \<Rightarrow> [('''', v)])"

text \<open>Conversions to strings, unsigned integers and vectors of them.\<close>

definition js_string :: "json \<Rightarrow> exn + string" where
  "js_string j = (case j of JStr s \<Rightarrow> Inr s | _ \<Rightarrow> Inl (JsonError ''type must be string''))"

definition js_size :: "json \<Rightarrow> exn + nat" where
  "js_size j = (case j of JInt i \<Rightarrow> Inr (nat (i mod 2 ^ 64))
     | JFloat r \<Rightarrow> if -1 < r \<and> r < 2 ^ 64 then Inr (nat \<lfloor>r\<rfloor>) else Inl (Undefined ''conversion'')
     | _ \<Rightarrow> Inl (JsonError ''type must be number''))"

fun rmap :: "('a \<Rightarrow> 'e + 'b) \<Rightarrow> 'a list \<Rightarrow> 'e + 'b list" where
  "rmap f [] = Inr []"
| "rmap f (x # xs) = rbind (f x) (\<lambda>y. rbind (rmap f xs) (\<lambda>ys. Inr (y # ys)))"

definition js_vector :: "(json \<Rightarrow> exn + 'a) \<Rightarrow> json \<Rightarrow> exn + 'a list" where
  "js_vector f j = (case j of JArr vs \<Rightarrow> rmap f vs | _ \<Rightarrow> Inl (JsonError ''type must be array''))"

section \<open>States\<close>

type_synonym dependencies = "(string, string list) smap"

definition deps_of :: "dependencies \<Rightarrow> string \<Rightarrow> dependencies" where
  "deps_of ds f = foldl (\<lambda>ret (s, fs). if f \<in> set fs then memplace s [f] ret else ret) [] ds"

definition allStates :: "dependencies \<Rightarrow> bool \<Rightarrow> string sset" where
  "allStates ds free = foldl (\<lambda>ret (s, fs). if free \<or> fs \<noteq> [] then sinsert s ret else ret) [] ds"

definition states_of :: "dependencies \<Rightarrow> string \<Rightarrow> string sset" where
  "states_of ds f = foldl (\<lambda>ret (s, fs). if f \<in> set fs then sinsert s ret else ret) [] ds"

definition states_fromJson :: "(string \<Rightarrow> exn + json) \<Rightarrow> string \<Rightarrow> exn + dependencies" where
  "states_fromJson parse aJson = rbind (parse aJson) (\<lambda>j.
     case js_find ''dependencies'' j of
       None \<Rightarrow> Inl (RuntimeError ''Invalid JSON content for state dependencies'')
     | Some ds \<Rightarrow> foldl (\<lambda>r (k, v). rbind r (\<lambda>m.
           if v = JNull then Inr (memplace k [] m)
           else rbind (js_vector js_string v) (\<lambda>fs. Inr (memplace k fs m))))
         (Inr []) (js_items ds))"

definition strings_json :: "string list \<Rightarrow> json" where
  "strings_json fs = foldl (\<lambda>l f. js_push (JStr f) l) JNull fs"

definition deps_json :: "dependencies \<Rightarrow> json" where
  "deps_json ds = foldl (\<lambda>j (s, fs). js_put s (strings_json fs) j) JNull ds"

definition states_toJson :: "(json \<Rightarrow> exn + string) \<Rightarrow> dependencies \<Rightarrow> exn + string" where
  "states_toJson dump ds = dump (js_put ''dependencies'' (deps_json ds) JNull)"

text \<open>The consistency check shared by the constructors of chains and graphs.\<close>

definition uniqueFunctions :: "string list \<Rightarrow> string sset" where
  "uniqueFunctions fs = foldl (\<lambda>ret f. sinsert f ret) [] fs"

definition missing_function :: "string list \<Rightarrow> dependencies \<Rightarrow> (string \<times> string) option" where
  "missing_function fns ds =
     List.find (\<lambda>(s, f). f \<notin> set (uniqueFunctions fns))
       (concat (map (\<lambda>(s, fs). map (\<lambda>f. (s, f)) fs) ds))"

definition check_functions :: "string list \<Rightarrow> dependencies \<Rightarrow> exn + unit" where
  "check_functions fns ds = (case missing_function fns ds of
     None \<Rightarrow> Inr ()
   | Some (s, f) \<Rightarrow> Inl (RuntimeError (''could not find the following function that state '' @ [CHR 0x27] @ s
        @ [CHR 0x27] @ '' depends on: '' @ f)))"

section \<open>Chains\<close>

record chain =
  theFunctions :: "string list"
  chainStates :: dependencies

definition chain_make :: "string list \<Rightarrow> dependencies \<Rightarrow> exn + chain" where
  "chain_make fns ds = rbind (check_functions fns ds) (\<lambda>_.
     Inr \<lparr>theFunctions = fns, chainStates = ds\<rparr>)"

definition chain_entryFunctionName :: "chain \<Rightarrow> exn + string" where
  "chain_entryFunctionName c = (if theFunctions c = [] then Inl (RuntimeError ''Empty chain'')
     else Inr (hd (theFunctions c)))"

definition singleFunctionChain :: "chain \<Rightarrow> string \<Rightarrow> exn + chain" where
  "singleFunctionChain c f = chain_make [f] (deps_of (chainStates c) f)"

definition chain_fromJson :: "(string \<Rightarrow> exn + json) \<Rightarrow> string \<Rightarrow> exn + chain" where
  "chain_fromJson parse aJson = rbind (parse aJson) (\<lambda>j.
     case js_find ''functions'' j of
       None \<Rightarrow> Inl (RuntimeError ''Invalid JSON content for a chain'')
     | Some fs \<Rightarrow> rbind (js_vector js_string fs) (\<lambda>fns.
         rbind (states_fromJson parse aJson) (\<lambda>ds. chain_make fns ds)))"

definition chain_toJson :: "(json \<Rightarrow> exn + string) \<Rightarrow> chain \<Rightarrow> exn + string" where
  "chain_toJson dump c = dump (js_put ''dependencies'' (deps_json (chainStates c))
     (js_put ''functions'' (strings_json (theFunctions c)) JNull))"

section \<open>Directed graphs\<close>

record dag =
  theSuccessors :: "nat list list"
  thePredecessors :: "nat list list"
  theFunctionNames :: "string list"
  dagStates :: dependencies

definition add_successors :: "nat \<Rightarrow> nat list \<Rightarrow> nat list list \<Rightarrow> exn + nat list list" where
  "add_successors i js ret = foldl (\<lambda>r j. rbind r (\<lambda>ret.
     if j = 0 \<or> j - 1 \<ge> length ret then Inl (RuntimeError ''Invalid successor graph'')
     else Inr (ret[j - 1 := ret ! (j - 1) @ [i]]))) (Inr ret) js"

definition makePredecessors :: "nat list list \<Rightarrow> exn + nat list list" where
  "makePredecessors ss = foldl (\<lambda>r i. rbind r (add_successors i (ss ! i)))
     (Inr (replicate (length ss) [])) [0..<length ss]"

definition dag_make :: "nat list list \<Rightarrow> string list \<Rightarrow> dependencies \<Rightarrow> exn + dag" where
  "dag_make ss fns ds = rbind (makePredecessors ss) (\<lambda>ps.
     if fns = [] \<or> length ss \<noteq> length fns - 1
     then Inl (RuntimeError (''Invalid size of successors and function names: '' @
       to_string (length ss) @ '' vs '' @
       to_string (if fns = [] then 2 ^ 64 - 1 else length fns - 1)))
     else rbind (check_functions fns ds) (\<lambda>_.
       Inr \<lparr>theSuccessors = ss, thePredecessors = ps, theFunctionNames = fns, dagStates = ds\<rparr>))"

definition toName :: "dag \<Rightarrow> nat \<Rightarrow> string" where
  "toName d i = (if i < length (theFunctionNames d) then theFunctionNames d ! i else [])"

definition toNames :: "dag \<Rightarrow> nat list \<Rightarrow> string sset" where
  "toNames d is = foldl (\<lambda>ret i. sinsert (toName d i) ret) [] is"

definition out_of_range :: "nat \<Rightarrow> nat \<Rightarrow> exn" where
  "out_of_range i n = RuntimeError (''Out of range function index: '' @ to_string i @ '' > '' @
     to_string n)"

definition successorNames :: "dag \<Rightarrow> nat \<Rightarrow> exn + string sset" where
  "successorNames d i =
     (if i > length (theSuccessors d) then Inl (out_of_range i (length (theSuccessors d)))
      else if i = length (theSuccessors d) then Inr []
      else Inr (toNames d (theSuccessors d ! i)))"

definition predecessorNames :: "dag \<Rightarrow> nat \<Rightarrow> exn + string sset" where
  "predecessorNames d i =
     (if i > length (thePredecessors d) then Inl (out_of_range i (length (thePredecessors d)))
      else if i = 0 then Inr []
      else Inr (toNames d (thePredecessors d ! (i - 1))))"

definition numFunctions :: "dag \<Rightarrow> nat" where
  "numFunctions d = length (thePredecessors d) + 1"

definition dag_entryFunctionName :: "dag \<Rightarrow> string" where
  "dag_entryFunctionName d = toName d 0"

fun add_ancestors :: "(nat \<Rightarrow> nat sset option) \<Rightarrow> nat list \<Rightarrow> nat sset \<Rightarrow> nat sset option" where
  "add_ancestors anc [] ret = Some ret"
| "add_ancestors anc (p # ps) ret = (case anc p of None \<Rightarrow> None
     | Some as \<Rightarrow> add_ancestors anc ps (foldl (\<lambda>r a. sinsert a r) (sinsert p ret) as))"

primrec ancestors :: "nat \<Rightarrow> dag \<Rightarrow> nat \<Rightarrow> nat sset option" where
  "ancestors 0 d i = None"
| "ancestors (Suc n) d i =
     (if i = 0 then Some []
      else if i - 1 \<ge> length (thePredecessors d) then None
      else add_ancestors (ancestors n d) (thePredecessors d ! (i - 1)) [])"

fun callable_loop :: "(nat \<Rightarrow> nat sset option) \<Rightarrow> nat sset \<Rightarrow> nat list \<Rightarrow> nat sset \<Rightarrow> nat sset option" where
  "callable_loop anc cs [] ret = Some ret"
| "callable_loop anc cs (i # is) ret =
     (if i \<in> set cs then callable_loop anc cs is ret
      else case anc i of None \<Rightarrow> None
      | Some as \<Rightarrow> callable_loop anc cs is
          (if \<forall>a\<in>set as. a \<in> set cs then sinsert i ret else ret))"

definition callable :: "nat \<Rightarrow> dag \<Rightarrow> nat sset \<Rightarrow> nat sset option" where
  "callable n d cs = callable_loop (ancestors n d) cs [0..<Suc (length (theSuccessors d))] []"

definition singleFunctionDag :: "dag \<Rightarrow> string \<Rightarrow> exn + dag" where
  "singleFunctionDag d f = dag_make [] [f] (deps_of (dagStates d) f)"

definition dag_fromJson :: "(string \<Rightarrow> exn + json) \<Rightarrow> string \<Rightarrow> exn + dag" where
  "dag_fromJson parse aJson = rbind (parse aJson) (\<lambda>j.
     case (js_find ''successors'' j, js_find ''functionNames'' j) of
       (Some ss, Some fs) \<Rightarrow>
         rbind (rmap (js_vector js_size) (js_elems ss)) (\<lambda>succ.
         rbind (js_vector js_string fs) (\<lambda>fns.
         rbind (states_fromJson parse aJson) (\<lambda>ds. dag_make succ fns ds)))
     | _ \<Rightarrow> Inl (RuntimeError ''Invalid JSON content for a DAG''))"

definition succs_json :: "nat list list \<Rightarrow> json" where
  "succs_json ss = foldl (\<lambda>j is. js_push (foldl (\<lambda>l i. js_push (JInt (int i)) l) (JArr []) is) j) JNull ss"

definition dag_toJson :: "(json \<Rightarrow> exn + string) \<Rightarrow> dag \<Rightarrow> exn + string" where
  "dag_toJson dump d = dump (js_put ''dependencies'' (deps_json (dagStates d))
     (js_put ''functionNames'' (strings_json (theFunctionNames d))
       (js_put ''successors'' (succs_json (theSuccessors d)) JNull)))"

section \<open>Ordered sets and maps built by a loop\<close>

lemma set_foldl_sinsert: "set (foldl (\<lambda>r a. sinsert (g a) r) ret as) = set ret \<union> g ` set as"
  by (induction as arbitrary: ret) auto

lemma swf_foldl_sinsert: "swf ret \<Longrightarrow> swf (foldl (\<lambda>r a. sinsert (g a) r) ret as)"
  by (induction as arbitrary: ret) auto

lemma set_foldl_sinsert_id [simp]: "set (foldl (\<lambda>r a. sinsert a r) ret as) = set ret \<union> set as"
  using set_foldl_sinsert[of "\<lambda>x. x" ret as] by simp

lemma swf_foldl_sinsert_id [simp]: "swf ret \<Longrightarrow> swf (foldl (\<lambda>r a. sinsert a r) ret as)"
  using swf_foldl_sinsert[of ret "\<lambda>x. x" as] by simp

lemma set_uniqueFunctions [simp]: "set (uniqueFunctions fs) = set fs"
  by (simp add: uniqueFunctions_def)

lemma check_functions_ok:
  "check_functions fns ds = Inr () \<longleftrightarrow> (\<forall>(s, fs)\<in>set ds. set fs \<subseteq> set fns)"
proof -
  let ?xs = "concat (map (\<lambda>(s, fs). map (\<lambda>f. (s, f)) fs) ds)"
  have "check_functions fns ds = Inr () \<longleftrightarrow> missing_function fns ds = None"
    by (auto simp: check_functions_def split: option.splits)
  also have "\<dots> \<longleftrightarrow> (\<forall>(s, f)\<in>set ?xs. f \<in> set fns)"
    by (auto simp: missing_function_def find_None_iff simp del: set_concat)
  also have "set ?xs = {(s, f). \<exists>fs. (s, fs) \<in> set ds \<and> f \<in> set fs}"
    by (induction ds) auto
  also have "(\<forall>(s, f)\<in>{(s, f). \<exists>fs. (s, fs) \<in> set ds \<and> f \<in> set fs}. f \<in> set fns)
      \<longleftrightarrow> (\<forall>(s, fs)\<in>set ds. set fs \<subseteq> set fns)"
    by fast
  finally show ?thesis .
qed

lemma check_functions_cases: "check_functions fns ds = Inr () \<or> (\<exists>m. check_functions fns ds = Inl (RuntimeError m))"
  by (auto simp: check_functions_def split: option.splits)

text \<open>Inserting at the end of an ordered map.\<close>

lemma mput_last: "\<forall>k'\<in>set (mkeys m). k' < k \<Longrightarrow> mput k v m = m @ [(k, v)]"
  by (induction m) auto

lemma memplace_last: "\<forall>k'\<in>set (mkeys m). k' < k \<Longrightarrow> memplace k v m = m @ [(k, v)]"
proof -
  assume lt: "\<forall>k'\<in>set (mkeys m). k' < k"
  then have "map_of m k = None" by (auto simp: map_of_eq_None_iff)
  then show ?thesis using lt by (simp add: memplace_def mput_last)
qed

lemma deps_of_gen:
  assumes "mwf (pre @ ds)"
  shows "foldl (\<lambda>ret (s, fs). if f \<in> set fs then memplace s [f] ret else ret)
           (map (\<lambda>p. (fst p, [f])) (filter (\<lambda>p. f \<in> set (snd p)) pre)) ds
       = map (\<lambda>p. (fst p, [f])) (filter (\<lambda>p. f \<in> set (snd p)) (pre @ ds))"
  using assms
proof (induction ds arbitrary: pre)
  case Nil
  then show ?case by simp
next
  case (Cons p ds)
  have lt: "\<forall>k'\<in>set (mkeys (map (\<lambda>p. (fst p, [f])) (filter (\<lambda>p. f \<in> set (snd p)) pre))). k' < fst p"
    using Cons.prems by (auto simp: sorted_wrt_append)
  show ?case using Cons.IH[of "pre @ [p]"] Cons.prems memplace_last[OF lt]
    by (cases p) auto
qed

lemma deps_of_eq:
  "mwf ds \<Longrightarrow> deps_of ds f = map (\<lambda>p. (fst p, [f])) (filter (\<lambda>p. f \<in> set (snd p)) ds)"
  unfolding deps_of_def using deps_of_gen[of "[]"] by simp

lemma mwf_deps_of: "mwf ds \<Longrightarrow> mwf (deps_of ds f)"
  by (simp add: deps_of_eq comp_def) (induction ds, auto)

lemma set_mput_subset: "set (mput k v m) \<subseteq> insert (k, v) (set m)"
  by (induction m) (auto split: if_splits)

lemma deps_of_functions: "\<forall>(s, fs)\<in>set (deps_of ds f). fs = [f]"
proof -
  have "\<forall>(s, fs)\<in>set (foldl (\<lambda>ret (s, fs). if f \<in> set fs then memplace s [f] ret else ret) acc ds). fs = [f]"
    if "\<forall>(s, fs)\<in>set acc. fs = [f]" for acc
    using that
  proof (induction ds arbitrary: acc)
    case Nil
    then show ?case by simp
  next
    case (Cons p ds)
    have "set (memplace (fst p) [f] acc) \<subseteq> insert (fst p, [f]) (set acc)"
      using set_mput_subset[of "fst p" "[f]" acc] by (auto simp: memplace_def split: option.split)
    then have "\<forall>(s, fs)\<in>set (memplace (fst p) [f] acc). fs = [f]" using Cons.prems by blast
    then show ?case using Cons.IH Cons.prems by (cases p) simp
  qed
  from this[of "[]"] show ?thesis by (simp add: deps_of_def)
qed

text \<open>The invocation of a single function never throws.\<close>

lemma singleFunctionChain_ok:
  "singleFunctionChain c f = Inr \<lparr>theFunctions = [f], chainStates = deps_of (chainStates c) f\<rparr>"
proof -
  have "check_functions [f] (deps_of (chainStates c) f) = Inr ()"
    using deps_of_functions[of "chainStates c" f] by (auto simp: check_functions_ok)
  then show ?thesis by (simp add: singleFunctionChain_def chain_make_def)
qed

lemma singleFunctionDag_ok:
  "singleFunctionDag d f = Inr \<lparr>theSuccessors = [], thePredecessors = [], theFunctionNames = [f],
     dagStates = deps_of (dagStates d) f\<rparr>"
proof -
  have "check_functions [f] (deps_of (dagStates d) f) = Inr ()"
    using deps_of_functions[of "dagStates d" f] by (auto simp: check_functions_ok)
  then show ?thesis by (simp add: singleFunctionDag_def dag_make_def makePredecessors_def)
qed

lemma set_states_of: "set (states_of ds f) = {s. \<exists>fs. (s, fs) \<in> set ds \<and> f \<in> set fs}"
proof -
  have "set (foldl (\<lambda>ret (s, fs). if f \<in> set fs then sinsert s ret else ret) acc ds)
      = set acc \<union> {s. \<exists>fs. (s, fs) \<in> set ds \<and> f \<in> set fs}" for acc
    by (induction ds arbitrary: acc) auto
  then show ?thesis by (simp add: states_of_def)
qed

lemma states_of_deps_of:
  "mwf ds \<Longrightarrow> set (states_of ds f) = set (mkeys (deps_of ds f))"
  by (auto simp: set_states_of deps_of_eq image_iff)

section \<open>Graphs: predecessors, ancestors and callable functions\<close>

text \<open>The edges of the graph as the constructor is given them.\<close>

definition edges :: "nat list list \<Rightarrow> (nat \<times> nat) set" where
  "edges ss = {(i, j). i < length ss \<and> j \<in> set (ss ! i)}"

lemma add_successors_snoc:
  "add_successors i (js @ [j]) ret = rbind (add_successors i js ret) (\<lambda>ret.
     if j = 0 \<or> j - 1 \<ge> length ret then Inl (RuntimeError ''Invalid successor graph'')
     else Inr (ret[j - 1 := ret ! (j - 1) @ [i]]))"
  by (simp add: add_successors_def)

lemma add_successors_ok:
  assumes "add_successors i js ret = Inr ret'"
  shows "length ret' = length ret \<and> (\<forall>j\<in>set js. 0 < j \<and> j \<le> length ret) \<and>
    (\<forall>k < length ret. set (ret' ! k) = set (ret ! k) \<union> (if Suc k \<in> set js then {i} else {}))"
  using assms
proof (induction js arbitrary: ret' rule: rev_induct)
  case Nil
  then show ?case by (simp add: add_successors_def)
next
  case (snoc j js)
  from snoc.prems obtain r where r: "add_successors i js ret = Inr r"
    and j: "0 < j" "j \<le> length r" and ret': "ret' = r[j - 1 := r ! (j - 1) @ [i]]"
    by (auto simp: add_successors_snoc rbind_eq_Inr split: if_splits)
  have IH: "length r = length ret" "\<forall>j\<in>set js. 0 < j \<and> j \<le> length ret"
    "\<forall>k < length ret. set (r ! k) = set (ret ! k) \<union> (if Suc k \<in> set js then {i} else {})"
    using snoc.IH[OF r] by auto
  have "set (ret' ! k) = set (ret ! k) \<union> (if Suc k \<in> set (js @ [j]) then {i} else {})"
    if k: "k < length ret" for k
    using IH k j by (cases "k = j - 1") (auto simp: ret' nth_list_update)
  then show ?case using IH j by (simp add: ret')
qed

lemma makePredecessors_ok:
  assumes "makePredecessors ss = Inr ps"
  shows "length ps = length ss" and "i < length ss \<Longrightarrow> j \<in> set (ss ! i) \<Longrightarrow> 0 < j \<and> j \<le> length ss"
    and "k < length ss \<Longrightarrow> set (ps ! k) = {i. (i, Suc k) \<in> edges ss}"
proof -
  have gen: "length ps = length ss \<and> (\<forall>i<n. \<forall>j\<in>set (ss ! i). 0 < j \<and> j \<le> length ss) \<and>
      (\<forall>k<length ss. set (ps ! k) = {i. i < n \<and> Suc k \<in> set (ss ! i)})"
    if "foldl (\<lambda>r i. rbind r (add_successors i (ss ! i)))
          (Inr (replicate (length ss) [])) [0..<n] = Inr ps" for n ps
    using that
  proof (induction n arbitrary: ps)
    case 0
    then show ?case by auto
  next
    case (Suc n)
    from Suc.prems obtain r where r: "foldl (\<lambda>r i. rbind r (add_successors i (ss ! i)))
          (Inr (replicate (length ss) [])) [0..<n] = Inr r" and a: "add_successors n (ss ! n) r = Inr ps"
      by (auto simp: rbind_eq_Inr)
    have IH: "length r = length ss" "\<forall>i<n. \<forall>j\<in>set (ss ! i). 0 < j \<and> j \<le> length ss"
      "\<forall>k<length ss. set (r ! k) = {i. i < n \<and> Suc k \<in> set (ss ! i)}"
      using Suc.IH[OF r] by auto
    show ?case using add_successors_ok[OF a] IH by (auto simp: less_Suc_eq)
  qed
  have all: "length ps = length ss \<and> (\<forall>i<length ss. \<forall>j\<in>set (ss ! i). 0 < j \<and> j \<le> length ss) \<and>
      (\<forall>k<length ss. set (ps ! k) = {i. i < length ss \<and> Suc k \<in> set (ss ! i)})"
    by (rule gen) (use assms in \<open>simp add: makePredecessors_def\<close>)
  show "length ps = length ss" using all by simp
  show "i < length ss \<Longrightarrow> j \<in> set (ss ! i) \<Longrightarrow> 0 < j \<and> j \<le> length ss" using all by blast
  show "k < length ss \<Longrightarrow> set (ps ! k) = {i. (i, Suc k) \<in> edges ss}" using all by (simp add: edges_def)
qed

text \<open>What the constructor of a graph guarantees.\<close>

definition dag_wf :: "dag \<Rightarrow> bool" where
  "dag_wf d \<longleftrightarrow> length (thePredecessors d) = length (theSuccessors d) \<and>
     length (theFunctionNames d) = Suc (length (theSuccessors d)) \<and>
     (\<forall>i<length (theSuccessors d). \<forall>j\<in>set (theSuccessors d ! i). 0 < j \<and> j \<le> length (theSuccessors d)) \<and>
     (\<forall>k<length (theSuccessors d). \<forall>i. i \<in> set (thePredecessors d ! k) \<longleftrightarrow>
        i < length (theSuccessors d) \<and> Suc k \<in> set (theSuccessors d ! i)) \<and>
     (\<forall>(s, fs)\<in>set (dagStates d). set fs \<subseteq> set (theFunctionNames d))"

lemma dag_make_wf:
  assumes "dag_make ss fns ds = Inr d"
  shows "dag_wf d" and "theSuccessors d = ss" and "theFunctionNames d = fns" and "dagStates d = ds"
proof -
  from assms obtain ps where ps: "makePredecessors ss = Inr ps"
    and n: "fns \<noteq> []" "length ss = length fns - 1" and c: "check_functions fns ds = Inr ()"
    and d: "d = \<lparr>theSuccessors = ss, thePredecessors = ps, theFunctionNames = fns, dagStates = ds\<rparr>"
    by (auto simp: dag_make_def rbind_eq_Inr split: if_splits)
  have "length fns = Suc (length ss)" using n by (cases fns) auto
  then show "dag_wf d"
    using makePredecessors_ok[OF ps] c by (simp add: dag_wf_def d edges_def check_functions_ok)
  show "theSuccessors d = ss" and "theFunctionNames d = fns" and "dagStates d = ds" by (simp_all add: d)
qed

lemma preds_edges:
  assumes "dag_wf d" and "0 < i" and "i \<le> length (theSuccessors d)"
  shows "set (thePredecessors d ! (i - 1)) = {p. (p, i) \<in> edges (theSuccessors d)}"
proof -
  obtain k where "i = Suc k" using assms(2) by (cases i) auto
  then show ?thesis using assms by (auto simp: dag_wf_def edges_def)
qed

lemma edges_range:
  "dag_wf d \<Longrightarrow> (p, i) \<in> edges (theSuccessors d) \<Longrightarrow>
     p < length (theSuccessors d) \<and> 0 < i \<and> i \<le> length (theSuccessors d)"
  by (auto simp: dag_wf_def edges_def)

abbreviation anc_set :: "dag \<Rightarrow> nat \<Rightarrow> nat set" where
  "anc_set d i \<equiv> {p. (p, i) \<in> (edges (theSuccessors d))\<^sup>+}"

lemma anc_set_range: "dag_wf d \<Longrightarrow> anc_set d i \<subseteq> {..<length (theSuccessors d)}"
  by (auto dest!: tranclD edges_range)

lemma anc_set_0: "dag_wf d \<Longrightarrow> anc_set d 0 = {}"
  by (auto dest!: tranclD2 edges_range)

lemma anc_set_step:
  "anc_set d i = {p. (p, i) \<in> edges (theSuccessors d)} \<union>
     (\<Union>p\<in>{p. (p, i) \<in> edges (theSuccessors d)}. anc_set d p)"
  by (auto elim: trancl.cases intro: trancl.intros)

lemma add_ancestors_ok:
  assumes "\<forall>p\<in>set ps. \<exists>as. anc p = Some as \<and> set as = A p" and "swf ret"
  shows "\<exists>as. add_ancestors anc ps ret = Some as \<and> swf as \<and>
    set as = set ret \<union> set ps \<union> (\<Union>p\<in>set ps. A p)"
  using assms
proof (induction ps arbitrary: ret)
  case Nil
  then show ?case by simp
next
  case (Cons p ps)
  then obtain as where as: "anc p = Some as" "set as = A p" by auto
  let ?ret = "foldl (\<lambda>r a. sinsert a r) (sinsert p ret) as"
  have r: "set ?ret = set ret \<union> {p} \<union> A p" "swf ?ret"
    using Cons.prems(2) as(2) by auto
  then show ?case using Cons.IH[of ?ret] Cons.prems(1) as(1) by auto
qed

lemma add_ancestors_None:
  "p \<in> set ps \<Longrightarrow> anc p = None \<Longrightarrow> add_ancestors anc ps ret = None"
  by (induction ps arbitrary: ret) (auto split: option.split)

lemma ancestors_fuel:
  assumes wf: "dag_wf d" and ac: "acyclic (edges (theSuccessors d))"
    and "i \<le> length (theSuccessors d)" and "card (anc_set d i) < n"
  shows "\<exists>as. ancestors n d i = Some as \<and> swf as \<and> set as = anc_set d i"
  using assms(3,4)
proof (induction n arbitrary: i)
  case 0
  then show ?case by simp
next
  case (Suc n)
  show ?case
  proof (cases "i = 0")
    case True
    then show ?thesis using anc_set_0[OF wf] by simp
  next
    case False
    let ?ps = "thePredecessors d ! (i - 1)"
    have ps: "set ?ps = {p. (p, i) \<in> edges (theSuccessors d)}"
      using preds_edges[OF wf] False Suc.prems(1) by simp
    have IH: "\<exists>as. ancestors n d p = Some as \<and> set as = anc_set d p" if p: "p \<in> set ?ps" for p
    proof -
      have e: "(p, i) \<in> edges (theSuccessors d)" using p ps by simp
      have "anc_set d p \<subset> anc_set d i"
        using e ac by (auto simp: acyclic_def intro: trancl.intros)
      moreover have "finite (anc_set d i)" using anc_set_range[OF wf] finite_subset by blast
      ultimately have "card (anc_set d p) < card (anc_set d i)" by (rule psubset_card_mono[rotated])
      then show ?thesis using Suc.IH[of p] Suc.prems(2) edges_range[OF wf e] by auto
    qed
    have "length (thePredecessors d) = length (theSuccessors d)" using wf by (simp add: dag_wf_def)
    then have "ancestors (Suc n) d i = add_ancestors (ancestors n d) ?ps []"
      using False Suc.prems(1) by (cases i) auto
    moreover have "anc_set d i = set ?ps \<union> (\<Union>p\<in>set ?ps. anc_set d p)"
      unfolding ps by (rule anc_set_step)
    ultimately show ?thesis using add_ancestors_ok[of ?ps "ancestors n d" "anc_set d" "[]"] IH by simp
  qed
qed

lemma ancestors_cycle:
  assumes wf: "dag_wf d" and "(i, i) \<in> (edges (theSuccessors d))\<^sup>+"
  shows "ancestors n d i = None"
  using assms(2)
proof (induction n arbitrary: i)
  case 0
  then show ?case by simp
next
  case (Suc n)
  obtain p where ip: "(i, p) \<in> (edges (theSuccessors d))\<^sup>*" and e: "(p, i) \<in> edges (theSuccessors d)"
    using tranclD2[OF Suc.prems] by auto
  have "(p, p) \<in> (edges (theSuccessors d))\<^sup>+" using e ip by (rule rtrancl_into_trancl2)
  then have "ancestors n d p = None" by (rule Suc.IH)
  moreover have r: "0 < i" "i \<le> length (theSuccessors d)" using edges_range[OF wf e] by auto
  then have "p \<in> set (thePredecessors d ! (i - 1))" using preds_edges[OF wf r] e by simp
  ultimately show ?case using r by (simp add: add_ancestors_None)
qed

lemma callable_loop_ok:
  assumes "\<forall>i\<in>set is. \<exists>as. anc i = Some as \<and> set as = A i" and "swf ret"
  shows "\<exists>cs'. callable_loop anc cs is ret = Some cs' \<and> swf cs' \<and>
    set cs' = set ret \<union> {i\<in>set is. i \<notin> set cs \<and> A i \<subseteq> set cs}"
  using assms
proof (induction "is" arbitrary: ret)
  case Nil
  then show ?case by simp
next
  case (Cons i "is")
  then obtain as where as: "anc i = Some as" "set as = A i" by auto
  show ?case
  proof (cases "i \<in> set cs")
    case True
    then show ?thesis using Cons.IH[of ret] Cons.prems by auto
  next
    case False
    let ?ret = "if \<forall>a\<in>set as. a \<in> set cs then sinsert i ret else ret"
    have "swf ?ret" using Cons.prems(2) by simp
    then obtain cs' where cs': "callable_loop anc cs is ?ret = Some cs'" "swf cs'"
      "set cs' = set ?ret \<union> {i\<in>set is. i \<notin> set cs \<and> A i \<subseteq> set cs}"
      using Cons.IH[of ?ret] Cons.prems(1) by auto
    then show ?thesis using False as by (auto simp: subset_iff)
  qed
qed

lemma callable_acyclic:
  assumes wf: "dag_wf d" and ac: "acyclic (edges (theSuccessors d))" and n: "numFunctions d \<le> n"
  shows "\<exists>cs'. callable n d cs = Some cs' \<and> swf cs' \<and>
    set cs' = {i. i < numFunctions d \<and> i \<notin> set cs \<and> anc_set d i \<subseteq> set cs}"
proof -
  have num: "numFunctions d = Suc (length (theSuccessors d))" using wf by (simp add: dag_wf_def numFunctions_def)
  have "\<exists>as. ancestors n d i = Some as \<and> set as = anc_set d i" if "i \<in> set [0..<Suc (length (theSuccessors d))]" for i
  proof -
    have "card (anc_set d i) \<le> card {..<length (theSuccessors d)}"
      by (rule card_mono) (use anc_set_range[OF wf] in auto)
    then show ?thesis using ancestors_fuel[OF wf ac, of i n] that n num by auto
  qed
  then show ?thesis
    using callable_loop_ok[of "[0..<Suc (length (theSuccessors d))]" "ancestors n d" "anc_set d" "[]" cs] num
    by (auto simp: callable_def simp del: upt_Suc)
qed

text \<open>In an acyclic graph a function that is not completed has a callable one among itself and its ancestors.\<close>

lemma callable_progress:
  assumes wf: "dag_wf d" and ac: "acyclic (edges (theSuccessors d))" and "i < numFunctions d" and "i \<notin> C"
  shows "\<exists>j < numFunctions d. j \<notin> C \<and> anc_set d j \<subseteq> C"
  using assms(3,4)
proof (induction "card (anc_set d i)" arbitrary: i rule: less_induct)
  case less
  show ?case
  proof (cases "anc_set d i \<subseteq> C")
    case True
    then show ?thesis using less.prems by blast
  next
    case False
    then obtain p where p: "p \<in> anc_set d i" "p \<notin> C" by auto
    have "anc_set d p \<subset> anc_set d i"
      using p(1) ac by (auto simp: acyclic_def)
    moreover have "finite (anc_set d i)" using anc_set_range[OF wf] finite_subset by blast
    ultimately have "card (anc_set d p) < card (anc_set d i)" by (rule psubset_card_mono[rotated])
    moreover have "p < length (theSuccessors d)" using anc_set_range[OF wf, of i] p(1) by blast
    then have "p < numFunctions d" using wf by (simp add: dag_wf_def numFunctions_def)
    ultimately show ?thesis using less.hyps[of p] p(2) by blast
  qed
qed

text \<open>The graph of \<open>exampleDag\<close>.\<close>

definition exampleDag :: "exn + dag" where
  "exampleDag = dag_make [[1, 2], [3], [3]] [''f0'', ''f1'', ''f2'', ''f2'']
     [(''s0'', [''f0'']), (''s1'', [''f0'', ''f1'']), (''s2'', [''f2'']), (''s3'', [])]"

lemma exampleDag_ok: "exampleDag = Inr \<lparr>theSuccessors = [[1, 2], [3], [3]],
    thePredecessors = [[0], [0], [1, 2]], theFunctionNames = [''f0'', ''f1'', ''f2'', ''f2''],
    dagStates = [(''s0'', [''f0'']), (''s1'', [''f0'', ''f1'']), (''s2'', [''f2'']), (''s3'', [])]\<rparr>"
  by code_simp

lemma acyclicI_less: "(\<And>i j. (i, j) \<in> E \<Longrightarrow> i < (j::nat)) \<Longrightarrow> acyclic E"
  by (rule acyclicI_order[where f = "\<lambda>x. - int x"]) auto

lemma exampleDag_acyclic: "acyclic (edges [[1, 2], [3], [3]])"
  by (rule acyclicI_less) (auto simp: edges_def less_Suc_eq numeral_3_eq_3 nth_Cons')

text \<open>
  C38: In a graph of functions that has no cycle, the functions that \<open>callable\<close> returns for a set of
  completed functions are exactly the ones that are not completed and whose ancestors, along the
  successors given to the constructor, are all completed; the recursion over the ancestors ends
  within as many levels as there are functions. As long as some function is not completed at least
  one function is callable, so a client that invokes the callable functions completes the graph.
\<close>

theorem dag_callable_correct:
  assumes "dag_make ss fns ds = Inr d" and "acyclic (edges ss)" and "length fns \<le> n"
  shows "\<exists>cs'. callable n d cs = Some cs' \<and> swf cs' \<and>
    set cs' = {i. i < length fns \<and> i \<notin> set cs \<and> (\<forall>p. (p, i) \<in> (edges ss)\<^sup>+ \<longrightarrow> p \<in> set cs)} \<and>
    (cs' = [] \<longleftrightarrow> {..<length fns} \<subseteq> set cs)"
proof -
  note wf = dag_make_wf[OF assms(1)]
  have num: "numFunctions d = length fns" using wf(1,3) by (simp add: dag_wf_def numFunctions_def)
  obtain cs' where cs': "callable n d cs = Some cs'" "swf cs'"
    "set cs' = {i. i < numFunctions d \<and> i \<notin> set cs \<and> anc_set d i \<subseteq> set cs}"
    using callable_acyclic[OF wf(1), of n cs] assms(2,3) wf(2) num by auto
  have "cs' = [] \<longleftrightarrow> {..<length fns} \<subseteq> set cs"
  proof
    assume "cs' = []"
    then show "{..<length fns} \<subseteq> set cs"
      using callable_progress[OF wf(1), of _ "set cs"] assms(2) wf(2) cs'(3) num by auto
  next
    assume "{..<length fns} \<subseteq> set cs"
    then have "set cs' = {}" unfolding cs'(3) num by auto
    then show "cs' = []" by simp
  qed
  then show ?thesis using cs' by (auto simp: num wf(2))
qed

theorem dag_callable_correct_witness:
  "\<exists>d. exampleDag = Inr d \<and> (\<exists>cs'. callable 4 d [0, 2] = Some cs' \<and> swf cs' \<and>
    set cs' = {i. i < 4 \<and> i \<notin> {0, 2} \<and> (\<forall>p. (p, i) \<in> (edges [[1, 2], [3], [3]])\<^sup>+ \<longrightarrow> p \<in> {0, 2})} \<and>
    cs' \<noteq> [])"
proof -
  obtain d where d: "exampleDag = Inr d" using exampleDag_ok by blast
  have "\<not> {..<4} \<subseteq> set [0, 2::nat]" by (simp add: subset_iff exI[of _ 1])
  then show ?thesis
    using dag_callable_correct[OF d[unfolded exampleDag_def] exampleDag_acyclic, of 4 "[0, 2]"] d
    by (intro exI[of _ d]) (simp add: eval_nat_numeral)
qed

text \<open>
  C40: The constructor accepts a graph with a cycle, and then neither \<open>ancestors\<close> of a function on the
  cycle nor \<open>callable\<close>, unless every function of a cycle is already completed, ever returns: however
  deep the recursion is let go, it does not end.
\<close>

theorem dag_cycle_never_returns:
  assumes "dag_make ss fns ds = Inr d" and "(i, i) \<in> (edges ss)\<^sup>+" and "i \<notin> set cs"
  shows "ancestors n d i = None \<and> callable n d cs = None"
proof -
  note wf = dag_make_wf[OF assms(1)]
  have none: "ancestors n d i = None" using ancestors_cycle[OF wf(1)] assms(2) wf(2) by simp
  have "callable_loop (ancestors n d) cs is ret = None" if "i \<in> set is" for "is" ret
    using that by (induction "is" arbitrary: ret) (use none assms(3) in \<open>auto split: option.split\<close>)
  moreover obtain p where "(p, i) \<in> edges ss" using tranclD2[OF assms(2)] by auto
  then have "i \<le> length (theSuccessors d)" using edges_range[OF wf(1)] wf(2) by auto
  ultimately show ?thesis using none by (simp add: callable_def less_Suc_eq_le del: upt_Suc)
qed

theorem dag_cycle_never_returns_witness:
  "\<exists>d. dag_make [[1], [1]] [''f0'', ''f1'', ''f2''] [] = Inr d \<and>
     (\<forall>n. ancestors n d 1 = None \<and> callable n d [0] = None)"
proof -
  let ?d = "\<lparr>theSuccessors = [[1], [1]], thePredecessors = [[0, 1], []],
     theFunctionNames = [''f0'', ''f1'', ''f2''], dagStates = []\<rparr>"
  have d: "dag_make [[1], [1]] [''f0'', ''f1'', ''f2''] [] = Inr ?d" by code_simp
  have "(1, 1) \<in> (edges [[1], [1]])\<^sup>+" by (rule r_into_trancl) (simp add: edges_def)
  then show ?thesis using dag_cycle_never_returns[OF d, of 1 "[0]"] d by auto
qed

section \<open>JSON round trips\<close>

lemma js_push_all: "foldl (\<lambda>l f. js_push (g f) l) (JArr vs) fs = JArr (vs @ map g fs)"
  by (induction fs arbitrary: vs) (auto simp: js_push_def)

lemma js_push_null: "foldl (\<lambda>l f. js_push (g f) l) JNull fs = (if fs = [] then JNull else JArr (map g fs))"
  by (cases fs) (simp_all add: js_push_def js_push_all[unfolded js_push_def])

lemma strings_json_eq: "strings_json fs = (if fs = [] then JNull else JArr (map JStr fs))"
  by (simp add: strings_json_def js_push_null)

lemma succs_json_eq:
  "succs_json ss = (if ss = [] then JNull else JArr (map (\<lambda>is. JArr (map (\<lambda>i. JInt (int i)) is)) ss))"
  by (simp add: succs_json_def js_push_null js_push_all)

lemma deps_json_eq:
  assumes "mwf ds"
  shows "deps_json ds = (if ds = [] then JNull else JObj (map (\<lambda>(s, fs). (s, strings_json fs)) ds))"
proof -
  let ?g = "\<lambda>(s, fs). (s, strings_json fs)"
  have "foldl (\<lambda>j (s, fs). js_put s (strings_json fs) j) (JObj (map ?g pre)) ds = JObj (map ?g (pre @ ds))"
    if "mwf (pre @ ds)" for pre ds :: dependencies
    using that
  proof (induction ds arbitrary: pre)
    case Nil
    then show ?case by simp
  next
    case (Cons p ds)
    have "\<forall>k'\<in>set (mkeys (map ?g pre)). k' < fst p" using Cons.prems by (auto simp: sorted_wrt_append)
    from mput_last[OF this, of "strings_json (snd p)"] show ?case
      using Cons.IH[of "pre @ [p]"] Cons.prems by (cases p) (simp add: js_put_def)
  qed
  from this[of "[hd ds]" "tl ds"] show ?thesis
    using assms by (cases ds) (auto simp: deps_json_def js_put_def)
qed

lemma rmap_ok: "\<forall>x\<in>set xs. f (g x) = Inr x \<Longrightarrow> rmap f (map g xs) = Inr xs"
  by (induction xs) auto

lemma js_vector_strings: "fs \<noteq> [] \<Longrightarrow> js_vector js_string (strings_json fs) = Inr fs"
  by (simp add: strings_json_eq js_vector_def rmap_ok js_string_def)

lemma read_deps:
  assumes "mwf ds"
  shows "foldl (\<lambda>r (k, v). rbind r (\<lambda>m. if v = JNull then Inr (memplace k [] m)
      else rbind (js_vector js_string v) (\<lambda>fs. Inr (memplace k fs m)))) (Inr []) (js_items (deps_json ds)) = Inr ds"
    (is "foldl ?f _ _ = _")
proof -
  have "foldl ?f (Inr pre) (map (\<lambda>(s, fs). (s, strings_json fs)) ds) = Inr (pre @ ds)" if "mwf (pre @ ds)" for pre
    using that
  proof (induction ds arbitrary: pre)
    case Nil
    then show ?case by simp
  next
    case (Cons p ds)
    have "\<forall>k'\<in>set (mkeys pre). k' < fst p" using Cons.prems by (auto simp: sorted_wrt_append)
    from memplace_last[OF this] have "?f (Inr pre) (fst p, strings_json (snd p)) = Inr (pre @ [p])"
      by (cases p, cases "snd p = []") (auto simp: js_vector_strings, auto simp: strings_json_eq)
    then show ?case using Cons.IH[of "pre @ [p]"] Cons.prems by (cases p) simp
  qed
  from this[of "[]"] show ?thesis using assms by (simp add: deps_json_eq js_items_def)
qed

lemma states_read_back:
  assumes "parse s = Inr j" and "js_find ''dependencies'' j = Some (deps_json ds)" and "mwf ds"
  shows "states_fromJson parse s = Inr ds"
  using assms by (simp add: states_fromJson_def read_deps)

text \<open>A chain and a graph that the constructors accept, with the JSON value of each.\<close>

definition chain_json :: "chain \<Rightarrow> json" where
  "chain_json c = js_put ''dependencies'' (deps_json (chainStates c))
     (js_put ''functions'' (strings_json (theFunctions c)) JNull)"

definition exampleChain :: "exn + chain" where
  "exampleChain = chain_make [''f1'', ''f2'', ''f1'']
     [(''s0'', [''f1'']), (''s1'', [''f1'', ''f2'']), (''s2'', [''f2'']), (''s3'', [])]"

text \<open>The JSON library reduced to a single value, printed as a given text.\<close>

definition one_dump :: "json \<Rightarrow> json \<Rightarrow> exn + string" where
  "one_dump j0 j = (if j = j0 then Inr ''j'' else Inl (JsonError ''dump''))"

definition one_parse :: "json \<Rightarrow> string \<Rightarrow> exn + json" where
  "one_parse j0 s = (if s = ''j'' then Inr j0 else Inl (JsonError ''parse''))"

lemma json_lib_one: "json_lib (one_parse j) (one_dump j)"
  by (simp add: json_lib_def one_parse_def one_dump_def)

text \<open>
  A chain of functions printed as JSON text is read back as the same chain, whatever its state
  dependencies, if it has at least one function; the text of a chain with no functions, which the
  constructor accepts, is refused, because an empty list is printed as null.
\<close>

theorem chain_json_roundtrip:
  assumes "json_lib parse dump" and "chain_make fns ds = Inr c" and "mwf ds" and "chain_toJson dump c = Inr s"
  shows "chain_fromJson parse s = (if fns = [] then Inl (JsonError ''type must be array'') else Inr c)"
proof -
  have p: "parse s = Inr (chain_json c)"
    using assms(1,4) by (simp add: json_lib_def chain_toJson_def chain_json_def)
  have c: "theFunctions c = fns" "chainStates c = ds"
    using assms(2) by (auto simp: chain_make_def rbind_eq_Inr)
  have f: "js_find ''functions'' (chain_json c) = Some (strings_json fns)"
    "js_find ''dependencies'' (chain_json c) = Some (deps_json ds)"
    by (simp_all add: chain_json_def js_find_def js_put_def c)
  have st: "states_fromJson parse s = Inr ds" using states_read_back[of parse s, OF p f(2) assms(3)] .
  show ?thesis
    by (simp add: chain_fromJson_def p f(1) st js_vector_strings assms(2))
      (simp add: strings_json_eq js_vector_def)
qed

theorem chain_json_roundtrip_witness:
  "\<exists>c s parse dump. json_lib parse dump \<and> exampleChain = Inr c \<and> chain_toJson dump c = Inr s \<and>
     chain_fromJson parse s = exampleChain"
proof -
  let ?ds = "[(''s0'', [''f1'']), (''s1'', [''f1'', ''f2'']), (''s2'', [''f2'']), (''s3'', [])]"
  let ?c = "\<lparr>theFunctions = [''f1'', ''f2'', ''f1''], chainStates = ?ds\<rparr>"
  let ?j = "chain_json ?c"
  have c: "chain_make [''f1'', ''f2'', ''f1''] ?ds = Inr ?c" by code_simp
  have ds: "mwf ?ds" by code_simp
  have d: "chain_toJson (one_dump ?j) ?c = Inr ''j''" by (simp add: chain_toJson_def chain_json_def one_dump_def)
  have "chain_fromJson (one_parse ?j) ''j'' = Inr ?c"
    using chain_json_roundtrip[OF json_lib_one c ds d] by simp
  then show ?thesis using json_lib_one[of ?j] c d unfolding exampleChain_def
    by (intro exI[of _ ?c] exI[of _ "''j''"] exI[of _ "one_parse ?j"] exI[of _ "one_dump ?j"]) simp
qed

text \<open>
  A graph of functions printed as JSON text is read back as the same graph, with the same
  predecessors and state dependencies, the graph of a single function included.
\<close>

theorem dag_json_roundtrip:
  assumes "json_lib parse dump" and "dag_make ss fns ds = Inr d" and "mwf ds" and "length ss < 2 ^ 64"
    and "dag_toJson dump d = Inr s"
  shows "dag_fromJson parse s = Inr d"
proof -
  let ?j = "js_put ''dependencies'' (deps_json ds)
     (js_put ''functionNames'' (strings_json fns) (js_put ''successors'' (succs_json ss) JNull))"
  note wf = dag_make_wf[OF assms(2)]
  have p: "parse s = Inr ?j" using assms(1,5) wf by (simp add: json_lib_def dag_toJson_def)
  have f: "js_find ''successors'' ?j = Some (succs_json ss)"
    "js_find ''functionNames'' ?j = Some (strings_json fns)" "js_find ''dependencies'' ?j = Some (deps_json ds)"
    by (simp_all add: js_find_def js_put_def)
  have st: "states_fromJson parse s = Inr ds" using states_read_back[of parse s, OF p f(3) assms(3)] .
  have ne: "fns \<noteq> []" using wf(1,3) by (auto simp: dag_wf_def)
  have sz: "js_size (JInt (int j)) = Inr j" if i: "i \<in> set ss" and j: "j \<in> set i" for i j
  proof -
    obtain k where k: "k < length ss" "i = ss ! k" using i by (auto simp: in_set_conv_nth)
    then have "j \<le> length ss" using j wf(1,2) by (auto simp: dag_wf_def)
    then show ?thesis using assms(4) by (simp add: js_size_def)
  qed
  have "rmap (js_vector js_size) (map (\<lambda>i. JArr (map (\<lambda>j. JInt (int j)) i)) ss) = Inr ss"
    by (rule rmap_ok) (use sz in \<open>auto simp: js_vector_def intro!: rmap_ok\<close>)
  then have "rmap (js_vector js_size) (js_elems (succs_json ss)) = Inr ss"
    by (auto simp: succs_json_eq js_elems_def)
  then show ?thesis by (simp add: dag_fromJson_def p f(1,2) st js_vector_strings[OF ne] assms(2))
qed

theorem dag_json_roundtrip_witness:
  "\<exists>d s parse dump. json_lib parse dump \<and> exampleDag = Inr d \<and> dag_toJson dump d = Inr s \<and>
     dag_fromJson parse s = exampleDag"
proof -
  let ?ds = "[(''s0'', [''f0'']), (''s1'', [''f0'', ''f1'']), (''s2'', [''f2'']), (''s3'', [])]"
  obtain d where d: "dag_make [[1, 2], [3], [3]] [''f0'', ''f1'', ''f2'', ''f2''] ?ds = Inr d"
    using exampleDag_ok unfolding exampleDag_def by blast
  have ds: "mwf ?ds" by code_simp
  let ?j = "js_put ''dependencies'' (deps_json (dagStates d))
     (js_put ''functionNames'' (strings_json (theFunctionNames d))
       (js_put ''successors'' (succs_json (theSuccessors d)) JNull))"
  have o: "dag_toJson (one_dump ?j) d = Inr ''j''" by (simp add: dag_toJson_def one_dump_def)
  have "dag_fromJson (one_parse ?j) ''j'' = Inr d"
    using dag_json_roundtrip[OF json_lib_one d ds _ o] by simp
  then show ?thesis using json_lib_one[of ?j] d o unfolding exampleDag_def
    by (intro exI[of _ d] exI[of _ "''j''"] exI[of _ "one_parse ?j"] exI[of _ "one_dump ?j"]) simp
qed

end
