(* ===== verification/Messages.thy ===== *)
theory Messages
  imports FunctionModel "HOL-Library.Word" "HOL-Library.Multiset"
begin

text \<open>
  The messages of a lambda invocation, \<open>Edge/edgemessages.h\<close> and \<open>edgemessages.cpp\<close>: states,
  requests and responses, with their conversion to and from the protocol buffers of
  \<open>Rpc/edgeserver.proto\<close>.

  A protocol buffer is a record of its fields. Its map fields have no order: the order in which
  they are iterated is a parameter of the functions that read them, which the round trips only
  assume to visit every element once. Unsigned integers have their width (\<open>unsigned int\<close> 32
  bits, \<open>unsigned short\<close> 16 bits); \<open>size_t\<close> and \<open>uint64\<close> values are natural numbers below
  \<open>2 ^ 64\<close>.
\<close>

section \<open>Data\<close>

record state =
  theLocation :: string
  theContent :: string

record pb_state =
  pb_st_name :: string
  pb_st_location :: string
  pb_st_content :: string

record request =
  rq_name :: string
  rq_input :: string
  rq_dataIn :: string
  rq_forward :: bool
  rq_hops :: "32 word"
  rq_states :: "(string, state) smap"
  rq_callback :: string
  rq_chain :: "chain option"
  rq_dag :: "dag option"
  rq_nextFunctionIndex :: "32 word"
  rq_uuid :: string

record pb_dag =
  pb_successors :: "nat list list"
  pb_names :: "string list"

record pb_request =
  pq_name :: string
  pq_input :: string
  pq_datain :: string
  pq_dry :: bool
  pq_forward :: bool
  pq_hops :: "32 word"
  pq_states :: "(string, pb_state) smap"
  pq_callback :: string
  pq_chain :: "string list"
  pq_dag :: pb_dag
  pq_dependencies :: "(string, string list) smap"
  pq_nextFunctionIndex :: "32 word"
  pq_uuid :: string

record response =
  rs_retCode :: string
  rs_output :: string
  rs_responder :: string
  rs_processingTime :: "32 word"
  rs_dataOut :: string
  rs_load1 :: "16 word"
  rs_load10 :: "16 word"
  rs_load30 :: "16 word"
  rs_hops :: "32 word"
  rs_states :: "(string, state) smap"
  rs_asynchronous :: bool

record pb_response =
  ps_retcode :: string
  ps_output :: string
  ps_responder :: string
  ps_ptime :: "32 word"
  ps_dataout :: string
  ps_load1 :: "32 word"
  ps_load10 :: "32 word"
  ps_load30 :: "32 word"
  ps_hops :: "32 word"
  ps_states :: "(string, pb_state) smap"
  ps_asynchronous :: bool

section \<open>States\<close>

definition state_from :: "pb_state \<Rightarrow> state" where
  "state_from p = \<lparr>theLocation = pb_st_location p, theContent = pb_st_content p\<rparr>"

definition state_toProtobuf :: "state \<Rightarrow> pb_state" where
  "state_toProtobuf s = \<lparr>pb_st_name = [], pb_st_location = theLocation s, pb_st_content = theContent s\<rparr>"

definition fromLocation :: "string \<Rightarrow> state" where
  "fromLocation l = \<lparr>theLocation = l, theContent = []\<rparr>"

definition fromContent :: "string \<Rightarrow> state" where
  "fromContent c = \<lparr>theLocation = [], theContent = c\<rparr>"

definition remote :: "state \<Rightarrow> bool" where
  "remote s \<longleftrightarrow> theLocation s \<noteq> []"

type_synonym 'v iter_order = "(string \<times> 'v) list \<Rightarrow> (string \<times> 'v) list"

definition deserializeStates :: "pb_state iter_order \<Rightarrow> (string, pb_state) smap \<Rightarrow> (string, state) smap" where
  "deserializeStates ord m = foldl (\<lambda>ret (k, v). memplace k (state_from v) ret) [] (ord m)"

definition serializeStates :: "(string, pb_state) smap \<Rightarrow> (string, state) smap \<Rightarrow> (string, pb_state) smap" where
  "serializeStates aMap ss = foldl (\<lambda>m (k, v). memplace k (state_toProtobuf v) m) aMap ss"

section \<open>Requests\<close>

text \<open>The constructors; the unique identifier comes from the support library.\<close>

definition request_new :: "string \<Rightarrow> string \<Rightarrow> string \<Rightarrow> bool \<Rightarrow> 32 word \<Rightarrow> string \<Rightarrow> request" where
  "request_new aName aInput aDataIn aForward aHops aUuid =
     \<lparr>rq_name = aName, rq_input = aInput, rq_dataIn = aDataIn, rq_forward = aForward, rq_hops = aHops,
      rq_states = [], rq_callback = [], rq_chain = None, rq_dag = None, rq_nextFunctionIndex = 0,
      rq_uuid = aUuid\<rparr>"

definition client_request :: "string \<Rightarrow> string \<Rightarrow> string \<Rightarrow> string \<Rightarrow> request" where
  "client_request uuid aName aInput aDataIn = request_new aName aInput aDataIn False 0 uuid"

definition getDependencies :: "string list iter_order \<Rightarrow> pb_request \<Rightarrow> dependencies" where
  "getDependencies ord msg = foldl (\<lambda>ret (k, fs). memplace k fs ret) [] (ord (pq_dependencies msg))"

definition request_from ::
  "pb_state iter_order \<Rightarrow> string list iter_order \<Rightarrow> pb_request \<Rightarrow> exn + request" where
  "request_from ordS ordD msg =
     (let r = \<lparr>rq_name = pq_name msg, rq_input = pq_input msg, rq_dataIn = pq_datain msg,
               rq_forward = True, rq_hops = pq_hops msg,
               rq_states = deserializeStates ordS (pq_states msg), rq_callback = pq_callback msg,
               rq_chain = None, rq_dag = None, rq_nextFunctionIndex = pq_nextFunctionIndex msg,
               rq_uuid = pq_uuid msg\<rparr>
      in rbind (if length (pq_chain msg) > 0
                then rbind (chain_make (pq_chain msg) (getDependencies ordD msg)) (\<lambda>c. Inr (r\<lparr>rq_chain := Some c\<rparr>))
                else Inr r)
           (\<lambda>r. if length (pb_successors (pq_dag msg)) > 0
                then rbind (dag_make (pb_successors (pq_dag msg)) (pb_names (pq_dag msg)) (getDependencies ordD msg))
                       (\<lambda>d. Inr (r\<lparr>rq_dag := Some d\<rparr>))
                else Inr r))"

definition request_toProtobuf :: "request \<Rightarrow> pb_request" where
  "request_toProtobuf r =
     (let ds = (case rq_dag r of Some d \<Rightarrow> dagStates d
                | None \<Rightarrow> case rq_chain r of Some c \<Rightarrow> chainStates c | None \<Rightarrow> [])
      in \<lparr>pq_name = rq_name r, pq_input = rq_input r, pq_datain = rq_dataIn r, pq_dry = False,
          pq_forward = rq_forward r, pq_hops = rq_hops r,
          pq_states = serializeStates [] (rq_states r), pq_callback = rq_callback r,
          pq_chain = (case rq_chain r of None \<Rightarrow> [] | Some c \<Rightarrow> theFunctions c),
          pq_dag = (case rq_dag r of None \<Rightarrow> \<lparr>pb_successors = [], pb_names = []\<rparr>
                    | Some d \<Rightarrow> \<lparr>pb_successors = theSuccessors d, pb_names = theFunctionNames d\<rparr>),
          pq_dependencies = foldl (\<lambda>m (k, fs). memplace k fs m) [] ds,
          pq_nextFunctionIndex = rq_nextFunctionIndex r, pq_uuid = rq_uuid r\<rparr>)"

definition chain_eq :: "chain \<Rightarrow> chain \<Rightarrow> bool" where
  "chain_eq a b \<longleftrightarrow> theFunctions a = theFunctions b \<and> chainStates a = chainStates b"

definition dag_eq :: "dag \<Rightarrow> dag \<Rightarrow> bool" where
  "dag_eq a b \<longleftrightarrow> theSuccessors a = theSuccessors b \<and> theFunctionNames a = theFunctionNames b \<and>
     dagStates a = dagStates b"

definition request_eq :: "request \<Rightarrow> request \<Rightarrow> bool" where
  "request_eq a b \<longleftrightarrow> rq_name a = rq_name b \<and> rq_input a = rq_input b \<and> rq_dataIn a = rq_dataIn b \<and>
     rq_hops a = rq_hops b \<and> rq_states a = rq_states b \<and> rq_callback a = rq_callback b \<and>
     (rq_chain a = None) = (rq_chain b = None) \<and>
     (rq_chain a = None \<or> chain_eq (the (rq_chain a)) (the (rq_chain b))) \<and>
     (rq_dag a = None) = (rq_dag b = None) \<and>
     (rq_dag a = None \<or> dag_eq (the (rq_dag a)) (the (rq_dag b))) \<and>
     rq_nextFunctionIndex a = rq_nextFunctionIndex b"

definition request_copy :: "request \<Rightarrow> request" where
  "request_copy r =
     (let ret = request_new (rq_name r) (rq_input r) (rq_dataIn r) (rq_forward r) (rq_hops r) (rq_uuid r)
      in ret\<lparr>rq_states := rq_states r, rq_callback := rq_callback r, rq_chain := rq_chain r,
             rq_dag := rq_dag r, rq_nextFunctionIndex := rq_nextFunctionIndex r\<rparr>)"

definition makeOneMoreHop :: "request \<Rightarrow> request" where
  "makeOneMoreHop r = (let ret = request_copy r in ret\<lparr>rq_hops := rq_hops ret + 1\<rparr>)"

text \<open>The new request, and the old one without its chain and graph, which are moved.\<close>

definition regenerate ::
  "pb_state iter_order \<Rightarrow> string \<Rightarrow> nat \<Rightarrow> pb_response \<Rightarrow> request \<Rightarrow> request \<times> request" where
  "regenerate ordS aName aNextFunctionIndex aResponse r =
     (let ret = request_new aName (ps_output aResponse) (ps_dataout aResponse) False (rq_hops r + 1) (rq_uuid r)
      in (ret\<lparr>rq_states := deserializeStates ordS (ps_states aResponse), rq_callback := rq_callback r,
              rq_chain := rq_chain r, rq_dag := rq_dag r,
              rq_nextFunctionIndex := of_nat aNextFunctionIndex\<rparr>,
          r\<lparr>rq_chain := None, rq_dag := None\<rparr>))"

section \<open>Responses\<close>

text \<open>Conversion of a floating-point value to \<open>unsigned short\<close>: truncation, in the range of the type.\<close>

definition to_ushort :: "real \<Rightarrow> 16 word" where
  "to_ushort x = of_int \<lfloor>x\<rfloor>"

definition response_new :: "string \<Rightarrow> string \<Rightarrow> real \<times> real \<times> real \<Rightarrow> bool \<Rightarrow> response" where
  "response_new aRetCode aOutput aLoads aAsynchronous =
     (case aLoads of (l1, l10, l30) \<Rightarrow>
       \<lparr>rs_retCode = aRetCode, rs_output = aOutput, rs_responder = [], rs_processingTime = 0,
        rs_dataOut = [], rs_load1 = to_ushort (0.5 + l1 * 100), rs_load10 = to_ushort (0.5 + l10 * 100),
        rs_load30 = to_ushort (0.5 + l30 * 100), rs_hops = 0, rs_states = [],
        rs_asynchronous = aAsynchronous\<rparr>)"

definition response_async :: response where
  "response_async = response_new ''OK'' [] (0, 0, 0) True"

definition response_sync :: "string \<Rightarrow> string \<Rightarrow> response" where
  "response_sync aRetCode aOutput = response_new aRetCode aOutput (0, 0, 0) False"

definition response_from :: "pb_state iter_order \<Rightarrow> pb_response \<Rightarrow> response" where
  "response_from ordS msg =
     \<lparr>rs_retCode = ps_retcode msg, rs_output = ps_output msg, rs_responder = ps_responder msg,
      rs_processingTime = ps_ptime msg, rs_dataOut = ps_dataout msg, rs_load1 = ucast (ps_load1 msg),
      rs_load10 = ucast (ps_load10 msg), rs_load30 = ucast (ps_load30 msg), rs_hops = ps_hops msg,
      rs_states = deserializeStates ordS (ps_states msg), rs_asynchronous = ps_asynchronous msg\<rparr>"

definition response_toProtobuf :: "response \<Rightarrow> pb_response" where
  "response_toProtobuf r =
     \<lparr>ps_retcode = rs_retCode r, ps_output = rs_output r, ps_responder = rs_responder r,
      ps_ptime = rs_processingTime r, ps_dataout = rs_dataOut r, ps_load1 = ucast (rs_load1 r),
      ps_load10 = ucast (rs_load10 r), ps_load30 = ucast (rs_load30 r), ps_hops = rs_hops r,
      ps_states = serializeStates [] (rs_states r), ps_asynchronous = rs_asynchronous r\<rparr>"

definition removePtimeLoad :: "response \<Rightarrow> response" where
  "removePtimeLoad r = r\<lparr>rs_processingTime := 0, rs_load1 := 0, rs_load10 := 0, rs_load30 := 0\<rparr>"

section \<open>Reading a map field back\<close>

definition iter_ok :: "'v iter_order \<Rightarrow> bool" where
  "iter_ok ord \<longleftrightarrow> (\<forall>xs. mset (ord xs) = mset xs)"

lemma map_of_emplace_all:
  "map_of (foldl (\<lambda>ret (k, v). memplace k (f v) ret) m xs) = map_of (map (\<lambda>(k, v). (k, f v)) xs) ++ map_of m"
proof (induction xs arbitrary: m)
  case Nil
  then show ?case by simp
next
  case (Cons p xs)
  obtain k v where p: "p = (k, v)" by (cases p)
  show ?case unfolding p
    by (auto simp: Cons.IH map_of_memplace fun_eq_iff map_add_def split: option.split)
qed

lemma mwf_emplace_all: "mwf m \<Longrightarrow> mwf (foldl (\<lambda>ret (k, v). memplace k (f v) ret) m xs)"
  by (induction xs arbitrary: m) auto

lemma mwf_map_snd: "mwf m \<Longrightarrow> mwf (map (\<lambda>(k, v). (k, f v)) m)"
  by (induction m) auto

text \<open>Emplacing the elements of an ordered map in any order builds the same map.\<close>

lemma emplace_all_perm:
  assumes "mwf m" and "mset xs = mset m"
  shows "foldl (\<lambda>ret (k, v). memplace k (f v) ret) [] xs = map (\<lambda>(k, v). (k, f v)) m"
proof (rule smap_ext)
  let ?g = "\<lambda>(k, v). (k, f v)"
  have d: "distinct (mkeys (map ?g m))" using mwf_distinct[OF mwf_map_snd[OF assms(1)]] .
  have "mset (map ?g xs) = mset (map ?g m)" using assms(2) by simp
  then have s: "set (map ?g xs) = set (map ?g m)" by (rule mset_eq_setD)
  have "mset (mkeys (map ?g xs)) = mset (mkeys (map ?g m))"
    by (simp only: mset_map \<open>mset xs = mset m\<close>)
  then have "distinct (mkeys (map ?g xs))" using d mset_eq_imp_distinct_iff by blast
  with d s have "map_of (map ?g xs) = map_of (map ?g m)" by (simp only: map_of_inject_set)
  then show "map_of (foldl (\<lambda>ret (k, v). memplace k (f v) ret) [] xs) = map_of (map ?g m)"
    by (simp add: map_of_emplace_all)
qed (simp_all add: mwf_emplace_all mwf_map_snd assms(1) del: map_map)

lemma emplace_all_id:
  assumes "mwf m" and "mset xs = mset m"
  shows "foldl (\<lambda>ret (k, v). memplace k v ret) [] xs = m"
  using emplace_all_perm[OF assms, of "\<lambda>x. x"] by simp

lemma deserialize_serialize:
  assumes "mwf ss" and "iter_ok ord"
  shows "deserializeStates ord (serializeStates [] ss) = ss"
proof -
  let ?pb = "map (\<lambda>(k, v). (k, state_toProtobuf v)) ss"
  have "serializeStates [] ss = ?pb"
    unfolding serializeStates_def by (rule emplace_all_perm[OF assms(1) refl])
  moreover have "deserializeStates ord ?pb = map (\<lambda>(k, v). (k, state_from v)) ?pb"
    unfolding deserializeStates_def
    by (rule emplace_all_perm) (use assms mwf_map_snd in \<open>auto simp: iter_ok_def simp del: map_map\<close>)
  moreover have "state_from (state_toProtobuf v) = v" for v
    by (simp add: state_from_def state_toProtobuf_def)
  ultimately show ?thesis by (simp add: comp_def split_beta)
qed

lemma getDependencies_ok:
  assumes "mwf ds" and "iter_ok ord" and "pq_dependencies msg = foldl (\<lambda>m (k, fs). memplace k fs m) [] ds"
  shows "getDependencies ord msg = ds"
proof -
  have "pq_dependencies msg = ds" using assms(3) emplace_all_id[OF assms(1) refl] by simp
  then show ?thesis
    unfolding getDependencies_def using assms(1,2) by (simp add: emplace_all_id iter_ok_def)
qed

section \<open>Round trips\<close>

text \<open>
  The requests of the program: the chain and the graph come from their constructors, at most one of
  them is present, and the maps are ordered.
\<close>

definition request_wf :: "request \<Rightarrow> bool" where
  "request_wf r \<longleftrightarrow> mwf (rq_states r) \<and>
     (case rq_chain r of None \<Rightarrow> True | Some c \<Rightarrow> mwf (chainStates c) \<and> rq_dag r = None \<and>
        chain_make (theFunctions c) (chainStates c) = Inr c) \<and>
     (case rq_dag r of None \<Rightarrow> True | Some d \<Rightarrow> mwf (dagStates d) \<and>
        dag_make (theSuccessors d) (theFunctionNames d) (dagStates d) = Inr d)"

text \<open>What of a request survives: not an empty chain, and not a graph with a single function.\<close>

definition on_the_wire :: "request \<Rightarrow> request" where
  "on_the_wire r = r\<lparr>rq_forward := True,
     rq_chain := (case rq_chain r of None \<Rightarrow> None | Some c \<Rightarrow> if theFunctions c = [] then None else Some c),
     rq_dag := (case rq_dag r of None \<Rightarrow> None | Some d \<Rightarrow> if theSuccessors d = [] then None else Some d)\<rparr>"

lemma request_from_toProtobuf:
  assumes "request_wf r" and "iter_ok ordS" and "iter_ok ordD"
  shows "request_from ordS ordD (request_toProtobuf r) = Inr (on_the_wire r)"
proof -
  let ?m = "request_toProtobuf r"
  let ?ds = "case rq_dag r of Some d \<Rightarrow> dagStates d
     | None \<Rightarrow> case rq_chain r of Some c \<Rightarrow> chainStates c | None \<Rightarrow> []"
  have ds: "mwf ?ds" using assms(1) by (auto simp: request_wf_def split: option.splits)
  have "getDependencies ordD ?m = ?ds"
    by (rule getDependencies_ok[OF ds assms(3)]) (simp add: request_toProtobuf_def Let_def)
  moreover have "deserializeStates ordS (pq_states ?m) = rq_states r"
    using assms by (simp add: request_toProtobuf_def Let_def deserialize_serialize request_wf_def)
  moreover have "pq_chain ?m = (case rq_chain r of None \<Rightarrow> [] | Some c \<Rightarrow> theFunctions c)"
    "pq_dag ?m = (case rq_dag r of None \<Rightarrow> \<lparr>pb_successors = [], pb_names = []\<rparr>
                    | Some d \<Rightarrow> \<lparr>pb_successors = theSuccessors d, pb_names = theFunctionNames d\<rparr>)"
    "pq_name ?m = rq_name r" "pq_input ?m = rq_input r" "pq_datain ?m = rq_dataIn r" "pq_hops ?m = rq_hops r"
    "pq_callback ?m = rq_callback r" "pq_nextFunctionIndex ?m = rq_nextFunctionIndex r" "pq_uuid ?m = rq_uuid r"
    by (simp_all add: request_toProtobuf_def Let_def)
  ultimately show ?thesis using assms(1)
    by (cases "rq_chain r"; cases "rq_dag r")
      (simp_all add: request_from_def request_wf_def on_the_wire_def Let_def)
qed

lemma request_copy_id: "request_copy r = r"
  by (simp add: request_copy_def request_new_def)

lemma makeOneMoreHop_eq: "makeOneMoreHop r = r\<lparr>rq_hops := rq_hops r + 1\<rparr>"
  by (simp add: makeOneMoreHop_def request_copy_id Let_def)

lemma request_wf_hop: "request_wf (r\<lparr>rq_hops := h\<rparr>) = request_wf r"
  by (simp add: request_wf_def cong: option.case_cong)

lemma dag_make_self: "dag_make ss fns ds = Inr d \<Longrightarrow>
   dag_make (theSuccessors d) (theFunctionNames d) (dagStates d) = Inr d"
  using dag_make_wf[of ss fns ds d] by simp

text \<open>A request with the graph of \<open>exampleDag\<close>, and an order of iteration that is not the sorted one.\<close>

definition request_ex :: "dag option \<Rightarrow> request" where
  "request_ex d = (client_request ''u'' ''f0'' ''in'' [])\<lparr>rq_hops := 2 ^ 32 - 1, rq_dag := d,
     rq_states := [(''s0'', fromLocation ''h:1''), (''s1'', fromContent ''x'')]\<rparr>"

lemma iter_ok_rev: "iter_ok rev"
  by (simp add: iter_ok_def)

lemma exampleDag_in_request:
  assumes "exampleDag = Inr d"
  shows "request_wf (request_ex (Some d))" and "theSuccessors d \<noteq> []"
proof -
  have "dagStates d = [(''s0'', [''f0'']), (''s1'', [''f0'', ''f1'']), (''s2'', [''f2'']), (''s3'', [])]"
    and s: "theSuccessors d = [[1, 2], [3], [3]]"
    using dag_make_wf[OF assms[unfolded exampleDag_def]] by simp_all
  moreover have "mwf [(''s0'', [''f0'']), (''s1'', [''f0'', ''f1'']), (''s2'', [''f2'']), (''s3'', [])]"
    "mwf [(''s0'', fromLocation ''h:1''), (''s1'', fromContent ''x'')]" by code_simp+
  ultimately show "request_wf (request_ex (Some d))"
    using dag_make_self[OF assms[unfolded exampleDag_def]]
    by (simp add: request_wf_def request_ex_def client_request_def request_new_def)
  show "theSuccessors d \<noteq> []" using s by simp
qed



text \<open>
  A graph with a single function, which \<open>singleFunctionDag\<close> makes and the simulated client puts
  in the requests it sends, is lost on the way: the receiver finds no graph in the request, because
  it looks for the successors, of which there are none.
\<close>

theorem single_function_dag_lost:
  assumes "singleFunctionDag d f = Inr d'" and "mwf (dagStates d)" and "request_wf r" and "rq_chain r = None"
    and "iter_ok ordS" and "iter_ok ordD"
  shows "\<exists>r'. request_from ordS ordD (request_toProtobuf (r\<lparr>rq_dag := Some d'\<rparr>)) = Inr r' \<and>
    rq_dag r' = None \<and> \<not> request_eq r' (r\<lparr>rq_dag := Some d'\<rparr>)"
proof -
  have d': "theSuccessors d' = []" "dagStates d' = deps_of (dagStates d) f"
    using assms(1) by (auto simp: singleFunctionDag_ok)
  have "request_wf (r\<lparr>rq_dag := Some d'\<rparr>)"
    using assms(2-4) dag_make_self[OF assms(1)[unfolded singleFunctionDag_def]] mwf_deps_of d'
    by (auto simp: request_wf_def)
  from request_from_toProtobuf[OF this assms(5,6)] show ?thesis
    using d'(1) by (auto simp: on_the_wire_def request_eq_def)
qed

theorem single_function_dag_lost_witness:
  "\<exists>d d' r'. exampleDag = Inr d \<and> singleFunctionDag d ''f1'' = Inr d' \<and>
     request_from rev rev (request_toProtobuf ((request_ex (Some d))\<lparr>rq_dag := Some d'\<rparr>)) = Inr r' \<and> rq_dag r' = None"
proof -
  obtain d where d: "exampleDag = Inr d" using exampleDag_ok by blast
  have "mwf (dagStates d)" "rq_chain (request_ex (Some d)) = None"
    using exampleDag_in_request(1)[OF d]
    by (simp_all add: request_wf_def request_ex_def client_request_def request_new_def)
  then show ?thesis
    using single_function_dag_lost[OF singleFunctionDag_ok[of d "''f1''"] _ exampleDag_in_request(1)[OF d]
      _ iter_ok_rev iter_ok_rev] d singleFunctionDag_ok[of d "''f1''"] by blast
qed

lemma load_percent:
  assumes "0 \<le> l" and "l \<le> 1"
  shows "unat (to_ushort (0.5 + l * 100)) = nat (round (l * 100))" and "round (l * 100) \<le> 100"
proof -
  have le: "0 \<le> \<lfloor>0.5 + l * 100\<rfloor>" "\<lfloor>0.5 + l * 100\<rfloor> \<le> 100"
    using assms by (simp_all add: floor_le_iff)
  show "round (l * 100) \<le> 100" using le(2) by (simp add: round_def add.commute)
  have "uint (to_ushort (0.5 + l * 100)) = \<lfloor>0.5 + l * 100\<rfloor> mod 2 ^ 16"
    by (simp add: to_ushort_def uint_word_of_int)
  also have "\<dots> = \<lfloor>0.5 + l * 100\<rfloor>" using le by (intro mod_pos_pos_trivial) auto
  finally show "unat (to_ushort (0.5 + l * 100)) = nat (round (l * 100))"
    by (simp add: unat_eq_nat_uint round_def add.commute)
qed

text \<open>
  A response is read back from its message exactly as it was (the 16-bit loads pass through
  32-bit fields), and the loads that a computer reports, fractions between 0 and 1, are the
  percentages rounded to the nearest integer.
\<close>

theorem response_roundtrip:
  assumes "mwf (rs_states r)" and "iter_ok ord" and "0 \<le> l1" and "l1 \<le> 1"
    and "0 \<le> l10" and "l10 \<le> 1" and "0 \<le> l30" and "l30 \<le> 1"
  shows "response_from ord (response_toProtobuf r) = r \<and>
    (let p = response_toProtobuf (response_new c out (l1, l10, l30) a) in
     unat (ps_load1 p) = nat (round (l1 * 100)) \<and> unat (ps_load10 p) = nat (round (l10 * 100)) \<and>
     unat (ps_load30 p) = nat (round (l30 * 100)))"
proof -
  have u: "ucast (ucast (w :: 16 word) :: 32 word) = w" for w
    by transfer (simp add: take_bit_take_bit)
  have v: "unat (ucast (w :: 16 word) :: 32 word) = unat w" for w
    by transfer (simp add: take_bit_take_bit min_def)
  have "response_from ord (response_toProtobuf r) = r"
    using assms(1,2) by (simp add: response_from_def response_toProtobuf_def deserialize_serialize u)
  then show ?thesis
    using load_percent assms by (simp add: response_toProtobuf_def response_new_def v)
qed

theorem response_roundtrip_witness:
  "let r = (response_new ''OK'' ''out'' (1/2, 1, 0) False)\<lparr>rs_states := [(''s0'', fromContent ''x'')]\<rparr> in
     response_from rev (response_toProtobuf r) = r \<and>
     unat (ps_load1 (response_toProtobuf (response_new ''OK'' ''out'' (1/2, 1, 0) False))) = nat (round (1/2 * 100 :: real))"
  unfolding Let_def
  using response_roundtrip[OF _ iter_ok_rev, of "(response_new ''OK'' ''out'' (1/2, 1, 0) False)\<lparr>rs_states := [(''s0'', fromContent ''x'')]\<rparr>"
      "1/2" 1 0 "''OK''" "''out''" False]
  by (simp add: Let_def)

end
