(* ===== verification/StateStore.thy ===== *)
theory StateStore
  imports Messages
begin

text \<open>
  The servers of the states of the applications, \<open>Edge/stateserver.cpp\<close>, their client
  \<open>Edge/stateclient.cpp\<close>, and the world of state servers that the edge computers share: the repository
  behind each end-point and the number of calls made so far. Whether a call is delivered is the parameter
  \<open>net\<close>; a call that is not delivered throws in \<open>rpc::checkStatus\<close>.
\<close>

section \<open>Server\<close>

record state_response =
  sr_retcode :: string
  sr_content :: string

definition srv_Get :: "string \<Rightarrow> (string, string) smap \<Rightarrow> state_response" where
  "srv_Get name repo = (case map_of repo name of
       None \<Rightarrow> \<lparr>sr_retcode = ''could not find state: '' @ name, sr_content = []\<rparr>
     | Some c \<Rightarrow> \<lparr>sr_retcode = ''OK'', sr_content = c\<rparr>)"

definition srv_Put :: "string \<Rightarrow> string \<Rightarrow> (string, string) smap \<Rightarrow> state_response \<times> (string, string) smap" where
  "srv_Put name content repo = (\<lparr>sr_retcode = ''OK'', sr_content = []\<rparr>, mput name content repo)"

definition srv_Del :: "string \<Rightarrow> (string, string) smap \<Rightarrow> state_response \<times> (string, string) smap" where
  "srv_Del name repo = (if map_of repo name \<noteq> None then (\<lparr>sr_retcode = ''OK'', sr_content = []\<rparr>, merase name repo)
     else (\<lparr>sr_retcode = ''state not found: '' @ name, sr_content = []\<rparr>, repo))"

section \<open>Client\<close>

record state_world =
  sw_repo :: "string \<Rightarrow> (string, string) smap"
  sw_calls :: nat

definition RpcError :: exn where
  "RpcError = RuntimeError ''RPC failed''"

definition sw_put_repo :: "string \<Rightarrow> (string, string) smap \<Rightarrow> state_world \<Rightarrow> state_world" where
  "sw_put_repo e m w = w\<lparr>sw_repo := (sw_repo w)(e := m)\<rparr>"

definition tick :: "state_world \<Rightarrow> state_world" where
  "tick w = w\<lparr>sw_calls := Suc (sw_calls w)\<rparr>"

definition client_Get :: "(nat \<Rightarrow> bool) \<Rightarrow> string \<Rightarrow> string \<Rightarrow> state_world \<Rightarrow> (exn + string option) \<times> state_world" where
  "client_Get net e name w = (if \<not> net (sw_calls w) then (Inl RpcError, tick w)
     else (let r = srv_Get name (sw_repo w e)
           in (Inr (if sr_retcode r \<noteq> ''OK'' then None else Some (sr_content r)), tick w)))"

definition client_Put :: "(nat \<Rightarrow> bool) \<Rightarrow> string \<Rightarrow> string \<Rightarrow> string \<Rightarrow> state_world \<Rightarrow> (exn + unit) \<times> state_world" where
  "client_Put net e name content w = (if \<not> net (sw_calls w) then (Inl RpcError, tick w)
     else (case srv_Put name content (sw_repo w e) of (_, m) \<Rightarrow> (Inr (), sw_put_repo e m (tick w))))"

definition client_Del :: "(nat \<Rightarrow> bool) \<Rightarrow> string \<Rightarrow> string \<Rightarrow> state_world \<Rightarrow> (exn + bool) \<times> state_world" where
  "client_Del net e name w = (if \<not> net (sw_calls w) then (Inl RpcError, tick w)
     else (case srv_Del name (sw_repo w e) of (r, m) \<Rightarrow> (Inr (sr_retcode r = ''OK''), sw_put_repo e m (tick w))))"

section \<open>A state server is a dictionary\<close>

interpretation repo: ordered_dict "[]" "\<lambda>k v m. snd (srv_Put k v m)" "\<lambda>k m. snd (srv_Del k m)"
  "\<lambda>m k. let r = srv_Get k m in if sr_retcode r = ''OK'' then Some (sr_content r) else None" mwf
proof (unfold_locales, goal_cases)
  case (3 m k)
  then show ?case
    by (cases "map_of m k") (auto simp: srv_Del_def srv_Get_def Let_def fun_eq_iff split: option.splits)
next
  case (6 m k)
  then show ?case by (simp add: srv_Del_def)
qed (auto simp: srv_Get_def srv_Put_def Let_def fun_eq_iff split: option.splits)

text \<open>The contents that the servers hold.\<close>

definition holds :: "state_world \<Rightarrow> string \<Rightarrow> string \<Rightarrow> string option" where
  "holds w e name = map_of (sw_repo w e) name"

lemma client_Get_eq:
  "client_Get net e name w = (if net (sw_calls w) then Inr (holds w e name) else Inl RpcError, tick w)"
  by (cases "map_of (sw_repo w e) name") (simp_all add: client_Get_def srv_Get_def holds_def)

lemma holds_tick [simp]: "holds (tick w) = holds w"
  by (simp add: holds_def tick_def fun_eq_iff)

lemma client_Put_holds:
  assumes "client_Put net e name c w = (Inr (), w')"
  shows "holds w' = (holds w)(e := (holds w e)(name \<mapsto> c))" "net (sw_calls w)" "sw_calls w' = Suc (sw_calls w)"
  using assms by (auto simp: client_Put_def srv_Put_def holds_def sw_put_repo_def tick_def fun_eq_iff split: if_splits)

lemma client_Del_holds:
  assumes "client_Del net e name w = (Inr b, w')"
  shows "holds w' = (holds w)(e := (holds w e)(name := None))" "b \<longleftrightarrow> holds w e name \<noteq> None"
  using assms by (auto simp: client_Del_def srv_Del_def holds_def sw_put_repo_def tick_def fun_eq_iff split: if_splits)

lemma client_calls:
  "sw_calls (snd (client_Get net e name w)) = Suc (sw_calls w)"
  "sw_calls (snd (client_Put net e name c w)) = Suc (sw_calls w)"
  "sw_calls (snd (client_Del net e name w)) = Suc (sw_calls w)"
  by (auto simp: client_Get_eq client_Put_def client_Del_def sw_put_repo_def tick_def split: prod.split)

end
