(* ===== verification/DestinationTable.thy ===== *)
theory DestinationTable
  imports Messages
begin

text \<open>
  The table of destinations and the estimators built on it, \<open>Edge/destinationtable.h\<close>,
  \<open>rttestimator.cpp\<close> and \<open>utilestimator.cpp\<close>.

  A table keeps a descriptor for every pair of a lambda and a destination. The objective functions
  that the searches evaluate may change the descriptor (old samples are purged) and, in the
  utilization estimator, the descriptors of the computers: they take and return both, the latter as
  the state \<open>'s\<close>. The linear estimator belongs to the support library, outside the repository: it is
  the record of functions \<open>lin_est\<close> over an abstract state, with the current time as an argument.
\<close>

section \<open>The table\<close>

type_synonym 'd dest_table = "(string, (string, 'd) smap) smap"

type_synonym ('d, 's) objective = "'d \<Rightarrow> 's \<Rightarrow> real \<times> 'd \<times> 's"

definition dt_find :: "string \<Rightarrow> string \<Rightarrow> 'd dest_table \<Rightarrow> exn + 'd" where
  "dt_find l d T = (case map_of T l of None \<Rightarrow> Inl (InvalidDestinationFor l d)
     | Some m \<Rightarrow> (case map_of m d of None \<Rightarrow> Inl (InvalidDestinationFor l d) | Some x \<Rightarrow> Inr x))"

text \<open>An update through the reference that \<open>find\<close> returns.\<close>

definition dt_upd :: "string \<Rightarrow> string \<Rightarrow> ('d \<Rightarrow> 'd) \<Rightarrow> 'd dest_table \<Rightarrow> 'd dest_table" where
  "dt_upd l d f T = mupd l (mupd d f) T"

fun best_loop :: "('d, 's) objective \<Rightarrow> (string, 'd) smap \<Rightarrow> string \<times> real \<Rightarrow> 's \<Rightarrow>
    (string \<times> real) \<times> (string, 'd) smap \<times> 's" where
  "best_loop f [] b s = (b, [], s)"
| "best_loop f ((d, x) # xs) b s =
     (case f x s of (v, x', s') \<Rightarrow>
        (case best_loop f xs (if v > snd b then (d, v) else b) s' of (r, xs', s'') \<Rightarrow> (r, (d, x') # xs', s'')))"

definition dt_best :: "('d, 's) objective \<Rightarrow> string \<Rightarrow> 'd dest_table \<Rightarrow> 's \<Rightarrow>
    exn + (string \<times> real) \<times> 'd dest_table \<times> 's" where
  "dt_best f l T s = (case map_of T l of None \<Rightarrow> Inl (NoDestinations None)
     | Some m \<Rightarrow> (case best_loop f m ([], - flt_max) s of (r, m', s') \<Rightarrow>
         if fst r = [] then Inl (Undefined ''assertion not myMaxDest.empty()'')
         else Inr (r, mupd l (\<lambda>_. m') T, s')))"

fun all_loop :: "('d, 's) objective \<Rightarrow> (string, 'd) smap \<Rightarrow> (string, real) smap \<Rightarrow> 's \<Rightarrow>
    (string, real) smap \<times> (string, 'd) smap \<times> 's" where
  "all_loop f [] ret s = (ret, [], s)"
| "all_loop f ((d, x) # xs) ret s =
     (case f x s of (v, x', s') \<Rightarrow>
        (case all_loop f xs (memplace d v ret) s' of (r, xs', s'') \<Rightarrow> (r, (d, x') # xs', s'')))"

definition dt_all :: "('d, 's) objective \<Rightarrow> string \<Rightarrow> 'd dest_table \<Rightarrow> 's \<Rightarrow>
    exn + (string, real) smap \<times> 'd dest_table \<times> 's" where
  "dt_all f l T s = (case map_of T l of None \<Rightarrow> Inl (NoDestinations None)
     | Some m \<Rightarrow> (case all_loop f m [] s of (r, m', s') \<Rightarrow>
         if r = [] then Inl (Undefined ''assertion not ret.empty()'')
         else Inr (r, mupd l (\<lambda>_. m') T, s')))"

definition dt_add :: "(string \<Rightarrow> string \<Rightarrow> 'd) \<Rightarrow> string \<Rightarrow> string \<Rightarrow> 'd dest_table \<Rightarrow> bool \<times> 'd dest_table" where
  "dt_add mk l d T =
     (let T1 = (case map_of T l of None \<Rightarrow> mput l [] T | Some _ \<Rightarrow> T);
          m = the (map_of T1 l)
      in case map_of m d of
           None \<Rightarrow> (True, mupd l (mput d (mk l d)) T1)
         | Some _ \<Rightarrow> (False, T1))"

definition dt_remove :: "string \<Rightarrow> string \<Rightarrow> 'd dest_table \<Rightarrow> bool \<times> 'd dest_table" where
  "dt_remove l d T = (case map_of T l of None \<Rightarrow> (False, T)
     | Some m \<Rightarrow> (case map_of m d of None \<Rightarrow> (False, T)
         | Some _ \<Rightarrow> (let m' = merase d m
             in (True, if m' = [] then merase l T else mupd l (\<lambda>_. m') T))))"

section \<open>The round-trip-time estimator\<close>

text \<open>The linear estimator of the support library: window size and stale period, then samples.\<close>

record 'e lin_est =
  le_new :: "nat \<Rightarrow> real \<Rightarrow> 'e"
  le_add :: "real \<Rightarrow> real \<Rightarrow> real \<Rightarrow> 'e \<Rightarrow> 'e"
  le_extrapolate :: "real \<Rightarrow> real \<Rightarrow> 'e \<Rightarrow> real \<times> 'e"

record 'e rtt_est =
  re_windowSize :: nat
  re_stalePeriod :: real
  re_table :: "'e dest_table"

definition rtt_new :: "nat \<Rightarrow> real \<Rightarrow> 'e rtt_est" where
  "rtt_new w p = \<lparr>re_windowSize = w, re_stalePeriod = p, re_table = []\<rparr>"

definition rtt_desc :: "'e lin_est \<Rightarrow> real \<Rightarrow> nat \<Rightarrow> 'e \<Rightarrow> real \<times> 'e" where
  "rtt_desc L now n e = (case le_extrapolate L now (real n) e of (y, e') \<Rightarrow> (max 0 y, e'))"

definition rtt_value :: "'e lin_est \<Rightarrow> real \<Rightarrow> string \<Rightarrow> string \<Rightarrow> nat \<Rightarrow> 'e rtt_est \<Rightarrow> real \<times> 'e rtt_est" where
  "rtt_value L now l d n R = (case dt_find l d (re_table R) of Inl _ \<Rightarrow> (0, R)
     | Inr e \<Rightarrow> (case rtt_desc L now n e of (y, e') \<Rightarrow> (y, R\<lparr>re_table := dt_upd l d (\<lambda>_. e') (re_table R)\<rparr>)))"

text \<open>The function objects that the estimators pass to the table: the value, or its opposite.\<close>

definition rtt_obj :: "'e lin_est \<Rightarrow> real \<Rightarrow> nat \<Rightarrow> ('e, unit) objective" where
  "rtt_obj L now n e u = (case rtt_desc L now n e of (y, e') \<Rightarrow> (y, e', u))"

definition neg_obj :: "('d, 's) objective \<Rightarrow> ('d, 's) objective" where
  "neg_obj f x s = (case f x s of (v, x', s') \<Rightarrow> (- v, x', s'))"

definition rtts :: "'e lin_est \<Rightarrow> real \<Rightarrow> string \<Rightarrow> nat \<Rightarrow> 'e rtt_est \<Rightarrow> exn + (string, real) smap \<times> 'e rtt_est" where
  "rtts L now l n R =
     rbind (dt_all (rtt_obj L now n) l (re_table R) ())
       (\<lambda>(m, T, _). Inr (m, R\<lparr>re_table := T\<rparr>))"

definition shortestRtt :: "'e lin_est \<Rightarrow> real \<Rightarrow> string \<Rightarrow> nat \<Rightarrow> 'e rtt_est \<Rightarrow> exn + (string \<times> real) \<times> 'e rtt_est" where
  "shortestRtt L now l n R =
     rbind (dt_best (neg_obj (rtt_obj L now n)) l (re_table R) ())
       (\<lambda>(r, T, _). Inr ((fst r, - snd r), R\<lparr>re_table := T\<rparr>))"

definition rtt_sample :: "'e lin_est \<Rightarrow> real \<Rightarrow> string \<Rightarrow> string \<Rightarrow> nat \<Rightarrow> real \<Rightarrow> 'e rtt_est \<Rightarrow> exn + 'e rtt_est" where
  "rtt_sample L now l d n y R = rbind (dt_find l d (re_table R)) (\<lambda>_.
     Inr (R\<lparr>re_table := dt_upd l d (le_add L now (real n) y) (re_table R)\<rparr>))"

definition rtt_add :: "'e lin_est \<Rightarrow> string \<Rightarrow> string \<Rightarrow> 'e rtt_est \<Rightarrow> bool \<times> 'e rtt_est" where
  "rtt_add L l d R = (case dt_add (\<lambda>_ _. le_new L (re_windowSize R) (re_stalePeriod R)) l d (re_table R) of
     (b, T) \<Rightarrow> (b, R\<lparr>re_table := T\<rparr>))"

definition rtt_remove :: "string \<Rightarrow> string \<Rightarrow> 'e rtt_est \<Rightarrow> bool \<times> 'e rtt_est" where
  "rtt_remove l d R = (case dt_remove l d (re_table R) of (b, T) \<Rightarrow> (b, R\<lparr>re_table := T\<rparr>))"

section \<open>The utilization estimator\<close>

record 'e lambda_desc =
  ld_destination :: string
  ld_estimators :: "(nat, 'e) smap"

record computer_desc =
  cd_lambdas :: "string sset"
  cd_lastMeas :: real
  cd_lastLoad1 :: nat

record 'e util_est =
  ue_loadTimeout :: real
  ue_windowSize :: nat
  ue_computers :: "(string, computer_desc) smap"
  ue_table :: "'e lambda_desc dest_table"

definition util_new :: "real \<Rightarrow> nat \<Rightarrow> 'e util_est" where
  "util_new t w = \<lparr>ue_loadTimeout = t, ue_windowSize = w, ue_computers = [], ue_table = []\<rparr>"

text \<open>
  The chronometer of a descriptor starts when the descriptor is created; its times are kept here as
  times of a common clock, so that the initial value 0 of \<open>theLastMeas\<close> is the time of the creation.
\<close>

definition lastLoad :: "real \<Rightarrow> real \<Rightarrow> computer_desc \<Rightarrow> (nat \<times> real) \<times> computer_desc" where
  "lastLoad timeout now c =
     (let c = (if now - cd_lastMeas c \<ge> timeout then c\<lparr>cd_lastLoad1 := 0, cd_lastMeas := now\<rparr> else c)
      in ((cd_lastLoad1 c, now - cd_lastMeas c), c))"

definition load_sample :: "real \<Rightarrow> nat \<Rightarrow> computer_desc \<Rightarrow> computer_desc" where
  "load_sample now load1 c = c\<lparr>cd_lastMeas := now, cd_lastLoad1 := min 99 load1\<rparr>"

definition desc_ptime :: "'e lin_est \<Rightarrow> real \<Rightarrow> real \<Rightarrow> nat \<Rightarrow> ('e lambda_desc, (string, computer_desc) smap) objective" where
  "desc_ptime L timeout now n x cs =
     (case map_of cs (ld_destination x) of None \<Rightarrow> (0, x, cs)
      | Some c \<Rightarrow> (case lastLoad timeout now c of ((load, _), c') \<Rightarrow>
          (let cs' = mupd (ld_destination x) (\<lambda>_. c') cs
           in case map_of (ld_estimators x) n of None \<Rightarrow> (0, x, cs')
              | Some e \<Rightarrow> (case le_extrapolate L now (real load) e of (y, e') \<Rightarrow>
                  (y, x\<lparr>ld_estimators := mupd n (\<lambda>_. e') (ld_estimators x)\<rparr>, cs')))))"

definition desc_sample :: "'e lin_est \<Rightarrow> nat \<Rightarrow> real \<Rightarrow> nat \<Rightarrow> real \<Rightarrow> nat \<Rightarrow> 'e lambda_desc \<Rightarrow> 'e lambda_desc" where
  "desc_sample L w now n ptime load x =
     x\<lparr>ld_estimators := mupd n (le_add L now (real load) ptime) (memplace n (le_new L w (-1)) (ld_estimators x))\<rparr>"

fun best_total :: "(string, real) smap \<Rightarrow> (string, real) smap \<Rightarrow> string \<times> real \<times> real \<Rightarrow> real \<Rightarrow> exn + (string \<times> real \<times> real)" where
  "best_total ((d, r) # rs) ((d', t) # ts) ret best =
     (if d \<noteq> d' then Inl (Undefined ''assertion it->first == jt->first'')
      else if r + t < best then best_total rs ts (d, r, t) (r + t)
      else best_total rs ts ret best)"
| "best_total [] [] ret best = (if best < flt_max then Inr ret else Inl (Undefined ''assertion myMinTime < max''))"
| "best_total _ _ ret best = Inl (Undefined ''assertion it == aRtts.end()'')"

definition util_best :: "'e lin_est \<Rightarrow> real \<Rightarrow> string \<Rightarrow> nat \<Rightarrow> (string, real) smap \<Rightarrow> 'e util_est \<Rightarrow>
    exn + (string \<times> real \<times> real) \<times> 'e util_est" where
  "util_best L now l n aRtts U =
     rbind (dt_all (desc_ptime L (ue_loadTimeout U) now n) l (ue_table U) (ue_computers U)) (\<lambda>(ptimes, T, cs).
       rbind (best_total aRtts ptimes ([], 0, 0) flt_max) (\<lambda>r. Inr (r, U\<lparr>ue_table := T, ue_computers := cs\<rparr>)))"

definition smallestPtime :: "'e lin_est \<Rightarrow> real \<Rightarrow> string \<Rightarrow> nat \<Rightarrow> 'e util_est \<Rightarrow> exn + (string \<times> real) \<times> 'e util_est" where
  "smallestPtime L now l n U =
     rbind (dt_best (neg_obj (desc_ptime L (ue_loadTimeout U) now n)) l (ue_table U) (ue_computers U))
       (\<lambda>(r, T, cs). Inr ((fst r, - snd r), U\<lparr>ue_table := T, ue_computers := cs\<rparr>))"

definition util_sample :: "'e lin_est \<Rightarrow> real \<Rightarrow> string \<Rightarrow> string \<Rightarrow> nat \<Rightarrow> real \<Rightarrow> nat \<Rightarrow> 'e util_est \<Rightarrow> exn + 'e util_est" where
  "util_sample L now l d n ptime load1 U = rbind (dt_find l d (ue_table U)) (\<lambda>_.
     Inr (U\<lparr>ue_table := dt_upd l d (desc_sample L (ue_windowSize U) now n ptime load1) (ue_table U),
            ue_computers := mupd d (load_sample now load1) (ue_computers U)\<rparr>))"

definition util_add :: "real \<Rightarrow> string \<Rightarrow> string \<Rightarrow> 'e util_est \<Rightarrow> bool \<times> 'e util_est" where
  "util_add now l d U =
     (let cs = (case map_of (ue_computers U) d of
                  None \<Rightarrow> mput d \<lparr>cd_lambdas = [], cd_lastMeas = now, cd_lastLoad1 = 0\<rparr> (ue_computers U)
                | Some _ \<Rightarrow> ue_computers U);
          cs = mupd d (\<lambda>c. c\<lparr>cd_lambdas := sinsert l (cd_lambdas c)\<rparr>) cs
      in case dt_add (\<lambda>_ d. \<lparr>ld_destination = d, ld_estimators = []\<rparr>) l d (ue_table U) of
           (b, T) \<Rightarrow> (b, U\<lparr>ue_computers := cs, ue_table := T\<rparr>))"

definition util_remove :: "string \<Rightarrow> string \<Rightarrow> 'e util_est \<Rightarrow> bool \<times> 'e util_est" where
  "util_remove l d U =
     (let cs = (case map_of (ue_computers U) d of
                  None \<Rightarrow> ue_computers U
                | Some c \<Rightarrow> (let ls = serase l (cd_lambdas c)
                    in if ls = [] then merase d (ue_computers U)
                       else mupd d (\<lambda>c. c\<lparr>cd_lambdas := ls\<rparr>) (ue_computers U)))
      in case dt_remove l d (ue_table U) of
           (b, T) \<Rightarrow> (b, U\<lparr>ue_computers := cs, ue_table := T\<rparr>))"

section \<open>Facts about the table\<close>

definition dt_wf :: "'d dest_table \<Rightarrow> bool" where
  "dt_wf T \<longleftrightarrow> mwf T \<and> (\<forall>l m. map_of T l = Some m \<longrightarrow> mwf m \<and> m \<noteq> [])"

definition dt_dests :: "'d dest_table \<Rightarrow> string \<Rightarrow> string set" where
  "dt_dests T l = (case map_of T l of None \<Rightarrow> {} | Some m \<Rightarrow> fst ` set m)"

lemma dt_new [simp]: "dt_wf []" "dt_dests [] = (\<lambda>_. {})"
  by (auto simp: dt_wf_def dt_dests_def)

lemma dt_find_iff: "(\<exists>x. dt_find l d T = Inr x) \<longleftrightarrow> d \<in> dt_dests T l"
  by (auto simp: dt_find_def dt_dests_def in_fst_set_iff split: option.split)

lemma dt_find_error: "d \<notin> dt_dests T l \<Longrightarrow> dt_find l d T = Inl (InvalidDestinationFor l d)"
  by (auto simp: dt_find_def dt_dests_def in_fst_set_iff split: option.split)

lemma dt_mupd:
  assumes "dt_wf T" and "\<And>m. map_of T l = Some m \<Longrightarrow> mwf (g m) \<and> g m \<noteq> []"
  shows "dt_wf (mupd l g T)"
    and "dt_dests (mupd l g T) = (dt_dests T)(l := case map_of T l of None \<Rightarrow> {} | Some m \<Rightarrow> fst ` set (g m))"
  using assms by (auto simp: dt_wf_def dt_dests_def fun_eq_iff split: option.split if_splits)

lemma dt_upd_ok:
  assumes "dt_wf T"
  shows "dt_wf (dt_upd l d f T)" and "dt_dests (dt_upd l d f T) = dt_dests T"
proof -
  have g: "mwf (mupd d f m) \<and> mupd d f m \<noteq> []" if "map_of T l = Some m" for m
    using that assms by (auto simp: dt_wf_def)
  show "dt_wf (dt_upd l d f T)" unfolding dt_upd_def by (rule dt_mupd(1)[OF assms g])
  show "dt_dests (dt_upd l d f T) = dt_dests T"
    unfolding dt_upd_def dt_mupd(2)[OF assms g]
    by (auto simp: fun_eq_iff dt_dests_def split: option.split)
qed

lemma dt_add_ok:
  assumes wf: "dt_wf T"
  shows "dt_wf (snd (dt_add mk l d T))"
    and "dt_dests (snd (dt_add mk l d T)) = (dt_dests T)(l := insert d (dt_dests T l))"
    and "fst (dt_add mk l d T) \<longleftrightarrow> d \<notin> dt_dests T l"
proof -
  have "dt_wf (snd (dt_add mk l d T)) \<and> dt_dests (snd (dt_add mk l d T)) = (dt_dests T)(l := insert d (dt_dests T l))
    \<and> (fst (dt_add mk l d T) \<longleftrightarrow> d \<notin> dt_dests T l)"
  proof (cases "map_of T l")
    case None
    then have "snd (dt_add mk l d T) = mupd l (mput d (mk l d)) (mput l [] T)" "fst (dt_add mk l d T)"
      by (simp_all add: dt_add_def Let_def)
    then show ?thesis using wf None
      by (auto simp: dt_wf_def dt_dests_def fun_eq_iff split: if_splits)
  next
    case (Some m)
    then have m: "mwf m" "m \<noteq> []" using wf by (auto simp: dt_wf_def)
    show ?thesis
    proof (cases "map_of m d")
      case None
      then have e: "dt_add mk l d T = (True, mupd l (mput d (mk l d)) T)" using Some by (simp add: dt_add_def Let_def)
      have g: "mwf (mput d (mk l d) n) \<and> mput d (mk l d) n \<noteq> []" if "map_of T l = Some n" for n
        using that wf by (auto simp: dt_wf_def)
      from dt_mupd[OF wf, of l "mput d (mk l d)", OF g] show ?thesis using None Some by (simp add: e dt_dests_def map_of_eq_None_iff)
    next
      case (Some x)
      then show ?thesis using \<open>map_of T l = Some m\<close> wf
        by (auto simp: dt_add_def Let_def dt_dests_def fun_eq_iff in_fst_set_iff insert_absorb)
    qed
  qed
  then show "dt_wf (snd (dt_add mk l d T))"
    and "dt_dests (snd (dt_add mk l d T)) = (dt_dests T)(l := insert d (dt_dests T l))"
    and "fst (dt_add mk l d T) \<longleftrightarrow> d \<notin> dt_dests T l" by blast+
qed

lemma dt_remove_ok:
  assumes wf: "dt_wf T"
  shows "dt_wf (snd (dt_remove l d T))"
    and "dt_dests (snd (dt_remove l d T)) = (dt_dests T)(l := dt_dests T l - {d})"
    and "fst (dt_remove l d T) \<longleftrightarrow> d \<in> dt_dests T l"
proof -
  have "dt_wf (snd (dt_remove l d T)) \<and> dt_dests (snd (dt_remove l d T)) = (dt_dests T)(l := dt_dests T l - {d})
    \<and> (fst (dt_remove l d T) \<longleftrightarrow> d \<in> dt_dests T l)"
  proof (cases "map_of T l")
    case None
    then show ?thesis using wf by (auto simp: dt_remove_def dt_dests_def fun_eq_iff)
  next
    case m: (Some m)
    then have mw: "mwf m" "m \<noteq> []" using wf by (auto simp: dt_wf_def)
    show ?thesis
    proof (cases "d \<in> fst ` set m")
      case False
      then have "map_of m d = None" by (simp add: map_of_eq_None_iff)
      then show ?thesis using False m wf by (auto simp: dt_remove_def dt_dests_def fun_eq_iff)
    next
      case True
      then obtain x where x: "map_of m d = Some x" using in_fst_set_iff[of d m] by blast
      show ?thesis
      proof (cases "merase d m = []")
        case True
        then have "fst ` set m - {d} = {}" using fst_set_merase[of d m] by simp
        then show ?thesis using m x True \<open>d \<in> fst ` set m\<close> wf
          by (auto simp: dt_remove_def Let_def dt_wf_def dt_dests_def fun_eq_iff split: if_splits)
      next
        case ne: False
        have e: "dt_remove l d T = (True, mupd l (\<lambda>_. merase d m) T)" using m x ne by (simp add: dt_remove_def Let_def)
        have "mwf (merase d m) \<and> merase d m \<noteq> []" using mw ne by simp
        from dt_mupd[OF wf, of l "\<lambda>_. merase d m", OF this] show ?thesis using m True by (simp add: e dt_dests_def)
      qed
    qed
  qed
  then show "dt_wf (snd (dt_remove l d T))"
    and "dt_dests (snd (dt_remove l d T)) = (dt_dests T)(l := dt_dests T l - {d})"
    and "fst (dt_remove l d T) \<longleftrightarrow> d \<in> dt_dests T l" by blast+
qed

section \<open>The searches\<close>

text \<open>
  What the table relies on in an objective function: that evaluating it on one descriptor does not
  change its value on another one. The table may then be described by the values that the
  objective has before the search.
\<close>

locale stable_objective =
  fixes f :: "('d, 's) objective"
  assumes stable: "fst (f x (snd (snd (f y s)))) = fst (f x s)"
begin

lemma best_loop_ok:
  "best_loop f m b s = (r, m', s') \<Longrightarrow>
     mkeys m' = mkeys m \<and> (r = b \<or> (\<exists>x. (fst r, x) \<in> set m \<and> snd r = fst (f x s))) \<and> snd b \<le> snd r \<and>
     (\<forall>(d, x)\<in>set m. fst (f x s) \<le> snd r)"
proof (induction m arbitrary: b s r m' s')
  case Nil
  then show ?case by simp
next
  case (Cons p m)
  obtain d x where p: "p = (d, x)" by (cases p)
  obtain v x' s1 where v: "f x s = (v, x', s1)" by (cases "f x s") auto
  have st: "fst (f y s1) = fst (f y s)" for y using stable[of y x s] v by simp
  obtain r1 m1 s2 where r1: "best_loop f m (if v > snd b then (d, v) else b) s1 = (r1, m1, s2)"
    by (cases "best_loop f m (if v > snd b then (d, v) else b) s1") auto
  have r: "r = r1" "m' = (d, x') # m1" using Cons.prems p v r1 by auto
  note ih = Cons.IH[OF r1]
  have "snd b \<le> snd r1 \<and> v \<le> snd r1" using ih by (auto split: if_splits)
  moreover have "r1 = b \<or> (\<exists>y. (fst r1, y) \<in> set (p # m) \<and> snd r1 = fst (f y s))"
  proof -
    from ih consider "r1 = (if v > snd b then (d, v) else b)"
      | y where "(fst r1, y) \<in> set m" "snd r1 = fst (f y s)" unfolding st by blast
    then show ?thesis using p v by cases (auto split: if_splits)
  qed
  ultimately show ?case using ih p v by (auto simp: r st)
qed

lemma all_loop_ok:
  "all_loop f m ret s = (r, m', s') \<Longrightarrow> distinct (mkeys m) \<Longrightarrow>
     mkeys m' = mkeys m \<and> (mwf ret \<longrightarrow> mwf r) \<and>
     map_of r = (\<lambda>d. case map_of ret d of Some v \<Rightarrow> Some v | None \<Rightarrow> map_option (\<lambda>x. fst (f x s)) (map_of m d))"
proof (induction m arbitrary: ret s r m' s')
  case Nil
  then show ?case by (auto simp: fun_eq_iff split: option.split)
next
  case (Cons p m)
  obtain d x where p: "p = (d, x)" by (cases p)
  obtain v x' s1 where v: "f x s = (v, x', s1)" by (cases "f x s") auto
  have st: "fst (f y s1) = fst (f y s)" for y using stable[of y x s] v by simp
  obtain r1 m1 s2 where r1: "all_loop f m (memplace d v ret) s1 = (r1, m1, s2)"
    by (cases "all_loop f m (memplace d v ret) s1") auto
  have "distinct (mkeys m)" using Cons.prems(2) by simp
  note ih = Cons.IH[OF r1 this]
  have "map_of m d = None" using Cons.prems(2) p by (simp add: map_of_eq_None_iff)
  then show ?case using ih Cons.prems(1) p v r1
    by (auto simp: st fun_eq_iff map_of_memplace split: option.splits)
qed

lemma dt_all_values:
  assumes wf: "dt_wf T" and m: "map_of T l = Some m"
  shows "\<exists>r m' s'. dt_all f l T s = Inr (r, mupd l (\<lambda>_. m') T, s') \<and> mkeys m' = mkeys m \<and> mwf r \<and>
    map_of r = (\<lambda>d. map_option (\<lambda>x. fst (f x s)) (map_of m d)) \<and> all_loop f m [] s = (r, m', s')"
proof -
  have mw: "mwf m" "m \<noteq> []" using wf m by (auto simp: dt_wf_def)
  obtain r m' s' where r: "all_loop f m [] s = (r, m', s')" by (cases "all_loop f m [] s") auto
  note ok = all_loop_ok[OF r mwf_distinct[OF mw(1)]]
  have "r \<noteq> []"
  proof
    assume "r = []"
    then have "map_of m = (\<lambda>_. None)" using ok by (auto simp: fun_eq_iff)
    then show False using mw(2) by simp
  qed
  then show ?thesis using ok r m
    by (intro exI[of _ r] exI[of _ m'] exI[of _ s']) (simp add: dt_all_def)
qed

lemma dt_best_maximum:
  assumes wf: "dt_wf T" and m: "map_of T l = Some m" and ne: "[] \<notin> dt_dests T l"
    and lo: "\<forall>(d, x)\<in>set m. - flt_max < fst (f x s)"
  shows "\<exists>d x m' s'. dt_best f l T s = Inr ((d, fst (f x s)), mupd l (\<lambda>_. m') T, s') \<and> mkeys m' = mkeys m \<and>
    map_of m d = Some x \<and> (\<forall>(d', x')\<in>set m. fst (f x' s) \<le> fst (f x s)) \<and>
    best_loop f m ([], - flt_max) s = ((d, fst (f x s)), m', s')"
proof -
  have mw: "mwf m" "m \<noteq> []" using wf m by (auto simp: dt_wf_def)
  obtain r m' s' where r: "best_loop f m ([], - flt_max) s = (r, m', s')"
    by (cases "best_loop f m ([], - flt_max) s") auto
  note ok = best_loop_ok[OF r]
  obtain d0 x0 where "(d0, x0) \<in> set m" using mw(2) by (metis list.set_intros(1) neq_Nil_conv surj_pair)
  then have "- flt_max < snd r" using lo ok by force
  then obtain x where x: "(fst r, x) \<in> set m" "snd r = fst (f x s)" using ok by auto
  have "fst r \<in> dt_dests T l" using x(1) m by (force simp: dt_dests_def)
  then have "fst r \<noteq> []" using ne by auto
  moreover have "map_of m (fst r) = Some x" using x(1) mwf_distinct[OF mw(1)] by simp
  ultimately show ?thesis using ok r m x(2)
    by (intro exI[of _ "fst r"] exI[of _ x] exI[of _ m'] exI[of _ s']) (cases r, auto simp: dt_best_def)
qed

end

lemma dt_best_error: "dt_dests T l = {} \<Longrightarrow> dt_wf T \<Longrightarrow> dt_best f l T s = Inl (NoDestinations None)"
  by (auto simp: dt_best_def dt_dests_def dt_wf_def split: option.splits)

lemma dt_all_error: "dt_dests T l = {} \<Longrightarrow> dt_wf T \<Longrightarrow> dt_all f l T s = Inl (NoDestinations None)"
  by (auto simp: dt_all_def dt_dests_def dt_wf_def split: option.splits)

text \<open>A search replaces the descriptors of a lambda and keeps its destinations.\<close>

lemma dt_replace_ok:
  assumes wf: "dt_wf T" and m: "map_of T l = Some m" and k: "mkeys m' = mkeys m"
  shows "dt_wf (mupd l (\<lambda>_. m') T)" and "dt_dests (mupd l (\<lambda>_. m') T) = dt_dests T"
proof -
  have "mwf m" "m \<noteq> []" using wf m by (auto simp: dt_wf_def)
  then have g: "mwf m' \<and> m' \<noteq> []" using k by auto
  have s: "fst ` set m' = fst ` set m" using k by (metis list.set_map)
  show "dt_wf (mupd l (\<lambda>_. m') T)" by (rule dt_mupd(1)[OF wf, of l "\<lambda>_. m'", OF g])
  show "dt_dests (mupd l (\<lambda>_. m') T) = dt_dests T"
    unfolding dt_mupd(2)[OF wf, of l "\<lambda>_. m'", OF g] using m s by (auto simp: fun_eq_iff dt_dests_def)
qed

lemma stable_neg: "stable_objective f \<Longrightarrow> stable_objective (neg_obj f)"
  by (auto simp: stable_objective_def neg_obj_def split: prod.splits) (metis fst_conv snd_conv)

lemma fst_neg_obj [simp]: "fst (neg_obj f x s) = - fst (f x s)"
  by (auto simp: neg_obj_def split: prod.split)

interpretation rtt_all: stable_objective "rtt_obj L now n" for L now n
  by unfold_locales (auto simp: rtt_obj_def split: prod.split)

interpretation rtt_neg: stable_objective "neg_obj (rtt_obj L now n)" for L now n
  by (rule stable_neg) (rule rtt_all.stable_objective_axioms)

text \<open>
  The processing time estimated for a destination: reading the load of a computer may reset it, but
  reading it again at the same time gives the same value.
\<close>

lemma lastLoad_again: "fst (fst (lastLoad t now (snd (lastLoad t now c)))) = fst (fst (lastLoad t now c))"
  by (auto simp: lastLoad_def Let_def)

definition load_of :: "real \<Rightarrow> real \<Rightarrow> string \<Rightarrow> (string, computer_desc) smap \<Rightarrow> nat option" where
  "load_of t now d cs = map_option (\<lambda>c. fst (fst (lastLoad t now c))) (map_of cs d)"

lemma desc_ptime_value:
  "fst (desc_ptime L t now n x cs) = (case load_of t now (ld_destination x) cs of None \<Rightarrow> 0
     | Some load \<Rightarrow> (case map_of (ld_estimators x) n of None \<Rightarrow> 0
         | Some e \<Rightarrow> fst (le_extrapolate L now (real load) e)))"
  by (auto simp: desc_ptime_def load_of_def Let_def split: option.split prod.split)

lemma load_of_desc_ptime: "load_of t now d (snd (snd (desc_ptime L t now n y cs))) = load_of t now d cs"
proof (cases "map_of cs (ld_destination y)")
  case None
  then show ?thesis by (simp add: desc_ptime_def)
next
  case (Some c)
  have "snd (snd (desc_ptime L t now n y cs)) = mupd (ld_destination y) (\<lambda>_. snd (lastLoad t now c)) cs"
    using Some by (auto simp: desc_ptime_def Let_def split: option.split prod.split)
  then show ?thesis using Some lastLoad_again[of t now c] by (auto simp: load_of_def)
qed

interpretation ptime_all: stable_objective "desc_ptime L t now n" for L t now n
  by unfold_locales (simp add: desc_ptime_value load_of_desc_ptime)

interpretation ptime_neg: stable_objective "neg_obj (desc_ptime L t now n)" for L t now n
  by (rule stable_neg) (rule ptime_all.stable_objective_axioms)

section \<open>Correctness of the round-trip-time estimator\<close>

abbreviation rtt_wf :: "'e rtt_est \<Rightarrow> bool" where
  "rtt_wf R \<equiv> dt_wf (re_table R)"

abbreviation rtt_dests :: "'e rtt_est \<Rightarrow> string \<Rightarrow> string set" where
  "rtt_dests R \<equiv> dt_dests (re_table R)"

lemma rtt_add_ok:
  assumes "rtt_wf R"
  shows "rtt_wf (snd (rtt_add L l d R))"
    and "rtt_dests (snd (rtt_add L l d R)) = (rtt_dests R)(l := insert d (rtt_dests R l))"
  using dt_add_ok(1,2)[OF assms, of "\<lambda>_ _. le_new L (re_windowSize R) (re_stalePeriod R)" l d]
  by (auto simp: rtt_add_def split: prod.split)

lemma rtt_remove_ok:
  assumes "rtt_wf R"
  shows "rtt_wf (snd (rtt_remove l d R))"
    and "rtt_dests (snd (rtt_remove l d R)) = (rtt_dests R)(l := rtt_dests R l - {d})"
  using dt_remove_ok(1,2)[OF assms, of l d] by (auto simp: rtt_remove_def split: prod.split)

lemma rtt_sample_ok:
  assumes "rtt_wf R" and "rtt_sample L now l d n y R = Inr R'"
  shows "rtt_wf R' \<and> rtt_dests R' = rtt_dests R \<and> d \<in> rtt_dests R l"
  using assms dt_upd_ok[OF assms(1), of l d "le_add L now (real n) y"] dt_find_iff[of l d "re_table R"]
  by (auto simp: rtt_sample_def rbind_eq_Inr)

lemma rtt_sample_iff: "(\<exists>R'. rtt_sample L now l d n y R = Inr R') \<longleftrightarrow> d \<in> rtt_dests R l"
  using dt_find_iff[of l d "re_table R"] by (auto simp: rtt_sample_def rbind_eq_Inr)

lemma rtt_sample_error: "d \<notin> rtt_dests R l \<Longrightarrow> rtt_sample L now l d n y R = Inl (InvalidDestinationFor l d)"
  using dt_find_error[of d "re_table R" l] by (simp add: rtt_sample_def)

lemma rtt_value_obj:
  "map_of (re_table R) l = Some m \<Longrightarrow> map_of m d = Some e \<Longrightarrow>
     fst (rtt_value L now l d n R) = fst (rtt_obj L now n e u)"
  by (auto simp: rtt_value_def dt_find_def rtt_obj_def split: prod.split)

lemma rtt_value_nonneg: "0 \<le> fst (rtt_value L now l d n R)"
  by (auto simp: rtt_value_def rtt_desc_def split: sum.split prod.split)

lemma rtt_dests_memE:
  assumes "d \<in> dt_dests T l"
  obtains m e where "map_of T l = Some m" "map_of m d = Some e" "(d, e) \<in> set m"
  using assms by (auto simp: dt_dests_def in_fst_set_iff split: option.splits dest: map_of_SomeD)

text \<open>The destination with the shortest round-trip time, and all the round-trip times.\<close>

lemma shortestRtt_minimum:
  assumes wf: "rtt_wf R" and ne: "rtt_dests R l \<noteq> {}" and nm: "[] \<notin> rtt_dests R l"
    and fin: "\<And>d. d \<in> rtt_dests R l \<Longrightarrow> fst (rtt_value L now l d n R) < flt_max"
  shows "\<exists>d R'. shortestRtt L now l n R = Inr ((d, fst (rtt_value L now l d n R)), R') \<and>
    d \<in> rtt_dests R l \<and> (\<forall>d'\<in>rtt_dests R l. fst (rtt_value L now l d n R) \<le> fst (rtt_value L now l d' n R)) \<and>
    rtt_wf R' \<and> rtt_dests R' = rtt_dests R"
proof -
  obtain m where m: "map_of (re_table R) l = Some m" using ne by (auto simp: dt_dests_def split: option.splits)
  have mw: "mwf m" using wf m by (auto simp: dt_wf_def)
  have D: "rtt_dests R l = fst ` set m" using m by (simp add: dt_dests_def)
  have val: "fst (rtt_obj L now n x ()) = fst (rtt_value L now l d n R)" if "(d, x) \<in> set m" for d x
    using rtt_value_obj[OF m, of d x L now n "()"] that mwf_distinct[OF mw] by simp
  have lo: "\<forall>(d, x)\<in>set m. - flt_max < fst (neg_obj (rtt_obj L now n) x ())"
    using val fin by (force simp: D)
  obtain d x m' where b: "dt_best (neg_obj (rtt_obj L now n)) l (re_table R) () =
      Inr ((d, fst (neg_obj (rtt_obj L now n) x ())), mupd l (\<lambda>_. m') (re_table R), ())"
    and k: "mkeys m' = mkeys m" and dx: "map_of m d = Some x"
    and mx: "\<forall>(d', x')\<in>set m. fst (neg_obj (rtt_obj L now n) x' ()) \<le> fst (neg_obj (rtt_obj L now n) x ())"
    using rtt_neg.dt_best_maximum[OF wf m nm lo] by auto
  note rep = dt_replace_ok[OF wf m k]
  have dm: "(d, x) \<in> set m" using dx by (rule map_of_SomeD)
  have le: "fst (rtt_value L now l d n R) \<le> fst (rtt_value L now l d' n R)" if d': "d' \<in> rtt_dests R l" for d'
  proof -
    obtain x' where x': "(d', x') \<in> set m" using d' by (auto simp: D)
    with mx have "fst (rtt_obj L now n x ()) \<le> fst (rtt_obj L now n x' ())" by auto
    then show ?thesis using val[OF dm] val[OF x'] by simp
  qed
  have dD: "d \<in> rtt_dests R l" using dm by (force simp: D)
  show ?thesis using le rep dD val[OF dm]
    by (intro exI[of _ d] exI[of _ "R\<lparr>re_table := mupd l (\<lambda>_. m') (re_table R)\<rparr>"]) (simp add: shortestRtt_def b)
qed

lemma rtts_values:
  assumes wf: "rtt_wf R" and ne: "rtt_dests R l \<noteq> {}"
  shows "\<exists>r R'. rtts L now l n R = Inr (r, R') \<and> mwf r \<and> fst ` set r = rtt_dests R l \<and>
    (\<forall>d\<in>rtt_dests R l. map_of r d = Some (fst (rtt_value L now l d n R))) \<and>
    rtt_wf R' \<and> rtt_dests R' = rtt_dests R"
proof -
  obtain m where m: "map_of (re_table R) l = Some m" using ne by (auto simp: dt_dests_def split: option.splits)
  have D: "rtt_dests R l = fst ` set m" using m by (simp add: dt_dests_def)
  obtain r m' where b: "dt_all (rtt_obj L now n) l (re_table R) () = Inr (r, mupd l (\<lambda>_. m') (re_table R), ())"
    and k: "mkeys m' = mkeys m" and r: "mwf r" "map_of r = (\<lambda>d. map_option (\<lambda>x. fst (rtt_obj L now n x ())) (map_of m d))"
    using rtt_all.dt_all_values[OF wf m, of L now n "()"] by auto
  note rep = dt_replace_ok[OF wf m k]
  have "fst ` set r = rtt_dests R l" unfolding D set_eq_iff in_fst_set_iff r(2) by auto
  moreover have "map_of r d = Some (fst (rtt_value L now l d n R))" if dm: "d \<in> rtt_dests R l" for d
    using dm rtt_value_obj[OF m, of d _ L now n "()"] by (auto simp: D in_fst_set_iff r(2))
  ultimately show ?thesis using rep r(1)
    by (intro exI[of _ r] exI[of _ "R\<lparr>re_table := mupd l (\<lambda>_. m') (re_table R)\<rparr>"]) (simp add: rtts_def b)
qed

section \<open>Correctness of the utilization estimator\<close>

text \<open>The descriptor of a pair, and how the operations of the table change it.\<close>

definition dt_get :: "'d dest_table \<Rightarrow> string \<Rightarrow> string \<Rightarrow> 'd option" where
  "dt_get T l d = (case map_of T l of None \<Rightarrow> None | Some m \<Rightarrow> map_of m d)"

lemma dt_dests_get: "d \<in> dt_dests T l \<longleftrightarrow> dt_get T l d \<noteq> None"
  by (auto simp: dt_dests_def dt_get_def in_fst_set_iff split: option.split)

lemma dt_get_add:
  "dt_get (snd (dt_add mk l d T)) l' d' =
     (if l' = l \<and> d' = d \<and> dt_get T l d = None then Some (mk l d) else dt_get T l' d')"
  by (auto simp: dt_add_def dt_get_def Let_def split: option.split)

lemma dt_get_remove: "dt_get (snd (dt_remove l d T)) l' d' = (if l' = l \<and> d' = d then None else dt_get T l' d')"
proof (cases "map_of T l")
  case (Some m)
  have "map_of m e = None" if "merase d m = []" "e \<noteq> d" for e
  proof -
    have "map_of (merase d m) e = None" using that(1) by simp
    then show ?thesis using that(2) by simp
  qed
  then show ?thesis using Some by (auto simp: dt_remove_def dt_get_def Let_def split: option.split)
qed (auto simp: dt_remove_def dt_get_def)

lemma dt_get_upd: "dt_get (dt_upd l d f T) l' d' =
    (if l' = l \<and> d' = d then map_option f (dt_get T l d) else dt_get T l' d')"
  by (auto simp: dt_upd_def dt_get_def split: option.split)

text \<open>What a search keeps, for any projection that the objective function keeps.\<close>

lemma all_loop_keeps:
  assumes "\<And>x s. g (fst (snd (f x s))) = g x" and "\<And>x s. h (snd (snd (f x s))) = h s"
  shows "all_loop f m ret s = (r, m', s') \<Longrightarrow> map (\<lambda>(d, x). (d, g x)) m' = map (\<lambda>(d, x). (d, g x)) m \<and> h s' = h s"
proof (induction m arbitrary: ret s r m' s')
  case (Cons p m)
  obtain d x where p: "p = (d, x)" by (cases p)
  show ?case using Cons.prems Cons.IH assms(1)[of x s] assms(2)[of x s] by (fastforce simp: p split: prod.splits)
qed simp

lemma best_loop_keeps:
  assumes "\<And>x s. g (fst (snd (f x s))) = g x" and "\<And>x s. h (snd (snd (f x s))) = h s"
  shows "best_loop f m b s = (r, m', s') \<Longrightarrow> map (\<lambda>(d, x). (d, g x)) m' = map (\<lambda>(d, x). (d, g x)) m \<and> h s' = h s"
proof (induction m arbitrary: b s r m' s')
  case (Cons p m)
  obtain d x where p: "p = (d, x)" by (cases p)
  obtain v x' s1 where v: "f x s = (v, x', s1)" by (cases "f x s") auto
  obtain r1 m1 s2 where r1: "best_loop f m (if v > snd b then (d, v) else b) s1 = (r1, m1, s2)"
    by (cases "best_loop f m (if v > snd b then (d, v) else b) s1") auto
  show ?case using Cons.prems Cons.IH[OF r1] assms(1)[of x s] assms(2)[of x s] v r1 by (auto simp: p)
qed simp

definition util_inv :: "'e util_est \<Rightarrow> bool" where
  "util_inv U \<longleftrightarrow> dt_wf (ue_table U) \<and> mwf (ue_computers U) \<and>
     (\<forall>l d x. dt_get (ue_table U) l d = Some x \<longrightarrow> ld_destination x = d) \<and>
     (\<forall>d. case map_of (ue_computers U) d of None \<Rightarrow> \<forall>l. d \<notin> dt_dests (ue_table U) l
        | Some c \<Rightarrow> swf (cd_lambdas c) \<and> cd_lambdas c \<noteq> [] \<and> set (cd_lambdas c) = {l. d \<in> dt_dests (ue_table U) l})"

abbreviation util_dests :: "'e util_est \<Rightarrow> string \<Rightarrow> string set" where
  "util_dests U \<equiv> dt_dests (ue_table U)"

lemma util_new_inv [simp]: "util_inv (util_new t w)"
  by (auto simp: util_inv_def util_new_def dt_get_def)

lemma util_add_ok:
  assumes inv: "util_inv U"
  shows "util_inv (snd (util_add now l d U))"
    and "util_dests (snd (util_add now l d U)) = (util_dests U)(l := insert d (util_dests U l))"
proof -
  let ?mk = "\<lambda>_ d. \<lparr>ld_destination = d, ld_estimators = []\<rparr> :: 'a lambda_desc"
  have wf: "dt_wf (ue_table U)" and cw: "mwf (ue_computers U)"
    and ld: "\<And>l d x. dt_get (ue_table U) l d = Some x \<Longrightarrow> ld_destination x = d"
    using inv by (auto simp: util_inv_def)
  have cs: "case map_of (ue_computers U) d of None \<Rightarrow> \<forall>l. d \<notin> util_dests U l
        | Some c \<Rightarrow> swf (cd_lambdas c) \<and> cd_lambdas c \<noteq> [] \<and> set (cd_lambdas c) = {l. d \<in> util_dests U l}" for d
    using inv unfolding util_inv_def by blast
  note ok = dt_add_ok[OF wf, of ?mk l d]
  have T: "ue_table (snd (util_add now l d U)) = snd (dt_add ?mk l d (ue_table U))"
    by (simp add: util_add_def Let_def split: prod.split)
  have C: "map_of (ue_computers (snd (util_add now l d U))) = (map_of (ue_computers U))(d \<mapsto>
      case map_of (ue_computers U) d of None \<Rightarrow> \<lparr>cd_lambdas = [l], cd_lastMeas = now, cd_lastLoad1 = 0\<rparr>
      | Some c \<Rightarrow> c\<lparr>cd_lambdas := sinsert l (cd_lambdas c)\<rparr>)"
    by (simp add: util_add_def Let_def split: prod.split option.split)
  have cw': "mwf (ue_computers (snd (util_add now l d U)))" using cw
    by (simp add: util_add_def Let_def split: prod.split option.split)
  show D: "util_dests (snd (util_add now l d U)) = (util_dests U)(l := insert d (util_dests U l))"
    using ok(2) by (simp add: T)
  have "ld_destination x = e" if "dt_get (ue_table (snd (util_add now l d U))) k e = Some x" for k e x
    using that ld[of k e x] by (auto simp: T dt_get_add split: if_splits)
  moreover have "case map_of (ue_computers (snd (util_add now l d U))) e of
      None \<Rightarrow> \<forall>k. e \<notin> util_dests (snd (util_add now l d U)) k
    | Some c \<Rightarrow> swf (cd_lambdas c) \<and> cd_lambdas c \<noteq> [] \<and> set (cd_lambdas c) = {k. e \<in> util_dests (snd (util_add now l d U)) k}" for e
    using cs[of e] unfolding C D by (cases "e = d") (auto split: option.splits)
  ultimately show "util_inv (snd (util_add now l d U))" using ok(1) cw' unfolding util_inv_def T by blast
qed

lemma util_remove_ok:
  assumes inv: "util_inv U"
  shows "util_inv (snd (util_remove l d U))"
    and "util_dests (snd (util_remove l d U)) = (util_dests U)(l := util_dests U l - {d})"
proof -
  have wf: "dt_wf (ue_table U)" and cw: "mwf (ue_computers U)"
    and ld: "\<And>l d x. dt_get (ue_table U) l d = Some x \<Longrightarrow> ld_destination x = d"
    using inv by (auto simp: util_inv_def)
  have cs: "case map_of (ue_computers U) d of None \<Rightarrow> \<forall>l. d \<notin> util_dests U l
        | Some c \<Rightarrow> swf (cd_lambdas c) \<and> cd_lambdas c \<noteq> [] \<and> set (cd_lambdas c) = {l. d \<in> util_dests U l}" for d
    using inv unfolding util_inv_def by blast
  note ok = dt_remove_ok[OF wf, of l d]
  have T: "ue_table (snd (util_remove l d U)) = snd (dt_remove l d (ue_table U))"
    by (simp add: util_remove_def Let_def split: prod.split)
  have C: "map_of (ue_computers (snd (util_remove l d U))) e = (if e \<noteq> d then map_of (ue_computers U) e else
      case map_of (ue_computers U) d of None \<Rightarrow> None
      | Some c \<Rightarrow> if serase l (cd_lambdas c) = [] then None else Some (c\<lparr>cd_lambdas := serase l (cd_lambdas c)\<rparr>))" for e
    by (auto simp: util_remove_def Let_def split: prod.split option.split)
  have cw': "mwf (ue_computers (snd (util_remove l d U)))" using cw
    by (auto simp: util_remove_def Let_def split: prod.split option.split)
  show D: "util_dests (snd (util_remove l d U)) = (util_dests U)(l := util_dests U l - {d})"
    using ok(2) by (simp add: T)
  have "ld_destination x = e" if "dt_get (ue_table (snd (util_remove l d U))) k e = Some x" for k e x
    using that ld[of k e x] by (auto simp: T dt_get_remove split: if_splits)
  moreover have "case map_of (ue_computers (snd (util_remove l d U))) e of
      None \<Rightarrow> \<forall>k. e \<notin> util_dests (snd (util_remove l d U)) k
    | Some c \<Rightarrow> swf (cd_lambdas c) \<and> cd_lambdas c \<noteq> [] \<and> set (cd_lambdas c) = {k. e \<in> util_dests (snd (util_remove l d U)) k}" for e
  proof (cases "e = d")
    case False
    then show ?thesis using cs[of e] unfolding C D by (auto split: option.splits)
  next
    case True
    show ?thesis
    proof (cases "map_of (ue_computers U) d")
      case None
      then show ?thesis using cs[of d] True unfolding C D by (auto split: option.splits)
    next
      case (Some c)
      have "set (serase l (cd_lambdas c)) = {k. e \<in> util_dests (snd (util_remove l d U)) k}"
        "swf (serase l (cd_lambdas c))"
        using cs[of d] Some True unfolding D by auto
      then show ?thesis using Some True unfolding C by (cases "serase l (cd_lambdas c)") (auto simp del: set_serase)
    qed
  qed
  ultimately show "util_inv (snd (util_remove l d U))" using ok(1) cw' unfolding util_inv_def T by blast
qed

text \<open>A sample keeps the invariant; a pair that is not in the table is refused.\<close>

lemma util_sample_ok:
  assumes inv: "util_inv U" and s: "util_sample L now l d n y k U = Inr U'"
  shows "util_inv U' \<and> util_dests U' = util_dests U"
proof -
  let ?f = "desc_sample L (ue_windowSize U) now n y k"
  have U': "ue_table U' = dt_upd l d ?f (ue_table U)" "ue_computers U' = mupd d (load_sample now k) (ue_computers U)"
    using s by (auto simp: util_sample_def rbind_eq_Inr)
  have wf: "dt_wf (ue_table U)" using inv by (simp add: util_inv_def)
  note ok = dt_upd_ok[OF wf, of l d ?f]
  have "ld_destination x = e" if "dt_get (ue_table U') k' e = Some x" for k' e x
    using that inv by (auto simp: U' dt_get_upd util_inv_def desc_sample_def split: if_splits)
  moreover have "case map_of (ue_computers U') e of None \<Rightarrow> \<forall>l. e \<notin> util_dests U' l
      | Some c \<Rightarrow> swf (cd_lambdas c) \<and> cd_lambdas c \<noteq> [] \<and> set (cd_lambdas c) = {l. e \<in> util_dests U' l}" for e
  proof -
    have "case map_of (ue_computers U) e of None \<Rightarrow> \<forall>l. e \<notin> util_dests U l
      | Some c \<Rightarrow> swf (cd_lambdas c) \<and> cd_lambdas c \<noteq> [] \<and> set (cd_lambdas c) = {l. e \<in> util_dests U l}"
      using inv unfolding util_inv_def by blast
    then show ?thesis by (auto simp: U' ok(2) load_sample_def split: option.splits)
  qed
  moreover have "mwf (ue_computers U')" using inv by (simp add: U' util_inv_def)
  ultimately show ?thesis using ok by (auto simp: util_inv_def U')
qed

lemma util_sample_iff: "(\<exists>U'. util_sample L now l d n y k U = Inr U') \<longleftrightarrow> d \<in> util_dests U l"
  using dt_find_iff[of l d "ue_table U"] by (auto simp: util_sample_def rbind_eq_Inr)

lemma util_sample_error: "d \<notin> util_dests U l \<Longrightarrow> util_sample L now l d n y k U = Inl (InvalidDestinationFor l d)"
  using dt_find_error[of d "ue_table U" l] by (simp add: util_sample_def)

text \<open>The processing time that the estimator expects for a known pair.\<close>

definition util_ptime :: "'e lin_est \<Rightarrow> real \<Rightarrow> string \<Rightarrow> nat \<Rightarrow> 'e util_est \<Rightarrow> string \<Rightarrow> real" where
  "util_ptime L now l n U d = (case dt_get (ue_table U) l d of None \<Rightarrow> 0
     | Some x \<Rightarrow> fst (desc_ptime L (ue_loadTimeout U) now n x (ue_computers U)))"

definition lambdas_of :: "(string, computer_desc) smap \<Rightarrow> string list \<times> (string \<Rightarrow> string sset option)" where
  "lambdas_of cs = (mkeys cs, \<lambda>d. map_option cd_lambdas (map_of cs d))"

lemma desc_ptime_keeps:
  "ld_destination (fst (snd (desc_ptime L t now n x cs))) = ld_destination x"
  "lambdas_of (snd (snd (desc_ptime L t now n x cs))) = lambdas_of cs"
proof -
  show "ld_destination (fst (snd (desc_ptime L t now n x cs))) = ld_destination x"
    by (auto simp: desc_ptime_def Let_def split: option.split prod.split)
  have l: "cd_lambdas (snd (lastLoad t now c)) = cd_lambdas c" for c by (simp add: lastLoad_def Let_def)
  show "lambdas_of (snd (snd (desc_ptime L t now n x cs))) = lambdas_of cs"
  proof (cases "map_of cs (ld_destination x)")
    case (Some c)
    then have "snd (snd (desc_ptime L t now n x cs)) = mupd (ld_destination x) (\<lambda>_. snd (lastLoad t now c)) cs"
      by (auto simp: desc_ptime_def Let_def split: option.split prod.split)
    then show ?thesis using Some l[of c] by (auto simp: lambdas_of_def)
  qed (simp add: desc_ptime_def)
qed

lemma neg_obj_keeps: "snd (neg_obj f x s) = snd (f x s)"
  by (auto simp: neg_obj_def split: prod.split)

lemma map_of_proj: "map (\<lambda>(d, x). (d, g x)) m' = map (\<lambda>(d, x). (d, g x)) m \<Longrightarrow>
    map_option g (map_of m' d) = map_option g (map_of m d)"
  by (metis map_of_map comp_apply)

lemma mkeys_proj: "map (\<lambda>(d, x). (d, g x)) m' = map (\<lambda>(d, x). (d, g x)) m \<Longrightarrow> mkeys m' = mkeys m"
  by (drule arg_cong[of _ _ "map fst"]) (simp add: comp_def split_def)

lemma util_search_inv:
  assumes inv: "util_inv U" and m: "map_of (ue_table U) l = Some m"
    and p: "map (\<lambda>(d, x). (d, ld_destination x)) m' = map (\<lambda>(d, x). (d, ld_destination x)) m"
    and c: "lambdas_of cs = lambdas_of (ue_computers U)"
  shows "util_inv (U\<lparr>ue_table := mupd l (\<lambda>_. m') (ue_table U), ue_computers := cs\<rparr>)"
    and "util_dests (U\<lparr>ue_table := mupd l (\<lambda>_. m') (ue_table U), ue_computers := cs\<rparr>) = util_dests U"
proof -
  let ?U = "U\<lparr>ue_table := mupd l (\<lambda>_. m') (ue_table U), ue_computers := cs\<rparr>"
  have wf: "dt_wf (ue_table U)" using inv by (simp add: util_inv_def)
  note rep = dt_replace_ok[OF wf m mkeys_proj[OF p]]
  show "util_dests ?U = util_dests U" using rep(2) by simp
  have "ld_destination x = d" if g: "dt_get (ue_table ?U) k d = Some x" for k d x
  proof (cases "k = l")
    case True
    then have "map_of m' d = Some x" using g m by (simp add: dt_get_def)
    then obtain y where y: "map_of m d = Some y" "ld_destination y = ld_destination x"
      using map_of_proj[OF p, of d] by (cases "map_of m d") auto
    then have "dt_get (ue_table U) l d = Some y" using m by (simp add: dt_get_def)
    then show ?thesis using inv y(2) by (auto simp: util_inv_def)
  next
    case False
    then show ?thesis using g inv by (auto simp: util_inv_def dt_get_def)
  qed
  moreover have "case map_of cs e of None \<Rightarrow> \<forall>l. e \<notin> util_dests ?U l
      | Some c \<Rightarrow> swf (cd_lambdas c) \<and> cd_lambdas c \<noteq> [] \<and> set (cd_lambdas c) = {l. e \<in> util_dests ?U l}" for e
  proof -
    have "case map_of (ue_computers U) e of None \<Rightarrow> \<forall>l. e \<notin> util_dests U l
      | Some c \<Rightarrow> swf (cd_lambdas c) \<and> cd_lambdas c \<noteq> [] \<and> set (cd_lambdas c) = {l. e \<in> util_dests U l}"
      using inv unfolding util_inv_def by blast
    moreover have "map_option cd_lambdas (map_of cs e) = map_option cd_lambdas (map_of (ue_computers U) e)"
      using c by (simp add: lambdas_of_def fun_eq_iff)
    ultimately show ?thesis using rep(2) by (auto split: option.splits)
  qed
  moreover have "mwf cs" using inv c by (simp add: util_inv_def lambdas_of_def)
  ultimately show "util_inv ?U" using rep by (auto simp: util_inv_def)
qed

lemma util_dests_map:
  assumes "util_inv U" and "util_dests U l \<noteq> {}"
  obtains m where "map_of (ue_table U) l = Some m" "mwf m" "util_dests U l = fst ` set m"
    "\<And>d x. (d, x) \<in> set m \<Longrightarrow> fst (desc_ptime L (ue_loadTimeout U) now n x (ue_computers U)) = util_ptime L now l n U d"
proof -
  obtain m where m: "map_of (ue_table U) l = Some m" using assms(2) by (auto simp: dt_dests_def split: option.splits)
  have mw: "mwf m" using assms(1) m by (auto simp: util_inv_def dt_wf_def)
  then have "util_ptime L now l n U d = fst (desc_ptime L (ue_loadTimeout U) now n x (ue_computers U))"
    if "(d, x) \<in> set m" for d x using that m mwf_distinct[OF mw] by (simp add: util_ptime_def dt_get_def)
  then show ?thesis using that m mw by (simp add: dt_dests_def)
qed

lemma smallestPtime_minimum:
  assumes inv: "util_inv U" and ne: "util_dests U l \<noteq> {}" and nm: "[] \<notin> util_dests U l"
    and fin: "\<And>d. d \<in> util_dests U l \<Longrightarrow> util_ptime L now l n U d < flt_max"
  shows "\<exists>d U'. smallestPtime L now l n U = Inr ((d, util_ptime L now l n U d), U') \<and> d \<in> util_dests U l \<and>
    (\<forall>d'\<in>util_dests U l. util_ptime L now l n U d \<le> util_ptime L now l n U d') \<and>
    util_inv U' \<and> util_dests U' = util_dests U"
proof -
  let ?f = "desc_ptime L (ue_loadTimeout U) now n" and ?s = "ue_computers U"
  obtain m where m: "map_of (ue_table U) l = Some m" "mwf m" and D: "util_dests U l = fst ` set m"
    and val: "\<And>d x. (d, x) \<in> set m \<Longrightarrow> fst (?f x ?s) = util_ptime L now l n U d"
    by (rule util_dests_map[OF inv ne, where L = L and now = now and n = n]) (rule that)
  have wf: "dt_wf (ue_table U)" using inv by (simp add: util_inv_def)
  have lo: "\<forall>(d, x)\<in>set m. - flt_max < fst (neg_obj ?f x ?s)" using val fin by (force simp: D)
  obtain d x m' cs where b: "dt_best (neg_obj ?f) l (ue_table U) ?s =
      Inr ((d, fst (neg_obj ?f x ?s)), mupd l (\<lambda>_. m') (ue_table U), cs)"
    and dx: "map_of m d = Some x"
    and mx: "\<forall>(d', x')\<in>set m. fst (neg_obj ?f x' ?s) \<le> fst (neg_obj ?f x ?s)"
    and lp: "best_loop (neg_obj ?f) m ([], - flt_max) ?s = ((d, fst (neg_obj ?f x ?s)), m', cs)"
    using ptime_neg.dt_best_maximum[OF wf m(1) nm lo] by blast
  note keep = best_loop_keeps[where g = ld_destination and h = lambdas_of, OF _ _ lp]
  have kp: "map (\<lambda>(d, x). (d, ld_destination x)) m' = map (\<lambda>(d, x). (d, ld_destination x)) m"
    "lambdas_of cs = lambdas_of ?s" using keep by (simp_all add: neg_obj_keeps desc_ptime_keeps)
  note new = util_search_inv[OF inv m(1) kp]
  have dm: "(d, x) \<in> set m" using dx by (rule map_of_SomeD)
  have "util_ptime L now l n U d \<le> util_ptime L now l n U d'" if d': "d' \<in> util_dests U l" for d'
  proof -
    obtain x' where x': "(d', x') \<in> set m" using d' by (auto simp: D)
    then have "fst (?f x ?s) \<le> fst (?f x' ?s)" using mx by auto
    then show ?thesis using val[OF dm] val[OF x'] by simp
  qed
  moreover have "d \<in> util_dests U l" using dm by (force simp: D)
  ultimately show ?thesis using new val[OF dm]
    by (intro exI[of _ d] exI[of _ "U\<lparr>ue_table := mupd l (\<lambda>_. m') (ue_table U), ue_computers := cs\<rparr>"])
       (simp add: smallestPtime_def b)
qed

text \<open>The scan of two maps with the same keys for the smallest sum.\<close>

lemma best_total_minimum:
  assumes "best \<le> flt_max" and "best < flt_max \<Longrightarrow> fst (snd ret) + snd (snd ret) = best"
    and "best < flt_max \<or> (\<exists>(d, r, t)\<in>set z. r + t < flt_max)"
  shows "\<exists>d r t. best_total (map (\<lambda>(d, r, t). (d, r)) z) (map (\<lambda>(d, r, t). (d, t)) z) ret best = Inr (d, r, t) \<and>
    r + t \<le> best \<and> (\<forall>(d', r', t')\<in>set z. r + t \<le> r' + t') \<and> ((d, r, t) \<in> set z \<or> (d, r, t) = ret \<and> best < flt_max)"
  using assms
proof (induction z arbitrary: ret best)
  case Nil
  then show ?case by (cases ret) auto
next
  case (Cons e z)
  obtain d r t where e: "e = (d, r, t)" by (cases e)
  show ?case
  proof (cases "r + t < best")
    case True
    then have "\<exists>d' r' t'. best_total (map (\<lambda>(d, r, t). (d, r)) z) (map (\<lambda>(d, r, t). (d, t)) z) (d, r, t) (r + t) = Inr (d', r', t') \<and>
      r' + t' \<le> r + t \<and> (\<forall>(d'', r'', t'')\<in>set z. r' + t' \<le> r'' + t'') \<and>
      ((d', r', t') \<in> set z \<or> (d', r', t') = (d, r, t) \<and> r + t < flt_max)"
      using Cons.prems by (intro Cons.IH) auto
    then show ?thesis using True by (auto simp: e)
  next
    case False
    then have p3: "best < flt_max \<or> (\<exists>(d, r, t)\<in>set z. r + t < flt_max)" using Cons.prems(1,3) by (auto simp: e)
    obtain d' r' t' where ih: "best_total (map (\<lambda>(d, r, t). (d, r)) z) (map (\<lambda>(d, r, t). (d, t)) z) ret best = Inr (d', r', t')"
      "r' + t' \<le> best" "\<forall>(d'', r'', t'')\<in>set z. r' + t' \<le> r'' + t''"
      "(d', r', t') \<in> set z \<or> (d', r', t') = ret \<and> best < flt_max"
      using Cons.IH[OF Cons.prems(1,2) p3] by blast
    have "r' + t' \<le> r + t" using ih(2) False by simp
    then show ?thesis using ih False by (intro exI[of _ d'] exI[of _ r'] exI[of _ t']) (auto simp: e)
  qed
qed

lemma util_best_minimum:
  assumes inv: "util_inv U" and ne: "util_dests U l \<noteq> {}"
    and rw: "mwf rs" "fst ` set rs = util_dests U l" "\<And>d. d \<in> util_dests U l \<Longrightarrow> map_of rs d = Some (rt d)"
    and fin: "\<exists>d\<in>util_dests U l. rt d + util_ptime L now l n U d < flt_max"
  shows "\<exists>d U'. util_best L now l n rs U = Inr ((d, rt d, util_ptime L now l n U d), U') \<and> d \<in> util_dests U l \<and>
    (\<forall>d'\<in>util_dests U l. rt d + util_ptime L now l n U d \<le> rt d' + util_ptime L now l n U d') \<and>
    util_inv U' \<and> util_dests U' = util_dests U"
proof -
  let ?f = "desc_ptime L (ue_loadTimeout U) now n" and ?s = "ue_computers U" and ?p = "util_ptime L now l n U"
  obtain m where m: "map_of (ue_table U) l = Some m" "mwf m" and D: "util_dests U l = fst ` set m"
    and val: "\<And>d x. (d, x) \<in> set m \<Longrightarrow> fst (?f x ?s) = ?p d"
    by (rule util_dests_map[OF inv ne, where L = L and now = now and n = n]) (rule that)
  have wf: "dt_wf (ue_table U)" using inv by (simp add: util_inv_def)
  obtain ps m' cs where b: "dt_all ?f l (ue_table U) ?s = Inr (ps, mupd l (\<lambda>_. m') (ue_table U), cs)"
    and ps: "mwf ps" "map_of ps = (\<lambda>d. map_option (\<lambda>x. fst (?f x ?s)) (map_of m d))"
    and lp: "all_loop ?f m [] ?s = (ps, m', cs)"
    using ptime_all.dt_all_values[OF wf m(1), of L "ue_loadTimeout U" now n ?s] by blast
  note keep = all_loop_keeps[where g = ld_destination and h = lambdas_of, OF _ _ lp]
  have kp: "map (\<lambda>(d, x). (d, ld_destination x)) m' = map (\<lambda>(d, x). (d, ld_destination x)) m"
    "lambdas_of cs = lambdas_of ?s" using keep by (simp_all add: desc_ptime_keeps)
  note new = util_search_inv[OF inv m(1) kp]
  let ?z = "map (\<lambda>d. (d, rt d, ?p d)) (mkeys m)"
  have keys: "map_of (map (\<lambda>d. (d, g d)) (mkeys m)) d = (if d \<in> util_dests U l then Some (g d) else None)" for g :: "string \<Rightarrow> real" and d
    unfolding map_of_map_restrict by (simp add: D restrict_map_def)
  have zr: "map (\<lambda>(d, r, t). (d, r)) ?z = rs"
  proof (rule smap_ext)
    show "map_of (map (\<lambda>(d, r, t). (d, r)) ?z) = map_of rs"
    proof
      fix d
      show "map_of (map (\<lambda>(d, r, t). (d, r)) ?z) d = map_of rs d"
        using keys[of rt d] rw(2) rw(3)[of d] map_of_eq_None_iff[of rs d] by (auto simp: comp_def)
    qed
  qed (use m rw in \<open>simp_all add: comp_def\<close>)
  have zp: "map (\<lambda>(d, r, t). (d, t)) ?z = ps"
  proof (rule smap_ext)
    show "map_of (map (\<lambda>(d, r, t). (d, t)) ?z) = map_of ps"
    proof
      fix d
      have "map_of ps d = (if d \<in> util_dests U l then Some (?p d) else None)"
        using val[of d] by (cases "map_of m d") (auto simp: ps(2) D in_fst_set_iff dest: map_of_SomeD)
      then show "map_of (map (\<lambda>(d, r, t). (d, t)) ?z) d = map_of ps d" using keys[of ?p d] by (simp add: comp_def)
    qed
  qed (use m ps in \<open>simp_all add: comp_def\<close>)
  have "\<exists>(d, r, t)\<in>set ?z. r + t < flt_max" using fin by (auto simp: D)
  then obtain d r t where bt: "best_total rs ps ([], 0, 0) flt_max = Inr (d, r, t)" "(d, r, t) \<in> set ?z"
    "\<forall>(d', r', t')\<in>set ?z. r + t \<le> r' + t'"
    using best_total_minimum[of flt_max "([], 0, 0)" ?z] unfolding zr zp by auto
  then have "d \<in> util_dests U l" "r = rt d" "t = ?p d"
    "\<forall>d'\<in>util_dests U l. rt d + ?p d \<le> rt d' + ?p d'" by (auto simp: D)
  then show ?thesis using new bt(1)
    by (intro exI[of _ d] exI[of _ "U\<lparr>ue_table := mupd l (\<lambda>_. m') (ue_table U), ue_computers := cs\<rparr>"])
       (simp add: util_best_def b)
qed

end
