(* ===== verification/PtimeEstimator.thy ===== *)
theory PtimeEstimator
  imports DestinationTable ForwardingTableInterface
begin

text \<open>
  The processing-time estimators of a dispatcher, \<open>Edge/ptimeestimator.cpp\<close> and its derived classes
  \<open>ptimeestimatorrtt.cpp\<close>, \<open>ptimeestimatorutil.cpp\<close>, \<open>ptimeestimatordelay.cpp\<close> and
  \<open>ptimeestimatorprobe.cpp\<close>.

  The base class keeps the table of destinations and calls two hooks of the derived class when a
  pair of a lambda and a destination is added or removed. What it relies on is the locale
  \<open>estimator_hooks\<close>: the derived class knows exactly the pairs that were added. A derived class that
  keeps this contract gives a correct implementation of the interface of a forwarding table, which
  is the \<open>sublocale\<close> below. Three of the four derived classes keep it.

  A pending estimate is identified by the address of the request, a natural number. The file to
  which the measurements are saved is not modelled.
\<close>

section \<open>The base class\<close>

datatype ptime_type = PTest | PRtt | PUtil | PProbe

definition ptime_toString :: "ptime_type \<Rightarrow> string" where
  "ptime_toString t = (case t of PTest \<Rightarrow> ''test'' | PRtt \<Rightarrow> ''rtt'' | PUtil \<Rightarrow> ''util'' | PProbe \<Rightarrow> ''probe'')"

definition ptimeEstimatorTypeFromString :: "string \<Rightarrow> exn + ptime_type" where
  "ptimeEstimatorTypeFromString s =
     (if s = ''test'' then Inr PTest
      else if s = ''rtt'' then Inr PRtt
      else if s = ''util'' then Inr PUtil
      else if s = ''probe'' then Inr PProbe
      else Inl (RuntimeError (''Invalid processing time estimator type '' @ [CHR 0x27] @ s @ [CHR 0x27])))"

record estimates =
  es_rtt :: real
  es_ptime :: real

record 'p ptime_est =
  pt_lambdas :: "string sset"
  pt_table :: full_table
  pt_estimates :: "(nat, estimates) smap"
  pt_derived :: 'p

record 'p pt_hooks =
  privateAdd :: "real \<Rightarrow> string \<Rightarrow> string \<Rightarrow> 'p \<Rightarrow> 'p"
  privateRemove :: "string \<Rightarrow> string \<Rightarrow> 'p \<Rightarrow> 'p"

definition pt_new :: "'p \<Rightarrow> 'p ptime_est" where
  "pt_new p = \<lparr>pt_lambdas = [], pt_table = [], pt_estimates = [], pt_derived = p\<rparr>"

definition pt_change :: "'p pt_hooks \<Rightarrow> real \<Rightarrow> string \<Rightarrow> string \<Rightarrow> real \<Rightarrow> bool \<Rightarrow> 'p ptime_est \<Rightarrow> 'p ptime_est" where
  "pt_change H now l d w fin P =
     (let (added, P) = (case map_of (pt_table P) l of
            None \<Rightarrow> (True, P\<lparr>pt_table := mput l [(d, (1, fin))] (pt_table P), pt_lambdas := sinsert l (pt_lambdas P)\<rparr>)
          | Some m \<Rightarrow> (map_of m d = None, P\<lparr>pt_table := mupd l (memplace d (1, fin)) (pt_table P)\<rparr>))
      in if added then P\<lparr>pt_derived := privateAdd H now l d (pt_derived P)\<rparr> else P)"

definition pt_change_weight :: "string \<Rightarrow> string \<Rightarrow> real \<Rightarrow> 'p ptime_est \<Rightarrow> 'p ptime_est" where
  "pt_change_weight l d w P = P"

definition assertConsistency :: "string \<Rightarrow> 'p ptime_est \<Rightarrow> bool" where
  "assertConsistency l P \<longleftrightarrow> (l \<notin> set (pt_lambdas P)) = (map_of (pt_table P) l = None)"

definition Inconsistent :: exn where
  "Inconsistent = Undefined ''assertion myEmptyLambdas == myEmptyTable''"

definition internalRemove :: "'p pt_hooks \<Rightarrow> string \<Rightarrow> string \<Rightarrow> 'p ptime_est \<Rightarrow> (exn + unit) \<times> 'p ptime_est" where
  "internalRemove H l d P =
     (if \<not> assertConsistency l P then (Inl Inconsistent, P)
      else case map_of (pt_table P) l of
          None \<Rightarrow> (Inr (), P)
        | Some m \<Rightarrow>
            (let m' = merase d m;
                 P = P\<lparr>pt_table := mupd l (\<lambda>_. m') (pt_table P)\<rparr>;
                 P = (if map_of m d \<noteq> None then P\<lparr>pt_derived := privateRemove H l d (pt_derived P)\<rparr> else P)
             in if m' = [] then (Inr (), P\<lparr>pt_table := merase l (pt_table P), pt_lambdas := serase l (pt_lambdas P)\<rparr>)
                else (Inr (), P)))"

definition pt_remove :: "'p pt_hooks \<Rightarrow> string \<Rightarrow> string \<Rightarrow> 'p ptime_est \<Rightarrow> (exn + unit) \<times> 'p ptime_est" where
  "pt_remove H l d P = internalRemove H l d P"

definition pt_remove_lambda :: "'p pt_hooks \<Rightarrow> string \<Rightarrow> 'p ptime_est \<Rightarrow> (exn + unit) \<times> 'p ptime_est" where
  "pt_remove_lambda H l P =
     (if \<not> assertConsistency l P then (Inl Inconsistent, P)
      else (Inr (), P\<lparr>pt_derived := (case map_of (pt_table P) l of None \<Rightarrow> pt_derived P
                        | Some m \<Rightarrow> foldl (\<lambda>p (d, _). privateRemove H l d p) (pt_derived P) m),
                     pt_lambdas := serase l (pt_lambdas P),
                     pt_table := merase l (pt_table P)\<rparr>))"

definition pt_if :: "'p pt_hooks \<Rightarrow> 'p ptime_est ft_if" where
  "pt_if H = \<lparr>if_change = (\<lambda>E l d w f P. (Inr (), pt_change H (env_now E) l d w f P)),
     if_change_weight = (\<lambda>_ l d w P. (Inr (), pt_change_weight l d w P)),
     if_remove = (\<lambda>_ l d P. pt_remove H l d P), if_remove_lambda = (\<lambda>_ l P. pt_remove_lambda H l P),
     if_lambdas = pt_lambdas, if_fullTable = pt_table\<rparr>"

text \<open>The size of the input of a request, and the pending estimates.\<close>

definition pt_size :: "pb_request \<Rightarrow> nat" where
  "pt_size q = max (length (pq_datain q)) (length (pq_input q))"

definition EstimatePending :: exn where
  "EstimatePending = Undefined ''assertion it.second''"

definition EstimateMissing :: exn where
  "EstimateMissing = Undefined ''assertion on a missing estimate''"

definition estimate_emplace :: "nat \<Rightarrow> estimates \<Rightarrow> 'p ptime_est \<Rightarrow> (exn + unit) \<times> 'p ptime_est" where
  "estimate_emplace a e P = (case map_of (pt_estimates P) a of
       None \<Rightarrow> (Inr (), P\<lparr>pt_estimates := mput a e (pt_estimates P)\<rparr>)
     | Some _ \<Rightarrow> (Inl EstimatePending, P))"

definition estimate_take :: "nat \<Rightarrow> 'p ptime_est \<Rightarrow> (exn + unit) \<times> 'p ptime_est" where
  "estimate_take a P = (case map_of (pt_estimates P) a of
       Some _ \<Rightarrow> (Inr (), P\<lparr>pt_estimates := merase a (pt_estimates P)\<rparr>)
     | None \<Rightarrow> (Inl EstimateMissing, P))"

definition processFailure :: "'p pt_hooks \<Rightarrow> nat \<Rightarrow> pb_request \<Rightarrow> string \<Rightarrow> 'p ptime_est \<Rightarrow> (exn + unit) \<times> 'p ptime_est" where
  "processFailure H a q d P = sbind (estimate_take a P) (\<lambda>_. internalRemove H (pq_name q) d)"

section \<open>The derived classes\<close>

text \<open>A computation on the state of the derived class, which keeps it when it throws.\<close>

definition on_derived :: "('p \<Rightarrow> exn + 'a \<times> 'p) \<Rightarrow> 'p ptime_est \<Rightarrow> (exn + 'a) \<times> 'p ptime_est" where
  "on_derived f P = (case f (pt_derived P) of Inl e \<Rightarrow> (Inl e, P) | Inr (x, p) \<Rightarrow> (Inr x, P\<lparr>pt_derived := p\<rparr>))"

definition ms_seconds :: "32 word \<Rightarrow> real" where
  "ms_seconds t = real (unat t) * (1 / 1000)"

subsection \<open>Round-trip time\<close>

definition rtt_hooks :: "'e lin_est \<Rightarrow> 'e rtt_est pt_hooks" where
  "rtt_hooks L = \<lparr>privateAdd = (\<lambda>now l d R. snd (rtt_add L l d R)), privateRemove = (\<lambda>l d R. snd (rtt_remove l d R))\<rparr>"

definition ptime_rtt_select :: "'e lin_est \<Rightarrow> real \<Rightarrow> nat \<Rightarrow> pb_request \<Rightarrow> 'e rtt_est ptime_est \<Rightarrow>
    (exn + string) \<times> 'e rtt_est ptime_est" where
  "ptime_rtt_select L now a q P =
     sbind (on_derived (shortestRtt L now (pq_name q) (pt_size q)) P) (\<lambda>(d, r) P.
       sbind (estimate_emplace a \<lparr>es_rtt = r, es_ptime = 0\<rparr> P) (\<lambda>_ P. (Inr d, P)))"

definition ptime_rtt_success :: "'e lin_est \<Rightarrow> real \<Rightarrow> nat \<Rightarrow> pb_request \<Rightarrow> string \<Rightarrow> response \<Rightarrow> real \<Rightarrow>
    'e rtt_est ptime_est \<Rightarrow> (exn + unit) \<times> 'e rtt_est ptime_est" where
  "ptime_rtt_success L now a q d rep t P =
     (let rtt = t - ms_seconds (rs_processingTime rep)
      in sbind (estimate_take a P) (\<lambda>_. on_derived (\<lambda>R.
           rbind (rtt_sample L now (pq_name q) d (pt_size q) rtt R) (\<lambda>R. Inr ((), R)))))"

subsection \<open>Utilization\<close>

record 'e ptime_util =
  pu_rtt :: "'e rtt_est"
  pu_util :: "'e util_est"

definition util_hooks :: "'e lin_est \<Rightarrow> 'e ptime_util pt_hooks" where
  "util_hooks L = \<lparr>privateAdd = (\<lambda>now l d U. U\<lparr>pu_util := snd (util_add now l d (pu_util U)), pu_rtt := snd (rtt_add L l d (pu_rtt U))\<rparr>),
     privateRemove = (\<lambda>l d U. U\<lparr>pu_util := snd (util_remove l d (pu_util U)), pu_rtt := snd (rtt_remove l d (pu_rtt U))\<rparr>)\<rparr>"

definition ptime_util_select :: "'e lin_est \<Rightarrow> real \<Rightarrow> nat \<Rightarrow> pb_request \<Rightarrow> 'e ptime_util ptime_est \<Rightarrow>
    (exn + string) \<times> 'e ptime_util ptime_est" where
  "ptime_util_select L now a q P =
     (let n = pt_size q
      in sbind (on_derived (\<lambda>U. rbind (rtts L now (pq_name q) n (pu_rtt U)) (\<lambda>(rs, R).
                Inr (rs, U\<lparr>pu_rtt := R\<rparr>))) P) (\<lambda>rs P.
           sbind (on_derived (\<lambda>U. rbind (util_best L now (pq_name q) n rs (pu_util U)) (\<lambda>(b, V).
                  Inr (b, U\<lparr>pu_util := V\<rparr>))) P) (\<lambda>(d, r, t) P.
             sbind (estimate_emplace a \<lparr>es_rtt = r, es_ptime = t\<rparr> P) (\<lambda>_ P. (Inr d, P)))))"

definition ptime_util_success :: "'e lin_est \<Rightarrow> real \<Rightarrow> nat \<Rightarrow> pb_request \<Rightarrow> string \<Rightarrow> response \<Rightarrow> real \<Rightarrow>
    'e ptime_util ptime_est \<Rightarrow> (exn + unit) \<times> 'e ptime_util ptime_est" where
  "ptime_util_success L now a q d rep t P =
     (let rtt = t - ms_seconds (rs_processingTime rep)
      in sbind (estimate_take a P) (\<lambda>_ P.
           sbind (on_derived (\<lambda>U. rbind (util_sample L now (pq_name q) d (pt_size q)
                    (ms_seconds (rs_processingTime rep)) (unat (rs_load1 rep)) (pu_util U)) (\<lambda>V. Inr ((), U\<lparr>pu_util := V\<rparr>))) P)
             (\<lambda>_. on_derived (\<lambda>U. rbind (rtt_sample L now (pq_name q) d (pt_size q) rtt (pu_rtt U)) (\<lambda>R.
                Inr ((), U\<lparr>pu_rtt := R\<rparr>))))))"

subsection \<open>Delay\<close>

definition delay_hooks :: "'e util_est pt_hooks" where
  "delay_hooks = \<lparr>privateAdd = (\<lambda>now l d U. snd (util_add now l d U)), privateRemove = (\<lambda>l d U. snd (util_remove l d U))\<rparr>"

definition ptime_delay_select :: "'e lin_est \<Rightarrow> real \<Rightarrow> nat \<Rightarrow> pb_request \<Rightarrow> 'e util_est ptime_est \<Rightarrow>
    (exn + string) \<times> 'e util_est ptime_est" where
  "ptime_delay_select L now a q P =
     sbind (on_derived (smallestPtime L now (pq_name q) (pt_size q)) P) (\<lambda>(d, t) P.
       sbind (estimate_emplace a \<lparr>es_rtt = 0, es_ptime = t\<rparr> P) (\<lambda>_ P. (Inr d, P)))"

definition ptime_delay_success :: "'e lin_est \<Rightarrow> real \<Rightarrow> nat \<Rightarrow> pb_request \<Rightarrow> string \<Rightarrow> response \<Rightarrow> real \<Rightarrow>
    'e util_est ptime_est \<Rightarrow> (exn + unit) \<times> 'e util_est ptime_est" where
  "ptime_delay_success L now a q d rep t P =
     sbind (estimate_take a P) (\<lambda>_. on_derived (\<lambda>U.
       rbind (util_sample L now (pq_name q) d (pt_size q) t (unat (rs_load1 rep)) U) (\<lambda>U. Inr ((), U))))"

subsection \<open>Probe\<close>

text \<open>
  A dry run of the lambda on every destination; the answer of a computer is a parameter. The hook of
  a removal adds the pair, as the code does.
\<close>

definition probe_hooks :: "unit dest_table pt_hooks" where
  "probe_hooks = \<lparr>privateAdd = (\<lambda>now l d T. snd (dt_add (\<lambda>_ _. ()) l d T)),
     privateRemove = (\<lambda>l d T. snd (dt_add (\<lambda>_ _. ()) l d T))\<rparr>"

definition uint_max :: nat where
  "uint_max = 2 ^ 32 - 1"

fun probe_loop :: "(string \<Rightarrow> exn + response) \<Rightarrow> (string, real) smap \<Rightarrow> string \<times> nat \<Rightarrow> exn + string \<times> nat" where
  "probe_loop probe [] b = Inr b"
| "probe_loop probe ((d, _) # ds) b = rbind (probe d) (\<lambda>rep.
     probe_loop probe ds (if rs_retCode rep = ''OK'' \<and> unat (rs_processingTime rep) < snd b
       then (d, unat (rs_processingTime rep)) else b))"

definition zero_value :: "(unit, unit) objective" where
  "zero_value x s = (0, x, s)"

definition ptime_probe_select :: "(string \<Rightarrow> exn + response) \<Rightarrow> nat \<Rightarrow> pb_request \<Rightarrow> unit dest_table ptime_est \<Rightarrow>
    (exn + string) \<times> unit dest_table ptime_est" where
  "ptime_probe_select probe a q P =
     sbind (on_derived (\<lambda>T. rbind (dt_all zero_value (pq_name q) T ()) (\<lambda>(ds, T, _). Inr (ds, T))) P) (\<lambda>ds P.
       case probe_loop probe ds ([], uint_max) of Inl e \<Rightarrow> (Inl e, P)
       | Inr (d, t) \<Rightarrow>
           if d = [] \<or> \<not> t < uint_max then (Inl (Undefined ''assertion not myBestDestination.empty()''), P)
           else sbind (estimate_emplace a \<lparr>es_rtt = 0, es_ptime = real t\<rparr> P) (\<lambda>_ P. (Inr d, P)))"

definition ptime_probe_success :: "nat \<Rightarrow> pb_request \<Rightarrow> string \<Rightarrow> response \<Rightarrow> real \<Rightarrow>
    unit dest_table ptime_est \<Rightarrow> (exn + unit) \<times> unit dest_table ptime_est" where
  "ptime_probe_success a q d rep t P = estimate_take a P"

section \<open>The contract of the hooks\<close>

text \<open>
  The invariant of the base class: the table is well formed, the set of lambdas is its domain and the
  derived class knows exactly its pairs.
\<close>

definition pt_inv :: "('p \<Rightarrow> bool) \<Rightarrow> ('p \<Rightarrow> string \<Rightarrow> string set) \<Rightarrow> 'p ptime_est \<Rightarrow> bool" where
  "pt_inv p_inv p_dests P \<longleftrightarrow> full_table_wf (pt_table P) \<and> swf (pt_lambdas P) \<and>
     set (pt_lambdas P) = {l. full_table_dests (pt_table P) l \<noteq> {}} \<and>
     p_inv (pt_derived P) \<and> p_dests (pt_derived P) = full_table_dests (pt_table P)"

abbreviation pt_dests :: "'p ptime_est \<Rightarrow> string \<Rightarrow> string set" where
  "pt_dests P \<equiv> full_table_dests (pt_table P)"

lemma full_table_dt: "full_table_wf m \<longleftrightarrow> dt_wf m" "full_table_dests m l = dt_dests m l"
  by (simp_all add: full_table_wf_def dt_wf_def full_table_dests_def dt_dests_def)

lemma full_table_emplace:
  assumes "full_table_wf T"
  shows "full_table_wf (case map_of T l of None \<Rightarrow> mput l [(d, v)] T | Some m \<Rightarrow> mupd l (memplace d v) T)"
    and "full_table_dests (case map_of T l of None \<Rightarrow> mput l [(d, v)] T | Some m \<Rightarrow> mupd l (memplace d v) T) =
      (full_table_dests T)(l := insert d (full_table_dests T l))"
  using assms by (auto simp: full_table_wf_def full_table_dests_def fun_eq_iff split: option.split if_splits)

lemma full_table_erase:
  fixes d :: string
  assumes wf: "full_table_wf T" and m: "map_of T l = Some m"
  defines "T' \<equiv> if merase d m = [] then merase l T else mupd l (\<lambda>_. merase d m) T"
  shows "full_table_wf T' \<and> full_table_dests T' = (full_table_dests T)(l := full_table_dests T l - {d})"
proof -
  have mw: "mwf m" using wf m by (simp add: full_table_wf_def)
  have "fst ` set m - {d} = {}" if "merase d m = []" using fst_set_merase[of d m] that by simp
  then show ?thesis using wf m mw
    by (auto simp: T'_def full_table_wf_def full_table_dests_def fun_eq_iff split: if_splits)
qed

lemma full_table_erase_lambda:
  assumes "full_table_wf T"
  shows "full_table_wf (merase l T)" and "full_table_dests (merase l T) = (full_table_dests T)(l := {})"
  using assms by (auto simp: full_table_wf_def full_table_dests_def fun_eq_iff split: if_splits)

lemma pt_change_parts:
  "pt_table (pt_change H now l d w f P) = (case map_of (pt_table P) l of
     None \<Rightarrow> mput l [(d, (1, f))] (pt_table P) | Some m \<Rightarrow> mupd l (memplace d (1, f)) (pt_table P))"
  "set (pt_lambdas (pt_change H now l d w f P)) = (if map_of (pt_table P) l = None then insert l else id) (set (pt_lambdas P))"
  "swf (pt_lambdas P) \<Longrightarrow> swf (pt_lambdas (pt_change H now l d w f P))"
  "pt_derived (pt_change H now l d w f P) =
     (if d \<in> pt_dests P l then pt_derived P else privateAdd H now l d (pt_derived P))"
  "pt_estimates (pt_change H now l d w f P) = pt_estimates P"
  by (auto simp: pt_change_def full_table_dests_def in_fst_set_iff split: option.split)

locale estimator_hooks =
  fixes H :: "'p pt_hooks"
    and p_inv :: "'p \<Rightarrow> bool"
    and p_dests :: "'p \<Rightarrow> string \<Rightarrow> string set"
  assumes add_law: "p_inv p \<Longrightarrow> p_inv (privateAdd H now l d p) \<and>
      p_dests (privateAdd H now l d p) = (p_dests p)(l := insert d (p_dests p l))"
    and remove_law: "p_inv p \<Longrightarrow> p_inv (privateRemove H l d p) \<and>
      p_dests (privateRemove H l d p) = (p_dests p)(l := p_dests p l - {d})"
begin

lemma change_ok:
  assumes inv: "pt_inv p_inv p_dests P"
  shows "pt_inv p_inv p_dests (pt_change H now l d w f P)"
    and "pt_dests (pt_change H now l d w f P) = (pt_dests P)(l := insert d (pt_dests P l))"
proof -
  note c = pt_change_parts[where H = H and now = now and l = l and d = d and w = w and f = f and P = P]
  have wf: "full_table_wf (pt_table P)" and dv: "p_inv (pt_derived P)" "p_dests (pt_derived P) = pt_dests P"
    using inv by (auto simp: pt_inv_def)
  note e = full_table_emplace[OF wf, of l d "(1, f)", folded c(1)]
  show "pt_dests (pt_change H now l d w f P) = (pt_dests P)(l := insert d (pt_dests P l))" by (rule e(2))
  have "p_inv (pt_derived (pt_change H now l d w f P)) \<and>
      p_dests (pt_derived (pt_change H now l d w f P)) = (pt_dests P)(l := insert d (pt_dests P l))"
    using add_law[OF dv(1), of now l d] dv by (auto simp: c(4) insert_absorb)
  moreover have "map_of (pt_table P) l = None \<longleftrightarrow> pt_dests P l = {}"
    using wf by (auto simp: full_table_wf_def full_table_dests_def split: option.splits)
  then have "set (pt_lambdas (pt_change H now l d w f P)) = {k. ((pt_dests P)(l := insert d (pt_dests P l))) k \<noteq> {}}"
    using inv unfolding c(2) by (auto simp: pt_inv_def)
  ultimately show "pt_inv p_inv p_dests (pt_change H now l d w f P)"
    using e c(3) inv by (simp add: pt_inv_def)
qed

lemma consistency: "pt_inv p_inv p_dests P \<Longrightarrow> assertConsistency l P"
  by (auto simp: pt_inv_def assertConsistency_def full_table_wf_def full_table_dests_def split: option.splits)

lemma internalRemove_ok:
  assumes inv: "pt_inv p_inv p_dests P"
  shows "\<exists>P'. internalRemove H l d P = (Inr (), P') \<and> pt_inv p_inv p_dests P' \<and>
    pt_dests P' = (pt_dests P)(l := pt_dests P l - {d}) \<and> pt_estimates P' = pt_estimates P"
proof (cases "map_of (pt_table P) l")
  case None
  then have "pt_dests P l = {}" by (simp add: full_table_dests_def)
  then show ?thesis using inv None consistency[OF inv, of l] by (auto simp: internalRemove_def fun_eq_iff)
next
  case (Some m)
  have wf: "full_table_wf (pt_table P)" and dv: "p_inv (pt_derived P)" "p_dests (pt_derived P) = pt_dests P"
    using inv by (auto simp: pt_inv_def)
  have D: "pt_dests P l = fst ` set m" using Some by (simp add: full_table_dests_def)
  note e = full_table_erase[OF wf Some, of d]
  define p where "p = (if map_of m d \<noteq> None then privateRemove H l d (pt_derived P) else pt_derived P)"
  have p: "p_inv p \<and> p_dests p = (pt_dests P)(l := pt_dests P l - {d})"
    using remove_law[OF dv(1), of l d] dv by (auto simp: p_def map_of_eq_None_iff simp flip: D)
  define T where "T = (if merase d m = [] then merase l (pt_table P) else mupd l (\<lambda>_. merase d m) (pt_table P))"
  define ls where "ls = (if merase d m = [] then serase l (pt_lambdas P) else pt_lambdas P)"
  have r: "internalRemove H l d P = (Inr (), P\<lparr>pt_table := T, pt_lambdas := ls, pt_derived := p\<rparr>)"
    using Some consistency[OF inv, of l] by (simp add: internalRemove_def Let_def p_def T_def ls_def merase_mupd)
  have "merase d m = [] \<longleftrightarrow> pt_dests P l - {d} = {}" unfolding D using fst_set_merase[of d m]
    by (metis image_is_empty set_empty)
  then have "set ls = {k. ((pt_dests P)(l := pt_dests P l - {d})) k \<noteq> {}}" "swf ls"
    using inv by (auto simp: ls_def pt_inv_def)
  then show ?thesis using r e p by (simp add: pt_inv_def T_def)
qed

lemma remove_all: "p_inv p \<Longrightarrow> p_inv (foldl (\<lambda>p (d, _). privateRemove H l d p) p m) \<and>
    p_dests (foldl (\<lambda>p (d, _). privateRemove H l d p) p m) = (p_dests p)(l := p_dests p l - fst ` set m)"
proof (induction m arbitrary: p)
  case (Cons x m)
  obtain d v where x: "x = (d, v)" by (cases x)
  show ?case using Cons.IH[of "privateRemove H l d p"] remove_law[OF Cons.prems, of l d]
    by (auto simp: x fun_eq_iff)
qed simp

lemma remove_lambda_ok:
  assumes inv: "pt_inv p_inv p_dests P"
  shows "\<exists>P'. pt_remove_lambda H l P = (Inr (), P') \<and> pt_inv p_inv p_dests P' \<and> pt_dests P' = (pt_dests P)(l := {})"
proof -
  have wf: "full_table_wf (pt_table P)" and dv: "p_inv (pt_derived P)" "p_dests (pt_derived P) = pt_dests P"
    using inv by (auto simp: pt_inv_def)
  define p where "p = (case map_of (pt_table P) l of None \<Rightarrow> pt_derived P
    | Some m \<Rightarrow> foldl (\<lambda>p (d, _). privateRemove H l d p) (pt_derived P) m)"
  have p: "p_inv p \<and> p_dests p = (pt_dests P)(l := {})"
  proof (cases "map_of (pt_table P) l")
    case None
    then have "pt_dests P l = {}" by (simp add: full_table_dests_def)
    then show ?thesis using dv None by (auto simp: p_def fun_eq_iff)
  next
    case (Some m)
    then have "pt_dests P l = fst ` set m" by (simp add: full_table_dests_def)
    then show ?thesis using dv Some remove_all[OF dv(1), of l m] by (auto simp: p_def)
  qed
  have r: "pt_remove_lambda H l P = (Inr (), P\<lparr>pt_derived := p, pt_lambdas := serase l (pt_lambdas P), pt_table := merase l (pt_table P)\<rparr>)"
    using consistency[OF inv, of l] by (simp add: pt_remove_lambda_def p_def)
  show ?thesis using r p inv full_table_erase_lambda[OF wf, of l] by (auto simp: pt_inv_def)
qed

lemma processFailure_ok:
  assumes inv: "pt_inv p_inv p_dests P" and a: "map_of (pt_estimates P) a = Some e"
  shows "\<exists>P'. processFailure H a q d P = (Inr (), P') \<and> pt_inv p_inv p_dests P' \<and>
    pt_dests P' = (pt_dests P)(pq_name q := pt_dests P (pq_name q) - {d}) \<and>
    pt_estimates P' = merase a (pt_estimates P)"
proof -
  have "pt_inv p_inv p_dests (P\<lparr>pt_estimates := merase a (pt_estimates P)\<rparr>)" using inv by (simp add: pt_inv_def)
  from internalRemove_ok[OF this, of "pq_name q" d] show ?thesis
    using a by (auto simp: processFailure_def estimate_take_def)
qed

end

text \<open>The estimators are forwarding tables: what the configuration server relies on.\<close>

sublocale estimator_hooks \<subseteq> ft: forwarding_table_if "pt_if H" "\<lambda>_. True" "pt_inv p_inv p_dests" pt_dests "\<lambda>_ _ _. True"
proof
  fix E :: env and P l d f and w :: real
  assume inv: "pt_inv p_inv p_dests P"
  show "\<exists>P'. if_change (pt_if H) E l d w f P = (Inr (), P') \<and> pt_inv p_inv p_dests P' \<and>
      pt_dests P' = (pt_dests P)(l := insert d (pt_dests P l))"
    using change_ok[OF inv] by (simp add: pt_if_def)
  show "\<exists>P'. if_remove (pt_if H) E l d P = (Inr (), P') \<and> pt_inv p_inv p_dests P' \<and>
      pt_dests P' = (pt_dests P)(l := pt_dests P l - {d})"
    using internalRemove_ok[OF inv] by (auto simp: pt_if_def pt_remove_def)
  show "\<exists>P'. if_remove_lambda (pt_if H) E l P = (Inr (), P') \<and> pt_inv p_inv p_dests P' \<and>
      pt_dests P' = (pt_dests P)(l := {})"
    using remove_lambda_ok[OF inv] by (simp add: pt_if_def)
  show "swf (if_lambdas (pt_if H) P) \<and> set (if_lambdas (pt_if H) P) = {l. pt_dests P l \<noteq> {}}"
    using inv by (simp add: pt_if_def pt_inv_def)
  show "full_table_wf (if_fullTable (pt_if H) P) \<and> full_table_dests (if_fullTable (pt_if H) P) = pt_dests P"
    using inv by (simp add: pt_if_def pt_inv_def)
qed

abbreviation pu_inv :: "'e ptime_util \<Rightarrow> bool" where
  "pu_inv U \<equiv> rtt_wf (pu_rtt U) \<and> util_inv (pu_util U) \<and> rtt_dests (pu_rtt U) = util_dests (pu_util U)"

interpretation rtt_h: estimator_hooks "rtt_hooks L" rtt_wf rtt_dests for L :: "'e lin_est"
  by unfold_locales (auto simp: rtt_hooks_def rtt_add_ok rtt_remove_ok)

interpretation util_h: estimator_hooks "util_hooks L" pu_inv "\<lambda>U. util_dests (pu_util U)" for L :: "'e lin_est"
  by unfold_locales (auto simp: util_hooks_def rtt_add_ok rtt_remove_ok util_add_ok util_remove_ok)

interpretation delay_h: estimator_hooks delay_hooks util_inv util_dests
  by unfold_locales (auto simp: delay_hooks_def util_add_ok util_remove_ok)

section \<open>Selection of a destination\<close>

lemma pt_type_roundtrip: "ptimeEstimatorTypeFromString (ptime_toString t) = Inr t"
  by (cases t) (simp_all add: ptimeEstimatorTypeFromString_def ptime_toString_def)

lemma pt_inv_derived:
  "pt_inv I D P \<Longrightarrow> I p \<Longrightarrow> D p = pt_dests P \<Longrightarrow> pt_inv I D (P\<lparr>pt_derived := p\<rparr>)"
  by (simp add: pt_inv_def)

lemma pt_inv_estimates: "pt_inv I D P \<Longrightarrow> pt_inv I D (P\<lparr>pt_estimates := es\<rparr>)"
  by (simp add: pt_inv_def)

lemma pt_inv_dests: "pt_inv I D P \<Longrightarrow> I (pt_derived P) \<and> D (pt_derived P) = pt_dests P"
  by (simp add: pt_inv_def)

lemma rtt_select_ok:
  fixes L :: "'e lin_est"
  assumes inv: "pt_inv rtt_wf rtt_dests P" and a: "map_of (pt_estimates P) a = None"
    and ne: "pt_dests P (pq_name q) \<noteq> {}" and nm: "[] \<notin> pt_dests P (pq_name q)"
    and fin: "\<And>d. d \<in> pt_dests P (pq_name q) \<Longrightarrow> fst (rtt_value L now (pq_name q) d (pt_size q) (pt_derived P)) < flt_max"
  shows "\<exists>d P'. ptime_rtt_select L now a q P = (Inr d, P') \<and> d \<in> pt_dests P (pq_name q) \<and>
    (\<forall>d'\<in>pt_dests P (pq_name q). fst (rtt_value L now (pq_name q) d (pt_size q) (pt_derived P)) \<le>
       fst (rtt_value L now (pq_name q) d' (pt_size q) (pt_derived P))) \<and>
    pt_inv rtt_wf rtt_dests P' \<and> pt_dests P' = pt_dests P \<and> map_of (pt_estimates P') a \<noteq> None"
proof -
  have R: "rtt_wf (pt_derived P)" "rtt_dests (pt_derived P) = pt_dests P" using pt_inv_dests[OF inv] by auto
  obtain d R' where s: "shortestRtt L now (pq_name q) (pt_size q) (pt_derived P) =
      Inr ((d, fst (rtt_value L now (pq_name q) d (pt_size q) (pt_derived P))), R')"
    and d: "d \<in> pt_dests P (pq_name q)"
      "\<forall>d'\<in>pt_dests P (pq_name q). fst (rtt_value L now (pq_name q) d (pt_size q) (pt_derived P)) \<le>
         fst (rtt_value L now (pq_name q) d' (pt_size q) (pt_derived P))"
    and R': "rtt_wf R'" "rtt_dests R' = pt_dests P"
    using shortestRtt_minimum[OF R(1), of "pq_name q" L now "pt_size q"] ne nm fin unfolding R(2) by auto
  show ?thesis using d a pt_inv_estimates[OF pt_inv_derived[OF inv R']]
    by (intro exI[of _ d] exI) (auto simp: ptime_rtt_select_def on_derived_def s estimate_emplace_def)
qed

lemma util_select_ok:
  fixes L :: "'e lin_est"
  assumes inv: "pt_inv pu_inv (\<lambda>U. util_dests (pu_util U)) P" and a: "map_of (pt_estimates P) a = None"
    and ne: "pt_dests P (pq_name q) \<noteq> {}"
    and fin: "\<exists>d\<in>pt_dests P (pq_name q).
      fst (rtt_value L now (pq_name q) d (pt_size q) (pu_rtt (pt_derived P))) +
      util_ptime L now (pq_name q) (pt_size q) (pu_util (pt_derived P)) d < flt_max"
  shows "\<exists>d P'. ptime_util_select L now a q P = (Inr d, P') \<and> d \<in> pt_dests P (pq_name q) \<and>
    (\<forall>d'\<in>pt_dests P (pq_name q).
       fst (rtt_value L now (pq_name q) d (pt_size q) (pu_rtt (pt_derived P))) +
       util_ptime L now (pq_name q) (pt_size q) (pu_util (pt_derived P)) d \<le>
       fst (rtt_value L now (pq_name q) d' (pt_size q) (pu_rtt (pt_derived P))) +
       util_ptime L now (pq_name q) (pt_size q) (pu_util (pt_derived P)) d') \<and>
    pt_inv pu_inv (\<lambda>U. util_dests (pu_util U)) P' \<and> pt_dests P' = pt_dests P \<and> map_of (pt_estimates P') a \<noteq> None"
proof -
  let ?U = "pt_derived P" and ?l = "pq_name q" and ?n = "pt_size q"
  let ?r = "\<lambda>d. fst (rtt_value L now ?l d ?n (pu_rtt ?U))"
  have U: "rtt_wf (pu_rtt ?U)" "util_inv (pu_util ?U)" "rtt_dests (pu_rtt ?U) = pt_dests P" "util_dests (pu_util ?U) = pt_dests P"
    using pt_inv_dests[OF inv] by auto
  obtain rs R where rs: "rtts L now ?l ?n (pu_rtt ?U) = Inr (rs, R)" "mwf rs" "fst ` set rs = util_dests (pu_util ?U) ?l"
    "\<And>d. d \<in> util_dests (pu_util ?U) ?l \<Longrightarrow> map_of rs d = Some (?r d)" and R: "rtt_wf R" "rtt_dests R = pt_dests P"
    using rtts_values[OF U(1), of ?l L now ?n] ne unfolding U(3,4) by auto
  obtain d V where b: "util_best L now ?l ?n rs (pu_util ?U) = Inr ((d, ?r d, util_ptime L now ?l ?n (pu_util ?U) d), V)"
    and d: "d \<in> pt_dests P ?l" "\<forall>d'\<in>pt_dests P ?l. ?r d + util_ptime L now ?l ?n (pu_util ?U) d \<le>
        ?r d' + util_ptime L now ?l ?n (pu_util ?U) d'" and V: "util_inv V" "util_dests V = pt_dests P"
    using util_best_minimum[OF U(2) _ rs(2-4), of L now ?n] ne fin unfolding U(4) by auto
  have new: "pu_inv (?U\<lparr>pu_rtt := R, pu_util := V\<rparr>)" "util_dests (pu_util (?U\<lparr>pu_rtt := R, pu_util := V\<rparr>)) = pt_dests P"
    using R V by simp_all
  show ?thesis using d a pt_inv_estimates[OF pt_inv_derived[OF inv new]]
    by (intro exI[of _ d] exI) (auto simp: ptime_util_select_def on_derived_def rs(1) b estimate_emplace_def Let_def)
qed

lemma util_success_inv:
  assumes inv: "pt_inv pu_inv (\<lambda>U. util_dests (pu_util U)) P"
    and s: "ptime_util_success L now a q d rep t P = (r, P')"
  shows "pt_inv pu_inv (\<lambda>U. util_dests (pu_util U)) P' \<and> pt_dests P' = pt_dests P"
proof (cases "map_of (pt_estimates P) a")
  case None
  then show ?thesis using s inv by (simp add: ptime_util_success_def estimate_take_def Let_def)
next
  case (Some e)
  let ?U = "pt_derived P" and ?P = "P\<lparr>pt_estimates := merase a (pt_estimates P)\<rparr>"
  let ?rtt = "t - ms_seconds (rs_processingTime rep)"
  let ?us = "util_sample L now (pq_name q) d (pt_size q) (ms_seconds (rs_processingTime rep)) (unat (rs_load1 rep)) (pu_util ?U)"
  have U: "rtt_wf (pu_rtt ?U)" "util_inv (pu_util ?U)" "rtt_dests (pu_rtt ?U) = pt_dests P" "util_dests (pu_util ?U) = pt_dests P"
    using pt_inv_dests[OF inv] by auto
  note iP = pt_inv_estimates[OF inv, of "merase a (pt_estimates P)"]
  show ?thesis
  proof (cases ?us)
    case (Inl e)
    then show ?thesis using s Some iP
      by (auto simp: ptime_util_success_def estimate_take_def Let_def on_derived_def)
  next
    case (Inr V)
    note V = util_sample_ok[OF U(2) Inr]
    show ?thesis
    proof (cases "rtt_sample L now (pq_name q) d (pt_size q) ?rtt (pu_rtt ?U)")
      case (Inl e)
      then have "P' = ?P\<lparr>pt_derived := ?U\<lparr>pu_util := V\<rparr>\<rparr>" using s Some Inr
        by (simp add: ptime_util_success_def estimate_take_def Let_def on_derived_def)
      then show ?thesis using V U iP by (simp add: pt_inv_def)
    next
      case R: (Inr R)
      then have "P' = ?P\<lparr>pt_derived := ?U\<lparr>pu_util := V, pu_rtt := R\<rparr>\<rparr>" using s Some Inr
        by (simp add: ptime_util_success_def estimate_take_def Let_def on_derived_def)
      then show ?thesis using V U iP rtt_sample_ok[OF U(1) R] by (simp add: pt_inv_def)
    qed
  qed
qed

lemma util_best_keeps:
  assumes inv: "util_inv U" and b: "util_best L now l n rs U = Inr (r, V)"
  shows "util_inv V \<and> util_dests V = util_dests U"
proof -
  let ?f = "desc_ptime L (ue_loadTimeout U) now n"
  obtain ps T cs where a: "dt_all ?f l (ue_table U) (ue_computers U) = Inr (ps, T, cs)"
    and V: "V = U\<lparr>ue_table := T, ue_computers := cs\<rparr>" using b by (auto simp: util_best_def rbind_eq_Inr)
  from a obtain m m' where m: "map_of (ue_table U) l = Some m" and lp: "all_loop ?f m [] (ue_computers U) = (ps, m', cs)"
    and T: "T = mupd l (\<lambda>_. m') (ue_table U)" by (auto simp: dt_all_def split: option.splits prod.splits if_splits)
  have "map (\<lambda>(d, x). (d, ld_destination x)) m' = map (\<lambda>(d, x). (d, ld_destination x)) m"
    "lambdas_of cs = lambdas_of (ue_computers U)"
    using all_loop_keeps[where g = ld_destination and h = lambdas_of, OF _ _ lp] by (simp_all add: desc_ptime_keeps)
  then show ?thesis using util_search_inv[OF inv m] unfolding V T by blast
qed

lemma rtts_keeps:
  assumes wf: "rtt_wf R" and b: "rtts L now l n R = Inr (r, R')"
  shows "rtt_wf R' \<and> rtt_dests R' = rtt_dests R"
proof (cases "rtt_dests R l = {}")
  case True
  then show ?thesis using b by (simp add: rtts_def dt_all_error[OF True wf])
next
  case False
  then show ?thesis using rtts_values[OF wf False, of L now n] b by auto
qed

lemma util_select_keeps:
  assumes inv: "pt_inv pu_inv (\<lambda>U. util_dests (pu_util U)) P"
    and s: "ptime_util_select L now a q P = (Inr d, P')"
  shows "pt_inv pu_inv (\<lambda>U. util_dests (pu_util U)) P' \<and> pt_dests P' = pt_dests P"
proof -
  let ?U = "pt_derived P"
  have U: "rtt_wf (pu_rtt ?U)" "util_inv (pu_util ?U)" "rtt_dests (pu_rtt ?U) = pt_dests P" "util_dests (pu_util ?U) = pt_dests P"
    using pt_inv_dests[OF inv] by auto
  note defs = ptime_util_select_def on_derived_def Let_def estimate_emplace_def
  obtain rs R where r: "rtts L now (pq_name q) (pt_size q) (pu_rtt ?U) = Inr (rs, R)"
    using s by (cases "rtts L now (pq_name q) (pt_size q) (pu_rtt ?U)") (auto simp: defs)
  obtain b V where b: "util_best L now (pq_name q) (pt_size q) rs (pu_util ?U) = Inr (b, V)"
    using s r by (cases "util_best L now (pq_name q) (pt_size q) rs (pu_util ?U)") (auto simp: defs)
  have P': "\<exists>es. P' = P\<lparr>pt_derived := ?U\<lparr>pu_rtt := R, pu_util := V\<rparr>, pt_estimates := es\<rparr>"
    using s r b by (cases b) (auto simp: defs split: option.splits)
  show ?thesis using P' rtts_keeps[OF U(1) r] util_best_keeps[OF U(2) b] U inv by (auto simp: pt_inv_def)
qed

subsection \<open>All the histories of an estimator\<close>

text \<open>
  The operations that the configuration server and the dispatcher invoke, each under the lock of the
  estimator, in any order.
\<close>

inductive us_step :: "'e lin_est \<Rightarrow> 'e ptime_util ptime_est \<Rightarrow> 'e ptime_util ptime_est \<Rightarrow> bool" for L where
  us_change: "us_step L P (pt_change (util_hooks L) now l d w f P)"
| us_change_weight: "us_step L P (pt_change_weight l d w P)"
| us_remove: "pt_remove (util_hooks L) l d P = (r, P') \<Longrightarrow> us_step L P P'"
| us_remove_lambda: "pt_remove_lambda (util_hooks L) l P = (r, P') \<Longrightarrow> us_step L P P'"
| us_select: "ptime_util_select L now a q P = (Inr d, P') \<Longrightarrow> us_step L P P'"
| us_success: "ptime_util_success L now a q d rep t P = (r, P') \<Longrightarrow> us_step L P P'"
| us_failure: "processFailure (util_hooks L) a q d P = (r, P') \<Longrightarrow> us_step L P P'"

definition ptime_util_new :: "nat \<Rightarrow> real \<Rightarrow> real \<Rightarrow> nat \<Rightarrow> 'e ptime_util ptime_est" where
  "ptime_util_new rttWindow rttStale loadTimeout utilWindow =
     pt_new \<lparr>pu_rtt = rtt_new rttWindow rttStale, pu_util = util_new loadTimeout utilWindow\<rparr>"

definition util_reachable :: "'e lin_est \<Rightarrow> 'e ptime_util ptime_est \<Rightarrow> bool" where
  "util_reachable L P \<longleftrightarrow> (\<exists>rw rs lt uw. (us_step L)\<^sup>*\<^sup>* (ptime_util_new rw rs lt uw) P)"

lemma util_step_inv:
  "us_step L P P' \<Longrightarrow> pt_inv pu_inv (\<lambda>U. util_dests (pu_util U)) P \<Longrightarrow>
     pt_inv pu_inv (\<lambda>U. util_dests (pu_util U)) P'"
proof (induction rule: us_step.induct)
  case (us_change P now l d w f)
  then show ?case by (rule util_h.change_ok(1))
next
  case (us_change_weight P l d w)
  then show ?case by (simp add: pt_change_weight_def)
next
  case (us_remove l d P r P')
  then show ?case using util_h.internalRemove_ok[OF us_remove(2), of L l d] by (auto simp: pt_remove_def)
next
  case (us_remove_lambda l P r P')
  then show ?case using util_h.remove_lambda_ok[OF us_remove_lambda(2), of L l] by auto
next
  case (us_select now a q P d P')
  then show ?case using util_select_keeps by blast
next
  case (us_success now a q d rep t P r P')
  then show ?case using util_success_inv by blast
next
  case (us_failure a q d P r P')
  show ?case
  proof (cases "map_of (pt_estimates P) a")
    case None
    then show ?thesis using us_failure by (simp add: processFailure_def estimate_take_def)
  next
    case (Some e)
    then show ?thesis using util_h.processFailure_ok[OF us_failure(2) Some, of L q d] us_failure(1) by auto
  qed
qed

lemma util_reachable_inv:
  assumes "util_reachable L P"
  shows "pt_inv pu_inv (\<lambda>U. util_dests (pu_util U)) P"
proof -
  obtain rw rs lt uw where r: "(us_step L)\<^sup>*\<^sup>* (ptime_util_new rw rs lt uw) P" using assms by (auto simp: util_reachable_def)
  have "pt_inv pu_inv (\<lambda>U. util_dests (pu_util U)) (ptime_util_new rw rs lt uw)"
    using util_new_inv[of lt uw]
    by (auto simp: pt_inv_def ptime_util_new_def pt_new_def rtt_new_def full_table_wf_def full_table_dests_def util_new_def fun_eq_iff)
  from r this show ?thesis by (induction rule: rtranclp_induct) (auto intro: util_step_inv)
qed

section \<open>Properties\<close>

text \<open>
  C18: After any history of configuration commands, selections, answers and failures, the tables of the
  utilization-based estimator agree: the set of lambdas is the domain of the table, the round-trip-time
  estimator and the utilization estimator know exactly the pairs of the table, and the load of a computer is
  kept exactly as long as some lambda lists the computer.
\<close>

theorem util_estimator_tables_agree:
  assumes "util_reachable L P"
  shows "set (pt_lambdas P) = {l. pt_dests P l \<noteq> {}} \<and>
    rtt_dests (pu_rtt (pt_derived P)) = pt_dests P \<and>
    util_dests (pu_util (pt_derived P)) = pt_dests P \<and>
    fst ` set (ue_computers (pu_util (pt_derived P))) = (\<Union>l. pt_dests P l)"
proof -
  note inv = util_reachable_inv[OF assms]
  let ?U = "pu_util (pt_derived P)"
  have U: "util_inv ?U" "util_dests ?U = pt_dests P" "rtt_dests (pu_rtt (pt_derived P)) = pt_dests P"
    using pt_inv_dests[OF inv] by auto
  have "d \<in> fst ` set (ue_computers ?U) \<longleftrightarrow> (\<exists>l. d \<in> pt_dests P l)" for d
  proof -
    have "case map_of (ue_computers ?U) d of None \<Rightarrow> \<forall>l. d \<notin> util_dests ?U l
        | Some c \<Rightarrow> swf (cd_lambdas c) \<and> cd_lambdas c \<noteq> [] \<and> set (cd_lambdas c) = {l. d \<in> util_dests ?U l}"
      using U(1) unfolding util_inv_def by blast
    then show ?thesis by (auto simp: in_fst_set_iff U(2) split: option.splits)
      (metis (no_types, lifting) mem_Collect_eq set_empty ex_in_conv)
  qed
  then have "fst ` set (ue_computers ?U) = (\<Union>l. pt_dests P l)" unfolding set_eq_iff by simp
  then show ?thesis using U inv by (simp add: pt_inv_def)
qed

definition flat_est :: "unit lin_est" where
  "flat_est = \<lparr>le_new = (\<lambda>_ _. ()), le_add = (\<lambda>_ _ _ e. e), le_extrapolate = (\<lambda>_ _ e. (0, e))\<rparr>"

definition flat_state :: "unit ptime_util ptime_est" where
  "flat_state = pt_change (util_hooks flat_est) 0 ''f'' ''h:1'' 1 True (ptime_util_new 10 1 1 10)"

lemma flat_state_reachable: "util_reachable flat_est flat_state"
  unfolding util_reachable_def flat_state_def by (blast intro: us_change)

lemma flat_state_table: "pt_table flat_state = [(''f'', [(''h:1'', (1, True))])]" "pt_estimates flat_state = []"
  by (simp_all add: flat_state_def pt_change_def ptime_util_new_def pt_new_def)

lemma flat_state_dests: "pt_dests flat_state = (\<lambda>l. if l = ''f'' then {''h:1''} else {})"
  by (auto simp: full_table_dests_def flat_state_table fun_eq_iff)

theorem util_estimator_tables_agree_witness:
  "util_reachable flat_est flat_state \<and> rtt_dests (pu_rtt (pt_derived flat_state)) ''f'' = {''h:1''}"
  using util_estimator_tables_agree[OF flat_state_reachable] flat_state_reachable by (simp add: flat_state_dests)


definition probe_req :: pb_request where
  "probe_req = \<lparr>pq_name = ''f'', pq_input = ''abc'', pq_datain = [], pq_dry = False, pq_forward = False, pq_hops = 0,
     pq_states = [], pq_callback = [], pq_chain = [], pq_dag = \<lparr>pb_successors = [], pb_names = []\<rparr>,
     pq_dependencies = [], pq_nextFunctionIndex = 0, pq_uuid = ''u''\<rparr>"

lemma flat_state_total:
  "fst (rtt_value flat_est now l d n (pu_rtt (pt_derived flat_state))) +
   util_ptime flat_est now l n (pu_util (pt_derived flat_state)) d = 0"
proof -
  have "fst (rtt_value flat_est now l d n R) = 0" for R
    by (auto simp: rtt_value_def rtt_desc_def flat_est_def split: sum.split)
  moreover have "util_ptime flat_est now l n U d = 0" for U
    by (auto simp: util_ptime_def desc_ptime_value flat_est_def split: option.split)
  ultimately show ?thesis by simp
qed


text \<open>
  The probing estimator: what the loop over the destinations returns when a single one answers.
\<close>

lemma probe_loop_single:
  assumes ok: "\<And>x. rs_retCode (rep x) = ''OK'' \<longleftrightarrow> x = d"
    and "distinct (mkeys ds)" and "d \<in> fst ` set ds" and "unat (rs_processingTime (rep d)) < snd b"
  shows "probe_loop (\<lambda>x. Inr (rep x)) ds b = Inr (d, unat (rs_processingTime (rep d)))"
proof -
  have skip: "probe_loop (\<lambda>x. Inr (rep x)) ds b = Inr b" if "d \<notin> fst ` set ds" for ds :: "(string, real) smap" and b
    using that by (induction ds) (auto simp: ok)
  show ?thesis using assms(2-4)
  proof (induction ds)
    case (Cons p ds)
    obtain e v where p: "p = (e, v)" by (cases p)
    show ?case
    proof (cases "e = d")
      case True
      have "d \<notin> fst ` set ds" using Cons.prems True p by auto
      then show ?thesis using Cons.prems True skip[of ds] by (simp add: p ok)
    next
      case False
      then have "d \<in> fst ` set ds" using Cons.prems(2) p by auto
      then show ?thesis using Cons.IH Cons.prems False by (simp add: p ok)
    qed
  qed simp
qed

interpretation zero_obj: stable_objective zero_value
  by unfold_locales (simp add: zero_value_def)

text \<open>
  A destination that is removed from the table of the probing estimator stays among its candidates,
  because the hook of a removal adds the pair: if it is the one that answers the probe, it is selected
  for a lambda although the table does not list it any more.
\<close>

theorem probe_selects_removed_destination:
  assumes wf: "dt_wf (pt_derived P)" and ok: "assertConsistency l P" and ft: "full_table_wf (pt_table P)"
    and d: "d \<in> pt_dests P l" "d \<noteq> []" and a: "map_of (pt_estimates P) a = None" and q: "pq_name q = l"
    and probe: "\<And>x. rs_retCode (rep x) = ''OK'' \<longleftrightarrow> x = d"
      "unat (rs_processingTime (rep d)) < uint_max"
  shows "\<exists>P' P''. pt_remove probe_hooks l d P = (Inr (), P') \<and> d \<notin> pt_dests P' l \<and>
    ptime_probe_select (\<lambda>x. Inr (rep x)) a q P' = (Inr d, P'')"
proof -
  obtain m where m: "map_of (pt_table P) l = Some m" and dm: "d \<in> fst ` set m"
    using d(1) by (auto simp: full_table_dests_def split: option.splits)
  then have md: "map_of m d \<noteq> None" by (simp add: map_of_eq_None_iff)
  define T where "T = snd (dt_add (\<lambda>_ _. ()) l d (pt_derived P))"
  have T: "dt_wf T" "d \<in> dt_dests T l" using dt_add_ok(1,2)[OF wf, of "\<lambda>_ _. ()" l d] by (simp_all add: T_def)
  have "\<exists>P'. pt_remove probe_hooks l d P = (Inr (), P') \<and> pt_derived P' = T \<and> pt_estimates P' = pt_estimates P \<and>
    pt_table P' = (if merase d m = [] then merase l (pt_table P) else mupd l (\<lambda>_. merase d m) (pt_table P))"
    using m md ok by (auto simp: pt_remove_def internalRemove_def Let_def probe_hooks_def T_def merase_mupd)
  then obtain P' where P': "pt_remove probe_hooks l d P = (Inr (), P')" "pt_derived P' = T" "pt_estimates P' = pt_estimates P"
    "pt_table P' = (if merase d m = [] then merase l (pt_table P) else mupd l (\<lambda>_. merase d m) (pt_table P))"
    by blast
  have gone: "d \<notin> pt_dests P' l" using full_table_erase[OF ft m, of d] P'(4) by simp
  obtain n where n: "map_of T l = Some n" "d \<in> fst ` set n" using T(2) by (auto simp: dt_dests_def split: option.splits)
  obtain ds n' where al: "dt_all zero_value l T () = Inr (ds, mupd l (\<lambda>_. n') T, ())" "mwf ds"
    "map_of ds = (\<lambda>d. map_option (\<lambda>x. fst (zero_value x ())) (map_of n d))"
    using zero_obj.dt_all_values[OF T(1) n(1), of "()"] by auto
  have "d \<in> fst ` set ds" using n(2) unfolding in_fst_set_iff al(3) by auto
  then have "probe_loop (\<lambda>x. Inr (rep x)) ds ([], uint_max) = Inr (d, unat (rs_processingTime (rep d)))"
    using probe_loop_single[OF probe(1) mwf_distinct[OF al(2)]] probe(2) by simp
  then have "\<exists>P''. ptime_probe_select (\<lambda>x. Inr (rep x)) a q P' = (Inr d, P'')"
    using d(2) probe(2) a by (simp add: ptime_probe_select_def on_derived_def P'(2,3) q al(1) estimate_emplace_def)
  then show ?thesis using P'(1) gone by blast
qed

definition ok_only :: "string \<Rightarrow> string \<Rightarrow> response" where
  "ok_only d x = \<lparr>rs_retCode = (if x = d then ''OK'' else ''no''), rs_output = [], rs_responder = [], rs_processingTime = 5,
     rs_dataOut = [], rs_load1 = 0, rs_load10 = 0, rs_load30 = 0, rs_hops = 0, rs_states = [], rs_asynchronous = False\<rparr>"

theorem probe_selects_removed_destination_witness:
  "\<exists>P' P''. pt_remove probe_hooks ''f'' ''h:1'' (pt_change probe_hooks 0 ''f'' ''h:1'' 1 True (pt_new [])) = (Inr (), P') \<and>
     ''h:1'' \<notin> pt_dests P' ''f'' \<and>
     ptime_probe_select (\<lambda>x. Inr (ok_only ''h:1'' x)) 7 probe_req P' = (Inr ''h:1'', P'')"
proof (rule probe_selects_removed_destination)
  let ?P = "pt_change probe_hooks 0 ''f'' ''h:1'' 1 True (pt_new [])"
  have P: "pt_table ?P = [(''f'', [(''h:1'', (1, True))])]" "pt_lambdas ?P = [''f'']" "pt_estimates ?P = []"
    "pt_derived ?P = snd (dt_add (\<lambda>_ _. ()) ''f'' ''h:1'' [])"
    by (simp_all add: pt_change_def pt_new_def probe_hooks_def)
  show "dt_wf (pt_derived ?P)" unfolding P(4) by (rule dt_add_ok(1)) simp
  show "assertConsistency ''f'' ?P" by (simp add: assertConsistency_def P)
  show "full_table_wf (pt_table ?P)" by (simp add: P full_table_wf_def)
  show "''h:1'' \<in> pt_dests ?P ''f''" by (simp add: P full_table_dests_def)
  show "map_of (pt_estimates ?P) 7 = None" by (simp add: P)
  show "pq_name probe_req = ''f''" by (simp add: probe_req_def)
qed (simp_all add: ok_only_def uint_max_def)

end
