(* ===== verification/LambdaProcessor.thy ===== *)
theory LambdaProcessor
  imports PtimeEstimator ForwardingTable
begin

text \<open>
  The lambda processors, \<open>Edge/edgelambdaprocessor.cpp\<close>, \<open>edgerouter.cpp\<close> and \<open>edgedispatcher.cpp\<close>,
  with the local optimizers of a router, \<open>localoptimizer*.cpp\<close>.

  A processor answers a request by trying one destination after another until a call succeeds. The
  derived class (a router with two forwarding tables, a dispatcher with an estimator) chooses the
  destination and is told of the result; its virtual functions are a record of functions, and what the
  loop relies on is the locale \<open>lambda_processor\<close>, which the router and the dispatcher interpret.

  What happens outside is the record \<open>outside\<close> of an attempt: the environment, the answer of the
  remote node, the time the call took, and what the other threads do to the tables during the call.
\<close>

section \<open>The processor\<close>

text \<open>The messages of the exceptions; \<open>fmt\<close> is \<open>std::to_string\<close> of a \<open>float\<close>.\<close>

abbreviation quote :: "string \<Rightarrow> string" where
  "quote s \<equiv> [CHR 0x27] @ s @ [CHR 0x27]"

fun what :: "(real \<Rightarrow> string) \<Rightarrow> exn \<Rightarrow> string" where
  "what fmt (NoDestinations None) = ''No destinations found for the entry''"
| "what fmt (NoDestinations (Some e)) = ''No destinations found for the entry: '' @ e"
| "what fmt (InvalidDestinationFor l d) = ''Invalid destination towards '' @ quote d @ '' for lambda function '' @ quote l"
| "what fmt (InvalidDestination d w) = ''Invalid destination towards '' @ quote d @ '' with weight '' @ fmt w"
| "what fmt (InvalidWeight w) = ''Invalid weight '' @ quote (fmt w) @ '', must be > 0''"
| "what fmt (InvalidWeightFactor w) = ''Invalid weight factor '' @ quote (fmt w) @ '', must be > 0''"
| "what fmt (InvalidForwardingTableType t) = ''Invalid forwarding table type '' @ quote t"
| "what fmt (RuntimeError m) = m"
| "what fmt (JsonError m) = m"
| "what fmt (Undefined m) = m"

record 's lp_hooks =
  lp_destination :: "env \<Rightarrow> pb_request \<Rightarrow> 's \<Rightarrow> (exn + string) \<times> 's"
  lp_success :: "env \<Rightarrow> pb_request \<Rightarrow> string \<Rightarrow> response \<Rightarrow> real \<Rightarrow> 's \<Rightarrow> (exn + unit) \<times> 's"
  lp_failure :: "env \<Rightarrow> pb_request \<Rightarrow> string \<Rightarrow> 's \<Rightarrow> (exn + unit) \<times> 's"

record 's outside =
  ow_env :: env
  ow_run :: "string \<Rightarrow> request \<Rightarrow> exn + response"
  ow_time :: real
  ow_others :: "'s \<Rightarrow> 's"

record lp_conf =
  lc_fake :: bool
  lc_controller :: bool
  lc_fmt :: "real \<Rightarrow> string"
  lc_ordS :: "pb_state iter_order"
  lc_ordD :: "string list iter_order"

text \<open>The state: that of the derived class, and the commands sent to the controller.\<close>

record 's lambda_proc =
  lp_derived :: 's
  lp_purged :: "string list"

text \<open>The call of the client pool: one more hop, and the responder if the answer has none.\<close>

definition pool_call :: "'s outside \<Rightarrow> string \<Rightarrow> request \<Rightarrow> exn + response \<times> real" where
  "pool_call W dst r = rbind (ow_run W dst (makeOneMoreHop r)) (\<lambda>rep.
     Inr (if rs_responder rep = [] then rep\<lparr>rs_responder := dst\<rparr> else rep, ow_time W))"

text \<open>
  How the body of the \<open>try\<close> block ends: an answer to return, the code of an error, or undefined
  behaviour, which no handler catches.
\<close>

datatype outcome = Answer response | Failed string | Crash string

fun caught :: "(real \<Rightarrow> string) \<Rightarrow> exn \<Rightarrow> outcome" where
  "caught fmt (Undefined m) = Crash m"
| "caught fmt e = Failed (what fmt e)"

definition lp_try :: "lp_conf \<Rightarrow> 's lp_hooks \<Rightarrow> 's outside \<Rightarrow> pb_request \<Rightarrow> 's \<Rightarrow> outcome \<times> string \<times> 's" where
  "lp_try C H W q s = (case lp_destination H (ow_env W) q s of
       (Inl e, s) \<Rightarrow> (caught (lc_fmt C) e, [], s)
     | (Inr dst, s) \<Rightarrow>
         (let s = ow_others W s
          in case (if lc_fake C then Inr (response_sync ''OK'' [], 1 / 1000 + env_rnd (ow_env W))
                   else rbind (request_from (lc_ordS C) (lc_ordD C) q) (pool_call W dst)) of
               Inl e \<Rightarrow> (caught (lc_fmt C) e, dst, s)
             | Inr (rep, t) \<Rightarrow>
                 if rs_retCode rep = ''OK''
                 then (case lp_success H (ow_env W) q dst rep t s of
                         (Inl e, s) \<Rightarrow> (caught (lc_fmt C) e, dst, s)
                       | (Inr _, s) \<Rightarrow> (Answer rep, dst, s))
                 else (Failed (rs_retCode rep), dst, s)))"

definition controllerCommand_remove :: "lp_conf \<Rightarrow> string \<Rightarrow> 's lambda_proc \<Rightarrow> 's lambda_proc" where
  "controllerCommand_remove C dst S = (if lc_controller C then S\<lparr>lp_purged := lp_purged S @ [dst]\<rparr> else S)"

definition pb_error :: "string \<Rightarrow> pb_response" where
  "pb_error rc = \<lparr>ps_retcode = rc, ps_output = [], ps_responder = [], ps_ptime = 0, ps_dataout = [],
     ps_load1 = 0, ps_load10 = 0, ps_load30 = 0, ps_hops = 0, ps_states = [], ps_asynchronous = False\<rparr>"

text \<open>
  The loop: the attempt number selects what happens outside; \<open>None\<close> is a loop that needs more
  attempts than the fuel.
\<close>

fun lp_process :: "lp_conf \<Rightarrow> 's lp_hooks \<Rightarrow> (nat \<Rightarrow> 's outside) \<Rightarrow> pb_request \<Rightarrow> nat \<Rightarrow> nat \<Rightarrow> 's lambda_proc \<Rightarrow>
    ((exn + pb_response) \<times> 's lambda_proc) option" where
  "lp_process C H W q i 0 S = None"
| "lp_process C H W q i (Suc n) S =
     (if unat (pq_hops q) > 254 then Some (Inr (pb_error ''loop detected''), S)
      else case lp_try C H (W i) q (lp_derived S) of (out, dst, s) \<Rightarrow>
        (let S = S\<lparr>lp_derived := s\<rparr>
         in case out of
              Answer rep \<Rightarrow> Some (Inr (response_toProtobuf rep), S)
            | Crash m \<Rightarrow> Some (Inl (Undefined m), S)
            | Failed rc \<Rightarrow>
                if rc = ''OK'' then Some (Inl (Undefined ''assertion myRetCode != OK''), S)
                else if dst \<noteq> [] then
                  (case lp_failure H (ow_env (W i)) q dst (lp_derived S) of
                     (Inl e, s) \<Rightarrow> Some (Inl e, S\<lparr>lp_derived := s\<rparr>)
                   | (Inr _, s) \<Rightarrow> lp_process C H W q (Suc i) n (controllerCommand_remove C dst (S\<lparr>lp_derived := s\<rparr>)))
                else Some (Inr (pb_error rc), S)))"

section \<open>The local optimizers\<close>

record opt_elem =
  oe_weight :: real
  oe_timestamp :: real

datatype opt_stat = StatMean | StatMin | StatMax

datatype optimizer =
    OptNone
  | OptTrivial opt_stat "(string, (string, real list) smap) smap"
  | OptAsync real "(string, (string, opt_elem) smap) smap"
  | OptAsyncPF

definition statFromString :: "string \<Rightarrow> exn + opt_stat" where
  "statFromString s = (if s = ''mean'' then Inr StatMean else if s = ''min'' then Inr StatMin else if s = ''max'' then Inr StatMax
     else Inl (RuntimeError (''Invalid stat: '' @ s)))"

definition stat_toString :: "opt_stat \<Rightarrow> string" where
  "stat_toString s = (case s of StatMean \<Rightarrow> ''mean'' | StatMin \<Rightarrow> ''min'' | StatMax \<Rightarrow> ''max'')"

text \<open>The weight that the asynchronous optimizer computes, and its new table.\<close>

definition async_update :: "real \<Rightarrow> real \<Rightarrow> string \<Rightarrow> string \<Rightarrow> real \<Rightarrow> (string, (string, opt_elem) smap) smap \<Rightarrow>
    real \<times> (string, (string, opt_elem) smap) smap" where
  "async_update alpha now l d t ws =
     (case map_of ws l of
        None \<Rightarrow> (t, mput l [(d, \<lparr>oe_weight = t, oe_timestamp = now\<rparr>)] ws)
      | Some m \<Rightarrow> (case map_of m d of
            None \<Rightarrow> (t, mupd l (mput d \<lparr>oe_weight = t, oe_timestamp = now\<rparr>) ws)
          | Some e \<Rightarrow>
              (let w = (if now - oe_timestamp e < 5 then t * (1 - alpha) + alpha * oe_weight e else t)
               in (w, mupd l (mupd d (\<lambda>_. \<lparr>oe_weight = w, oe_timestamp = now\<rparr>)) ws))))"

definition NonPositiveTime :: exn where
  "NonPositiveTime = Undefined ''assertion aTime > 0''"

text \<open>\<open>operator[]\<close> adds the entries that are missing.\<close>

definition trivial_add :: "string \<Rightarrow> string \<Rightarrow> real \<Rightarrow> (string, (string, real list) smap) smap \<Rightarrow>
    (string, (string, real list) smap) smap" where
  "trivial_add l d t lats = mupd l (\<lambda>m. mupd d (\<lambda>xs. xs @ [t]) (memplace d [] m)) (memplace l [] lats)"

definition opt_run :: "env \<Rightarrow> pb_request \<Rightarrow> string \<Rightarrow> real \<Rightarrow> optimizer \<times> fwd_table \<Rightarrow>
    (exn + unit) \<times> optimizer \<times> fwd_table" where
  "opt_run E q d t OT = (case OT of (opt, T) \<Rightarrow> (case opt of
       OptNone \<Rightarrow> (Inr (), opt, T)
     | OptTrivial st lats \<Rightarrow> (Inr (), OptTrivial st (trivial_add (pq_name q) d t lats), T)
     | OptAsync alpha ws \<Rightarrow>
         (if \<not> 0 < t then (Inl NonPositiveTime, opt, T)
          else (let (w, ws') = async_update alpha (env_now E) (pq_name q) d t ws;
                    (r, T') = ft_change_weight E (pq_name q) d (env_fl E w) T
                in (r, OptAsync alpha ws', T')))
     | OptAsyncPF \<Rightarrow>
         (if \<not> 0 < t then (Inl NonPositiveTime, opt, T)
          else (let (r, T') = ft_change_weight E (pq_name q) d (env_fl E t) T in (r, opt, T')))))"

text \<open>The periodic task of the trivial optimizer.\<close>

definition opt_balance :: "env \<Rightarrow> opt_stat \<Rightarrow> string \<Rightarrow> (string, real list) smap \<Rightarrow> fwd_table \<Rightarrow> (exn + unit) \<times> fwd_table" where
  "opt_balance E st l m = sfor m (\<lambda>(d, xs) T.
     (let lat = (case st of StatMean \<Rightarrow> ss_mean (env_stat E) xs | StatMin \<Rightarrow> ss_min (env_stat E) xs | StatMax \<Rightarrow> ss_max (env_stat E) xs)
      in if \<not> 0 < lat then (Inl (Undefined ''assertion myLatency > 0.0''), T)
         else ft_change_weight E l d (env_fl E lat) T))"

definition opt_update :: "env \<Rightarrow> optimizer \<times> fwd_table \<Rightarrow> (exn + unit) \<times> optimizer \<times> fwd_table" where
  "opt_update E OT = (case OT of (opt, T) \<Rightarrow> (case opt of
       OptTrivial st lats \<Rightarrow>
         (case sfor lats (\<lambda>(l, m). opt_balance E st l m) T of (r, T') \<Rightarrow> (r, OptTrivial st [], T'))
     | _ \<Rightarrow> (Inr (), opt, T)))"

section \<open>The router\<close>

record router =
  ro_overall :: fwd_table
  ro_overallOpt :: optimizer
  ro_final :: fwd_table
  ro_finalOpt :: optimizer

definition router_destination :: "env \<Rightarrow> pb_request \<Rightarrow> router \<Rightarrow> (exn + string) \<times> router" where
  "router_destination E q R =
     (if pq_forward q
      then (case ft_select E (pq_name q) (ro_final R) of (r, T) \<Rightarrow> (r, R\<lparr>ro_final := T\<rparr>))
      else (case ft_select E (pq_name q) (ro_overall R) of (r, T) \<Rightarrow> (r, R\<lparr>ro_overall := T\<rparr>)))"

definition router_success :: "env \<Rightarrow> pb_request \<Rightarrow> string \<Rightarrow> response \<Rightarrow> real \<Rightarrow> router \<Rightarrow> (exn + unit) \<times> router" where
  "router_success E q d rep t R =
     (if pq_forward q
      then (case opt_run E q d t (ro_finalOpt R, ro_final R) of (r, opt, T) \<Rightarrow> (r, R\<lparr>ro_finalOpt := opt, ro_final := T\<rparr>))
      else (case opt_run E q d t (ro_overallOpt R, ro_overall R) of (r, opt, T) \<Rightarrow>
        (r, R\<lparr>ro_overallOpt := opt, ro_overall := T\<rparr>)))"

definition router_failure :: "env \<Rightarrow> pb_request \<Rightarrow> string \<Rightarrow> router \<Rightarrow> (exn + unit) \<times> router" where
  "router_failure E q d R =
     sbind (case ft_remove E (pq_name q) d (ro_overall R) of (r, T) \<Rightarrow> (r, R\<lparr>ro_overall := T\<rparr>)) (\<lambda>_ R.
       case ft_remove E (pq_name q) d (ro_final R) of (r, T) \<Rightarrow> (r, R\<lparr>ro_final := T\<rparr>))"

definition router_hooks :: "router lp_hooks" where
  "router_hooks = \<lparr>lp_destination = router_destination, lp_success = router_success, lp_failure = router_failure\<rparr>"

section \<open>The dispatcher\<close>

text \<open>With the utilization-based estimator; the request is at address \<open>a\<close>.\<close>

definition dispatcher_destination :: "'e lin_est \<Rightarrow> nat \<Rightarrow> env \<Rightarrow> pb_request \<Rightarrow> 'e ptime_util ptime_est \<Rightarrow>
    (exn + string) \<times> 'e ptime_util ptime_est" where
  "dispatcher_destination L a E q P = ptime_util_select L (env_now E) a q P"

definition dispatcher_success :: "'e lin_est \<Rightarrow> nat \<Rightarrow> env \<Rightarrow> pb_request \<Rightarrow> string \<Rightarrow> response \<Rightarrow> real \<Rightarrow>
    'e ptime_util ptime_est \<Rightarrow> (exn + unit) \<times> 'e ptime_util ptime_est" where
  "dispatcher_success L a E q d rep t P = ptime_util_success L (env_now E) a q d rep t P"

definition dispatcher_failure :: "'e lin_est \<Rightarrow> nat \<Rightarrow> env \<Rightarrow> pb_request \<Rightarrow> string \<Rightarrow> 'e ptime_util ptime_est \<Rightarrow>
    (exn + unit) \<times> 'e ptime_util ptime_est" where
  "dispatcher_failure L a E q d P = processFailure (util_hooks L) a q d P"

definition dispatcher_hooks :: "'e lin_est \<Rightarrow> nat \<Rightarrow> 'e ptime_util ptime_est lp_hooks" where
  "dispatcher_hooks L a = \<lparr>lp_destination = dispatcher_destination L a, lp_success = dispatcher_success L a,
     lp_failure = dispatcher_failure L a\<rparr>"

section \<open>The contract of a derived class\<close>

text \<open>
  \<open>dests\<close> are the destinations that may be chosen for a request, \<open>inv\<close> holds between two attempts
  and \<open>sel\<close> after a destination was chosen.
\<close>

definition is_undefined :: "exn \<Rightarrow> bool" where
  "is_undefined e \<longleftrightarrow> (\<exists>m. e = Undefined m)"

lemma caught_Failed: "\<not> is_undefined e \<Longrightarrow> caught fmt e = Failed (what fmt e)"
  by (cases e) (auto simp: is_undefined_def)

text \<open>An exception that the handler turns into the code of an error.\<close>

definition catchable :: "(real \<Rightarrow> string) \<Rightarrow> exn \<Rightarrow> bool" where
  "catchable fmt e \<longleftrightarrow> \<not> is_undefined e \<and> what fmt e \<noteq> ''OK''"

text \<open>What happens outside when no other thread changes the tables.\<close>

definition attempt_ok :: "lp_conf \<Rightarrow> (env \<Rightarrow> bool) \<Rightarrow> 's outside \<Rightarrow> bool" where
  "attempt_ok C ok W \<longleftrightarrow> ok (ow_env W) \<and> (\<forall>s. ow_others W s = s) \<and> 0 < ow_time W \<and> 0 \<le> env_rnd (ow_env W) \<and>
     (\<forall>d r e. ow_run W d r = Inl e \<longrightarrow> catchable (lc_fmt C) e)"

definition request_ok :: "lp_conf \<Rightarrow> pb_request \<Rightarrow> bool" where
  "request_ok C q \<longleftrightarrow> (\<forall>e. request_from (lc_ordS C) (lc_ordD C) q = Inl e \<longrightarrow> catchable (lc_fmt C) e)"

text \<open>
  What a request does to the processor: the destinations that were tried without success are gone
  from the tables and were reported to the controller, and the answer is that of a destination that
  is still there, or an error because none is left.
\<close>

definition served :: "lp_conf \<Rightarrow> ('s \<Rightarrow> pb_request \<Rightarrow> string set) \<Rightarrow> pb_request \<Rightarrow> 's lambda_proc \<Rightarrow>
    (exn + pb_response) \<Rightarrow> 's lambda_proc \<Rightarrow> string list \<Rightarrow> bool" where
  "served C dests q S r S' tried \<longleftrightarrow>
     distinct tried \<and> set tried \<subseteq> dests (lp_derived S) q \<and>
     dests (lp_derived S') q = dests (lp_derived S) q - set tried \<and>
     lp_purged S' = lp_purged S @ (if lc_controller C then tried else []) \<and>
     ((\<exists>rep. r = Inr (response_toProtobuf rep) \<and> rs_retCode rep = ''OK'' \<and> dests (lp_derived S') q \<noteq> {}) \<or>
      (r = Inr (pb_error ''No destinations found for the entry'') \<and> dests (lp_derived S') q = {}))"

locale lambda_processor =
  fixes H :: "'s lp_hooks"
    and ok :: "env \<Rightarrow> bool"
    and inv :: "'s \<Rightarrow> bool"
    and dests :: "'s \<Rightarrow> pb_request \<Rightarrow> string set"
    and sel :: "'s \<Rightarrow> pb_request \<Rightarrow> string \<Rightarrow> bool"
  assumes finite_law: "inv s \<Longrightarrow> finite (dests s q)"
    and destination_law: "\<lbrakk>ok E; inv s; dests s q \<noteq> {}\<rbrakk> \<Longrightarrow> \<exists>d s'. lp_destination H E q s = (Inr d, s') \<and>
      d \<in> dests s q \<and> d \<noteq> [] \<and> sel s' q d \<and> dests s' q = dests s q"
    and no_destination_law: "\<lbrakk>ok E; inv s; dests s q = {}\<rbrakk> \<Longrightarrow> \<exists>s'. lp_destination H E q s = (Inl (NoDestinations None), s') \<and>
      inv s' \<and> dests s' q = {}"
    and success_law: "\<lbrakk>ok E; sel s q d; 0 < t\<rbrakk> \<Longrightarrow> \<exists>s'. lp_success H E q d rep t s = (Inr (), s') \<and>
      inv s' \<and> dests s' q = dests s q"
    and failure_law: "\<lbrakk>ok E; sel s q d\<rbrakk> \<Longrightarrow> \<exists>s'. lp_failure H E q d s = (Inr (), s') \<and>
      inv s' \<and> dests s' q = dests s q - {d}"
begin

text \<open>
  One attempt when no other thread changes the tables: an answer of a destination, no destination, or
  an error of a destination.
\<close>

lemma try_cases:
  assumes att: "attempt_ok C ok W" and inv: "inv s" and req: "request_ok C q"
  obtains (none) s' where "dests s q = {}" "inv s'" "dests s' q = {}"
      "lp_try C H W q s = (Failed (what (lc_fmt C) (NoDestinations None)), [], s')"
    | (answer) d rep s' where "d \<in> dests s q" "inv s'" "dests s' q = dests s q" "rs_retCode rep = ''OK''"
      "lp_try C H W q s = (Answer rep, d, s')"
    | (failure) d rc s' where "d \<in> dests s q" "d \<noteq> []" "sel s' q d" "dests s' q = dests s q" "rc \<noteq> ''OK''"
      "lp_try C H W q s = (Failed rc, d, s')"
proof -
  have E: "ok (ow_env W)" and alone: "\<And>s. ow_others W s = s" and time: "0 < ow_time W" "0 \<le> env_rnd (ow_env W)"
    and run: "\<And>d r e. ow_run W d r = Inl e \<Longrightarrow> catchable (lc_fmt C) e" using att by (auto simp: attempt_ok_def)
  show ?thesis
proof (cases "dests s q = {}")
  case True
  then show ?thesis using no_destination_law[OF E inv True] none by (auto simp: lp_try_def)
next
  case False
  obtain d s' where d: "lp_destination H (ow_env W) q s = (Inr d, s')" "d \<in> dests s q" "d \<noteq> []" "sel s' q d"
    "dests s' q = dests s q" using destination_law[OF E inv False] by blast
  define r where "r = (if lc_fake C then Inr (response_sync ''OK'' [], 1 / 1000 + env_rnd (ow_env W))
     else rbind (request_from (lc_ordS C) (lc_ordD C) q) (pool_call W d))"
  show ?thesis
  proof (cases r)
    case (Inl e)
    have c: "catchable (lc_fmt C) e" using Inl run req
      by (auto simp: r_def rbind_eq_Inl pool_call_def request_ok_def split: if_splits)
    then have "lp_try C H W q s = (Failed (what (lc_fmt C) e), d, s')"
      using d(1) Inl by (simp add: lp_try_def alone Let_def r_def [symmetric] caught_Failed catchable_def)
    then show ?thesis using failure d c by (auto simp: catchable_def)
  next
    case (Inr p)
    obtain rep t where p: "p = (rep, t)" by (cases p)
    have t: "0 < t" using Inr p time by (auto simp: r_def rbind_eq_Inr pool_call_def split: if_splits)
    show ?thesis
    proof (cases "rs_retCode rep = ''OK''")
      case True
      obtain s'' where s: "lp_success H (ow_env W) q d rep t s' = (Inr (), s'')" "inv s''" "dests s'' q = dests s' q"
        using success_law[OF E d(4) t] by blast
      then have "lp_try C H W q s = (Answer rep, d, s'')"
        using d(1) Inr True by (simp add: lp_try_def alone Let_def r_def [symmetric] p)
      then show ?thesis using answer d s True by metis
    next
      case False
      then have "lp_try C H W q s = (Failed (rs_retCode rep), d, s')"
        using d(1) Inr by (simp add: lp_try_def alone Let_def r_def [symmetric] p)
      then show ?thesis using failure d False by blast
    qed
  qed
qed
qed

lemma process_served:
  assumes "\<forall>i. attempt_ok C ok (W i)" and "request_ok C q" and "\<not> unat (pq_hops q) > 254"
    and "inv (lp_derived S)" and "card (dests (lp_derived S) q) < n"
  shows "\<exists>r S' tried. lp_process C H W q i n S = Some (r, S') \<and> inv (lp_derived S') \<and> served C dests q S r S' tried \<and>
    (dests (lp_derived S') q = {} \<or> (\<exists>j s d rep s'. lp_try C H (W j) q s = (Answer rep, d, s')))"
  using assms(4,5)
proof (induction n arbitrary: i S)
  case 0
  then show ?case by simp
next
  case (Suc n)
  note inv = Suc.prems(1)
  from spec[OF assms(1), of i] inv assms(2) show ?case
  proof (cases rule: try_cases)
    case (none s')
    let ?S = "S\<lparr>lp_derived := s'\<rparr>"
    have "served C dests q S (Inr (pb_error ''No destinations found for the entry'')) ?S []"
      using none by (simp add: served_def)
    moreover have "lp_process C H W q i (Suc n) S = Some (Inr (pb_error ''No destinations found for the entry''), ?S)"
      using none assms(3) by (simp add: Let_def)
    moreover have "inv (lp_derived ?S)" "dests (lp_derived ?S) q = {}" using none by simp_all
    ultimately show ?thesis by blast
  next
    case (answer d rep s')
    let ?S = "S\<lparr>lp_derived := s'\<rparr>"
    have "served C dests q S (Inr (response_toProtobuf rep)) ?S []" using answer by (auto simp: served_def)
    moreover have "lp_process C H W q i (Suc n) S = Some (Inr (response_toProtobuf rep), ?S)"
      using answer assms(3) by (simp add: Let_def)
    moreover have "inv (lp_derived ?S)" using answer(2) by simp
    ultimately show ?thesis using answer(5) by blast
  next
    case (failure d rc s')
    obtain s'' where s: "lp_failure H (ow_env (W i)) q d s' = (Inr (), s'')" "inv s''" "dests s'' q = dests (lp_derived S) q - {d}"
      using failure_law[of "ow_env (W i)", OF _ failure(3)] spec[OF assms(1), of i] unfolding failure(4) attempt_ok_def by blast
    let ?S = "controllerCommand_remove C d (S\<lparr>lp_derived := s''\<rparr>)"
    have S: "lp_derived ?S = s''" "lp_purged ?S = lp_purged S @ (if lc_controller C then [d] else [])"
      by (simp_all add: controllerCommand_remove_def)
    have "card (dests s'' q) < n"
      using Suc.prems(2) card_Diff1_less[OF finite_law[OF inv, of q] failure(1)] unfolding s(3) by simp
    then obtain r S' tried where ih: "lp_process C H W q (Suc i) n ?S = Some (r, S')" "inv (lp_derived S')"
      "served C dests q ?S r S' tried"
      "dests (lp_derived S') q = {} \<or> (\<exists>j s d rep s'. lp_try C H (W j) q s = (Answer rep, d, s'))"
      using Suc.IH[of ?S "Suc i"] s(2) unfolding S(1) by blast
    have "lp_process C H W q i (Suc n) S = Some (r, S')"
      using failure s(1) ih(1) assms(3) by (simp add: Let_def)
    moreover have "served C dests q S r S' (d # tried)"
      using ih(3) S s(3) failure(1) by (auto simp: served_def)
    ultimately show ?thesis using ih(2,4) by blast
  qed
qed

lemma process_loop_detected:
  "unat (pq_hops q) > 254 \<Longrightarrow> lp_process C H W q i (Suc n) S = Some (Inr (pb_error ''loop detected''), S)"
  by simp

text \<open>A request that cannot be read back is refused by every destination.\<close>

lemma process_malformed:
  assumes att: "\<forall>i. attempt_ok C ok (W i)" and e: "request_from (lc_ordS C) (lc_ordD C) q = Inl e" "catchable (lc_fmt C) e"
    and fake: "\<not> lc_fake C" and hops: "\<not> unat (pq_hops q) > 254" and inv: "inv (lp_derived S)"
    and fuel: "card (dests (lp_derived S) q) < n"
  shows "\<exists>r S' tried. lp_process C H W q i n S = Some (r, S') \<and> inv (lp_derived S') \<and> served C dests q S r S' tried \<and>
    set tried = dests (lp_derived S) q"
proof -
  have req: "request_ok C q" using e by (simp add: request_ok_def)
  have c: "caught (lc_fmt C) x \<noteq> Answer rep" for x rep by (cases x) auto
  have no: "lp_try C H (W j) q s \<noteq> (Answer rep, d, s')" for j s rep d s'
    using e(1) fake c by (auto simp: lp_try_def Let_def split: prod.splits sum.splits)
  obtain r S' tried where "lp_process C H W q i n S = Some (r, S')" "inv (lp_derived S')" "served C dests q S r S' tried"
    "dests (lp_derived S') q = {}"
    using process_served[OF att req hops inv fuel, of i] no by blast
  moreover from this have "set tried = dests (lp_derived S) q" by (auto simp: served_def)
  ultimately show ?thesis by blast
qed

end

section \<open>The router keeps the contract\<close>

text \<open>
  The policies whose removals are always defined; the other two have undefined behaviour when the
  destination to remove is the one that the entry has marked.
\<close>

definition opt_inv :: "optimizer \<Rightarrow> bool" where
  "opt_inv opt \<longleftrightarrow> (case opt of OptAsync alpha ws \<Rightarrow> 0 \<le> alpha \<and> alpha \<le> 1 \<and>
     (\<forall>l m d e. map_of ws l = Some m \<longrightarrow> map_of m d = Some e \<longrightarrow> 0 < oe_weight e) | _ \<Rightarrow> True)"

definition table_ok :: "fwd_table \<Rightarrow> bool" where
  "table_ok T \<longleftrightarrow> ft_inv T \<and> theType T \<in> {Random, ProportionalFairness}"

definition router_inv :: "router \<Rightarrow> bool" where
  "router_inv R \<longleftrightarrow> table_ok (ro_overall R) \<and> table_ok (ro_final R) \<and> opt_inv (ro_overallOpt R) \<and> opt_inv (ro_finalOpt R)"

definition router_dests :: "router \<Rightarrow> pb_request \<Rightarrow> string set" where
  "router_dests R q = ft_dests (if pq_forward q then ro_final R else ro_overall R) (pq_name q)"

definition router_env :: "env \<Rightarrow> bool" where
  "router_env E \<longleftrightarrow> ok_env E \<and> (\<forall>x>0. 0 < env_fl E x)"

lemma theType_kept:
  "theType (snd (ft_select E l T)) = theType T" "theType (snd (ft_remove E l d T)) = theType T"
  "theType (snd (ft_change_weight E l d w T)) = theType T"
  by (auto simp: ft_select_def ft_remove_def ft_change_weight_def Let_def split: option.split sum.split prod.split)

lemma table_remove_ok: "table_ok T \<Longrightarrow> ft_rem_ok T l d"
proof (cases "map_of (theTable T) l")
  case (Some e)
  assume T: "table_ok T"
  then have "any_inv (theType T) (ft_alpha T) (ft_beta T) (theDestinations e) (thePolicy e)"
    using Some by (auto simp: table_ok_def ft_inv_def entry_inv_def)
  then have "any_del_ok (theDestinations e) (thePolicy e) d"
    using T by (cases rule: any_inv_cases) (auto simp: any_del_ok_def table_ok_def)
  then show ?thesis using Some by (simp add: ft_rem_ok_def)
qed (simp add: ft_rem_ok_def)

lemma table_select:
  assumes "ok_env E" and "table_ok T" and "ft_dests T l \<noteq> {}"
  shows "\<exists>d T'. ft_select E l T = (Inr d, T') \<and> d \<in> ft_dests T l \<and> table_ok T' \<and> ft_dests T' = ft_dests T"
proof -
  have inv: "ft_inv T" using assms(2) by (simp add: table_ok_def)
  obtain m where m: "ft_abs T l = Some m" using assms(3) by (auto simp: ft_dests_def split: option.splits)
  then obtain d T' where "ft_select E l T = (Inr d, T')" "d \<in> dom m" "ft_inv T'" "ft_abs T' = ft_abs T"
    using ft_select_sim[OF assms(1) inv, of l] by auto
  then show ?thesis using assms(2) theType_kept(1)[of E l T] m by (auto simp: table_ok_def ft_dests_def fun_eq_iff)
qed

lemma table_select_none:
  assumes "ok_env E" and "table_ok T" and "ft_dests T l = {}"
  shows "ft_select E l T = (Inl (NoDestinations None), T)"
proof -
  have inv: "ft_inv T" using assms(2) by (simp add: table_ok_def)
  have "ft_abs T l = None" using assms(3) ft_abs_nonempty[OF inv, of l] by (auto simp: ft_dests_def split: option.splits)
  then show ?thesis using ft_select_sim[OF assms(1) inv, of l] by simp
qed

lemma table_remove:
  assumes "ok_env E" and "table_ok T"
  shows "\<exists>T'. ft_remove E l d T = (Inr (), T') \<and> table_ok T' \<and> ft_dests T' = (ft_dests T)(l := ft_dests T l - {d})"
  using ft_remove_sim[OF assms(1) _ table_remove_ok[OF assms(2)], of l d] assms(2) theType_kept(2)[of E l d T]
    ft_dests_remove by (fastforce simp: table_ok_def)

lemma table_names: "table_ok T \<Longrightarrow> [] \<notin> ft_dests T l \<and> finite (ft_dests T l)"
proof (cases "map_of (theTable T) l")
  case (Some e)
  assume "table_ok T"
  then have "dests_wf (theDestinations e)" using Some by (auto simp: table_ok_def ft_inv_def entry_inv_def)
  then show ?thesis using Some by (auto simp: ft_dests_def ft_abs_def dom_dest_map dests_wf_def)
qed (simp add: ft_dests_def ft_abs_def)

lemma table_reweight:
  assumes "ok_env E" and "table_ok T" and "d \<in> ft_dests T l" and "0 < w"
  shows "\<exists>T'. ft_change_weight E l d w T = (Inr (), T') \<and> table_ok T' \<and> ft_dests T' = ft_dests T"
proof -
  have inv: "ft_inv T" using assms(2) by (simp add: table_ok_def)
  obtain m w0 f where m: "ft_abs T l = Some m" "m d = Some (w0, f)"
    using assms(3) by (auto simp: ft_dests_def split: option.splits)
  have "d \<noteq> []" using table_names[OF assms(2), of l] assms(3) by auto
  from ft_change_weight_sim[OF assms(1) inv this assms(4) m] obtain T' where
    T': "ft_change_weight E l d w T = (Inr (), T')" "ft_inv T'" "ft_abs T' = (ft_abs T)(l \<mapsto> m(d \<mapsto> (w, f)))" by blast
  then have "ft_dests T' = ft_dests T" using m by (auto simp: ft_dests_def fun_eq_iff)
  then show ?thesis using T' assms(2) theType_kept(3)[of E l d w T] by (auto simp: table_ok_def)
qed

lemma async_update_ok:
  assumes "opt_inv (OptAsync alpha ws)" and "0 < t" and "async_update alpha now l d t ws = (w, ws')"
  shows "0 < w \<and> opt_inv (OptAsync alpha ws')"
proof -
  have mix: "0 < t * (1 - alpha) + alpha * x" if "0 < x" for x
  proof (cases "alpha = 1")
    case False
    then have "0 < t * (1 - alpha)" using assms(1,2) by (auto simp: opt_inv_def)
    moreover have "0 \<le> alpha * x" using assms(1) that by (auto simp: opt_inv_def)
    ultimately show ?thesis by linarith
  qed (use that in simp)
  show ?thesis
  proof (cases "map_of ws l")
    case None
    then show ?thesis using assms by (auto simp: async_update_def opt_inv_def split: if_splits)
  next
    case (Some m)
    then show ?thesis using assms mix
      by (cases "map_of m d") (auto simp: async_update_def opt_inv_def Let_def split: if_splits)
  qed
qed

lemma opt_run_ok:
  assumes E: "router_env E" and T: "table_ok T" and opt: "opt_inv opt" and d: "d \<in> ft_dests T (pq_name q)" and t: "0 < t"
  shows "\<exists>opt' T'. opt_run E q d t (opt, T) = (Inr (), opt', T') \<and> opt_inv opt' \<and> table_ok T' \<and> ft_dests T' = ft_dests T"
proof (cases opt)
  case (OptAsync alpha ws)
  obtain w ws' where w: "async_update alpha (env_now E) (pq_name q) d t ws = (w, ws')"
    by (cases "async_update alpha (env_now E) (pq_name q) d t ws")
  note ok = async_update_ok[OF opt[unfolded OptAsync] t w]
  then have "ok_env E" "0 < env_fl E w" using E by (simp_all add: router_env_def)
  from table_reweight[OF this(1) T d this(2)] obtain T' where
    "ft_change_weight E (pq_name q) d (env_fl E w) T = (Inr (), T')" "table_ok T'" "ft_dests T' = ft_dests T" by blast
  then show ?thesis using OptAsync w t ok by (simp add: opt_run_def Let_def)
next
  case OptAsyncPF
  have "ok_env E" "0 < env_fl E t" using E t by (simp_all add: router_env_def)
  from table_reweight[OF this(1) T d this(2)] obtain T' where
    "ft_change_weight E (pq_name q) d (env_fl E t) T = (Inr (), T')" "table_ok T'" "ft_dests T' = ft_dests T" by blast
  then show ?thesis using OptAsyncPF t opt by (simp add: opt_run_def Let_def)
qed (use assms in \<open>simp_all add: opt_run_def opt_inv_def\<close>)

interpretation ro: lambda_processor router_hooks router_env router_inv router_dests
  "\<lambda>R q d. router_inv R \<and> d \<in> router_dests R q"
proof (unfold_locales, goal_cases)
  case (1 s q)
  then show ?case using table_names by (auto simp: router_inv_def router_dests_def)
next
  case (2 E R q)
  have E: "ok_env E" using 2 by (simp add: router_env_def)
  show ?case
  proof (cases "pq_forward q")
    case True
    obtain d T where "ft_select E (pq_name q) (ro_final R) = (Inr d, T)" "d \<in> ft_dests (ro_final R) (pq_name q)"
      "table_ok T" "ft_dests T = ft_dests (ro_final R)"
      using table_select[OF E, of "ro_final R" "pq_name q"] 2 True by (auto simp: router_inv_def router_dests_def)
    moreover from this have "d \<noteq> []" using table_names[of "ro_final R" "pq_name q"] 2 by (auto simp: router_inv_def)
    ultimately show ?thesis using 2 True
      by (simp add: router_hooks_def router_destination_def router_inv_def router_dests_def)
  next
    case False
    obtain d T where "ft_select E (pq_name q) (ro_overall R) = (Inr d, T)" "d \<in> ft_dests (ro_overall R) (pq_name q)"
      "table_ok T" "ft_dests T = ft_dests (ro_overall R)"
      using table_select[OF E, of "ro_overall R" "pq_name q"] 2 False by (auto simp: router_inv_def router_dests_def)
    moreover from this have "d \<noteq> []" using table_names[of "ro_overall R" "pq_name q"] 2 by (auto simp: router_inv_def)
    ultimately show ?thesis using 2 False
      by (simp add: router_hooks_def router_destination_def router_inv_def router_dests_def)
  qed
next
  case (3 E R q)
  then show ?case using table_select_none[of E _ "pq_name q"]
    by (auto simp: router_env_def router_hooks_def router_destination_def router_inv_def router_dests_def)
next
  case (4 E R q d t rep)
  show ?case
  proof (cases "pq_forward q")
    case True
    then obtain opt' T' where "opt_run E q d t (ro_finalOpt R, ro_final R) = (Inr (), opt', T')" "opt_inv opt'"
      "table_ok T'" "ft_dests T' = ft_dests (ro_final R)"
      using opt_run_ok[of E "ro_final R" "ro_finalOpt R" d q t] 4 by (auto simp: router_inv_def router_dests_def)
    then show ?thesis using 4 True by (simp add: router_hooks_def router_success_def router_inv_def router_dests_def)
  next
    case False
    then obtain opt' T' where "opt_run E q d t (ro_overallOpt R, ro_overall R) = (Inr (), opt', T')" "opt_inv opt'"
      "table_ok T'" "ft_dests T' = ft_dests (ro_overall R)"
      using opt_run_ok[of E "ro_overall R" "ro_overallOpt R" d q t] 4 by (auto simp: router_inv_def router_dests_def)
    then show ?thesis using 4 False by (simp add: router_hooks_def router_success_def router_inv_def router_dests_def)
  qed
next
  case (5 E R q d)
  have E: "ok_env E" and ok: "table_ok (ro_overall R)" "table_ok (ro_final R)"
    using 5 by (simp_all add: router_env_def router_inv_def)
  obtain T where T: "ft_remove E (pq_name q) d (ro_overall R) = (Inr (), T)" "table_ok T"
    "ft_dests T = (ft_dests (ro_overall R))(pq_name q := ft_dests (ro_overall R) (pq_name q) - {d})"
    using table_remove[OF E ok(1)] by blast
  obtain T' where T': "ft_remove E (pq_name q) d (ro_final R) = (Inr (), T')" "table_ok T'"
    "ft_dests T' = (ft_dests (ro_final R))(pq_name q := ft_dests (ro_final R) (pq_name q) - {d})"
    using table_remove[OF E ok(2)] by blast
  show ?case using T T' 5 by (auto simp: router_hooks_def router_failure_def router_inv_def router_dests_def)
qed

section \<open>The dispatcher keeps the contract\<close>

text \<open>The estimates of the support library stay away from the largest \<open>float\<close>.\<close>

definition est_bounded :: "'e lin_est \<Rightarrow> bool" where
  "est_bounded L \<longleftrightarrow> (\<forall>now x e. fst (le_extrapolate L now x e) < flt_max / 2)"

abbreviation disp_tables :: "'e ptime_util ptime_est \<Rightarrow> bool" where
  "disp_tables P \<equiv> pt_inv pu_inv (\<lambda>U. util_dests (pu_util U)) P \<and> (\<forall>l. [] \<notin> pt_dests P l)"

definition disp_inv :: "nat \<Rightarrow> 'e ptime_util ptime_est \<Rightarrow> bool" where
  "disp_inv a P \<longleftrightarrow> disp_tables P \<and> map_of (pt_estimates P) a = None"

definition disp_sel :: "nat \<Rightarrow> 'e ptime_util ptime_est \<Rightarrow> pb_request \<Rightarrow> string \<Rightarrow> bool" where
  "disp_sel a P q d \<longleftrightarrow> disp_tables P \<and> d \<in> pt_dests P (pq_name q) \<and> map_of (pt_estimates P) a \<noteq> None"

lemma est_bounded_total:
  assumes "est_bounded L"
  shows "fst (rtt_value L now l d n R) + util_ptime L now l n U d < flt_max"
proof -
  have p: "0 < flt_max / 2" by simp
  have "fst (rtt_desc L now n e) < flt_max / 2" for e
  proof -
    have "fst (le_extrapolate L now (real n) e) < flt_max / 2" using assms by (simp add: est_bounded_def)
    then show ?thesis using p by (auto simp: rtt_desc_def max_def split: prod.split)
  qed
  then have "fst (rtt_value L now l d n R) < flt_max / 2"
    using p by (auto simp: rtt_value_def split: sum.split prod.split) (metis fst_conv)
  moreover have "util_ptime L now l n U d < flt_max / 2"
    using assms p by (auto simp: util_ptime_def desc_ptime_value est_bounded_def split: option.split)
  ultimately show ?thesis by simp
qed

lemma util_select_none:
  assumes inv: "pt_inv pu_inv (\<lambda>U. util_dests (pu_util U)) P" and e: "pt_dests P (pq_name q) = {}"
  shows "ptime_util_select L now a q P = (Inl (NoDestinations None), P)"
proof -
  have "rtt_wf (pu_rtt (pt_derived P))" "rtt_dests (pu_rtt (pt_derived P)) (pq_name q) = {}"
    using pt_inv_dests[OF inv] e by auto
  then show ?thesis by (simp add: ptime_util_select_def on_derived_def rtts_def dt_all_error Let_def)
qed

lemma util_success_ok:
  assumes inv: "pt_inv pu_inv (\<lambda>U. util_dests (pu_util U)) P" and d: "d \<in> pt_dests P (pq_name q)"
    and a: "map_of (pt_estimates P) a \<noteq> None"
  shows "\<exists>P'. ptime_util_success L now a q d rep t P = (Inr (), P') \<and> pt_estimates P' = merase a (pt_estimates P)"
proof -
  let ?U = "pt_derived P"
  have "d \<in> util_dests (pu_util ?U) (pq_name q)" "d \<in> rtt_dests (pu_rtt ?U) (pq_name q)"
    using pt_inv_dests[OF inv] d by auto
  then obtain V R where "util_sample L now (pq_name q) d (pt_size q) (ms_seconds (rs_processingTime rep)) (unat (rs_load1 rep)) (pu_util ?U) = Inr V"
    "rtt_sample L now (pq_name q) d (pt_size q) (t - ms_seconds (rs_processingTime rep)) (pu_rtt ?U) = Inr R"
    using util_sample_iff[of L now "pq_name q" d] rtt_sample_iff[of L now "pq_name q" d] by metis
  then show ?thesis using a by (auto simp: ptime_util_success_def estimate_take_def on_derived_def Let_def)
qed

interpretation di: lambda_processor "dispatcher_hooks L a" "\<lambda>_. est_bounded L" "disp_inv a"
  "\<lambda>P q. pt_dests P (pq_name q)" "disp_sel a" for L :: "'e lin_est" and a
proof (unfold_locales, goal_cases)
  case (1 P q)
  then show ?case by (auto simp: disp_inv_def pt_inv_def full_table_dests_def split: option.split)
next
  case (2 E P q)
  then obtain d P' where "ptime_util_select L (env_now E) a q P = (Inr d, P')" "d \<in> pt_dests P (pq_name q)"
    "pt_inv pu_inv (\<lambda>U. util_dests (pu_util U)) P'" "pt_dests P' = pt_dests P" "map_of (pt_estimates P') a \<noteq> None"
    using util_select_ok[of P a q L "env_now E"] est_bounded_total[of L] unfolding disp_inv_def by blast
  then show ?case using 2 by (auto simp: dispatcher_hooks_def dispatcher_destination_def disp_sel_def disp_inv_def)
next
  case (3 E P q)
  then show ?case using util_select_none[of P q L "env_now E" a]
    by (auto simp: dispatcher_hooks_def dispatcher_destination_def disp_inv_def)
next
  case (4 E P q d t rep)
  then obtain P' where "ptime_util_success L (env_now E) a q d rep t P = (Inr (), P')"
    "pt_estimates P' = merase a (pt_estimates P)" using util_success_ok[of P d q a L "env_now E" rep t] unfolding disp_sel_def by blast
  then show ?case using 4 util_success_inv[of P L "env_now E" a q d rep t]
    by (auto simp: dispatcher_hooks_def dispatcher_success_def disp_inv_def disp_sel_def)
next
  case (5 E P q d)
  then obtain e where inv: "pt_inv pu_inv (\<lambda>U. util_dests (pu_util U)) P" and e: "map_of (pt_estimates P) a = Some e"
    by (auto simp: disp_sel_def)
  then show ?case using 5 util_h.processFailure_ok[OF inv e, of L q d]
    by (auto simp: dispatcher_hooks_def dispatcher_failure_def disp_inv_def disp_sel_def split: if_splits)
qed

section \<open>Properties\<close>

text \<open>The exceptions of the constructors of chains and graphs are caught by the processor.\<close>

lemma makePredecessors_error: "makePredecessors ss = Inl e \<Longrightarrow> e = RuntimeError ''Invalid successor graph''"
proof -
  assume "makePredecessors ss = Inl e"
  then obtain i a where "add_successors i (ss ! i) a = Inl e"
    unfolding makePredecessors_def by (auto dest: foldl_rbind_Inl)
  then show ?thesis unfolding add_successors_def by (auto dest!: foldl_rbind_Inl split: if_splits)
qed

lemma dag_make_error: "dag_make ss fns ds = Inl e \<Longrightarrow> catchable fmt e"
  by (auto simp: dag_make_def rbind_eq_Inl check_functions_def catchable_def is_undefined_def
      split: if_splits option.splits prod.splits dest!: makePredecessors_error)

lemma chain_make_error: "chain_make fns ds = Inl e \<Longrightarrow> catchable fmt e"
  by (auto simp: chain_make_def rbind_eq_Inl check_functions_def catchable_def is_undefined_def split: option.splits)

lemma request_from_error: "request_from ordS ordD q = Inl e \<Longrightarrow> catchable fmt e"
  by (auto simp: request_from_def Let_def rbind_eq_Inl split: if_splits dest: dag_make_error chain_make_error)

lemma request_ok: "request_ok C q"
  using request_from_error by (auto simp: request_ok_def)


definition conf_ex :: lp_conf where
  "conf_ex = \<lparr>lc_fake = False, lc_controller = True, lc_fmt = (\<lambda>_. []), lc_ordS = id, lc_ordD = id\<rparr>"

text \<open>The first node answers, the other ones cannot be reached.\<close>

definition outside_ex :: "string \<Rightarrow> 's outside" where
  "outside_ex up = \<lparr>ow_env = env_ex 0 0,
     ow_run = (\<lambda>d r. if d = up then Inr (response_sync ''OK'' ''out'') else Inl (RuntimeError ''unreachable'')),
     ow_time = 1, ow_others = (\<lambda>s. s)\<rparr>"

definition router_ex :: "router lambda_proc" where
  "router_ex = \<lparr>lp_derived = \<lparr>ro_overall = ft_ex Random, ro_overallOpt = OptAsync (1 / 2) [], ro_final = ft_ex Random,
     ro_finalOpt = OptNone\<rparr>, lp_purged = []\<rparr>"

lemma outside_ex_ok: "ok (env_ex 0 0) \<Longrightarrow> attempt_ok conf_ex ok (outside_ex up)"
  by (auto simp: attempt_ok_def outside_ex_def catchable_def is_undefined_def env_ex_def split: if_splits)

lemma router_env_ex: "router_env (env_ex 0 0)"
  using ok_env_ex[of 0 0] by (simp add: router_env_def env_ex_def)

lemma theType_ft_ex: "theType (ft_ex t) = t"
proof -
  have "theType (snd (ft_change E l d w f T)) = theType T" for E l d w f T
    by (simp add: ft_change_def Let_def split: prod.split)
  then show ?thesis by (simp add: ft_ex_def ft_new_def)
qed

lemma router_ex_inv: "router_inv (lp_derived router_ex)"
  using ft_ex_inv(1)[of Random] by (simp add: router_ex_def router_inv_def table_ok_def opt_inv_def theType_ft_ex)

lemma router_ex_dests: "router_dests (lp_derived router_ex) probe_req = {''a'', ''b''}"
  by (auto simp: router_ex_def router_dests_def probe_req_def ft_dests_def ft_ex_inv(2) spec_ex_def spec_change_def)



definition disp_ex :: "unit ptime_util ptime_est lambda_proc" where
  "disp_ex = \<lparr>lp_derived = flat_state, lp_purged = []\<rparr>"

lemma disp_ex_inv: "disp_inv 7 (lp_derived disp_ex)"
  using util_reachable_inv[OF flat_state_reachable] by (simp add: disp_ex_def disp_inv_def flat_state_dests flat_state_table(2))

lemma flat_est_bounded: "est_bounded flat_est"
  by (simp add: est_bounded_def flat_est_def)


text \<open>
  A request whose graph has the wrong number of functions cannot be read by the router itself; the
  failure is nevertheless attributed to the chosen destination. A single such request, whatever the
  remote nodes do, removes every destination of its lambda from the table of the router and asks the
  controller to remove every one of these computers.
\<close>

theorem router_malformed_request_purges_all:
  assumes "\<forall>i. attempt_ok C router_env (W i)" and "unat (pq_hops q) \<le> 254" and "router_inv (lp_derived S)"
    and "\<not> lc_fake C" and "lc_controller C"
    and "pq_chain q = []" and "pb_successors (pq_dag q) \<noteq> []"
    and "length (pb_names (pq_dag q)) \<noteq> Suc (length (pb_successors (pq_dag q)))"
  shows "\<exists>r S'. lp_process C router_hooks W q i (Suc (card (router_dests (lp_derived S) q))) S = Some (r, S') \<and>
    r = Inr (pb_error ''No destinations found for the entry'') \<and> router_dests (lp_derived S') q = {} \<and>
    set (lp_purged S') = set (lp_purged S) \<union> router_dests (lp_derived S) q"
proof -
  have "\<exists>e. dag_make (pb_successors (pq_dag q)) (pb_names (pq_dag q)) (getDependencies (lc_ordD C) q) = Inl e"
    using assms(8) by (cases "makePredecessors (pb_successors (pq_dag q))") (auto simp: dag_make_def)
  then obtain e where e: "request_from (lc_ordS C) (lc_ordD C) q = Inl e"
    using assms(6,7) by (auto simp: request_from_def Let_def)
  from ro.process_malformed[OF assms(1) e request_from_error[OF e] assms(4) _ assms(3), of "Suc (card (router_dests (lp_derived S) q))" i]
  obtain r S' tried where "lp_process C router_hooks W q i (Suc (card (router_dests (lp_derived S) q))) S = Some (r, S')"
    "served C router_dests q S r S' tried" "set tried = router_dests (lp_derived S) q"
    using assms(2) by auto
  then show ?thesis using assms(5) by (auto simp: served_def)
qed

definition bad_req :: pb_request where
  "bad_req = probe_req\<lparr>pq_dag := \<lparr>pb_successors = [[1]], pb_names = [''f'']\<rparr>\<rparr>"

theorem router_malformed_request_purges_all_witness:
  "\<exists>r S'. lp_process conf_ex router_hooks (\<lambda>_. outside_ex ''a'') bad_req 0 3 router_ex = Some (r, S') \<and>
     router_dests (lp_derived S') bad_req = {} \<and> set (lp_purged S') = {''a'', ''b''}"
proof -
  have "\<forall>i. attempt_ok conf_ex router_env (outside_ex ''a'')" using outside_ex_ok[of router_env] router_env_ex by blast
  moreover have "unat (pq_hops bad_req) \<le> 254" "pq_chain bad_req = []"
    "pq_dag bad_req = \<lparr>pb_successors = [[1]], pb_names = [''f'']\<rparr>" by (simp_all add: bad_req_def probe_req_def)
  moreover have "router_dests (lp_derived router_ex) bad_req = {''a'', ''b''}"
    using router_ex_dests by (simp add: bad_req_def router_dests_def)
  moreover have "lp_purged router_ex = []" "\<not> lc_fake conf_ex" "lc_controller conf_ex" by (simp_all add: router_ex_def conf_ex_def)
  ultimately show ?thesis
    using router_malformed_request_purges_all[of conf_ex "\<lambda>_. outside_ex ''a''" bad_req router_ex 0] router_ex_inv
    by (auto simp: numeral_3_eq_3)
qed

text \<open>
  C36: The estimator releases its lock during the remote call. If the lambda is removed from its tables
  meanwhile, as a configuration command may do, then the positive answer of the destination is not
  returned: registering the measurement throws, after the estimate of the request was erased, the
  handler treats it as a failure of the destination, and the assertion that the estimate exists fails.
\<close>

theorem dispatcher_concurrent_removal_asserts:
  assumes L: "est_bounded L" and inv: "disp_inv a (lp_derived S)" and ne: "pt_dests (lp_derived S) (pq_name q) \<noteq> {}"
    and hops: "unat (pq_hops q) \<le> 254" and fake: "\<not> lc_fake C"
    and req: "request_from (lc_ordS C) (lc_ordD C) q = Inr rq"
    and run: "\<forall>d r. \<exists>rep. ow_run (W i) d r = Inr rep \<and> rs_retCode rep = ''OK''"
    and others: "ow_others (W i) = (\<lambda>P. snd (pt_remove_lambda (util_hooks L) (pq_name q) P))"
  shows "\<exists>S'. lp_process C (dispatcher_hooks L a) W q i (Suc n) S = Some (Inl EstimateMissing, S')"
proof -
  let ?l = "pq_name q" and ?now = "env_now (ow_env (W i))"
  obtain d P1 where sel: "lp_destination (dispatcher_hooks L a) (ow_env (W i)) q (lp_derived S) = (Inr d, P1)"
    and d: "d \<noteq> []" and P1: "disp_sel a P1 q d"
    using di.destination_law[OF L inv ne, of "ow_env (W i)"] by blast
  have inv1: "pt_inv pu_inv (\<lambda>U. util_dests (pu_util U)) P1" using P1 by (simp add: disp_sel_def)
  obtain P2 where P2: "pt_remove_lambda (util_hooks L) ?l P1 = (Inr (), P2)" "pt_inv pu_inv (\<lambda>U. util_dests (pu_util U)) P2"
    "pt_dests P2 = (pt_dests P1)(?l := {})" using util_h.remove_lambda_ok[OF inv1, of L ?l] by blast
  have es: "pt_estimates P2 = pt_estimates P1"
    using P2(1) by (auto simp: pt_remove_lambda_def split: if_splits)
  obtain rep0 where rep0: "ow_run (W i) d (makeOneMoreHop rq) = Inr rep0" "rs_retCode rep0 = ''OK''" using run by blast
  obtain rep t where call: "pool_call (W i) d rq = Inr (rep, t)" "rs_retCode rep = ''OK''"
  proof
    show "pool_call (W i) d rq = Inr (if rs_responder rep0 = [] then rep0\<lparr>rs_responder := d\<rparr> else rep0, ow_time (W i))"
      by (simp add: pool_call_def rep0(1))
    show "rs_retCode (if rs_responder rep0 = [] then rep0\<lparr>rs_responder := d\<rparr> else rep0) = ''OK''" using rep0(2) by simp
  qed
  have "d \<notin> util_dests (pu_util (pt_derived P2)) ?l" using P2(3) pt_inv_dests[OF P2(2)] by simp
  note err = util_sample_error[OF this]
  obtain e where e: "map_of (pt_estimates P2) a = Some e" using P1 es by (auto simp: disp_sel_def)
  let ?P3 = "P2\<lparr>pt_estimates := merase a (pt_estimates P2)\<rparr>"
  have suc: "lp_success (dispatcher_hooks L a) (ow_env (W i)) q d rep t P2 = (Inl (InvalidDestinationFor ?l d), ?P3)"
    by (simp add: dispatcher_hooks_def dispatcher_success_def ptime_util_success_def estimate_take_def e on_derived_def err Let_def)
  have tr: "lp_try C (dispatcher_hooks L a) (W i) q (lp_derived S) =
      (Failed (what (lc_fmt C) (InvalidDestinationFor ?l d)), d, ?P3)"
    using sel fake req call suc by (simp add: lp_try_def others P2(1) Let_def)
  have "lp_failure (dispatcher_hooks L a) (ow_env (W i)) q d ?P3 = (Inl EstimateMissing, ?P3)"
    by (simp add: dispatcher_hooks_def dispatcher_failure_def processFailure_def estimate_take_def)
  then show ?thesis using tr d hops by (simp add: Let_def)
qed

definition outside_race :: "unit ptime_util ptime_est outside" where
  "outside_race = (outside_ex ''h:1'')\<lparr>ow_run := \<lambda>_ _. Inr (response_sync ''OK'' ''out''),
     ow_others := \<lambda>P. snd (pt_remove_lambda (util_hooks flat_est) ''f'' P)\<rparr>"

theorem dispatcher_concurrent_removal_asserts_witness:
  "\<exists>S'. lp_process conf_ex (dispatcher_hooks flat_est 7) (\<lambda>_. outside_race) probe_req 0 1 disp_ex = Some (Inl EstimateMissing, S')"
proof -
  have "unat (pq_hops probe_req) \<le> 254" "pq_name probe_req = ''f''" "pt_dests (lp_derived disp_ex) ''f'' \<noteq> {}"
    "\<not> lc_fake conf_ex" by (simp_all add: probe_req_def disp_ex_def flat_state_dests conf_ex_def)
  moreover have "\<exists>rq. request_from (lc_ordS conf_ex) (lc_ordD conf_ex) probe_req = Inr rq"
    by (simp add: request_from_def probe_req_def Let_def)
  moreover have "\<forall>d r. \<exists>rep. ow_run outside_race d r = Inr rep \<and> rs_retCode rep = ''OK''"
    by (simp add: outside_race_def response_sync_def response_new_def)
  moreover have "ow_others outside_race = (\<lambda>P. snd (pt_remove_lambda (util_hooks flat_est) (pq_name probe_req) P))"
    by (simp add: outside_race_def probe_req_def)
  ultimately show ?thesis
    using dispatcher_concurrent_removal_asserts[OF flat_est_bounded disp_ex_inv, of probe_req conf_ex _ "\<lambda>_. outside_race" 0 0]
    by auto
qed

end
