(* ===== verification/EdgeComputer.thy ===== *)
theory EdgeComputer
  imports StateStore LambdaProcessor
begin

text \<open>
  The edge computer, \<open>Edge/edgecomputer.cpp\<close>: requests that are executed at once (dry or blocking) and
  those with a callback, which are queued; the workers execute the queued requests and either send the
  response to the callback or invoke the next functions of the chain or graph through the companion
  end-point, where a function of a graph with several predecessors waits for all of them.

  The execution of a function is virtual: its outcome is the record \<open>run\<close>, with the identifier of the task
  that \<open>realExecution\<close> started, the response given to \<open>taskDone\<close> and the time measured. A handler is one
  step; the remote calls it makes succeed or fail as the parameters \<open>net\<close> and \<open>sent\<close> say.
\<close>

section \<open>State\<close>

record run =
  run_start :: "exn + nat"
  run_answer :: response
  run_ms :: "32 word"

record edge_computer =
  ec_endpoint :: string
  ec_queue :: "pb_request list option"
  ec_companion :: "string option"
  ec_state :: "string option"
  ec_descriptors :: "(nat, response option) smap"
  ec_invocations :: "(string, nat) smap"

definition ec_new :: "nat \<Rightarrow> string \<Rightarrow> edge_computer" where
  "ec_new aNumThreads e = \<lparr>ec_endpoint = e, ec_queue = (if aNumThreads = 0 then None else Some []), ec_companion = None,
     ec_state = None, ec_descriptors = [], ec_invocations = []\<rparr>"

definition companion :: "string \<Rightarrow> edge_computer \<Rightarrow> (exn + unit) \<times> edge_computer" where
  "companion e c = (if ec_queue c = None
     then (Inl (RuntimeError ''cannot set the companion end-point of a synchronous edge computer''), c)
     else if e = [] then (Inr (), c\<lparr>ec_companion := None\<rparr>) else (Inr (), c\<lparr>ec_companion := Some e\<rparr>))"

definition set_state_endpoint :: "string \<Rightarrow> edge_computer \<Rightarrow> edge_computer" where
  "set_state_endpoint e c = (if e = [] then c\<lparr>ec_state := None\<rparr> else c\<lparr>ec_state := Some e\<rparr>)"

section \<open>Execution of a function\<close>

text \<open>\<open>taskDone\<close> waits until the descriptor of the task is present: no result stands for waiting.\<close>

definition taskDone :: "nat \<Rightarrow> response \<Rightarrow> edge_computer \<Rightarrow> edge_computer option" where
  "taskDone i resp c = (if map_of (ec_descriptors c) i = None then None
     else Some (c\<lparr>ec_descriptors := mput i (Some resp) (ec_descriptors c)\<rparr>))"

definition stateClient :: "edge_computer \<Rightarrow> exn + string" where
  "stateClient c = (case ec_state c of None \<Rightarrow> Inl (RuntimeError ''cannot handle remote states without a state server'')
     | Some e \<Rightarrow> Inr e)"

definition depends_on :: "pb_request \<Rightarrow> string \<Rightarrow> bool" where
  "depends_on req s = (case map_of (pq_dependencies req) s of None \<Rightarrow> False | Some fs \<Rightarrow> pq_name req \<in> set fs)"

text \<open>The loop over the states of the request.\<close>

fun remote_states :: "(nat \<Rightarrow> bool) \<Rightarrow> edge_computer \<Rightarrow> pb_request \<Rightarrow> (string \<times> pb_state) list \<Rightarrow> pb_response \<Rightarrow>
    state_world \<Rightarrow> (exn + pb_response) \<times> state_world" where
  "remote_states net c req [] resp w = (Inr resp, w)"
| "remote_states net c req ((s, v) # xs) resp w =
     (if pb_st_location v = [] then remote_states net c req xs resp w
      else case stateClient c of Inl x \<Rightarrow> (Inl x, w) | Inr e \<Rightarrow>
        if pb_st_location v = e then remote_states net c req xs resp w
        else if \<not> depends_on req s then remote_states net c req xs resp w
        else sbind (client_Get net (pb_st_location v) s w) (\<lambda>r w. case r of
               None \<Rightarrow> (Inl (RuntimeError (''could not find state in '' @ pb_st_location v @ '': '' @ s)), w)
             | Some content \<Rightarrow>
                 sbind (client_Put net e s content w) (\<lambda>_ w.
                 sbind (client_Del net (pb_st_location v) s w) (\<lambda>_ w. case map_of (ps_states resp) s of
                     None \<Rightarrow> (Inl (RuntimeError (''could not find state in the response: '' @ s)), w)
                   | Some p \<Rightarrow> remote_states net c req xs
                       (resp\<lparr>ps_states := mput s (p\<lparr>pb_st_location := e\<rparr>) (ps_states resp)\<rparr>) w))))"

definition handleRemoteStates :: "(nat \<Rightarrow> bool) \<Rightarrow> pb_state iter_order \<Rightarrow> edge_computer \<Rightarrow> pb_request \<Rightarrow> pb_response \<Rightarrow>
    state_world \<Rightarrow> (exn + pb_response) \<times> state_world" where
  "handleRemoteStates net ord c req resp w = remote_states net c req (ord (pq_states req)) resp w"

text \<open>
  The descriptor is inserted, the task completes, the remote states are fetched, and the descriptor is
  erased; when the states throw, it is not.
\<close>

definition blockingExecution :: "(nat \<Rightarrow> bool) \<Rightarrow> pb_state iter_order \<Rightarrow> run \<Rightarrow> pb_request \<Rightarrow> edge_computer \<Rightarrow> state_world \<Rightarrow>
    (exn + pb_response) \<times> edge_computer \<times> state_world" where
  "blockingExecution net ord run req c w = (case run_start run of Inl e \<Rightarrow> (Inl e, c, w) | Inr i \<Rightarrow>
     if map_of (ec_descriptors c) i \<noteq> None then (Inl (Undefined ''assertion myIt.second''), c, w)
     else (let c = c\<lparr>ec_descriptors := mput i None (ec_descriptors c)\<rparr>
           in case taskDone i (run_answer run) c of
                None \<Rightarrow> (Inl (Undefined ''taskDone waits''), c, w)
              | Some c \<Rightarrow>
                  (case handleRemoteStates net ord c req ((response_toProtobuf (run_answer run))\<lparr>ps_ptime := run_ms run\<rparr>) w of
                     (Inl e, w) \<Rightarrow> (Inl e, c, w)
                   | (Inr resp, w) \<Rightarrow> (Inr resp, c\<lparr>ec_descriptors := merase i (ec_descriptors c)\<rparr>, w))))"

section \<open>Chains and graphs\<close>

text \<open>The conversion of an index to \<open>int\<close>.\<close>

definition int_of :: "nat \<Rightarrow> int" where
  "int_of n = sint (of_nat n :: 32 word)"

definition makeHash :: "pb_request \<Rightarrow> string" where
  "makeHash req = to_string (unat (pq_nextFunctionIndex req)) @ ''-'' @ pq_uuid req"

definition expected_invocations :: "pb_request \<Rightarrow> nat" where
  "expected_invocations req = foldl (\<lambda>n js. foldl (\<lambda>n j. if j = unat (pq_nextFunctionIndex req) then Suc n else n) n js)
     0 (pb_successors (pq_dag req))"

definition checkPreconditions :: "pb_request \<Rightarrow> edge_computer \<Rightarrow> (exn + bool) \<times> edge_computer" where
  "checkPreconditions req c =
     (if length (pb_names (pq_dag req)) \<le> 1 \<or> pq_nextFunctionIndex req = 0 then (Inr True, c)
      else (let expected = expected_invocations req
            in if expected = 1 then (Inr True, c)
               else if pq_uuid req = [] then (Inl (Undefined ''assertion not aRequest.uuid().empty()''), c)
               else (let m = memplace (makeHash req) 0 (ec_invocations c);
                         actual = Suc (the (map_of m (makeHash req)))
                     in if actual > expected then (Inl (Undefined ''assertion myActual <= myExpected''), c)
                        else if actual = expected then (Inr True, c\<lparr>ec_invocations := merase (makeHash req) m\<rparr>)
                        else (Inr False, c\<lparr>ec_invocations := mput (makeHash req) actual m\<rparr>))))"

definition lastFunction :: "pb_request \<Rightarrow> bool" where
  "lastFunction req \<longleftrightarrow>
     pq_chain req = [] \<and> pb_names (pq_dag req) = [] \<or>
     pq_chain req \<noteq> [] \<and> sint (pq_nextFunctionIndex req) = int (length (pq_chain req)) - 1 \<or>
     length (pb_names (pq_dag req)) > 1 \<and> sint (pq_nextFunctionIndex req) = int (length (pb_successors (pq_dag req)))"

text \<open>The functions to be invoked after one that is not the last.\<close>

fun dag_functions :: "string list \<Rightarrow> nat list \<Rightarrow> exn + (nat \<times> string) list" where
  "dag_functions names [] = Inr []"
| "dag_functions names (j # js) =
     (if int_of j < 0 \<or> int_of j \<ge> int (length names) then Inl (Undefined ''assertion myNdx < names_size()'')
      else rbind (dag_functions names js) (\<lambda>fs. Inr ((j, names ! nat (int_of j)) # fs)))"

definition next_functions :: "pb_request \<Rightarrow> exn + (nat \<times> string) list" where
  "next_functions req =
     (let i = sint (pq_nextFunctionIndex req)
      in if pq_chain req \<noteq> []
         then (let j = sint (pq_nextFunctionIndex req + 1)
               in if i + 1 \<ge> int (length (pq_chain req)) then Inl (Undefined ''assertion nextfunctionindex() + 1 < chain_size()'')
                  else if j < 0 then Inl (Undefined ''index of chain'')
                  else Inr [(unat (pq_nextFunctionIndex req + 1), pq_chain req ! nat j)])
         else if pb_names (pq_dag req) = [] then Inl (Undefined ''assertion names_size() > 0'')
         else if i < 0 \<or> i \<ge> int (length (pb_successors (pq_dag req)))
         then Inl (Undefined ''assertion nextfunctionindex() < successors_size()'')
         else dag_functions (pb_names (pq_dag req)) (pb_successors (pq_dag req) ! nat i))"

section \<open>The handler of requests\<close>

definition to_uint :: "real \<Rightarrow> 32 word" where
  "to_uint x = of_int \<lfloor>x\<rfloor>"

text \<open>The checks at the beginning of \<open>process\<close>.\<close>

definition check_request :: "pb_request \<Rightarrow> exn + unit" where
  "check_request req =
     (if pq_chain req \<noteq> [] \<and> pb_names (pq_dag req) \<noteq> []
      then Inl (RuntimeError ''Cannot specify both a function chain and a DAG in the request'')
      else if (length (pq_chain req) > 1 \<or> length (pb_names (pq_dag req)) > 1) \<and> pq_callback req = []
      then Inl (RuntimeError ''Cannot handle multiple functions without a callback in the request'')
      else if pq_chain req \<noteq> [] \<and> sint (pq_nextFunctionIndex req) \<ge> int (length (pq_chain req))
      then Inl (RuntimeError ''Out-of-range function execution requested in a chain'')
      else if length (pb_names (pq_dag req)) > 1 \<and> pq_uuid req = []
      then Inl (RuntimeError ''Cannot execute a DAG without a UUID in the request'')
      else Inr ())"

definition pb_reply :: "pb_request \<Rightarrow> string \<Rightarrow> pb_response \<Rightarrow> pb_response" where
  "pb_reply req code resp = resp\<lparr>ps_hops := pq_hops req + 1, ps_retcode := code\<rparr>"

definition pb_empty :: pb_response where
  "pb_empty = \<lparr>ps_retcode = [], ps_output = [], ps_responder = [], ps_ptime = 0, ps_dataout = [], ps_load1 = 0, ps_load10 = 0,
     ps_load30 = 0, ps_hops = 0, ps_states = [], ps_asynchronous = False\<rparr>"

text \<open>The \<open>try\<close> block: the return code and the response.\<close>

definition ec_try :: "(nat \<Rightarrow> bool) \<Rightarrow> pb_state iter_order \<Rightarrow> (pb_request \<Rightarrow> exn + real \<times> real \<times> real \<times> real) \<Rightarrow> run \<Rightarrow>
    pb_request \<Rightarrow> edge_computer \<Rightarrow> state_world \<Rightarrow> (exn + string \<times> pb_response) \<times> edge_computer \<times> state_world" where
  "ec_try net ord dryExecution run req c w =
     (case check_request req of Inl e \<Rightarrow> (Inl e, c, w) | Inr _ \<Rightarrow>
        if pq_dry req then
          (case dryExecution req of Inl e \<Rightarrow> (Inl e, c, w) | Inr (t, l1, l10, l30) \<Rightarrow>
             (Inr (''OK'', pb_empty\<lparr>ps_ptime := to_uint (t * 1000), ps_load1 := to_uint (1 / 2 + l1 * 100),
                ps_load10 := to_uint (1 / 2 + l10 * 100), ps_load30 := to_uint (1 / 2 + l30 * 100)\<rparr>), c, w))
        else if pq_callback req \<noteq> [] then
          (case ec_queue c of None \<Rightarrow> (Inr (''Cannot handle an asynchronous function invocation'', pb_empty), c, w)
           | Some q \<Rightarrow>
               (case checkPreconditions req c of
                  (Inl e, c) \<Rightarrow> (Inl e, c, w)
                | (Inr ok, c) \<Rightarrow> (Inr (''OK'', pb_empty\<lparr>ps_asynchronous := True\<rparr>),
                    if ok then c\<lparr>ec_queue := Some (q @ [req])\<rparr> else c, w)))
        else
          (case blockingExecution net ord run req c w of
             (Inl e, c, w) \<Rightarrow> (Inl e, c, w)
           | (Inr resp, c, w) \<Rightarrow> (Inr (ps_retcode resp, resp), c, w)))"

definition ec_process :: "(real \<Rightarrow> string) \<Rightarrow> (nat \<Rightarrow> bool) \<Rightarrow> pb_state iter_order \<Rightarrow> (pb_request \<Rightarrow> exn + real \<times> real \<times> real \<times> real) \<Rightarrow>
    run \<Rightarrow> pb_request \<Rightarrow> edge_computer \<Rightarrow> state_world \<Rightarrow> (exn + pb_response) \<times> edge_computer \<times> state_world" where
  "ec_process fmt net ord dryExecution run req c w =
     (case ec_try net ord dryExecution run req c w of
        (Inl e, c, w) \<Rightarrow> (case caught fmt e of Crash m \<Rightarrow> (Inl (Undefined m), c, w)
           | Failed m \<Rightarrow> (Inr (pb_reply req m pb_empty), c, w) | _ \<Rightarrow> (Inl e, c, w))
      | (Inr (code, resp), c, w) \<Rightarrow> (Inr (pb_reply req code resp), c, w))"

section \<open>The workers\<close>

datatype message = Callback string response | Invoke string pb_request

text \<open>
  The loop over the next functions. A call that is not delivered throws: the functions that follow are
  not invoked.
\<close>

fun invoke_all :: "pb_state iter_order \<Rightarrow> string list iter_order \<Rightarrow> (nat \<Rightarrow> bool) \<Rightarrow> string \<Rightarrow> pb_request \<Rightarrow> pb_response \<Rightarrow>
    nat \<Rightarrow> (nat \<times> string) list \<Rightarrow> message list" where
  "invoke_all ordS ordD sent dst req resp k [] = []"
| "invoke_all ordS ordD sent dst req resp k ((j, f) # fs) =
     (case request_from ordS ordD req of
        Inl e \<Rightarrow> []
      | Inr r \<Rightarrow> if sent k
          then Invoke dst (request_toProtobuf (fst (regenerate ordS f j resp r))) # invoke_all ordS ordD sent dst req resp (Suc k) fs
          else [])"

text \<open>What a worker does with the response of a request.\<close>

definition worker_deliver :: "pb_state iter_order \<Rightarrow> string list iter_order \<Rightarrow> (nat \<Rightarrow> bool) \<Rightarrow> pb_request \<Rightarrow> pb_response \<Rightarrow>
    edge_computer \<Rightarrow> exn + message list" where
  "worker_deliver ordS ordD sent req resp c =
     (if lastFunction req
      then Inr (if sent 0 then [Callback (pq_callback req) (removePtimeLoad (response_from ordS
             (resp\<lparr>ps_responder := ec_endpoint c, ps_hops := pq_hops req + 1, ps_retcode := ''OK''\<rparr>)))] else [])
      else case next_functions req of Inl e \<Rightarrow> Inl e | Inr fs \<Rightarrow>
        (case ec_companion c of
           None \<Rightarrow> Inl (Undefined ''null theCompanionClient'')
         | Some dst \<Rightarrow> Inr (invoke_all ordS ordD sent dst req resp 0 fs)))"

text \<open>
  One iteration of a worker, on a queue that is not empty: the messages sent. The exceptions of the
  execution are caught, and the request is dropped.
\<close>

definition worker_step :: "(nat \<Rightarrow> bool) \<Rightarrow> (nat \<Rightarrow> bool) \<Rightarrow> pb_state iter_order \<Rightarrow> string list iter_order \<Rightarrow> run \<Rightarrow> edge_computer \<Rightarrow>
    state_world \<Rightarrow> ((exn + message list) \<times> edge_computer \<times> state_world) option" where
  "worker_step net sent ordS ordD run c w = (case ec_queue c of
       None \<Rightarrow> None
     | Some [] \<Rightarrow> None
     | Some (req # q) \<Rightarrow> Some (
         (case blockingExecution net ordS run req (c\<lparr>ec_queue := Some q\<rparr>) w of
            (Inl e, c, w) \<Rightarrow> (if is_undefined e then Inl e else Inr [], c, w)
          | (Inr resp, c, w) \<Rightarrow> (worker_deliver ordS ordD sent req resp c, c, w))))"

section \<open>Remote states\<close>

text \<open>The states that are fetched by a computer whose state server is \<open>e\<close>.\<close>

definition fetched :: "pb_request \<Rightarrow> string \<Rightarrow> string \<Rightarrow> pb_state \<Rightarrow> bool" where
  "fetched req e s v \<longleftrightarrow> pb_st_location v \<noteq> [] \<and> pb_st_location v \<noteq> e \<and> depends_on req s"

lemma remote_states_skip:
  assumes "ec_state c = Some e" and "\<not> fetched req e s v"
  shows "remote_states net c req ((s, v) # xs) resp w = remote_states net c req xs resp w"
  using assms by (auto simp: fetched_def stateClient_def)

lemma remote_states_fetch:
  assumes c: "ec_state c = Some e" and f: "fetched req e s v"
    and r: "remote_states net c req ((s, v) # xs) resp w = (Inr resp', w')"
  obtains content p w1 where "holds w (pb_st_location v) s = Some content"
    "holds w1 = ((holds w)(e := (holds w e)(s \<mapsto> content)))(pb_st_location v := (holds w (pb_st_location v))(s := None))"
    "remote_states net c req xs (resp\<lparr>ps_states := mput s (p\<lparr>pb_st_location := e\<rparr>) (ps_states resp)\<rparr>) w1 = (Inr resp', w')"
proof -
  let ?l = "pb_st_location v"
  have l: "?l \<noteq> e" "?l \<noteq> []" "depends_on req s" using f by (simp_all add: fetched_def)
  have eq: "remote_states net c req ((s, v) # xs) resp w = sbind (client_Get net ?l s w) (\<lambda>r w. case r of
               None \<Rightarrow> (Inl (RuntimeError (''could not find state in '' @ ?l @ '': '' @ s)), w)
             | Some content \<Rightarrow>
                 sbind (client_Put net e s content w) (\<lambda>_ w.
                 sbind (client_Del net ?l s w) (\<lambda>_ w. case map_of (ps_states resp) s of
                     None \<Rightarrow> (Inl (RuntimeError (''could not find state in the response: '' @ s)), w)
                   | Some p \<Rightarrow> remote_states net c req xs
                       (resp\<lparr>ps_states := mput s (p\<lparr>pb_st_location := e\<rparr>) (ps_states resp)\<rparr>) w)))"
    using l c by (simp add: stateClient_def)
  obtain content where get: "net (sw_calls w)" "holds w ?l s = Some content"
    using r unfolding eq client_Get_eq by (cases "net (sw_calls w)"; cases "holds w ?l s") auto
  obtain w2 where put: "client_Put net e s content (tick w) = (Inr (), w2)"
    using r get unfolding eq client_Get_eq by (cases "client_Put net e s content (tick w)"; cases "fst (client_Put net e s content (tick w))") auto
  obtain b w3 where del: "client_Del net ?l s w2 = (Inr b, w3)"
    using r get put unfolding eq client_Get_eq by (cases "client_Del net ?l s w2"; cases "fst (client_Del net ?l s w2)") auto
  obtain p where p: "map_of (ps_states resp) s = Some p"
    using r get put del unfolding eq client_Get_eq by (cases "map_of (ps_states resp) s") auto
  show ?thesis
  proof (rule that[of content w3 p])
    show "holds w3 = ((holds w)(e := (holds w e)(s \<mapsto> content)))(?l := (holds w ?l)(s := None))"
      using client_Del_holds(1)[OF del] client_Put_holds(1)[OF put] l(1) by simp
    show "remote_states net c req xs (resp\<lparr>ps_states := mput s (p\<lparr>pb_st_location := e\<rparr>) (ps_states resp)\<rparr>) w3 = (Inr resp', w')"
      using r get put del p unfolding eq client_Get_eq by simp
  qed (rule get(2))
qed

lemma remote_states_move:
  assumes "remote_states net c req xs resp w = (Inr resp', w')" and "distinct (map fst xs)" and c: "ec_state c = Some e"
  shows "(\<forall>s v. (s, v) \<in> set xs \<and> fetched req e s v \<longrightarrow> holds w (pb_st_location v) s \<noteq> None \<and> holds w' e s = holds w (pb_st_location v) s \<and>
       holds w' (pb_st_location v) s = None \<and> map_option pb_st_location (map_of (ps_states resp') s) = Some e) \<and>
    (\<forall>f s. (\<forall>v. (s, v) \<in> set xs \<and> fetched req e s v \<longrightarrow> f \<noteq> pb_st_location v \<and> f \<noteq> e) \<longrightarrow> holds w' f s = holds w f s) \<and>
    (\<forall>s. (\<forall>v. (s, v) \<in> set xs \<longrightarrow> \<not> fetched req e s v) \<longrightarrow> map_of (ps_states resp') s = map_of (ps_states resp) s)"
    (is "?A xs w resp \<and> ?B xs w \<and> ?C xs resp")
  using assms(1,2)
proof (induction xs arbitrary: resp w)
  case Nil
  then show ?case by simp
next
  case (Cons x xs)
  obtain s v where x: "x = (s, v)" by (cases x)
  have fresh: "\<And>v'. (s, v') \<notin> set xs" "distinct (map fst xs)" using Cons.prems(2) by (force simp: x)+
  show ?case
  proof (cases "fetched req e s v")
    case False
    have "remote_states net c req xs resp w = (Inr resp', w')" using Cons.prems(1) remote_states_skip[OF c False] by (simp add: x)
    from Cons.IH[OF this fresh(2)] have IH: "?A xs w resp" "?B xs w" "?C xs resp" by blast+
    have m: "(s', v') \<in> set (x # xs) \<and> fetched req e s' v' \<longleftrightarrow> (s', v') \<in> set xs \<and> fetched req e s' v'" for s' v'
      using False by (auto simp: x)
    have "?A (x # xs) w resp" using IH(1) unfolding m .
    moreover have "?B (x # xs) w" using IH(2) unfolding m .
    moreover have "?C (x # xs) resp" using IH(3) m by blast
    ultimately show ?thesis by blast
  next
    case True
    let ?l = "pb_st_location v"
    have l: "?l \<noteq> e" using True by (simp add: fetched_def)
    obtain content p w1 where g: "holds w ?l s = Some content"
      "holds w1 = ((holds w)(e := (holds w e)(s \<mapsto> content)))(?l := (holds w ?l)(s := None))"
      "remote_states net c req xs (resp\<lparr>ps_states := mput s (p\<lparr>pb_st_location := e\<rparr>) (ps_states resp)\<rparr>) w1 = (Inr resp', w')"
      using remote_states_fetch[OF c True Cons.prems(1)[unfolded x]] .
    let ?resp = "resp\<lparr>ps_states := mput s (p\<lparr>pb_st_location := e\<rparr>) (ps_states resp)\<rparr>"
    have IH: "?A xs w1 ?resp" "?B xs w1" "?C xs ?resp" using Cons.IH[OF g(3) fresh(2)] by blast+
    have other: "s' \<noteq> s \<Longrightarrow> holds w1 f s' = holds w f s'" for f s' by (simp add: g(2))
    have here: "holds w' f s = holds w1 f s" for f using IH(2) fresh(1) by blast
    have "map_of (ps_states resp') s = Some (p\<lparr>pb_st_location := e\<rparr>)" using IH(3) fresh(1) by auto
    then have a: "holds w' e s = holds w ?l s \<and> holds w' ?l s = None \<and> map_option pb_st_location (map_of (ps_states resp') s) = Some e"
      using here g(1,2) l by simp
    have "?A (x # xs) w resp"
    proof (intro allI impI)
      fix s' v' assume "(s', v') \<in> set (x # xs) \<and> fetched req e s' v'"
      then have m: "(s', v') \<in> set (x # xs)" "fetched req e s' v'" by simp_all
      show "holds w (pb_st_location v') s' \<noteq> None \<and> holds w' e s' = holds w (pb_st_location v') s' \<and>
          holds w' (pb_st_location v') s' = None \<and> map_option pb_st_location (map_of (ps_states resp') s') = Some e"
      proof (cases "s' = s")
        case True
        then have "v' = v" using m(1) fresh(1) by (auto simp: x)
        then show ?thesis using a g(1) True by simp
      next
        case False
        then have "(s', v') \<in> set xs" using m(1) by (simp add: x)
        then show ?thesis using IH(1) m(2) other[OF False, of "pb_st_location v'"] by metis
      qed
    qed
    moreover have "?B (x # xs) w"
    proof (intro allI impI)
      fix f s' assume m: "\<forall>v. (s', v) \<in> set (x # xs) \<and> fetched req e s' v \<longrightarrow> f \<noteq> pb_st_location v \<and> f \<noteq> e"
      then have "\<forall>v. (s', v) \<in> set xs \<and> fetched req e s' v \<longrightarrow> f \<noteq> pb_st_location v \<and> f \<noteq> e" by auto
      then have "holds w' f s' = holds w1 f s'" using IH(2) by blast
      moreover have "holds w1 f s' = holds w f s'"
        using m True other[of s' f] by (cases "s' = s") (auto simp: x g(2))
      ultimately show "holds w' f s' = holds w f s'" by simp
    qed
    moreover have "?C (x # xs) resp"
    proof (intro allI impI)
      fix s' assume m: "\<forall>v. (s', v) \<in> set (x # xs) \<longrightarrow> \<not> fetched req e s' v"
      then have "s' \<noteq> s" using True by (auto simp: x)
      then show "map_of (ps_states resp') s' = map_of (ps_states resp) s'" using IH(3) m by (simp add: x)
    qed
    ultimately show ?thesis by blast
  qed
qed


text \<open>A state of another server that the function depends on, one that is embedded and one it does not need.\<close>

definition rs_req_ex :: pb_request where
  "rs_req_ex = \<lparr>pq_name = ''f'', pq_input = [], pq_datain = [], pq_dry = False, pq_forward = False, pq_hops = 0,
     pq_states = [(''s0'', \<lparr>pb_st_name = [], pb_st_location = ''h'', pb_st_content = []\<rparr>),
       (''s1'', \<lparr>pb_st_name = [], pb_st_location = [], pb_st_content = ''x''\<rparr>),
       (''s2'', \<lparr>pb_st_name = [], pb_st_location = ''h'', pb_st_content = []\<rparr>)],
     pq_callback = [], pq_chain = [], pq_dag = \<lparr>pb_successors = [], pb_names = []\<rparr>, pq_dependencies = [(''s0'', [''f''])],
     pq_nextFunctionIndex = 0, pq_uuid = ''u''\<rparr>"

definition rs_world_ex :: state_world where
  "rs_world_ex = \<lparr>sw_repo = (\<lambda>_. [])(''h'' := [(''s0'', ''a''), (''s2'', ''b'')]), sw_calls = 0\<rparr>"

definition rs_comp_ex :: edge_computer where
  "rs_comp_ex = set_state_endpoint ''e'' (ec_new 0 ''c'')"


section \<open>Where a workflow goes wrong\<close>

text \<open>
  Failures of a function are not reported. When a queued request is the last of its chain or graph, the
  callback receives the return code OK, whatever the return code of the execution.
\<close>

theorem async_failure_reported_as_ok:
  assumes "ec_queue c = Some (req # q)" and "lastFunction req"
    and "fst (blockingExecution net ordS run req (c\<lparr>ec_queue := Some q\<rparr>) w) = Inr resp"
  shows "\<exists>x c' w'. worker_step net (\<lambda>_. True) ordS ordD run c w = Some (Inr [Callback (pq_callback req) x], c', w') \<and>
    rs_retCode x = ''OK'' \<and> rs_output x = ps_output resp"
  using assms
  by (cases "blockingExecution net ordS run req (c\<lparr>ec_queue := Some q\<rparr>) w")
     (simp add: worker_step_def worker_deliver_def response_from_def removePtimeLoad_def)

theorem async_failure_reported_as_ok_witness:
  "\<exists>x c' w'. worker_step (\<lambda>_. True) (\<lambda>_. True) id id \<lparr>run_start = Inr 0, run_answer = response_sync ''failed'' [], run_ms = 1\<rparr>
     ((ec_new 1 ''c'')\<lparr>ec_queue := Some [rs_req_ex\<lparr>pq_callback := ''cb'', pq_states := []\<rparr>]\<rparr>) rs_world_ex =
       Some (Inr [Callback ''cb'' x], c', w') \<and> rs_retCode x = ''OK''"
proof -
  let ?req = "rs_req_ex\<lparr>pq_callback := ''cb'', pq_states := []\<rparr>" and ?run = "\<lparr>run_start = Inr 0, run_answer = response_sync ''failed'' [], run_ms = 1\<rparr>"
  let ?c = "(ec_new 1 ''c'')\<lparr>ec_queue := Some [?req]\<rparr>"
  have l: "lastFunction ?req" by (simp add: lastFunction_def rs_req_ex_def)
  have b: "fst (blockingExecution (\<lambda>_. True) id ?run ?req (?c\<lparr>ec_queue := Some []\<rparr>) rs_world_ex) =
      Inr ((response_toProtobuf (response_sync ''failed'' []))\<lparr>ps_ptime := 1\<rparr>)"
    by (simp add: blockingExecution_def taskDone_def handleRemoteStates_def Let_def ec_new_def)
  have q: "ec_queue ?c = Some [?req]" by simp
  show ?thesis using async_failure_reported_as_ok[OF q l b, of id] by (auto simp: rs_req_ex_def)
qed



end
