(* ===== verification/DagWorkflow.thy ===== *)
theory DagWorkflow
  imports FunctionModel "HOL-Library.Multiset"
begin

text \<open>
  The specification of the execution of a graph of functions by edge computers: invocations travel, wait
  for one another where paths join, and every function that is executed invokes its successors. The
  invocations are delivered, and the functions executed, in any order. The theorems are about all the runs;
  the computers of \<open>EdgeWorkflow\<close> are proved to refine this specification.
\<close>

section \<open>Specification\<close>

record flow =
  fl_flight :: "nat multiset"
  fl_count :: "nat \<Rightarrow> nat"
  fl_ready :: "nat multiset"
  fl_log :: "nat list"

definition succs :: "nat list list \<Rightarrow> nat \<Rightarrow> nat list" where
  "succs ss i = (if i < length ss then ss ! i else [])"

definition indegree :: "nat list list \<Rightarrow> nat \<Rightarrow> nat" where
  "indegree ss j = count (mset (concat ss)) j"

definition flow_init :: flow where
  "flow_init = \<lparr>fl_flight = {#0#}, fl_count = (\<lambda>_. 0), fl_ready = {#}, fl_log = []\<rparr>"

inductive flow_step :: "nat list list \<Rightarrow> flow \<Rightarrow> flow \<Rightarrow> bool" for ss where
  receive: "\<lbrakk>j \<in># fl_flight s; j = 0 \<or> indegree ss j = 1\<rbrakk> \<Longrightarrow>
    flow_step ss s (s\<lparr>fl_flight := fl_flight s - {#j#}, fl_ready := fl_ready s + {#j#}\<rparr>)"
| wait: "\<lbrakk>j \<in># fl_flight s; j \<noteq> 0; indegree ss j \<noteq> 1; Suc (fl_count s j) < indegree ss j\<rbrakk> \<Longrightarrow>
    flow_step ss s (s\<lparr>fl_flight := fl_flight s - {#j#}, fl_count := (fl_count s)(j := Suc (fl_count s j))\<rparr>)"
| join: "\<lbrakk>j \<in># fl_flight s; j \<noteq> 0; indegree ss j \<noteq> 1; Suc (fl_count s j) = indegree ss j\<rbrakk> \<Longrightarrow>
    flow_step ss s (s\<lparr>fl_flight := fl_flight s - {#j#}, fl_count := (fl_count s)(j := 0), fl_ready := fl_ready s + {#j#}\<rparr>)"
| execute: "j \<in># fl_ready s \<Longrightarrow>
    flow_step ss s (s\<lparr>fl_ready := fl_ready s - {#j#}, fl_log := fl_log s @ [j], fl_flight := fl_flight s + mset (succs ss j)\<rparr>)"

inductive flow_run :: "nat list list \<Rightarrow> nat \<Rightarrow> flow \<Rightarrow> bool" for ss where
  start: "flow_run ss 0 flow_init"
| more: "flow_run ss n s \<Longrightarrow> flow_step ss s s' \<Longrightarrow> flow_run ss (Suc n) s'"

section \<open>Invariants\<close>

text \<open>The graphs of the program: no successor is the entry function or out of range.\<close>

definition succs_ok :: "nat list list \<Rightarrow> bool" where
  "succs_ok ss \<longleftrightarrow> (\<forall>i<length ss. \<forall>j\<in>set (ss ! i). 0 < j \<and> j \<le> length ss)"

definition need :: "nat list list \<Rightarrow> nat \<Rightarrow> nat" where
  "need ss j = (if j = 0 then 1 else indegree ss j)"

definition emitted :: "nat list list \<Rightarrow> nat list \<Rightarrow> nat \<Rightarrow> nat" where
  "emitted ss lg j = (if j = 0 then 1 else 0) + (\<Sum>i\<leftarrow>lg. count (mset (succs ss i)) j)"

definition arrived :: "nat list list \<Rightarrow> flow \<Rightarrow> nat \<Rightarrow> nat" where
  "arrived ss s j = emitted ss (fl_log s) j - count (fl_flight s) j"

definition flow_inv :: "nat list list \<Rightarrow> nat \<Rightarrow> flow \<Rightarrow> bool" where
  "flow_inv ss n s \<longleftrightarrow>
     (\<forall>j. count (fl_flight s) j \<le> emitted ss (fl_log s) j) \<and>
     (\<forall>j. arrived ss s j \<le> need ss j) \<and>
     (\<forall>j. count (fl_ready s) j + count (mset (fl_log s)) j = (if 0 < need ss j \<and> arrived ss s j = need ss j then 1 else 0)) \<and>
     (\<forall>j. fl_count s j = (if arrived ss s j < need ss j then arrived ss s j else 0)) \<and>
     set (fl_log s) \<subseteq> {..length ss} \<and> set_mset (fl_ready s) \<subseteq> {..length ss} \<and>
     (\<forall>k<length (fl_log s). \<forall>p. (p, fl_log s ! k) \<in> edges ss \<longrightarrow> p \<in> set (take k (fl_log s))) \<and>
     n + size (fl_flight s) = 1 + (\<Sum>i\<leftarrow>fl_log s. length (succs ss i)) + length (fl_log s)"

lemma succs_range: "succs_ok ss \<Longrightarrow> j \<in> set (succs ss i) \<Longrightarrow> 0 < j \<and> j \<le> length ss"
  by (auto simp: succs_def succs_ok_def split: if_splits)

lemma indegree_sum: "indegree ss j = (\<Sum>i\<in>{..length ss}. count (mset (succs ss i)) j)"
proof -
  have "indegree ss j = (\<Sum>xs\<leftarrow>ss. count (mset xs) j)"
    unfolding indegree_def by (induction ss) simp_all
  also have "\<dots> = (\<Sum>i\<leftarrow>[0..<length ss]. count (mset (ss ! i)) j)"
    by (subst map_nth[of ss, symmetric]) (simp add: comp_def)
  also have "\<dots> = (\<Sum>i\<in>{..<length ss}. count (mset (succs ss i)) j)"
    by (simp add: sum_list_distinct_conv_sum_set succs_def atLeast0LessThan)
  also have "\<dots> = (\<Sum>i\<in>{..length ss}. count (mset (succs ss i)) j)"
    by (simp add: lessThan_Suc_atMost[symmetric] succs_def)
  finally show ?thesis .
qed

lemma edge_succs: "(i, j) \<in> edges ss \<longleftrightarrow> j \<in> set (succs ss i)"
  by (auto simp: edges_def succs_def)

text \<open>Functions executed at most once send at most the invocations that are needed, and all of them only if every predecessor was executed.\<close>

lemma emitted_bounds:
  assumes "distinct lg" and "set lg \<subseteq> {..length ss}" and "0 < j"
  shows "emitted ss lg j \<le> indegree ss j" and "emitted ss lg j = indegree ss j \<longleftrightarrow> (\<forall>p. (p, j) \<in> edges ss \<longrightarrow> p \<in> set lg)"
proof -
  let ?c = "\<lambda>i. count (mset (succs ss i)) j"
  have e: "emitted ss lg j = sum ?c (set lg)"
    using assms(1,3) by (simp add: emitted_def sum_list_distinct_conv_sum_set)
  have d: "indegree ss j = sum ?c (set lg) + sum ?c ({..length ss} - set lg)"
    unfolding indegree_sum using assms(2) by (subst add.commute) (simp add: sum.subset_diff)
  show "emitted ss lg j \<le> indegree ss j" unfolding e d by simp
  have "emitted ss lg j = indegree ss j \<longleftrightarrow> (\<forall>p\<in>{..length ss} - set lg. ?c p = 0)"
    unfolding e d by simp
  also have "\<dots> \<longleftrightarrow> (\<forall>p. (p, j) \<in> edges ss \<longrightarrow> p \<in> set lg)"
    by (auto simp: edge_succs count_eq_zero_iff) (auto simp: succs_def split: if_splits)
  finally show "emitted ss lg j = indegree ss j \<longleftrightarrow> (\<forall>p. (p, j) \<in> edges ss \<longrightarrow> p \<in> set lg)" .
qed

lemma flow_inv_log:
  assumes "flow_inv ss n s"
  shows "distinct (fl_log s)" "set (fl_log s) \<subseteq> {..length ss}"
proof -
  have le: "count (mset (fl_log s)) j \<le> 1" for j
  proof -
    have "count (fl_ready s) j + count (mset (fl_log s)) j = (if 0 < need ss j \<and> arrived ss s j = need ss j then 1 else 0)"
      using assms by (simp add: flow_inv_def)
    then show ?thesis by (metis le_add2 le_refl le_zero_eq linorder_linear)
  qed
  have "count (mset (fl_log s)) j = (if j \<in> set (fl_log s) then 1 else 0)" for j
  proof (cases "j \<in> set (fl_log s)")
    case True
    then have "0 < count (mset (fl_log s)) j" by (simp only: count_greater_zero_iff set_mset_mset)
    then have "count (mset (fl_log s)) j = 1" using le[of j] by linarith
    then show ?thesis using True by simp
  qed (simp add: count_eq_zero_iff)
  then show "distinct (fl_log s)" by (simp add: distinct_count_atmost_1)
  show "set (fl_log s) \<subseteq> {..length ss}" using assms by (simp add: flow_inv_def)
qed

lemma emitted_need:
  assumes "succs_ok ss" and "flow_inv ss n s"
  shows "emitted ss (fl_log s) j \<le> need ss j"
    and "emitted ss (fl_log s) j = need ss j \<longleftrightarrow> (\<forall>p. (p, j) \<in> edges ss \<longrightarrow> p \<in> set (fl_log s))"
proof -
  note l = flow_inv_log[OF assms(2)]
  have z: "count (mset (succs ss i)) 0 = 0" for i
    using succs_range[OF assms(1), of 0 i] by (auto simp: count_eq_zero_iff)
  have z': "(p, 0) \<notin> edges ss" for p using succs_range[OF assms(1), of 0 p] by (auto simp: edge_succs)
  show "emitted ss (fl_log s) j \<le> need ss j"
    using emitted_bounds(1)[OF l] z by (cases "j = 0") (simp_all add: need_def emitted_def sum_list_0)
  show "emitted ss (fl_log s) j = need ss j \<longleftrightarrow> (\<forall>p. (p, j) \<in> edges ss \<longrightarrow> p \<in> set (fl_log s))"
    using emitted_bounds(2)[OF l] z z' by (cases "j = 0") (simp_all add: need_def emitted_def sum_list_0)
qed

lemma flow_inv_init: "flow_inv ss 0 flow_init"
  by (auto simp: flow_inv_def flow_init_def arrived_def emitted_def need_def)

text \<open>An invocation is delivered.\<close>

lemma flow_inv_deliver:
  assumes ok: "succs_ok ss" and inv: "flow_inv ss n s" and j: "j \<in># fl_flight s"
    and r: "R = (if Suc (fl_count s j) = need ss j then fl_ready s + {#j#} else fl_ready s)"
    and c: "C = (fl_count s)(j := if Suc (fl_count s j) = need ss j then 0 else Suc (fl_count s j))"
  shows "Suc (fl_count s j) \<le> need ss j"
    and "flow_inv ss (Suc n) (s\<lparr>fl_flight := fl_flight s - {#j#}, fl_count := C, fl_ready := R\<rparr>)"
proof -
  define s' where "s' = s\<lparr>fl_flight := fl_flight s - {#j#}, fl_count := C, fl_ready := R\<rparr>"
  have s': "fl_flight s' = fl_flight s - {#j#}" "fl_log s' = fl_log s" "fl_count s' = C" "fl_ready s' = R" by (simp_all add: s'_def)
  have F: "0 < count (fl_flight s) j" using j by simp
  have E: "count (fl_flight s) k \<le> emitted ss (fl_log s) k" for k using inv by (simp add: flow_inv_def)
  have lt: "arrived ss s j < need ss j"
    unfolding arrived_def using F E[of j] emitted_need(1)[OF ok inv, of j] by arith
  have cnt: "fl_count s k = (if arrived ss s k < need ss k then arrived ss s k else 0)" for k
    using inv by (simp add: flow_inv_def)
  have once: "count (fl_ready s) k + count (mset (fl_log s)) k = (if 0 < need ss k \<and> arrived ss s k = need ss k then 1 else 0)" for k
    using inv by (simp add: flow_inv_def)
  show le: "Suc (fl_count s j) \<le> need ss j" using lt cnt[of j] by simp
  have "arrived ss s' j = emitted ss (fl_log s) j - (count (fl_flight s) j - 1)" by (simp add: arrived_def s')
  then have "arrived ss s' j = Suc (arrived ss s j)" unfolding arrived_def using F E[of j] by arith
  then have A: "arrived ss s' k = arrived ss s k + (if k = j then 1 else 0)" for k
    by (cases "k = j") (simp_all add: arrived_def s')
  have "need ss j \<le> 1 \<or> 0 < need ss j" by auto
  have range: "j \<le> length ss"
  proof (rule ccontr)
    assume "\<not> j \<le> length ss"
    then have "count (mset (succs ss i)) j = 0" for i
      using succs_range[OF ok, of j i] by (auto simp: count_eq_zero_iff)
    then have "need ss j = 0" using \<open>\<not> j \<le> length ss\<close> by (simp add: need_def indegree_sum)
    then show False using lt by simp
  qed
  have "count (fl_flight s') k \<le> emitted ss (fl_log s') k" for k using E[of k] by (simp add: s')
  moreover have "arrived ss s' k \<le> need ss k" for k
    using lt inv unfolding A by (auto simp: flow_inv_def)
  moreover have "count (fl_ready s') k + count (mset (fl_log s')) k =
      (if 0 < need ss k \<and> arrived ss s' k = need ss k then 1 else 0)" for k
    using once[of k] lt cnt[of j] unfolding A s' r by (cases "k = j") auto
  moreover have "fl_count s' k = (if arrived ss s' k < need ss k then arrived ss s' k else 0)" for k
    using cnt[of k] lt unfolding A s' c by (cases "k = j") auto
  moreover have "set_mset (fl_ready s') \<subseteq> {..length ss}"
    using inv range by (auto simp: flow_inv_def r s')
  moreover have "Suc n + size (fl_flight s') = n + size (fl_flight s)"
    using size_Suc_Diff1[OF j] by (simp add: s')
  ultimately have "flow_inv ss (Suc n) s'" using inv unfolding flow_inv_def by (simp add: s')
  then show "flow_inv ss (Suc n) (s\<lparr>fl_flight := fl_flight s - {#j#}, fl_count := C, fl_ready := R\<rparr>)" by (simp only: s'_def)
qed

text \<open>A function is executed; its predecessors have all been executed before.\<close>

lemma flow_ready_preds:
  assumes "succs_ok ss" and "flow_inv ss n s" and "j \<in># fl_ready s"
  shows "\<forall>p. (p, j) \<in> edges ss \<longrightarrow> p \<in> set (fl_log s)"
proof -
  have "0 < count (fl_ready s) j" using assms(3) by simp
  moreover have "count (fl_ready s) j + count (mset (fl_log s)) j = (if 0 < need ss j \<and> arrived ss s j = need ss j then 1 else 0)"
    using assms(2) by (simp add: flow_inv_def)
  ultimately have "arrived ss s j = need ss j" by presburger
  then have "need ss j \<le> emitted ss (fl_log s) j" by (simp add: arrived_def)
  then have "emitted ss (fl_log s) j = need ss j" using emitted_need(1)[OF assms(1,2), of j] by simp
  then show ?thesis using emitted_need(2)[OF assms(1,2), of j] by simp
qed

lemma flow_inv_execute:
  assumes ok: "succs_ok ss" and inv: "flow_inv ss n s" and j: "j \<in># fl_ready s"
  shows "flow_inv ss (Suc n) (s\<lparr>fl_ready := fl_ready s - {#j#}, fl_log := fl_log s @ [j], fl_flight := fl_flight s + mset (succs ss j)\<rparr>)"
proof -
  define s' where "s' = s\<lparr>fl_ready := fl_ready s - {#j#}, fl_log := fl_log s @ [j], fl_flight := fl_flight s + mset (succs ss j)\<rparr>"
  have s': "fl_flight s' = fl_flight s + mset (succs ss j)" "fl_log s' = fl_log s @ [j]" "fl_count s' = fl_count s"
    "fl_ready s' = fl_ready s - {#j#}" by (simp_all add: s'_def)
  have E: "count (fl_flight s) k \<le> emitted ss (fl_log s) k" for k using inv by (simp add: flow_inv_def)
  have E': "emitted ss (fl_log s') k = emitted ss (fl_log s) k + count (mset (succs ss j)) k" for k
    by (simp add: emitted_def s')
  have A: "arrived ss s' k = arrived ss s k" for k unfolding arrived_def E' using E[of k] by (simp add: s')
  have R: "0 < count (fl_ready s) j" using j by simp
  have a: "count (fl_ready s) k + count (mset (fl_log s)) k = (if 0 < need ss k \<and> arrived ss s k = need ss k then 1 else 0)" for k
    using inv by (simp add: flow_inv_def)
  have b: "count (fl_ready s') k + count (mset (fl_log s')) k = count (fl_ready s) k + count (mset (fl_log s)) k" for k
    using R unfolding s' by (cases "k = j") (simp_all del: count_greater_zero_iff)
  have "count (fl_ready s') k + count (mset (fl_log s')) k = (if 0 < need ss k \<and> arrived ss s k = need ss k then 1 else 0)" for k
    by (rule trans[OF b a])
  moreover have "count (fl_flight s') k \<le> emitted ss (fl_log s') k" for k using E[of k] unfolding E' by (simp add: s')
  moreover have rd: "set_mset (fl_ready s) \<subseteq> {..length ss}" using inv by (simp add: flow_inv_def)
  then have "j \<le> length ss" using j by blast
  moreover have "set_mset (fl_ready s') \<subseteq> {..length ss}" using rd by (auto simp: s' dest: in_diffD)
  moreover have "p \<in> set (take k (fl_log s'))" if "k < length (fl_log s')" and "(p, fl_log s' ! k) \<in> edges ss" for k p
  proof (cases "k < length (fl_log s)")
    case True
    then have "p \<in> set (take k (fl_log s))" using that inv by (simp add: flow_inv_def s' nth_append)
    then show ?thesis using True by (simp add: s')
  next
    case False
    then have "k = length (fl_log s)" using that(1) by (simp add: s')
    then show ?thesis using that(2) flow_ready_preds[OF ok inv j] by (simp add: s')
  qed
  moreover have "Suc n + size (fl_flight s') = 1 + (\<Sum>i\<leftarrow>fl_log s'. length (succs ss i)) + length (fl_log s')"
    using inv by (simp add: flow_inv_def s')
  ultimately have "flow_inv ss (Suc n) s'" using inv unfolding flow_inv_def A by (simp add: s')
  then show ?thesis by (simp only: s'_def)
qed

lemma flow_step_inv:
  assumes ok: "succs_ok ss" and "flow_step ss s s'" and inv: "flow_inv ss n s"
  shows "flow_inv ss (Suc n) s'"
  using assms(2)
proof (cases rule: flow_step.cases)
  case (receive j)
  note d = flow_inv_deliver[OF ok inv receive(2) refl refl]
  have "need ss j = 1" using receive(3) by (auto simp: need_def)
  then have c: "fl_count s j = 0" "(fl_count s)(j := 0) = fl_count s" using d(1) by (auto simp: fun_eq_iff)
  then show ?thesis using d(2) \<open>need ss j = 1\<close> receive(1) by simp
next
  case (wait j)
  then show ?thesis using flow_inv_deliver(2)[OF ok inv wait(2) refl refl] by (simp add: need_def)
next
  case (join j)
  then show ?thesis using flow_inv_deliver(2)[OF ok inv join(2) refl refl] by (simp add: need_def)
next
  case (execute j)
  then show ?thesis using flow_inv_execute[OF ok inv] by simp
qed

lemma flow_run_inv: "flow_run ss n s \<Longrightarrow> succs_ok ss \<Longrightarrow> flow_inv ss n s"
  by (induction rule: flow_run.induct) (auto intro: flow_inv_init flow_step_inv)

section \<open>What the runs achieve\<close>

text \<open>The runs cannot stop before nothing is left to do, and are bounded.\<close>

lemma flow_progress:
  assumes "succs_ok ss" and "flow_inv ss n s" and "fl_flight s \<noteq> {#} \<or> fl_ready s \<noteq> {#}"
  shows "\<exists>s'. flow_step ss s s'"
proof (cases "fl_ready s = {#}")
  case True
  then obtain j where j: "j \<in># fl_flight s" using assms(3) by (auto simp: multiset_eq_iff)
  have "Suc (fl_count s j) \<le> need ss j" by (rule flow_inv_deliver(1)[OF assms(1,2) j refl refl])
  then consider "j = 0 \<or> indegree ss j = 1" | "j \<noteq> 0" "indegree ss j \<noteq> 1" "Suc (fl_count s j) < indegree ss j"
    | "j \<noteq> 0" "indegree ss j \<noteq> 1" "Suc (fl_count s j) = indegree ss j"
    by (auto simp: need_def le_less split: if_splits)
  then show ?thesis using j by cases (blast intro: flow_step.intros)+
next
  case False
  then obtain j where "j \<in># fl_ready s" by (auto simp: multiset_eq_iff)
  then show ?thesis by (blast intro: flow_step.execute)
qed

lemma flow_bounded:
  assumes "flow_inv ss n s"
  shows "n \<le> length (concat ss) + length ss + 2" and "length (fl_log s) \<le> Suc (length ss)"
proof -
  note l = flow_inv_log[OF assms]
  have "(\<Sum>i\<leftarrow>fl_log s. length (succs ss i)) \<le> (\<Sum>i\<in>{..length ss}. length (succs ss i))"
    using l by (simp add: sum_list_distinct_conv_sum_set sum_mono2)
  also have "\<dots> = (\<Sum>i\<in>{..<length ss}. length (ss ! i))" by (simp add: lessThan_Suc_atMost[symmetric] succs_def)
  also have "\<dots> = length (concat ss)"
    by (simp add: length_concat sum_list_sum_nth atLeast0LessThan)
  finally have s: "(\<Sum>i\<leftarrow>fl_log s. length (succs ss i)) \<le> length (concat ss)" .
  have "length (fl_log s) = card (set (fl_log s))" using l(1) by (simp add: distinct_card)
  also have "\<dots> \<le> card {..length ss}" using l(2) by (intro card_mono) auto
  finally show le: "length (fl_log s) \<le> Suc (length ss)" by simp
  show "n \<le> length (concat ss) + length ss + 2" using assms s le by (simp add: flow_inv_def)
qed

text \<open>In a graph without cycles in which every function but the first has a predecessor, all are executed.\<close>

definition connected :: "nat list list \<Rightarrow> bool" where
  "connected ss \<longleftrightarrow> (\<forall>j. 0 < j \<and> j \<le> length ss \<longrightarrow> (\<exists>p. (p, j) \<in> edges ss))"

lemma flow_complete:
  assumes "succs_ok ss" and "flow_inv ss n s" and "acyclic (edges ss)" and "connected ss"
    and "fl_flight s = {#}" and "fl_ready s = {#}"
  shows "mset (fl_log s) = mset [0..<Suc (length ss)]"
proof -
  have "finite (edges ss)"
    by (rule finite_subset[of _ "{..length ss} \<times> {..length ss}"]) (use assms(1) in \<open>auto simp: edges_def succs_ok_def\<close>)
  then have wf: "wf (edges ss)" using assms(3) by (rule finite_acyclic_wf)
  have "j \<in> set (fl_log s)" if "j \<le> length ss" for j
    using wf that
  proof (induction j rule: wf_induct_rule)
    case (less j)
    have "p \<in> set (fl_log s)" if "(p, j) \<in> edges ss" for p
      using less.IH[OF that] that by (simp add: edges_def)
    then have "emitted ss (fl_log s) j = need ss j" using emitted_need(2)[OF assms(1,2), of j] by blast
    then have a: "arrived ss s j = need ss j" using assms(5) by (simp add: arrived_def)
    have "0 < need ss j"
    proof (cases "j = 0")
      case False
      then obtain p where "(p, j) \<in> edges ss" using assms(4) less.prems by (auto simp: connected_def)
      then have "j \<in> set (concat ss)" by (auto simp: edges_def)
      then have "0 < count (mset (concat ss)) j" by (simp only: count_greater_zero_iff set_mset_mset)
      then show ?thesis using False by (simp add: need_def indegree_def)
    qed (simp add: need_def)
    then have "count (fl_ready s) j + count (mset (fl_log s)) j = 1"
      using assms(2) a by (simp add: flow_inv_def)
    then have "count (mset (fl_log s)) j = 1" using assms(6) by simp
    then show ?case by (metis count_eq_zero_iff set_mset_mset zero_neq_one)
  qed
  then have "set (fl_log s) = {..length ss}" using flow_inv_log(2)[OF assms(2)] by auto
  then have "set (fl_log s) = set [0..<Suc (length ss)]" by auto
  then show ?thesis using flow_inv_log(1)[OF assms(2)] set_eq_iff_mset_eq_distinct distinct_upt by blast
qed

end
