(* ===== verification/EdgeWorkflow.thy ===== *)
theory EdgeWorkflow
  imports EdgeComputer DagWorkflow
begin

text \<open>
  Edge computers that execute a graph of functions together. The requests that a client or a computer has
  sent are in flight until they are delivered, in any order, to the computer that serves their function;
  the workers of the computers execute the requests of their queues, in any interleaving, and what they
  send is in flight in turn. This system is proved to refine \<open>DagWorkflow\<close>.
\<close>

section \<open>The system\<close>

record wf_state =
  ws_comp :: "nat \<Rightarrow> edge_computer"
  ws_world :: state_world
  ws_flight :: "pb_request multiset"
  ws_responses :: "(string \<times> response) list"
  ws_log :: "nat list"

fun invoked :: "message \<Rightarrow> pb_request list" where
  "invoked (Callback e r) = []"
| "invoked (Invoke e r) = [r]"

fun answered :: "message \<Rightarrow> (string \<times> response) list" where
  "answered (Callback e r) = [(e, r)]"
| "answered (Invoke e r) = []"

definition idx :: "pb_request \<Rightarrow> nat" where
  "idx r = unat (pq_nextFunctionIndex r)"

text \<open>
  The steps; every call is delivered and the execution of a function does not throw. The invocations of a
  function reach the computer that \<open>route\<close> gives for it.
\<close>

inductive wf_step :: "(real \<Rightarrow> string) \<Rightarrow> (pb_request \<Rightarrow> exn + real \<times> real \<times> real \<times> real) \<Rightarrow> pb_state iter_order \<Rightarrow>
    string list iter_order \<Rightarrow> (nat \<Rightarrow> nat) \<Rightarrow> wf_state \<Rightarrow> wf_state \<Rightarrow> bool"
  for fmt dry ordS ordD route where
  deliver: "\<lbrakk>r \<in># ws_flight s; c = route (idx r);
      ec_process fmt net ordS dry run r (ws_comp s c) (ws_world s) = (Inr resp, c', w')\<rbrakk> \<Longrightarrow>
    wf_step fmt dry ordS ordD route s
      (s\<lparr>ws_comp := (ws_comp s)(c := c'), ws_world := w', ws_flight := ws_flight s - {#r#}\<rparr>)"
| work: "\<lbrakk>ec_queue (ws_comp s c) = Some (r # q);
      fst (blockingExecution net ordS run r ((ws_comp s c)\<lparr>ec_queue := Some q\<rparr>) (ws_world s)) = Inr resp;
      worker_step net (\<lambda>_. True) ordS ordD run (ws_comp s c) (ws_world s) = Some (Inr ms, c', w')\<rbrakk> \<Longrightarrow>
    wf_step fmt dry ordS ordD route s
      (s\<lparr>ws_comp := (ws_comp s)(c := c'), ws_world := w', ws_flight := ws_flight s + mset (concat (map invoked ms)),
         ws_responses := ws_responses s @ concat (map answered ms), ws_log := ws_log s @ [idx r]\<rparr>)"

text \<open>The runs of a request for a graph: asynchronous computers with a companion, and nothing else going on.\<close>

definition wf_start :: "pb_request \<Rightarrow> wf_state \<Rightarrow> bool" where
  "wf_start r s \<longleftrightarrow> (\<forall>c. ec_queue (ws_comp s c) = Some [] \<and> ec_companion (ws_comp s c) \<noteq> None \<and> ec_invocations (ws_comp s c) = []) \<and>
     ws_flight s = {#r#} \<and> ws_responses s = [] \<and> ws_log s = []"

inductive wf_run :: "(real \<Rightarrow> string) \<Rightarrow> (pb_request \<Rightarrow> exn + real \<times> real \<times> real \<times> real) \<Rightarrow> pb_state iter_order \<Rightarrow>
    string list iter_order \<Rightarrow> (nat \<Rightarrow> nat) \<Rightarrow> pb_request \<Rightarrow> nat \<Rightarrow> wf_state \<Rightarrow> bool"
  for fmt dry ordS ordD route r where
  start: "wf_start r s \<Longrightarrow> wf_run fmt dry ordS ordD route r 0 s"
| more: "wf_run fmt dry ordS ordD route r n s \<Longrightarrow> wf_step fmt dry ordS ordD route s s' \<Longrightarrow> wf_run fmt dry ordS ordD route r (Suc n) s'"

section \<open>Requests of a graph\<close>

text \<open>The request of the function \<open>j\<close> of the graph \<open>ss\<close>, \<open>names\<close> in the workflow \<open>u\<close> with callback \<open>cb\<close>.\<close>

definition wf_request :: "nat list list \<Rightarrow> string list \<Rightarrow> string \<Rightarrow> string \<Rightarrow> nat \<Rightarrow> pb_request \<Rightarrow> bool" where
  "wf_request ss names u cb j r \<longleftrightarrow> pq_chain r = [] \<and> pq_dag r = \<lparr>pb_successors = ss, pb_names = names\<rparr> \<and>
     pq_uuid r = u \<and> pq_callback r = cb \<and> pq_nextFunctionIndex r = of_nat j \<and> \<not> pq_dry r \<and>
     mwf (pq_dependencies r) \<and> (\<exists>d. dag_make ss names (pq_dependencies r) = Inr d)"

text \<open>The graphs considered: at least two functions, and indices that fit the type \<open>int\<close>.\<close>

definition graph_ok :: "nat list list \<Rightarrow> string list \<Rightarrow> bool" where
  "graph_ok ss names \<longleftrightarrow> ss \<noteq> [] \<and> length names = Suc (length ss) \<and> length names < 2 ^ 31 \<and> succs_ok ss"

lemma small_index:
  assumes "j < 2 ^ 31"
  shows "unat (of_nat j :: 32 word) = j" "sint (of_nat j :: 32 word) = int j" "int_of j = int j"
proof -
  have j: "int j < 2 ^ 31" using assms by simp
  show "unat (of_nat j :: 32 word) = j" using assms by (simp add: unat_of_nat take_bit_nat_eq_self)
  show s: "sint (of_nat j :: 32 word) = int j"
    using j signed_take_bit_int_eq_self[of 31 "int j"] by (simp add: signed_of_nat)
  show "int_of j = int j" by (simp add: int_of_def s)
qed

section \<open>What the handlers do with these requests\<close>

definition waiting :: "edge_computer \<Rightarrow> string \<Rightarrow> nat" where
  "waiting c h = (case map_of (ec_invocations c) h of None \<Rightarrow> 0 | Some n \<Rightarrow> n)"

definition hash_of :: "string \<Rightarrow> nat \<Rightarrow> string" where
  "hash_of u j = to_string j @ ''-'' @ u"

lemma hash_of_eq [simp]: "hash_of u j = hash_of u k \<longleftrightarrow> j = k"
  using to_string_inj by (auto simp: hash_of_def)

lemma expected_invocations_eq: "expected_invocations r = indegree (pb_successors (pq_dag r)) (idx r)"
proof -
  have i: "foldl (\<lambda>n j. if j = k then Suc n else n) m js = m + count (mset js) k" for k m and js :: "nat list"
    by (induction js arbitrary: m) auto
  have "foldl (\<lambda>n js. foldl (\<lambda>n j. if j = k then Suc n else n) n js) m jss = m + count (mset (concat jss)) k" for k m and jss :: "nat list list"
    by (induction jss arbitrary: m) (simp_all add: i)
  then show ?thesis by (simp add: expected_invocations_def indegree_def idx_def)
qed

lemma wf_request_idx:
  assumes "wf_request ss names u cb j r" and "graph_ok ss names" and "j \<le> length ss"
  shows "idx r = j" "sint (pq_nextFunctionIndex r) = int j" "makeHash r = hash_of u j" "pq_nextFunctionIndex r = 0 \<longleftrightarrow> j = 0"
proof -
  have j: "j < 2 ^ 31" using assms by (simp add: graph_ok_def)
  show i: "idx r = j" using assms(1) small_index(1)[OF j] by (simp add: idx_def wf_request_def)
  show "sint (pq_nextFunctionIndex r) = int j" using assms(1) small_index(2)[OF j] by (simp add: wf_request_def)
  show "makeHash r = hash_of u j" using assms(1) i by (simp add: makeHash_def hash_of_def wf_request_def idx_def)
  show "pq_nextFunctionIndex r = 0 \<longleftrightarrow> j = 0" using i by (auto simp: idx_def unat_eq_0)
qed

lemma deliver_request:
  assumes r: "wf_request ss names u cb j r" and g: "graph_ok ss names" and j: "j \<le> length ss" and "u \<noteq> []" and "cb \<noteq> []"
    and q: "ec_queue c = Some q" and n: "Suc (waiting c (hash_of u j)) \<le> need ss j"
  shows "\<exists>resp c'. ec_process fmt net ordS dry run r c w = (Inr resp, c', w) \<and> ps_retcode resp = ''OK'' \<and> ps_asynchronous resp \<and>
    ec_queue c' = Some (if Suc (waiting c (hash_of u j)) = need ss j then q @ [r] else q) \<and> ec_companion c' = ec_companion c \<and>
    (\<forall>h. waiting c' h = (if h = hash_of u j then (if Suc (waiting c (hash_of u j)) = need ss j then 0 else Suc (waiting c (hash_of u j)))
       else waiting c h))"
proof -
  let ?n = "waiting c (hash_of u j)"
  note i = wf_request_idx[OF r g j]
  have len: "1 < length names" using g by (cases ss) (auto simp: graph_ok_def)
  have chk: "check_request r = Inr ()" using r len assms(4,5) by (simp add: check_request_def wf_request_def)
  have pre: "\<exists>c'. checkPreconditions r c = (Inr (Suc ?n = need ss j), c') \<and> ec_queue c' = ec_queue c \<and> ec_companion c' = ec_companion c \<and>
      (\<forall>h. waiting c' h = (if h = hash_of u j then (if Suc ?n = need ss j then 0 else Suc ?n) else waiting c h))"
  proof (cases "j = 0 \<or> indegree ss j = 1")
    case True
    then have "need ss j = 1" by (auto simp: need_def)
    moreover have "checkPreconditions r c = (Inr True, c)"
      using True i r by (auto simp: checkPreconditions_def Let_def expected_invocations_eq wf_request_def)
    ultimately show ?thesis using n by auto
  next
    case False
    then have nd: "need ss j = indegree ss j" by (simp add: need_def)
    let ?m = "memplace (hash_of u j) 0 (ec_invocations c)"
    have m: "map_of ?m (hash_of u j) = Some ?n" "h \<noteq> hash_of u j \<Longrightarrow> map_of ?m h = map_of (ec_invocations c) h" for h
      by (auto simp: map_of_memplace waiting_def split: option.split)
    have "checkPreconditions r c = (if Suc ?n = indegree ss j then (Inr True, c\<lparr>ec_invocations := merase (hash_of u j) ?m\<rparr>)
        else (Inr False, c\<lparr>ec_invocations := mput (hash_of u j) (Suc ?n) ?m\<rparr>))"
      using False i r assms(4) len n nd m(1) by (auto simp: checkPreconditions_def Let_def expected_invocations_eq wf_request_def)
    then show ?thesis using m by (auto simp: nd waiting_def)
  qed
  then obtain c' where c': "checkPreconditions r c = (Inr (Suc ?n = need ss j), c')" "ec_queue c' = Some q" "ec_companion c' = ec_companion c"
    "\<forall>h. waiting c' h = (if h = hash_of u j then (if Suc ?n = need ss j then 0 else Suc ?n) else waiting c h)"
    using q by auto
  have "ec_process fmt net ordS dry run r c w = (Inr (pb_reply r ''OK'' (pb_empty\<lparr>ps_asynchronous := True\<rparr>)),
      if Suc ?n = need ss j then c'\<lparr>ec_queue := Some (q @ [r])\<rparr> else c', w)"
    using chk r c'(1) q assms(5) by (simp add: ec_process_def ec_try_def wf_request_def)
  then show ?thesis using c'(2-4) by (auto simp: pb_reply_def waiting_def)
qed

lemma blocking_keeps:
  assumes "blockingExecution net ord run r c w = (x, c', w')"
  shows "ec_queue c' = ec_queue c" "ec_companion c' = ec_companion c" "ec_invocations c' = ec_invocations c" "ec_endpoint c' = ec_endpoint c"
  using assms by (auto simp: blockingExecution_def taskDone_def Let_def split: sum.splits if_splits prod.splits)

lemma dag_functions_ok:
  "\<forall>k\<in>set js. k < length names \<and> k < 2 ^ 31 \<Longrightarrow> dag_functions names js = Inr (map (\<lambda>k. (k, names ! k)) js)"
  by (induction js) (simp_all add: small_index)

text \<open>The requests for the successors.\<close>

lemma invoke_request:
  assumes r: "wf_request ss names u cb j r" and g: "graph_ok ss names" and "iter_ok ordS" and "iter_ok ordD"
  shows "\<exists>q. request_from ordS ordD r = Inr q \<and>
    (\<forall>k f resp. k < 2 ^ 31 \<longrightarrow> wf_request ss names u cb k (request_toProtobuf (fst (regenerate ordS f k resp q))))"
proof -
  let ?ds = "pq_dependencies r"
  obtain d where d: "dag_make ss names ?ds = Inr d" and mw: "mwf ?ds" using r by (auto simp: wf_request_def)
  note dd = dag_make_wf[OF d]
  have gd: "getDependencies ordD r = ?ds"
    using mw assms(4) by (intro getDependencies_ok) (simp_all add: emplace_all_id)
  have rd: "pq_chain r = []" "pb_successors (pq_dag r) = ss" "pb_names (pq_dag r) = names" "ss \<noteq> []"
    using r g by (auto simp: wf_request_def graph_ok_def)
  obtain q where q: "request_from ordS ordD r = Inr q" "rq_dag q = Some d" "rq_chain q = None" "rq_uuid q = u" "rq_callback q = cb"
    using gd d rd r by (auto simp: request_from_def Let_def wf_request_def)
  have "wf_request ss names u cb k (request_toProtobuf (fst (regenerate ordS f k resp q)))" if "k < 2 ^ 31" for k f resp
    using q dd(2-4) mw d by (simp add: wf_request_def request_toProtobuf_def regenerate_def request_new_def Let_def emplace_all_id)
  then show ?thesis using q(1) by blast
qed

lemma invoke_all_ok:
  assumes "wf_request ss names u cb j r" and "graph_ok ss names" and "iter_ok ordS" and "iter_ok ordD"
    and "\<forall>k\<in>set js. k < 2 ^ 31"
  shows "\<exists>rs. invoke_all ordS ordD (\<lambda>_. True) dst r resp n (map (\<lambda>k. (k, names ! k)) js) = map (Invoke dst) rs \<and>
    list_all2 (wf_request ss names u cb) js rs"
  using assms(5)
proof (induction js arbitrary: n)
  case (Cons k js)
  obtain q where q: "request_from ordS ordD r = Inr q"
    "\<forall>k f resp. k < 2 ^ 31 \<longrightarrow> wf_request ss names u cb k (request_toProtobuf (fst (regenerate ordS f k resp q)))"
    using invoke_request[OF assms(1-4)] by blast
  obtain rs where rs: "invoke_all ordS ordD (\<lambda>_. True) dst r resp (Suc n) (map (\<lambda>k. (k, names ! k)) js) = map (Invoke dst) rs"
    "list_all2 (wf_request ss names u cb) js rs" using Cons by fastforce
  let ?x = "request_toProtobuf (fst (regenerate ordS (names ! k) k resp q))"
  have "wf_request ss names u cb k ?x" using q(2) Cons.prems by simp
  then show ?case using q(1) rs by (intro exI[of _ "?x # rs"]) simp
qed simp

lemma worker_request:
  assumes r: "wf_request ss names u cb j r" and g: "graph_ok ss names" and j: "j \<le> length ss" and "iter_ok ordS" and "iter_ok ordD"
    and c: "ec_queue c = Some (r # q)" "ec_companion c \<noteq> None"
    and x: "blockingExecution net ordS run r (c\<lparr>ec_queue := Some q\<rparr>) w = (Inr resp, c', w')"
  shows "\<exists>ms rs. worker_step net (\<lambda>_. True) ordS ordD run c w = Some (Inr ms, c', w') \<and>
    concat (map invoked ms) = rs \<and> list_all2 (wf_request ss names u cb) (succs ss j) rs \<and>
    (if j = length ss then \<exists>a. concat (map answered ms) = [(cb, a)] \<and> rs_retCode a = ''OK'' else concat (map answered ms) = [])"
proof -
  note i = wf_request_idx[OF r g j] and k = blocking_keeps[OF x]
  obtain dst where dst: "ec_companion c' = Some dst" using k(2) c(2) by auto
  have rd: "pq_chain r = []" "pb_successors (pq_dag r) = ss" "pb_names (pq_dag r) = names" "pq_callback r = cb" and len: "names \<noteq> []" "1 < length names"
    using r g by (cases ss; auto simp: wf_request_def graph_ok_def)+
  have st: "worker_step net (\<lambda>_. True) ordS ordD run c w = Some (worker_deliver ordS ordD (\<lambda>_. True) r resp c', c', w')"
    using c(1) x by (simp add: worker_step_def)
  have last: "lastFunction r \<longleftrightarrow> j = length ss" using rd len i(2) by (simp add: lastFunction_def)
  show ?thesis
  proof (cases "j = length ss")
    case True
    then show ?thesis using st last rd(4)
      by (simp add: worker_deliver_def succs_def response_from_def removePtimeLoad_def)
  next
    case False
    then have jl: "j < length ss" using j by simp
    have "\<forall>k\<in>set (ss ! j). k < length names \<and> k < 2 ^ 31"
      using g jl by (fastforce simp: graph_ok_def succs_ok_def)
    then have fs: "next_functions r = Inr (map (\<lambda>k. (k, names ! k)) (ss ! j))" and kk: "\<forall>k\<in>set (ss ! j). k < 2 ^ 31"
      using rd len i(2) jl dag_functions_ok by (auto simp: next_functions_def)
    obtain rs where rs: "invoke_all ordS ordD (\<lambda>_. True) dst r resp 0 (map (\<lambda>k. (k, names ! k)) (ss ! j)) = map (Invoke dst) rs"
      "list_all2 (wf_request ss names u cb) (ss ! j) rs"
      using invoke_all_ok[OF r g assms(4,5) kk] by blast
    have "worker_deliver ordS ordD (\<lambda>_. True) r resp c' = Inr (map (Invoke dst) rs)"
      using False last fs dst rs(1) by (simp add: worker_deliver_def)
    moreover have "concat (map invoked (map (Invoke dst) rs)) = rs" "concat (map answered (map (Invoke dst) rs)) = []"
      by (induction rs) simp_all
    ultimately show ?thesis using st rs(2) False jl by (simp add: succs_def)
  qed
qed

section \<open>The system refines the specification\<close>

definition queue_of :: "edge_computer \<Rightarrow> pb_request list" where
  "queue_of c = (case ec_queue c of None \<Rightarrow> [] | Some q \<Rightarrow> q)"

definition simulates :: "nat list list \<Rightarrow> string list \<Rightarrow> string \<Rightarrow> string \<Rightarrow> (nat \<Rightarrow> nat) \<Rightarrow> wf_state \<Rightarrow> flow \<Rightarrow> bool" where
  "simulates ss names u cb route s a \<longleftrightarrow>
     (\<forall>r. r \<in># ws_flight s \<longrightarrow> (\<exists>j\<le>length ss. wf_request ss names u cb j r)) \<and>
     (\<forall>c. ec_queue (ws_comp s c) \<noteq> None \<and> ec_companion (ws_comp s c) \<noteq> None \<and>
        (\<forall>r\<in>set (queue_of (ws_comp s c)). \<exists>j\<le>length ss. wf_request ss names u cb j r \<and> route j = c)) \<and>
     image_mset idx (ws_flight s) = fl_flight a \<and> fl_log a = ws_log s \<and>
     (\<forall>j\<le>length ss. count (fl_ready a) j = count (mset (map idx (queue_of (ws_comp s (route j))))) j) \<and>
     (\<forall>j\<le>length ss. fl_count a j = waiting (ws_comp s (route j)) (hash_of u j)) \<and>
     length (ws_responses s) = count (mset (ws_log s)) (length ss) \<and>
     (\<forall>(e, x)\<in>set (ws_responses s). e = cb \<and> rs_retCode x = ''OK'')"

lemma simulatesD:
  assumes "simulates ss names u cb route s a"
  shows "r \<in># ws_flight s \<Longrightarrow> \<exists>j\<le>length ss. wf_request ss names u cb j r"
    and "ec_queue (ws_comp s c) \<noteq> None" "ec_companion (ws_comp s c) \<noteq> None"
    and "r \<in> set (queue_of (ws_comp s c)) \<Longrightarrow> \<exists>j\<le>length ss. wf_request ss names u cb j r \<and> route j = c"
    and "fl_flight a = image_mset idx (ws_flight s)" "fl_log a = ws_log s"
    and "j \<le> length ss \<Longrightarrow> count (fl_ready a) j = count (mset (map idx (queue_of (ws_comp s (route j))))) j"
    and "j \<le> length ss \<Longrightarrow> fl_count a j = waiting (ws_comp s (route j)) (hash_of u j)"
    and "length (ws_responses s) = count (mset (ws_log s)) (length ss)"
    and "(e, x) \<in> set (ws_responses s) \<Longrightarrow> e = cb \<and> rs_retCode x = ''OK''"
proof -
  note a = assms[unfolded simulates_def, THEN conjunct1] assms[unfolded simulates_def, THEN conjunct2, THEN conjunct1]
    and b = assms[unfolded simulates_def, THEN conjunct2, THEN conjunct2]
  show "r \<in># ws_flight s \<Longrightarrow> \<exists>j\<le>length ss. wf_request ss names u cb j r" using a(1) by blast
  show "ec_queue (ws_comp s c) \<noteq> None" "ec_companion (ws_comp s c) \<noteq> None" using a(2) by blast+
  show "r \<in> set (queue_of (ws_comp s c)) \<Longrightarrow> \<exists>j\<le>length ss. wf_request ss names u cb j r \<and> route j = c" using a(2) by blast
  show "fl_flight a = image_mset idx (ws_flight s)" "fl_log a = ws_log s"
    "j \<le> length ss \<Longrightarrow> count (fl_ready a) j = count (mset (map idx (queue_of (ws_comp s (route j))))) j"
    "j \<le> length ss \<Longrightarrow> fl_count a j = waiting (ws_comp s (route j)) (hash_of u j)"
    "length (ws_responses s) = count (mset (ws_log s)) (length ss)"
    using b by simp_all
  show "(e, x) \<in> set (ws_responses s) \<Longrightarrow> e = cb \<and> rs_retCode x = ''OK''"
    using b by (elim conjE) auto
qed

lemma flow_step_deliver:
  assumes "j \<in># fl_flight a" and "Suc (fl_count a j) \<le> need ss j"
  shows "flow_step ss a (a\<lparr>fl_flight := fl_flight a - {#j#},
    fl_count := (fl_count a)(j := if Suc (fl_count a j) = need ss j then 0 else Suc (fl_count a j)),
    fl_ready := if Suc (fl_count a j) = need ss j then fl_ready a + {#j#} else fl_ready a\<rparr>)"
proof (cases "j = 0 \<or> indegree ss j = 1")
  case True
  then have n: "need ss j = 1" by (auto simp: need_def)
  then have z: "fl_count a j = 0" using assms(2) by simp
  have u: "(fl_count a)(j := 0) = fl_count a" by (rule ext) (simp add: z)
  have "flow_step ss a (a\<lparr>fl_flight := fl_flight a - {#j#}, fl_count := fl_count a, fl_ready := fl_ready a + {#j#}\<rparr>)"
    using flow_step.receive[OF assms(1) True] by simp
  then show ?thesis unfolding n z One_nat_def if_True refl simp_thms u .
next
  case False
  then have n: "need ss j = indegree ss j" by (simp add: need_def)
  show ?thesis
  proof (cases "Suc (fl_count a j) = indegree ss j")
    case True
    then show ?thesis using flow_step.join[OF assms(1) _ _ True] False n by simp
  next
    case lt: False
    then have "Suc (fl_count a j) < indegree ss j" using assms(2) n by simp
    then show ?thesis using flow_step.wait[OF assms(1)] False n lt by simp
  qed
qed

lemma simulates_deliver:
  assumes g: "graph_ok ss names" and u: "u \<noteq> []" "cb \<noteq> []" and sim: "simulates ss names u cb route s a" and inv: "flow_inv ss n a"
    and r: "r \<in># ws_flight s" and p: "ec_process fmt net ordS dry run r (ws_comp s (route (idx r))) (ws_world s) = (Inr resp, c', w')"
  shows "\<exists>a'. flow_step ss a a' \<and> simulates ss names u cb route
    (s\<lparr>ws_comp := (ws_comp s)(route (idx r) := c'), ws_world := w', ws_flight := ws_flight s - {#r#}\<rparr>) a'"
proof -
  note S = simulatesD[OF sim]
  obtain j where j: "j \<le> length ss" "wf_request ss names u cb j r" using S(1)[OF r] by blast
  have i: "idx r = j" by (rule wf_request_idx(1)[OF j(2) g j(1)])
  let ?c = "ws_comp s (route j)" and ?n = "fl_count a j"
  obtain q where q: "ec_queue ?c = Some q" using S(2) by blast
  have ja: "j \<in># fl_flight a" using r i unfolding S(5) by (metis image_eqI set_image_mset)
  have "succs_ok ss" using g by (simp add: graph_ok_def)
  then have le: "Suc ?n \<le> need ss j" using flow_inv_deliver(1)[OF _ inv ja refl refl] by blast
  have n: "waiting ?c (hash_of u j) = ?n" using S(8)[OF j(1)] by simp
  define a' where "a' = a\<lparr>fl_flight := fl_flight a - {#j#}, fl_count := (fl_count a)(j := if Suc ?n = need ss j then 0 else Suc ?n),
    fl_ready := if Suc ?n = need ss j then fl_ready a + {#j#} else fl_ready a\<rparr>"
  have step: "flow_step ss a a'" unfolding a'_def by (rule flow_step_deliver[OF ja le])
  have c': "ec_queue c' = Some (if Suc ?n = need ss j then q @ [r] else q)" "ec_companion c' \<noteq> None"
    "waiting c' h = (if h = hash_of u j then (if Suc ?n = need ss j then 0 else Suc ?n) else waiting ?c h)" for h
    using deliver_request[OF j(2) g j(1) u q, of fmt net ordS dry run "ws_world s"] le p S(3)[of "route j"] unfolding n i by auto
  let ?s = "s\<lparr>ws_comp := (ws_comp s)(route (idx r) := c'), ws_world := w', ws_flight := ws_flight s - {#r#}\<rparr>"
  have qs: "set (queue_of ?c) = set q" "queue_of c' = (if Suc ?n = need ss j then q @ [r] else q)" "queue_of ?c = q"
    using c'(1) q by (simp_all add: queue_of_def)
  have "simulates ss names u cb route ?s a'"
    unfolding simulates_def
  proof (intro conjI allI impI ballI, goal_cases)
    case (1 x)
    then show ?case using S(1)[of x] by (auto dest: in_diffD)
  next
    case (2 c)
    then show ?case using S(2) c'(1) by (auto simp: i)
  next
    case (3 c)
    then show ?case using S(3) c'(2) by (auto simp: i)
  next
    case (4 c x)
    show ?case
    proof (cases "c = route j")
      case True
      then have "x \<in> set q \<or> x = r" using 4 qs(2) by (auto simp: i split: if_splits)
      then show ?thesis using S(4)[of x "route j"] qs(1) j True by auto
    next
      case False
      then show ?thesis using 4 S(4)[of x c] by (simp add: i)
    qed
  next
    case 5
    show ?case using r S(5) by (simp add: a'_def i image_mset_Diff)
  next
    case 6
    show ?case using S(6) by (simp add: a'_def)
  next
    case (7 k)
    then have "count (fl_ready a) k = count (mset (map idx (queue_of (ws_comp s (route k))))) k" by (rule S(7))
    then show ?case using qs i by (cases "route k = route j"; cases "k = j") (simp_all add: a'_def)
  next
    case (8 k)
    then have "fl_count a k = waiting (ws_comp s (route k)) (hash_of u k)" by (rule S(8))
    then show ?case using c'(3) by (cases "route k = route j"; cases "k = j") (simp_all add: a'_def i)
  next
    case 9
    show ?case using S(9) by simp
  next
    case (10 ex)
    then show ?case using S(10) by auto
  qed
  then show ?thesis using step by blast
qed

lemma simulates_work:
  assumes g: "graph_ok ss names" and o: "iter_ok ordS" "iter_ok ordD" and sim: "simulates ss names u cb route s a" and inv: "flow_inv ss n a"
    and q: "ec_queue (ws_comp s c) = Some (r # q)"
    and x: "fst (blockingExecution net ordS run r ((ws_comp s c)\<lparr>ec_queue := Some q\<rparr>) (ws_world s)) = Inr resp"
    and ws: "worker_step net (\<lambda>_. True) ordS ordD run (ws_comp s c) (ws_world s) = Some (Inr ms, c', w')"
  shows "\<exists>a'. flow_step ss a a' \<and> simulates ss names u cb route
      (s\<lparr>ws_comp := (ws_comp s)(c := c'), ws_world := w', ws_flight := ws_flight s + mset (concat (map invoked ms)),
         ws_responses := ws_responses s @ concat (map answered ms), ws_log := ws_log s @ [idx r]\<rparr>) a'"
proof -
  note S = simulatesD[OF sim]
  let ?an = "\<lambda>(e, x). e = cb \<and> rs_retCode x = ''OK''"
  have rq: "r \<in> set (queue_of (ws_comp s c))" "queue_of (ws_comp s c) = r # q" using q by (simp_all add: queue_of_def)
  obtain j where j: "j \<le> length ss" "wf_request ss names u cb j r" "route j = c" using S(4)[OF rq(1)] by blast
  have i: "idx r = j" by (rule wf_request_idx(1)[OF j(2) g j(1)])
  have ja: "j \<in># fl_ready a"
  proof -
    have "count (fl_ready a) j = count (mset (map idx (r # q))) j" using S(7)[OF j(1)] j(3) rq(2) by simp
    then have "0 < count (fl_ready a) j" using i by simp
    then show ?thesis by simp
  qed
  obtain c2 w2 where x': "blockingExecution net ordS run r ((ws_comp s c)\<lparr>ec_queue := Some q\<rparr>) (ws_world s) = (Inr resp, c2, w2)"
    using x by (cases "blockingExecution net ordS run r ((ws_comp s c)\<lparr>ec_queue := Some q\<rparr>) (ws_world s)") auto
  obtain rs where m: "c' = c2" "concat (map invoked ms) = rs" "list_all2 (wf_request ss names u cb) (succs ss j) rs"
    "if j = length ss then \<exists>a. concat (map answered ms) = [(cb, a)] \<and> rs_retCode a = ''OK'' else concat (map answered ms) = []"
    using worker_request[OF j(2) g j(1) o q _ x'] ws S(3)[of c] by auto
  have k: "ec_queue c' = Some q" "ec_companion c' = ec_companion (ws_comp s c)" "ec_invocations c' = ec_invocations (ws_comp s c)"
    using blocking_keeps[OF x'] m(1) by simp_all
  have "succs_ok ss" using g by (simp add: graph_ok_def)
  then have sr: "k \<le> length ss" if "k \<in> set (succs ss j)" for k using succs_range that by blast
  have rs: "map idx rs = succs ss j" "\<forall>y\<in>set rs. \<exists>k\<le>length ss. wf_request ss names u cb k y"
  proof -
    show "map idx rs = succs ss j"
      using m(3) wf_request_idx(1)[OF _ g] sr by (induction rule: list_all2_induct) auto
    show "\<forall>y\<in>set rs. \<exists>k\<le>length ss. wf_request ss names u cb k y"
      using m(3) sr by (induction rule: list_all2_induct) auto
  qed
  define a' where "a' = a\<lparr>fl_ready := fl_ready a - {#j#}, fl_log := fl_log a @ [j], fl_flight := fl_flight a + mset (succs ss j)\<rparr>"
  have step: "flow_step ss a a'" unfolding a'_def by (rule flow_step.execute[OF ja])
  let ?s = "s\<lparr>ws_comp := (ws_comp s)(c := c'), ws_world := w', ws_flight := ws_flight s + mset (concat (map invoked ms)),
     ws_responses := ws_responses s @ concat (map answered ms), ws_log := ws_log s @ [idx r]\<rparr>"
  have qc: "queue_of c' = q" using k(1) by (simp add: queue_of_def)
  have wt: "waiting c' h = waiting (ws_comp s c) h" for h by (simp add: waiting_def k(3))
  have "simulates ss names u cb route ?s a'"
    unfolding simulates_def
  proof (intro conjI allI impI ballI, goal_cases)
    case (1 y)
    then show ?case using S(1)[of y] rs(2) m(2) by auto
  next
    case (2 d)
    then show ?case using S(2) k(1) by simp
  next
    case (3 d)
    then show ?case using S(3) k(2) by simp
  next
    case (4 d y)
    then show ?case using S(4)[of y d] qc rq(2) by (cases "d = c") simp_all
  next
    case 5
    have "image_mset idx (mset rs) = mset (succs ss j)" unfolding rs(1)[symmetric] by simp
    then show ?case using S(5) m(2) by (simp add: a'_def)
  next
    case 6
    show ?case using S(6) by (simp add: a'_def i)
  next
    case (7 k)
    then have "count (fl_ready a) k = count (mset (map idx (queue_of (ws_comp s (route k))))) k" by (rule S(7))
    then show ?case using qc rq(2) i j(3) by (cases "route k = c"; cases "k = j") (simp_all add: a'_def)
  next
    case (8 k)
    then have "fl_count a k = waiting (ws_comp s (route k)) (hash_of u k)" by (rule S(8))
    then show ?case using wt by (simp add: a'_def)
  next
    case 9
    show ?case using S(9) m(4) i by (cases "j = length ss") auto
  next
    case (10 ex)
    have "\<forall>ex\<in>set (concat (map answered ms)). ?an ex"
      using m(4) by (cases "j = length ss") (auto simp del: set_concat concat_eq_Nil_conv)
    then show ?case using S(10) 10 by (auto simp del: set_concat)
  qed
  then show ?thesis using step by blast
qed

lemma simulates_step:
  assumes "graph_ok ss names" and "u \<noteq> []" "cb \<noteq> []" and "iter_ok ordS" "iter_ok ordD" and "simulates ss names u cb route s a"
    and "flow_inv ss n a" and "wf_step fmt dry ordS ordD route s s'"
  shows "\<exists>a'. flow_step ss a a' \<and> simulates ss names u cb route s' a'"
  using assms(8)
proof (cases rule: wf_step.cases)
  case (deliver r c net run resp c' w')
  then show ?thesis using simulates_deliver[OF assms(1-3,6,7), of r fmt net ordS dry run resp c' w'] by simp
next
  case (work c r q net run resp ms c' w')
  then show ?thesis using simulates_work[OF assms(1,4-7), of c r q net run resp ms c' w'] by simp
qed

section \<open>The workflow completes\<close>

lemma wf_run_simulates:
  assumes "wf_run fmt dry ordS ordD route r n s" and "graph_ok ss names" and "u \<noteq> []" "cb \<noteq> []" and "iter_ok ordS" "iter_ok ordD"
    and "wf_request ss names u cb 0 r"
  shows "\<exists>a. simulates ss names u cb route s a \<and> flow_run ss n a \<and> flow_inv ss n a"
  using assms(1)
proof (induction rule: wf_run.induct)
  case (start s)
  have "idx r = 0" using wf_request_idx(1)[OF assms(7,2)] by simp
  then have "simulates ss names u cb route s flow_init"
    using start assms(7) by (auto simp: simulates_def wf_start_def flow_init_def queue_of_def waiting_def)
  then show ?case using flow_run.start flow_inv_init by blast
next
  case (more n s s')
  then obtain a where a: "simulates ss names u cb route s a" "flow_run ss n a" "flow_inv ss n a" by blast
  obtain a' where a': "flow_step ss a a'" "simulates ss names u cb route s' a'"
    using simulates_step[OF assms(2-6) a(1,3) more(2)] by blast
  have "succs_ok ss" using assms(2) by (simp add: graph_ok_def)
  then show ?case using flow_run.more[OF a(2) a'(1)] a'(2) flow_step_inv[OF _ a'(1) a(3)] by blast
qed


text \<open>A complete run: two functions, on one computer.\<close>

definition wf_names_ex :: "string list" where "wf_names_ex = [''f0'', ''f1'']"

definition wf_req_ex :: pb_request where
  "wf_req_ex = \<lparr>pq_name = ''f0'', pq_input = ''i'', pq_datain = [], pq_dry = False, pq_forward = False, pq_hops = 0, pq_states = [],
     pq_callback = ''cb'', pq_chain = [], pq_dag = \<lparr>pb_successors = [[1]], pb_names = [''f0'', ''f1'']\<rparr>, pq_dependencies = [],
     pq_nextFunctionIndex = 0, pq_uuid = ''u''\<rparr>"

definition wf_req_ex' :: pb_request where
  "wf_req_ex' = wf_req_ex\<lparr>pq_name := ''f1'', pq_input := ''o'', pq_hops := 1, pq_nextFunctionIndex := 1\<rparr>"

definition wf_comp_ex :: "pb_request list \<Rightarrow> edge_computer" where
  "wf_comp_ex q = \<lparr>ec_endpoint = ''c'', ec_queue = Some q, ec_companion = Some ''m'', ec_state = None, ec_descriptors = [], ec_invocations = []\<rparr>"

definition wf_run_ex :: run where
  "wf_run_ex = \<lparr>run_start = Inr 0, run_answer = response_sync ''OK'' ''o'', run_ms = 1\<rparr>"

definition wf_state_ex :: "pb_request list \<Rightarrow> pb_request multiset \<Rightarrow> (string \<times> response) list \<Rightarrow> nat list \<Rightarrow> wf_state" where
  "wf_state_ex q fl rs lg = \<lparr>ws_comp = (\<lambda>_. wf_comp_ex [])(0 := wf_comp_ex q), ws_world = \<lparr>sw_repo = \<lambda>_. [], sw_calls = 0\<rparr>,
     ws_flight = fl, ws_responses = rs, ws_log = lg\<rparr>"

abbreviation "dry_ex \<equiv> (\<lambda>_. Inl RpcError) :: pb_request \<Rightarrow> exn + real \<times> real \<times> real \<times> real"

lemma wf_ex_deliver:
  "ec_process (\<lambda>_. []) net id dry_ex run wf_req_ex (wf_comp_ex []) w = (Inr (pb_reply wf_req_ex ''OK'' (pb_empty\<lparr>ps_asynchronous := True\<rparr>)), wf_comp_ex [wf_req_ex], w)"
  "ec_process (\<lambda>_. []) net id dry_ex run wf_req_ex' (wf_comp_ex []) w = (Inr (pb_reply wf_req_ex' ''OK'' (pb_empty\<lparr>ps_asynchronous := True\<rparr>)), wf_comp_ex [wf_req_ex'], w)"
  by (simp_all add: ec_process_def ec_try_def check_request_def checkPreconditions_def Let_def expected_invocations_def
      wf_req_ex_def wf_req_ex'_def wf_comp_ex_def)

lemma wf_ex_block:
  "r = wf_req_ex \<or> r = wf_req_ex' \<Longrightarrow> blockingExecution net id wf_run_ex r (wf_comp_ex []) w =
     (Inr ((response_toProtobuf (response_sync ''OK'' ''o''))\<lparr>ps_ptime := 1\<rparr>), wf_comp_ex [], w)"
  by (auto simp: blockingExecution_def wf_run_ex_def wf_comp_ex_def taskDone_def handleRemoteStates_def wf_req_ex_def wf_req_ex'_def
      Let_def merase_def)

lemma wf_ex_work:
  "worker_step net (\<lambda>_. True) id id wf_run_ex (wf_comp_ex [wf_req_ex]) w = Some (Inr [Invoke ''m'' wf_req_ex'], wf_comp_ex [], w)"
  "\<exists>x. worker_step net (\<lambda>_. True) id id wf_run_ex (wf_comp_ex [wf_req_ex']) w = Some (Inr [Callback ''cb'' x], wf_comp_ex [], w)"
proof -
  have c: "(wf_comp_ex [r])\<lparr>ec_queue := Some []\<rparr> = wf_comp_ex []" for r by (simp add: wf_comp_ex_def)
  have b: "ec_queue (wf_comp_ex q) = Some q" "ec_companion (wf_comp_ex q) = Some ''m''" for q by (simp_all add: wf_comp_ex_def)
  have "worker_deliver id id (\<lambda>_. True) wf_req_ex ((response_toProtobuf (response_sync ''OK'' ''o''))\<lparr>ps_ptime := 1\<rparr>) (wf_comp_ex []) =
      Inr [Invoke ''m'' wf_req_ex']"
    by code_simp
  then show "worker_step net (\<lambda>_. True) id id wf_run_ex (wf_comp_ex [wf_req_ex]) w = Some (Inr [Invoke ''m'' wf_req_ex'], wf_comp_ex [], w)"
    by (simp add: worker_step_def b c wf_ex_block)
  have "lastFunction wf_req_ex'" by (simp add: lastFunction_def wf_req_ex'_def wf_req_ex_def)
  then show "\<exists>x. worker_step net (\<lambda>_. True) id id wf_run_ex (wf_comp_ex [wf_req_ex']) w = Some (Inr [Callback ''cb'' x], wf_comp_ex [], w)"
    by (simp add: worker_step_def b c wf_ex_block worker_deliver_def) (simp add: wf_req_ex'_def wf_req_ex_def)
qed

lemma wf_ex_run:
  "\<exists>x. wf_run (\<lambda>_. []) dry_ex id id (\<lambda>_. 0) wf_req_ex 4 (wf_state_ex [] {#} [(''cb'', x)] [0, 1])"
proof -
  let ?step = "wf_step (\<lambda>_. []) dry_ex id id (\<lambda>_. 0)" and ?run = "wf_run (\<lambda>_. []) dry_ex id id (\<lambda>_. 0) wf_req_ex"
  have d: "?step (wf_state_ex [] {#r#} rs lg) (wf_state_ex [r] {#} rs lg)" if "r = wf_req_ex \<or> r = wf_req_ex'" for r rs lg
    using wf_step.deliver[of r "wf_state_ex [] {#r#} rs lg" 0 "\<lambda>_. 0" "\<lambda>_. []" "\<lambda>_. True" id dry_ex wf_run_ex] that wf_ex_deliver
    by (auto simp: wf_state_ex_def)
  have w: "?step (wf_state_ex [r] {#} rs lg)
      (wf_state_ex [] (mset (concat (map invoked ms))) (rs @ concat (map answered ms)) (lg @ [idx r]))"
    if "r = wf_req_ex \<or> r = wf_req_ex'" and ms: "worker_step (\<lambda>_. True) (\<lambda>_. True) id id wf_run_ex (wf_comp_ex [r]) \<lparr>sw_repo = \<lambda>_. [], sw_calls = 0\<rparr> =
       Some (Inr ms, wf_comp_ex [], \<lparr>sw_repo = \<lambda>_. [], sw_calls = 0\<rparr>)" for r rs lg ms
  proof -
    have c: "(wf_comp_ex [r])\<lparr>ec_queue := Some []\<rparr> = wf_comp_ex []" "ec_queue (wf_comp_ex [r]) = Some [r]" by (simp_all add: wf_comp_ex_def)
    show ?thesis
      using wf_step.work[of "wf_state_ex [r] {#} rs lg" 0 r "[]" "\<lambda>_. True" id wf_run_ex _ id ms "wf_comp_ex []"
          "\<lparr>sw_repo = \<lambda>_. [], sw_calls = 0\<rparr>" "\<lambda>_. []" dry_ex "\<lambda>_. 0"] c that wf_ex_block[of r]
      by (auto simp: wf_state_ex_def)
  qed
  obtain x where x: "worker_step (\<lambda>_. True) (\<lambda>_. True) id id wf_run_ex (wf_comp_ex [wf_req_ex']) \<lparr>sw_repo = \<lambda>_. [], sw_calls = 0\<rparr> =
      Some (Inr [Callback ''cb'' x], wf_comp_ex [], \<lparr>sw_repo = \<lambda>_. [], sw_calls = 0\<rparr>)" using wf_ex_work(2) by blast
  have i: "idx wf_req_ex = 0" "idx wf_req_ex' = 1" by (simp_all add: idx_def wf_req_ex_def wf_req_ex'_def)
  have r0: "?run 0 (wf_state_ex [] {#wf_req_ex#} [] [])"
    by (rule wf_run.start) (simp add: wf_start_def wf_state_ex_def wf_comp_ex_def)
  have r1: "?run (Suc 0) (wf_state_ex [wf_req_ex] {#} [] [])" by (rule wf_run.more[OF r0 d]) simp
  have r2: "?run (Suc (Suc 0)) (wf_state_ex [] {#wf_req_ex'#} [] [0])"
    using wf_run.more[OF r1 w[OF _ wf_ex_work(1)]] i by simp
  have r3: "?run (Suc (Suc (Suc 0))) (wf_state_ex [wf_req_ex'] {#} [] [0])" by (rule wf_run.more[OF r2 d]) simp
  have "?run (Suc (Suc (Suc (Suc 0)))) (wf_state_ex [] {#} [(''cb'', x)] [0, 1])"
    using wf_run.more[OF r3 w[OF _ x]] i by simp
  then show ?thesis by (auto simp: eval_nat_numeral)
qed


end
