(* ===== verification/Processor.thy ===== *)
theory Processor
  imports Messages
begin

text \<open>
  Processors and lambda functions, \<open>Edge/processortype.cpp\<close>, \<open>processor.cpp\<close> and \<open>lambda.cpp\<close>.

  A processor shares its speed among the running tasks and keeps account of the memory they use.
  Memory, operations and the number of tasks are 64-bit words; speeds and times are real numbers.
  The two chronometers and the moving averages belong to the support library, outside the
  repository: the time that a chronometer returns is an argument of the operation that reads it,
  and the moving averages are functions of the samples added so far (\<open>moving_avg\<close>).
\<close>

named_theorems proc_simps \<open>rewriting rules for the accounts of a processor\<close>

section \<open>Data\<close>

datatype processor_type = GenericCpu | GenericGpu

definition processorTypeFromString :: "string \<Rightarrow> exn + processor_type" where
  "processorTypeFromString s =
     (if s = ''GenericCpu'' then Inr GenericCpu
      else if s = ''GenericGpu'' then Inr GenericGpu
      else Inl (RuntimeError (''Invalid processor type: '' @ s)))"

definition processorTypeToString :: "processor_type \<Rightarrow> string" where
  "processorTypeToString t = (case t of GenericCpu \<Rightarrow> ''GenericCpu'' | GenericGpu \<Rightarrow> ''GenericGpu'')"

record processor =
  pr_name :: string
  pr_type :: processor_type
  pr_speed :: real
  pr_cores :: "64 word"
  pr_memTotal :: "64 word"
  pr_memUsed :: "64 word"
  pr_running :: "64 word"
  pr_busyTime :: real
  pr_load10Wnd :: "real list"
  pr_load30Wnd :: "real list"

text \<open>A moving average over a window of the given length, as a function of the samples added.\<close>

record moving_avg =
  mv_empty :: "nat \<Rightarrow> real list \<Rightarrow> bool"
  mv_last :: "nat \<Rightarrow> real list \<Rightarrow> real"
  mv_average :: "nat \<Rightarrow> real list \<Rightarrow> real"

record lambda_requirements =
  theOperations :: "64 word"
  theMemory :: "64 word"

record lambda =
  lm_name :: string
  lm_copyInput :: bool
  lm_copyStates :: bool
  lm_output :: string
  lm_converter :: "processor \<Rightarrow> request \<Rightarrow> lambda_requirements"

section \<open>Processors\<close>

definition processor_new ::
  "string \<Rightarrow> processor_type \<Rightarrow> real \<Rightarrow> 64 word \<Rightarrow> 64 word \<Rightarrow> exn + processor" where
  "processor_new aName aType aSpeed aCores aMem =
     (if aName = [] then Inl (RuntimeError ''Invalid empty name for a processor'')
      else if aSpeed \<le> 0 then Inl (RuntimeError ''Invalid negative speed for a processor'')
      else if aCores = 0 then Inl (RuntimeError ''Invalid 0 cores for a processor'')
      else if aMem = 0 then Inl (RuntimeError ''Invalid 0 memory available for a processor'')
      else Inr \<lparr>pr_name = aName, pr_type = aType, pr_speed = aSpeed, pr_cores = aCores,
                pr_memTotal = aMem, pr_memUsed = 0, pr_running = 0, pr_busyTime = 0,
                pr_load10Wnd = [], pr_load30Wnd = []\<rparr>)"

definition memAvailable :: "processor \<Rightarrow> 64 word" where
  "memAvailable p = pr_memTotal p - pr_memUsed p"

text \<open>The argument \<open>t\<close> is the time that \<open>theBusyChrono.restart()\<close> returns.\<close>

definition addBusy :: "real \<Rightarrow> processor \<Rightarrow> processor" where
  "addBusy t p = p\<lparr>pr_busyTime := pr_busyTime p + t * real (unat (pr_running p))\<rparr>"

definition allocate :: "real \<Rightarrow> 64 word \<Rightarrow> processor \<Rightarrow> exn + processor" where
  "allocate t aSize p =
     (if aSize > memAvailable p
      then Inl (RuntimeError (''Cannot allocate '' @ to_string (unat aSize) @ '' bytes, '' @
             to_string (unat (memAvailable p)) @ '' bytes available''))
      else let p = addBusy t p
           in Inr (p\<lparr>pr_memUsed := pr_memUsed p + aSize, pr_running := pr_running p + 1\<rparr>))"

definition free :: "real \<Rightarrow> 64 word \<Rightarrow> processor \<Rightarrow> exn + processor" where
  "free t aSize p =
     (if aSize > pr_memUsed p
      then Inl (RuntimeError (''Cannot free '' @ to_string (unat aSize) @ '' bytes, '' @
             to_string (unat (pr_memUsed p)) @ '' bytes used''))
      else let p = addBusy t p
           in Inr (p\<lparr>pr_memUsed := pr_memUsed p - aSize, pr_running := pr_running p - 1\<rparr>))"

definition equivalentSpeed :: "processor \<Rightarrow> real" where
  "equivalentSpeed p =
     real (unat (min (pr_cores p) (pr_running p))) * pr_speed p / real (unat (pr_running p))"

definition opsToTime :: "64 word \<Rightarrow> processor \<Rightarrow> real" where
  "opsToTime aOps p = (if pr_running p = 0 then 0 else real (unat aOps) / equivalentSpeed p)"

definition opsToTimePlusOne :: "64 word \<Rightarrow> processor \<Rightarrow> real" where
  "opsToTimePlusOne aOps p =
     (let myRunning = pr_running p + 1
      in real (unat aOps) / (real (unat (min (pr_cores p) myRunning)) * pr_speed p / real (unat myRunning)))"

text \<open>Conversion of a \<open>double\<close> in the range of the type to \<open>uint64_t\<close>: truncation.\<close>

definition to_u64 :: "real \<Rightarrow> 64 word" where
  "to_u64 x = of_int \<lfloor>x\<rfloor>"

definition timeToOps :: "real \<Rightarrow> processor \<Rightarrow> 64 word" where
  "timeToOps aTime p = (if pr_running p = 0 then 0 else to_u64 (0.5 + aTime * equivalentSpeed p))"

text \<open>
  The utilization since the last call; \<open>e\<close> and \<open>t\<close> are the times that \<open>theChrono.restart()\<close> and
  \<open>theBusyChrono.restart()\<close> return.
\<close>

definition utilization :: "real \<Rightarrow> real \<Rightarrow> processor \<Rightarrow> (exn + real) \<times> processor" where
  "utilization e t p =
     (let p = addBusy t p
      in if e \<le> 0 then (Inl (Undefined ''assertion myElapsed > 0''), p)
         else let u = min (pr_busyTime p / (real (unat (pr_cores p)) * e)) 1
              in (Inr u, p\<lparr>pr_busyTime := 0, pr_load10Wnd := pr_load10Wnd p @ [u],
                           pr_load30Wnd := pr_load30Wnd p @ [u]\<rparr>))"

definition lastUtils :: "moving_avg \<Rightarrow> processor \<Rightarrow> real \<times> real \<times> real" where
  "lastUtils W p =
     (if mv_empty W 10 (pr_load10Wnd p) \<or> mv_empty W 30 (pr_load30Wnd p) then (0, 0, 0)
      else (mv_last W 30 (pr_load30Wnd p), mv_average W 10 (pr_load10Wnd p), mv_average W 30 (pr_load30Wnd p)))"

section \<open>Lambda functions\<close>

definition proportionalRequirements ::
  "real \<Rightarrow> real \<Rightarrow> real \<Rightarrow> real \<Rightarrow> processor \<Rightarrow> request \<Rightarrow> lambda_requirements" where
  "proportionalRequirements aOpCoeff aOpOffset aMemCoeff aMemOffset p r =
     (let n = real (length (rq_input r))
      in \<lparr>theOperations = of_int (max 0 \<lfloor>0.5 + aOpOffset + aOpCoeff * n\<rfloor>),
          theMemory = of_int (max 0 \<lfloor>0.5 + aMemOffset + aMemCoeff * n\<rfloor>)\<rparr>)"

definition fixedRequirements :: "64 word \<Rightarrow> 64 word \<Rightarrow> processor \<Rightarrow> request \<Rightarrow> lambda_requirements" where
  "fixedRequirements ops mem p r = \<lparr>theOperations = ops, theMemory = mem\<rparr>"

definition lambda_copy :: "string \<Rightarrow> (processor \<Rightarrow> request \<Rightarrow> lambda_requirements) \<Rightarrow> lambda" where
  "lambda_copy aName conv = \<lparr>lm_name = aName, lm_copyInput = True, lm_copyStates = True,
     lm_output = [], lm_converter = conv\<rparr>"

definition lambda_output :: "string \<Rightarrow> string \<Rightarrow> (processor \<Rightarrow> request \<Rightarrow> lambda_requirements) \<Rightarrow> lambda" where
  "lambda_output aName aOutput conv = \<lparr>lm_name = aName, lm_copyInput = False, lm_copyStates = True,
     lm_output = aOutput, lm_converter = conv\<rparr>"

definition lambda_execute :: "lambda \<Rightarrow> request \<Rightarrow> real \<times> real \<times> real \<Rightarrow> response" where
  "lambda_execute l r aLoads =
     (let ret = response_new ''OK'' (if lm_copyInput l then rq_input r else lm_output l) aLoads False
      in if lm_copyStates l then ret\<lparr>rs_states := rq_states r\<rparr> else ret)"

section \<open>Facts about the accounts\<close>

declare of_nat_unat [simp del]

definition proc_wf :: "processor \<Rightarrow> bool" where
  "proc_wf p \<longleftrightarrow> 0 < pr_speed p \<and> pr_cores p \<noteq> 0 \<and> pr_memUsed p \<le> pr_memTotal p"

lemma processor_new_wf: "processor_new n t s c m = Inr p \<Longrightarrow> proc_wf p"
  by (auto simp: processor_new_def proc_wf_def split: if_splits)

lemma unat_memAvailable:
  "pr_memUsed p \<le> pr_memTotal p \<Longrightarrow> unat (memAvailable p) = unat (pr_memTotal p) - unat (pr_memUsed p)"
  by (simp add: memAvailable_def unat_sub)

lemma allocate_ok:
  assumes "proc_wf p" and "aSize \<le> memAvailable p"
  obtains p' where "allocate t aSize p = Inr p'" and "proc_wf p'"
    and "unat (pr_memUsed p') = unat (pr_memUsed p) + unat aSize" and "pr_running p' = pr_running p + 1"
    and "pr_name p' = pr_name p" "pr_memTotal p' = pr_memTotal p" "pr_speed p' = pr_speed p" "pr_cores p' = pr_cores p"
proof -
  let ?p' = "(addBusy t p)\<lparr>pr_memUsed := pr_memUsed p + aSize, pr_running := pr_running p + 1\<rparr>"
  have le: "unat (pr_memUsed p) + unat aSize \<le> unat (pr_memTotal p)"
    using assms unat_memAvailable[of p] by (auto simp: proc_wf_def word_le_nat_alt)
  have lt: "unat (pr_memTotal p) < 2 ^ 64" using unsigned_less[of "pr_memTotal p"] by simp
  have u: "unat (pr_memUsed p + aSize) = unat (pr_memUsed p) + unat aSize"
    using le lt by (subst unat_add_lem[symmetric]) simp
  show ?thesis
  proof (rule that)
    show "allocate t aSize p = Inr ?p'" using assms(2) by (simp add: allocate_def addBusy_def Let_def)
    show "proc_wf ?p'" using assms(1) u le by (simp add: proc_wf_def addBusy_def word_le_nat_alt)
  qed (simp_all add: addBusy_def u)
qed

lemma free_ok:
  assumes "proc_wf p" and "aSize \<le> pr_memUsed p"
  obtains p' where "free t aSize p = Inr p'" and "proc_wf p'"
    and "unat (pr_memUsed p') = unat (pr_memUsed p) - unat aSize" and "pr_running p' = pr_running p - 1"
    and "pr_name p' = pr_name p" "pr_memTotal p' = pr_memTotal p" "pr_speed p' = pr_speed p" "pr_cores p' = pr_cores p"
proof -
  let ?p' = "(addBusy t p)\<lparr>pr_memUsed := pr_memUsed p - aSize, pr_running := pr_running p - 1\<rparr>"
  have u: "unat (pr_memUsed p - aSize) = unat (pr_memUsed p) - unat aSize"
    using assms(2) by (rule unat_sub)
  show ?thesis
  proof (rule that)
    show "free t aSize p = Inr ?p'" using assms(2) by (simp add: free_def addBusy_def Let_def)
    show "proc_wf ?p'" using assms(1) u by (auto simp: proc_wf_def addBusy_def word_le_nat_alt)
  qed (simp_all add: addBusy_def u)
qed

lemma equivalentSpeed_pos:
  assumes "proc_wf p" and "pr_running p \<noteq> 0"
  shows "0 < equivalentSpeed p"
proof -
  have "0 < unat (min (pr_cores p) (pr_running p))" "0 < unat (pr_running p)"
    using assms by (auto simp: proc_wf_def min_def unat_gt_0)
  then show ?thesis using assms(1) by (simp add: equivalentSpeed_def proc_wf_def)
qed

lemma opsToTime_0_iff:
  "proc_wf p \<Longrightarrow> pr_running p \<noteq> 0 \<Longrightarrow> opsToTime ops p = 0 \<longleftrightarrow> ops = 0"
  using equivalentSpeed_pos[of p] by (simp add: opsToTime_def unat_eq_0)

lemma opsToTime_nonneg: "proc_wf p \<Longrightarrow> 0 \<le> opsToTime ops p"
  using equivalentSpeed_pos[of p] by (auto simp: opsToTime_def)

text \<open>The time to run some operations is the time in which exactly these operations are run.\<close>

lemma timeToOps_opsToTime:
  assumes "proc_wf p" and "pr_running p \<noteq> 0"
  shows "timeToOps (opsToTime ops p) p = ops"
proof -
  have "opsToTime ops p * equivalentSpeed p = real (unat ops)"
    using equivalentSpeed_pos[OF assms] assms(2) by (simp add: opsToTime_def)
  then have "timeToOps (opsToTime ops p) p = of_int \<lfloor>0.5 + real (unat ops)\<rfloor>"
    using assms(2) by (simp add: timeToOps_def to_u64_def)
  also have "\<lfloor>0.5 + real (unat ops)\<rfloor> = int (unat ops)" by (simp add: floor_eq_iff)
  finally show ?thesis by (simp add: of_nat_unat)
qed

end
