(* ===== verification/Container.thy ===== *)
theory Container
  imports Processor
begin

text \<open>
  Containers, \<open>Edge/container.cpp\<close>: a container runs the tasks of one lambda on a processor with a
  limited number of workers. The active tasks are a list in the order of completion in which each
  task holds the operations that remain after its predecessor completes; the tasks that find no
  worker or no memory wait in a second list.

  The reference to the processor is explicit: an operation takes the processor and returns it
  updated. The readings of its busy chronometer are arguments. The lemmas are about a container
  together with its processor, which other containers use as well: \<open>m\<close> and \<open>k\<close> are the memory and
  the number of tasks of the others.
\<close>

section \<open>Data\<close>

record task =
  tk_id :: "64 word"
  tk_memory :: "64 word"
  tk_residualOps :: "64 word"
  tk_resp :: response

record ctr =
  cn_name :: string
  cn_processor :: string
  cn_lambda :: lambda
  cn_numWorkers :: nat
  cn_active :: "task list"
  cn_pending :: "task list"

section \<open>Operations\<close>

definition container_new :: "string \<Rightarrow> string \<Rightarrow> lambda \<Rightarrow> nat \<Rightarrow> exn + ctr" where
  "container_new aName aProc aLambda aNumWorkers =
     (if aNumWorkers = 0 then Inl (RuntimeError (''Zero workers used for container '' @ aName))
      else Inr \<lparr>cn_name = aName, cn_processor = aProc, cn_lambda = aLambda,
                cn_numWorkers = aNumWorkers, cn_active = [], cn_pending = []\<rparr>)"

definition ctr_requirements :: "ctr \<Rightarrow> processor \<Rightarrow> request \<Rightarrow> exn + lambda_requirements" where
  "ctr_requirements c p r =
     (let q = lm_converter (cn_lambda c) p r
      in if theMemory q > pr_memTotal p
         then Inl (RuntimeError (''Container '' @ cn_name c @ '' cannot handle request '' @ rq_name r @
                '' since the memory requirements exceed the total available in the processor: '' @
                to_string (unat (pr_memTotal p)) @ '' <= '' @ to_string (unat (theMemory q))))
         else Inr q)"

text \<open>The loop of \<open>makeActive\<close>: the position of the task, from the sum of the operations before it.\<close>

fun insert_active :: "64 word \<Rightarrow> task \<Rightarrow> task list \<Rightarrow> task list" where
  "insert_active mySum t [] = [t\<lparr>tk_residualOps := tk_residualOps t - mySum\<rparr>]"
| "insert_active mySum t (x # xs) =
     (if mySum + tk_residualOps x > tk_residualOps t
      then (let r = tk_residualOps t - mySum
            in t\<lparr>tk_residualOps := r\<rparr> # x\<lparr>tk_residualOps := tk_residualOps x - r\<rparr> # xs)
      else x # insert_active (mySum + tk_residualOps x) t xs)"

definition makeActive :: "task \<Rightarrow> ctr \<Rightarrow> ctr" where
  "makeActive t c = c\<lparr>cn_active := insert_active 0 t (cn_active c)\<rparr>"

definition ctr_push ::
  "moving_avg \<Rightarrow> real \<Rightarrow> request \<Rightarrow> 64 word \<Rightarrow> ctr \<times> processor \<Rightarrow> exn + ctr \<times> processor" where
  "ctr_push W t r i cp = (case cp of (c, p) \<Rightarrow>
     rbind (ctr_requirements c p r) (\<lambda>q.
       let tk = \<lparr>tk_id = i, tk_memory = theMemory q, tk_residualOps = theOperations q,
                 tk_resp = lambda_execute (cn_lambda c) r (lastUtils W p)\<rparr>
       in if length (cn_active c) = cn_numWorkers c \<or> memAvailable p < theMemory q
          then Inr (c\<lparr>cn_pending := cn_pending c @ [tk]\<rparr>, p)
          else rbind (allocate t (theMemory q) p) (\<lambda>p. Inr (makeActive tk c, p))))"

definition ctr_simulate :: "request \<Rightarrow> ctr \<Rightarrow> processor \<Rightarrow> exn + real" where
  "ctr_simulate r c p =
     rbind (ctr_requirements c p r) (\<lambda>q.
       let oneMore = length (cn_active c) < cn_numWorkers c;
           e1 = foldl (\<lambda>mySum tk. mySum + opsToTime (tk_residualOps tk) p) 0 (cn_pending c);
           e2 = (if length (cn_active c) = cn_numWorkers c
                 then e1 + opsToTime (tk_residualOps (hd (cn_active c))) p else e1);
           e3 = e2 + (if oneMore then opsToTimePlusOne (theOperations q) p else opsToTime (theOperations q) p)
       in if e3 > 0 then Inr e3 else Inl (Undefined ''assertion myElapsed > 0''))"

definition throwIfEmpty :: "ctr \<Rightarrow> exn + unit" where
  "throwIfEmpty c = (if cn_active c = [] then Inl (RuntimeError ''No active tasks'') else Inr ())"

text \<open>
  The loop of \<open>pop\<close> over the pending tasks, which stops at the first task that cannot be started.
  \<open>ts\<close> gives the readings of the chronometer, by the number of tasks that are still pending.
\<close>

fun activate_pending :: "(nat \<Rightarrow> real) \<Rightarrow> task list \<Rightarrow> ctr \<times> processor \<Rightarrow> exn + ctr \<times> processor" where
  "activate_pending ts [] (c, p) = Inr (c\<lparr>cn_pending := []\<rparr>, p)"
| "activate_pending ts (tk # tks) (c, p) =
     (if length (cn_active c) = cn_numWorkers c \<or> memAvailable p < tk_memory tk
      then Inr (c\<lparr>cn_pending := tk # tks\<rparr>, p)
      else rbind (allocate (ts (length tks)) (tk_memory tk) p)
             (\<lambda>p. activate_pending ts tks (makeActive tk c, p)))"

definition ctr_pop :: "(nat \<Rightarrow> real) \<Rightarrow> ctr \<times> processor \<Rightarrow> exn + task \<times> ctr \<times> processor" where
  "ctr_pop ts cp = (case cp of (c, p) \<Rightarrow>
     rbind (throwIfEmpty c) (\<lambda>_.
       let tk = hd (cn_active c); c = c\<lparr>cn_active := tl (cn_active c)\<rparr>
       in rbind (free (ts (length (cn_pending c))) (tk_memory tk) p) (\<lambda>p.
            rbind (activate_pending ts (cn_pending c) (c, p)) (\<lambda>cp. Inr (tk, cp)))))"

definition ctr_advance :: "real \<Rightarrow> processor \<Rightarrow> ctr \<Rightarrow> exn + ctr" where
  "ctr_advance e p c =
     (if e < 0 then Inl (RuntimeError ''cannot advance a container in the past'')
      else case cn_active c of [] \<Rightarrow> Inr c
      | x # xs \<Rightarrow>
          (let ops = min (tk_residualOps x) (timeToOps e p)
           in if ops = 0 then Inr c
              else Inr (c\<lparr>cn_active := x\<lparr>tk_residualOps := tk_residualOps x - ops\<rparr> # xs\<rparr>)))"

definition ctr_nearest :: "ctr \<Rightarrow> processor \<Rightarrow> exn + real" where
  "ctr_nearest c p = rbind (throwIfEmpty c) (\<lambda>_.
     Inr (opsToTime (tk_residualOps (hd (cn_active c))) p))"

section \<open>The differential list of active tasks\<close>

text \<open>The tasks with the operations to their completion, when the tasks before them take \<open>a\<close> operations.\<close>

fun completion :: "nat \<Rightarrow> task list \<Rightarrow> (64 word \<times> nat) list" where
  "completion a [] = []"
| "completion a (x # xs) =
     (tk_id x, a + unat (tk_residualOps x)) # completion (a + unat (tk_residualOps x)) xs"

definition total_ops :: "task list \<Rightarrow> nat" where
  "total_ops xs = sum_list (map (\<lambda>t. unat (tk_residualOps t)) xs)"

text \<open>The reference: insertion of an element after those that complete no later.\<close>

definition insert_by_completion :: "(64 word \<times> nat) \<Rightarrow> (64 word \<times> nat) list \<Rightarrow> (64 word \<times> nat) list" where
  "insert_by_completion e xs =
     takeWhile (\<lambda>x. snd x \<le> snd e) xs @ e # dropWhile (\<lambda>x. snd x \<le> snd e) xs"

lemma total_ops_simps [simp]:
  "total_ops [] = 0" "total_ops (x # xs) = unat (tk_residualOps x) + total_ops xs"
  by (simp_all add: total_ops_def)

lemma completion_sorted: "sorted (map snd (completion a xs)) \<and> (\<forall>e\<in>set (completion a xs). a \<le> snd e)"
  by (induction xs arbitrary: a) (auto, fastforce)

lemma completion_ids [simp]: "map fst (completion a xs) = map tk_id xs"
  by (induction xs arbitrary: a) auto

lemma insert_active_completion:
  assumes "unat mySum \<le> unat (tk_residualOps t)" and "unat mySum + total_ops xs < 2 ^ 64"
  shows "completion (unat mySum) (insert_active mySum t xs) =
      insert_by_completion (tk_id t, unat (tk_residualOps t)) (completion (unat mySum) xs)"
    and "unat mySum + total_ops (insert_active mySum t xs) = max (unat mySum + total_ops xs) (unat (tk_residualOps t))"
  using assms
proof (induction xs arbitrary: mySum)
  case Nil
  {
    case 1
    then show ?case by (simp add: insert_by_completion_def word_le_nat_alt unat_sub)
  next
    case 2
    then show ?case by (simp add: word_le_nat_alt unat_sub)
  }
next
  case (Cons x xs)
  have s: "unat (mySum + tk_residualOps x) = unat mySum + unat (tk_residualOps x)"
    if "unat mySum + total_ops (x # xs) < 2 ^ 64" for mySum :: "64 word"
    using that by (subst unat_add_lem[symmetric]) simp
  {
    case 1
    show ?case
    proof (cases "tk_residualOps t < mySum + tk_residualOps x")
      case True
      then have lt: "unat (tk_residualOps t) < unat mySum + unat (tk_residualOps x)"
        using s[OF 1(2)] by (simp add: word_less_nat_alt)
      have r: "unat (tk_residualOps t - mySum) = unat (tk_residualOps t) - unat mySum"
        using 1(1) by (simp add: unat_sub word_le_nat_alt)
      have x: "unat (tk_residualOps x - (tk_residualOps t - mySum)) =
          unat (tk_residualOps x) - (unat (tk_residualOps t) - unat mySum)"
        using lt r by (simp add: unat_sub word_le_nat_alt)
      show ?thesis using True lt 1(1) by (simp add: insert_by_completion_def r x Let_def add.commute)
    next
      case False
      then have le: "unat (mySum + tk_residualOps x) \<le> unat (tk_residualOps t)" by (simp add: word_less_nat_alt)
      show ?thesis using False Cons.IH(1)[of "mySum + tk_residualOps x"] s[OF 1(2)] 1(2) le
        by (simp add: insert_by_completion_def)
    qed
  next
    case 2
    show ?case
    proof (cases "tk_residualOps t < mySum + tk_residualOps x")
      case True
      then have lt: "unat (tk_residualOps t) < unat mySum + unat (tk_residualOps x)"
        using s[OF 2(2)] by (simp add: word_less_nat_alt)
      have r: "unat (tk_residualOps t - mySum) = unat (tk_residualOps t) - unat mySum"
        using 2(1) by (simp add: unat_sub word_le_nat_alt)
      have x: "unat (tk_residualOps x - (tk_residualOps t - mySum)) =
          unat (tk_residualOps x) - (unat (tk_residualOps t) - unat mySum)"
        using lt r by (simp add: unat_sub word_le_nat_alt)
      show ?thesis using True lt 2(1) by (simp add: r x Let_def)
    next
      case False
      then have le: "unat (mySum + tk_residualOps x) \<le> unat (tk_residualOps t)" by (simp add: word_less_nat_alt)
      show ?thesis using False Cons.IH(2)[of "mySum + tk_residualOps x"] s[OF 2(2)] 2(2) le
        by simp
    qed
  }
qed

lemma insert_active_length [simp]: "length (insert_active s t xs) = Suc (length xs)"
  by (induction s t xs rule: insert_active.induct) (auto simp: Let_def)

lemma insert_active_ids: "mset (map tk_id (insert_active s t xs)) = add_mset (tk_id t) (mset (map tk_id xs))"
  by (induction s t xs rule: insert_active.induct) (auto simp: Let_def)

definition mem_sum :: "task list \<Rightarrow> nat" where
  "mem_sum xs = sum_list (map (\<lambda>t. unat (tk_memory t)) xs)"

lemma mem_sum_simps [simp]:
  "mem_sum [] = 0" "mem_sum (x # xs) = unat (tk_memory x) + mem_sum xs"
  by (simp_all add: mem_sum_def)

lemma insert_active_mem: "mem_sum (insert_active s t xs) = unat (tk_memory t) + mem_sum xs"
  by (induction s t xs rule: insert_active.induct) (auto simp: Let_def)

section \<open>The invariant of a container on its processor\<close>

definition same_proc :: "processor \<Rightarrow> processor \<Rightarrow> bool" where
  "same_proc p p' \<longleftrightarrow> pr_name p' = pr_name p \<and> pr_memTotal p' = pr_memTotal p \<and>
     pr_speed p' = pr_speed p \<and> pr_cores p' = pr_cores p"

definition same_ctr :: "ctr \<Rightarrow> ctr \<Rightarrow> bool" where
  "same_ctr c c' \<longleftrightarrow> cn_name c' = cn_name c \<and> cn_processor c' = cn_processor c \<and>
     cn_lambda c' = cn_lambda c \<and> cn_numWorkers c' = cn_numWorkers c"

lemma same_proc_trans [trans]: "same_proc p p' \<Longrightarrow> same_proc p' p'' \<Longrightarrow> same_proc p p''"
  by (simp add: same_proc_def)

lemma same_refl [simp]: "same_proc p p" "same_ctr c c"
  by (simp_all add: same_proc_def same_ctr_def)

definition ctr_wf :: "ctr \<Rightarrow> bool" where
  "ctr_wf c \<longleftrightarrow> 0 < cn_numWorkers c \<and> length (cn_active c) \<le> cn_numWorkers c \<and>
     total_ops (cn_active c) < 2 ^ 64"

text \<open>The accounts of the processor: memory \<open>m\<close> and \<open>k\<close> tasks belong to other containers.\<close>

definition accounts :: "nat \<Rightarrow> nat \<Rightarrow> ctr \<Rightarrow> processor \<Rightarrow> bool" where
  "accounts m k c p \<longleftrightarrow> proc_wf p \<and> unat (pr_memUsed p) = mem_sum (cn_active c) + m \<and>
     pr_running p = of_nat (length (cn_active c) + k)"

definition task_ids :: "ctr \<Rightarrow> 64 word multiset" where
  "task_ids c = mset (map tk_id (cn_active c)) + mset (map tk_id (cn_pending c))"

text \<open>Starting a task for which there is a worker and memory.\<close>

lemma start_task:
  assumes "ctr_wf c" and "accounts m k c p" and "length (cn_active c) \<noteq> cn_numWorkers c"
    and "\<not> memAvailable p < tk_memory t"
  obtains p' where "allocate r (tk_memory t) p = Inr p'" and "same_proc p p'"
    and "ctr_wf (makeActive t c)" and "accounts m k (makeActive t c) p'"
    and "completion 0 (cn_active (makeActive t c)) =
      insert_by_completion (tk_id t, unat (tk_residualOps t)) (completion 0 (cn_active c))"
proof -
  have "proc_wf p" using assms(2) by (simp add: accounts_def)
  then obtain p' where p': "allocate r (tk_memory t) p = Inr p'" "proc_wf p'"
    "unat (pr_memUsed p') = unat (pr_memUsed p) + unat (tk_memory t)" "pr_running p' = pr_running p + 1"
    "pr_name p' = pr_name p" "pr_memTotal p' = pr_memTotal p" "pr_speed p' = pr_speed p" "pr_cores p' = pr_cores p"
    using allocate_ok[of p "tk_memory t" r] assms(4) by (metis linorder_not_less)
  note ins = insert_active_completion[of 0 t "cn_active c"]
  have tot: "total_ops (cn_active c) < 2 ^ 64" using assms(1) by (simp add: ctr_wf_def)
  have "unat (tk_residualOps t) < 2 ^ 64" using unsigned_less[of "tk_residualOps t"] by simp
  then have wf: "ctr_wf (makeActive t c)"
    using assms(1,3) ins(2) tot by (simp add: ctr_wf_def makeActive_def)
  have acc: "accounts m k (makeActive t c) p'"
    using assms(2) p'(2,3,4) by (simp add: accounts_def makeActive_def insert_active_mem)
  show ?thesis
    by (rule that[OF p'(1) _ wf acc]) (use ins(1) tot p' in \<open>simp_all add: same_proc_def makeActive_def\<close>)
qed

lemma task_ids_makeActive:
  "mset (map tk_id (cn_active (makeActive t c))) = add_mset (tk_id t) (mset (map tk_id (cn_active c)))"
  by (simp add: makeActive_def insert_active_ids del: mset_map)

lemma makeActive_simps [simp]:
  "same_ctr c (makeActive t c)" "cn_pending (makeActive t c) = cn_pending c" "cn_numWorkers (makeActive t c) = cn_numWorkers c"
  by (simp_all add: makeActive_def same_ctr_def)

lemma ctr_push_ok:
  assumes wf: "ctr_wf c" and acc: "accounts m k c p"
    and mem: "theMemory (lm_converter (cn_lambda c) p r) \<le> pr_memTotal p"
  obtains c' p' where "ctr_push W t r i (c, p) = Inr (c', p')" and "ctr_wf c'" and "accounts m k c' p'"
    and "task_ids c' = add_mset i (task_ids c)" and "same_ctr c c'" and "same_proc p p'"
proof -
  let ?q = "lm_converter (cn_lambda c) p r"
  let ?tk = "\<lparr>tk_id = i, tk_memory = theMemory ?q, tk_residualOps = theOperations ?q,
       tk_resp = lambda_execute (cn_lambda c) r (lastUtils W p)\<rparr>"
  have q: "ctr_requirements c p r = Inr ?q" using mem by (simp add: ctr_requirements_def Let_def)
  show ?thesis
  proof (cases "length (cn_active c) = cn_numWorkers c \<or> memAvailable p < theMemory ?q")
    case True
    then show ?thesis
      using wf acc that[of "c\<lparr>cn_pending := cn_pending c @ [?tk]\<rparr>" p]
      by (simp add: ctr_push_def q Let_def ctr_wf_def accounts_def task_ids_def same_ctr_def)
  next
    case False
    then have "length (cn_active c) \<noteq> cn_numWorkers c" "\<not> memAvailable p < tk_memory ?tk" by simp_all
    from start_task[OF wf acc this, of t] obtain p' where p': "allocate t (tk_memory ?tk) p = Inr p'"
      "same_proc p p'" "ctr_wf (makeActive ?tk c)" "accounts m k (makeActive ?tk c) p'" by blast
    show ?thesis
      using that[of "makeActive ?tk c" p'] p' False
      by (simp add: ctr_push_def q Let_def task_ids_def task_ids_makeActive del: mset_map)
  qed
qed

text \<open>The pending tasks are started in their order, as long as there are workers and memory for the next.\<close>

definition no_more_starts :: "ctr \<Rightarrow> processor \<Rightarrow> bool" where
  "no_more_starts c p \<longleftrightarrow> cn_pending c = [] \<or> length (cn_active c) = cn_numWorkers c \<or>
     memAvailable p < tk_memory (hd (cn_pending c))"

lemma activate_pending_ok:
  assumes "ctr_wf c" and "accounts m k c p"
  shows "\<exists>c' p' n. activate_pending ts tks (c, p) = Inr (c', p') \<and> ctr_wf c' \<and> accounts m k c' p' \<and>
    cn_pending c' = drop n tks \<and>
    mset (map tk_id (cn_active c')) = mset (map tk_id (cn_active c)) + mset (map tk_id (take n tks)) \<and>
    no_more_starts c' p' \<and> same_ctr c c' \<and> same_proc p p'"
  using assms
proof (induction tks arbitrary: c p)
  case Nil
  then show ?case
    by (simp add: ctr_wf_def accounts_def no_more_starts_def same_ctr_def)
next
  case (Cons t tks)
  show ?case
  proof (cases "length (cn_active c) = cn_numWorkers c \<or> memAvailable p < tk_memory t")
    case True
    then show ?thesis
      using Cons.prems
      by (intro exI[of _ "c\<lparr>cn_pending := t # tks\<rparr>"] exI[of _ p] exI[of _ 0])
        (auto simp: ctr_wf_def accounts_def no_more_starts_def same_ctr_def)
  next
    case False
    then have "length (cn_active c) \<noteq> cn_numWorkers c" "\<not> memAvailable p < tk_memory t" by simp_all
    from start_task[OF Cons.prems this, of "ts (length tks)"] obtain p1
      where p1: "allocate (ts (length tks)) (tk_memory t) p = Inr p1" "same_proc p p1"
        "ctr_wf (makeActive t c)" "accounts m k (makeActive t c) p1" by blast
    from Cons.IH[OF p1(3,4)] obtain c' p' n where IH:
      "activate_pending ts tks (makeActive t c, p1) = Inr (c', p')" "ctr_wf c'" "accounts m k c' p'"
      "cn_pending c' = drop n tks" "no_more_starts c' p'" "same_ctr (makeActive t c) c'" "same_proc p1 p'"
      "mset (map tk_id (cn_active c')) = mset (map tk_id (cn_active (makeActive t c))) + mset (map tk_id (take n tks))"
      by blast
    have "same_ctr c c'" using IH(6) makeActive_simps(1)[of c t] by (simp add: same_ctr_def)
    moreover have "same_proc p p'" using p1(2) IH(7) by (rule same_proc_trans)
    ultimately show ?thesis
      using False IH p1(1) by (intro exI[of _ c'] exI[of _ p'] exI[of _ "Suc n"])
        (simp add: task_ids_makeActive del: mset_map)
  qed
qed

lemma ctr_pop_ok:
  assumes wf: "ctr_wf c" and acc: "accounts m k c p" and ne: "cn_active c \<noteq> []"
  shows "\<exists>c' p' n. ctr_pop ts (c, p) = Inr (hd (cn_active c), c', p') \<and> ctr_wf c' \<and> accounts m k c' p' \<and>
    cn_pending c' = drop n (cn_pending c) \<and>
    task_ids c = add_mset (tk_id (hd (cn_active c))) (task_ids c') \<and>
    no_more_starts c' p' \<and> same_ctr c c' \<and> same_proc p p'"
proof -
  obtain x xs where x: "cn_active c = x # xs" using ne by (cases "cn_active c") auto
  let ?c = "c\<lparr>cn_active := xs\<rparr>"
  have u: "unat (pr_memUsed p) = unat (tk_memory x) + mem_sum xs + m" and pw: "proc_wf p"
    and rn: "pr_running p = of_nat (Suc (length xs + k))"
    using acc by (simp_all add: accounts_def x)
  have "tk_memory x \<le> pr_memUsed p" using u by (simp add: word_le_nat_alt)
  from free_ok[OF pw this, of "ts (length (cn_pending c))"] obtain p1 where p1:
    "free (ts (length (cn_pending c))) (tk_memory x) p = Inr p1" "proc_wf p1"
    "unat (pr_memUsed p1) = unat (pr_memUsed p) - unat (tk_memory x)" "pr_running p1 = pr_running p - 1"
    "same_proc p p1" by (auto simp: same_proc_def)
  have "ctr_wf ?c" using wf by (simp add: ctr_wf_def x)
  moreover have "accounts m k ?c p1" using p1(2-4) u rn by (simp add: accounts_def)
  ultimately obtain c' p' n where r: "activate_pending ts (cn_pending c) (?c, p1) = Inr (c', p')" "ctr_wf c'"
    "accounts m k c' p'" "cn_pending c' = drop n (cn_pending c)" "no_more_starts c' p'" "same_ctr ?c c'" "same_proc p1 p'"
    "mset (map tk_id (cn_active c')) = mset (map tk_id (cn_active ?c)) + mset (map tk_id (take n (cn_pending c)))"
    using activate_pending_ok[of ?c m k p1 ts "cn_pending c"] by blast
  have "mset (map tk_id (take n (cn_pending c))) + mset (map tk_id (drop n (cn_pending c))) = mset (map tk_id (cn_pending c))"
    by (metis append_take_drop_id map_append mset_append)
  then have "task_ids c = add_mset (tk_id x) (task_ids c')"
    by (simp add: task_ids_def r(4,8) x add.assoc del: mset_map)
  moreover have "ctr_pop ts (c, p) = Inr (x, c', p')"
    by (simp add: ctr_pop_def throwIfEmpty_def x Let_def p1(1) r(1))
  moreover have "same_ctr c c'" using r(6) by (simp add: same_ctr_def)
  ultimately show ?thesis using r same_proc_trans[OF p1(5) r(7)] x by auto
qed

lemma ctr_advance_ok:
  assumes "ctr_wf c" and "accounts m k c p" and "0 \<le> e"
  shows "\<exists>c'. ctr_advance e p c = Inr c' \<and> ctr_wf c' \<and> accounts m k c' p \<and> task_ids c' = task_ids c \<and>
    cn_pending c' = cn_pending c \<and> length (cn_active c') = length (cn_active c) \<and> same_ctr c c'"
proof (cases "cn_active c")
  case Nil
  then show ?thesis using assms by (auto simp: ctr_advance_def)
next
  case (Cons x xs)
  let ?ops = "min (tk_residualOps x) (timeToOps e p)"
  have "unat (tk_residualOps x - ?ops) \<le> unat (tk_residualOps x)"
    by (simp add: unat_sub)
  then show ?thesis using assms Cons
    by (auto simp: ctr_advance_def Let_def ctr_wf_def accounts_def task_ids_def same_ctr_def)
qed

lemma of_nat_word_neq_0: "0 < n \<Longrightarrow> n < 2 ^ 64 \<Longrightarrow> (of_nat n :: 64 word) \<noteq> 0"
  by (auto simp: word_of_nat_eq_0_iff dest: nat_dvd_not_less)

text \<open>After the time that \<open>nearest\<close> announces the first task is complete.\<close>

lemma advance_nearest:
  assumes "accounts m k c p" and "length (cn_active c) + k < 2 ^ 64" and "ctr_nearest c p = Inr e"
  shows "0 \<le> e" and "\<exists>c'. ctr_advance e p c = Inr c' \<and> ctr_nearest c' p = Inr 0 \<and>
    cn_active c' \<noteq> [] \<and> tk_residualOps (hd (cn_active c')) = 0 \<and> tk_id (hd (cn_active c')) = tk_id (hd (cn_active c)) \<and>
    completion 0 (cn_active c') = map (\<lambda>(i, r). (i, r - unat (tk_residualOps (hd (cn_active c))))) (completion 0 (cn_active c))"
proof -
  have ne: "cn_active c \<noteq> []" using assms(3) by (auto simp: ctr_nearest_def throwIfEmpty_def)
  then obtain x xs where x: "cn_active c = x # xs" by (cases "cn_active c") auto
  have e: "e = opsToTime (tk_residualOps x) p" using assms(3) x by (simp add: ctr_nearest_def throwIfEmpty_def)
  have pw: "proc_wf p" and rn: "pr_running p = of_nat (Suc (length xs + k))" using assms(1) x by (simp_all add: accounts_def)
  have r0: "pr_running p \<noteq> 0" unfolding rn using assms(2) x by (intro of_nat_word_neq_0) auto
  show e0: "0 \<le> e" using opsToTime_nonneg[OF pw] e by simp
  have ops: "timeToOps e p = tk_residualOps x" using timeToOps_opsToTime[OF pw r0] e by simp
  let ?c' = "c\<lparr>cn_active := x\<lparr>tk_residualOps := 0\<rparr> # xs\<rparr>"
  have a: "ctr_advance e p c = Inr ?c'"
    using e0 x ops by (cases x, cases c) (auto simp: ctr_advance_def Let_def)
  have sh: "map (\<lambda>(i, r). (i, r - d)) (completion (a + d) xs) = completion a xs" for a d
  proof (induction xs arbitrary: a)
    case Nil
    then show ?case by simp
  next
    case (Cons y ys)
    then show ?case using Cons.IH[of "a + unat (tk_residualOps y)"] by (simp add: ac_simps)
  qed
  show "\<exists>c'. ctr_advance e p c = Inr c' \<and> ctr_nearest c' p = Inr 0 \<and>
    cn_active c' \<noteq> [] \<and> tk_residualOps (hd (cn_active c')) = 0 \<and> tk_id (hd (cn_active c')) = tk_id (hd (cn_active c)) \<and>
    completion 0 (cn_active c') = map (\<lambda>(i, r). (i, r - unat (tk_residualOps (hd (cn_active c))))) (completion 0 (cn_active c))"
    using a x sh[where a = 0 and d = "unat (tk_residualOps x)"]
    by (intro exI[of _ ?c']) (simp add: ctr_nearest_def throwIfEmpty_def opsToTime_def)
qed

section \<open>Properties\<close>

text \<open>An idle container with two workers on a processor with 100 bytes.\<close>

definition ctr_ex :: ctr where
  "ctr_ex = \<lparr>cn_name = ''c'', cn_processor = ''p'', cn_lambda = lambda_copy ''f'' (fixedRequirements 10 80),
     cn_numWorkers = 2, cn_active = [], cn_pending = []\<rparr>"

definition proc_ex :: processor where
  "proc_ex = \<lparr>pr_name = ''p'', pr_type = GenericCpu, pr_speed = 1, pr_cores = 1, pr_memTotal = 100,
     pr_memUsed = 0, pr_running = 0, pr_busyTime = 0, pr_load10Wnd = [], pr_load30Wnd = []\<rparr>"

definition wnd_ex :: moving_avg where
  "wnd_ex = \<lparr>mv_empty = (\<lambda>_ xs. xs = []), mv_last = (\<lambda>_ xs. last xs),
     mv_average = (\<lambda>n xs. sum_list xs / real (length xs))\<rparr>"

lemma ex_ok: "ctr_wf ctr_ex" "accounts 0 0 ctr_ex proc_ex"
  by (simp_all add: ctr_wf_def ctr_ex_def accounts_def proc_ex_def proc_wf_def)

lemma start_order:
  assumes "ctr_wf c" and "accounts m k c p" and "length (cn_active c) < cn_numWorkers c"
    and "theMemory (lm_converter (cn_lambda c) p r) \<le> memAvailable p"
  shows "\<exists>c' p'. ctr_push W t r i (c, p) = Inr (c', p') \<and>
    completion 0 (cn_active c') =
      insert_by_completion (i, unat (theOperations (lm_converter (cn_lambda c) p r))) (completion 0 (cn_active c)) \<and>
    sorted (map snd (completion 0 (cn_active c'))) \<and> ctr_wf c' \<and> accounts m k c' p'"
proof -
  let ?q = "lm_converter (cn_lambda c) p r"
  let ?tk = "\<lparr>tk_id = i, tk_memory = theMemory ?q, tk_residualOps = theOperations ?q,
       tk_resp = lambda_execute (cn_lambda c) r (lastUtils W p)\<rparr>"
  have "unat (memAvailable p) \<le> unat (pr_memTotal p)"
    using unat_memAvailable[of p] assms(2) by (simp add: accounts_def proc_wf_def)
  then have "theMemory ?q \<le> pr_memTotal p" using assms(4) by (simp add: word_le_nat_alt)
  then have q: "ctr_requirements c p r = Inr ?q" by (simp add: ctr_requirements_def Let_def)
  have free: "length (cn_active c) \<noteq> cn_numWorkers c" "\<not> memAvailable p < tk_memory ?tk" using assms(3,4) by auto
  from start_task[OF assms(1,2) this, of t] obtain p' where p': "allocate t (tk_memory ?tk) p = Inr p'"
    "ctr_wf (makeActive ?tk c)" "accounts m k (makeActive ?tk c) p'"
    "completion 0 (cn_active (makeActive ?tk c)) =
      insert_by_completion (tk_id ?tk, unat (tk_residualOps ?tk)) (completion 0 (cn_active c))" by blast
  have "ctr_push W t r i (c, p) = Inr (makeActive ?tk c, p')"
    using free p'(1) by (simp add: ctr_push_def q Let_def)
  then show ?thesis using p'(2-4) completion_sorted by auto
qed

text \<open>
  C15: The active tasks of a container, kept as differences between consecutive tasks, are the
  list of the tasks with their absolute numbers of remaining operations: starting a task inserts it
  after the tasks that complete no later, with no overflow of the 64-bit sums, and the list stays
  ordered by completion. The memory of the task and one running task are added to the processor.
\<close>

theorem container_active_list_refines:
  assumes "ctr_wf c" and "accounts m k c p" and "length (cn_active c) < cn_numWorkers c"
    and "theMemory (lm_converter (cn_lambda c) p r) \<le> memAvailable p"
  shows "\<exists>c' p'. ctr_push W t r i (c, p) = Inr (c', p') \<and>
    completion 0 (cn_active c') =
      insert_by_completion (i, unat (theOperations (lm_converter (cn_lambda c) p r))) (completion 0 (cn_active c)) \<and>
    sorted (map snd (completion 0 (cn_active c'))) \<and> ctr_wf c' \<and> accounts m k c' p'"
  by (rule start_order[OF assms])

theorem container_active_list_refines_witness:
  "\<exists>c' p'. ctr_push wnd_ex 0 (client_request ''u'' ''f'' ''x'' []) 7 (ctr_ex, proc_ex) = Inr (c', p') \<and>
    completion 0 (cn_active c') = [(7, 10)]"
  using container_active_list_refines[OF ex_ok, of "client_request ''u'' ''f'' ''x'' []" wnd_ex 0 7]
  by (auto simp: ctr_ex_def proc_ex_def lambda_copy_def fixedRequirements_def memAvailable_def insert_by_completion_def)

text \<open>
  Requests are not served in the order of arrival: a task for which there is a worker and memory is
  started at once, even when other tasks have been waiting for memory.
\<close>

theorem container_push_overtakes_pending:
  assumes "ctr_wf c" and "accounts m k c p" and "cn_pending c \<noteq> []" and "length (cn_active c) < cn_numWorkers c"
    and "theMemory (lm_converter (cn_lambda c) p r) \<le> memAvailable p"
  shows "\<exists>c' p'. ctr_push W t r i (c, p) = Inr (c', p') \<and> cn_pending c' = cn_pending c \<and>
    i \<in> set (map tk_id (cn_active c'))"
proof -
  let ?q = "lm_converter (cn_lambda c) p r"
  obtain c' p' where r: "ctr_push W t r i (c, p) = Inr (c', p')"
    "completion 0 (cn_active c') = insert_by_completion (i, unat (theOperations ?q)) (completion 0 (cn_active c))"
    using start_order[OF assms(1,2,4,5)] by blast
  have "i \<in> set (map fst (completion 0 (cn_active c')))" by (simp add: r(2) insert_by_completion_def)
  moreover have "cn_pending c' = cn_pending c"
    using r(1) assms(4,5) by (auto simp: ctr_push_def rbind_eq_Inr Let_def makeActive_def ctr_requirements_def split: if_splits)
  ultimately show ?thesis using r(1) by auto
qed

theorem container_push_overtakes_pending_witness:
  "let c = ctr_ex\<lparr>cn_pending := [\<lparr>tk_id = 1, tk_memory = 80, tk_residualOps = 10, tk_resp = response_async\<rparr>]\<rparr> in
   \<exists>c' p'. ctr_push wnd_ex 0 (client_request ''u'' ''f'' ''x'' []) 7 (c, proc_ex) = Inr (c', p') \<and>
     map tk_id (cn_pending c') = [1] \<and> 7 \<in> set (map tk_id (cn_active c'))"
proof -
  let ?c = "ctr_ex\<lparr>cn_pending := [\<lparr>tk_id = 1, tk_memory = 80, tk_residualOps = 10, tk_resp = response_async\<rparr>]\<rparr>"
  have "ctr_wf ?c" "accounts 0 0 ?c proc_ex" using ex_ok by (simp_all add: ctr_wf_def accounts_def)
  from container_push_overtakes_pending[OF this, of "client_request ''u'' ''f'' ''x'' []" wnd_ex 0 7] show ?thesis
    by (auto simp: ctr_ex_def proc_ex_def lambda_copy_def fixedRequirements_def memAvailable_def)
qed

end
