(* ===== verification/Computer.thy ===== *)
theory Computer
  imports Container EdgeController
begin

text \<open>
  Computers, \<open>Edge/computer.cpp\<close>: processors, and containers that run on them, one for each lambda.

  The state is the record \<open>computer\<close>; a container refers to its processor by name. Every public
  operation, every iteration of the dispatcher thread after its wait and every iteration of the thread
  that collects the utilization hold the mutex: each is one atomic step. The time that the chronometer
  returns when it is stopped, and the readings of the busy chronometers of the processors, are
  arguments. The calls of the completion callback are the list of identifiers and responses that
  the step returns. An exception in the dispatcher thread would end the program; the invariant
  shows that there is none.
\<close>

section \<open>Exceptions\<close>

definition InitDone :: exn where
  "InitDone = RuntimeError ''Configuration after initialization is complete''"

definition DupProcessorName :: "string \<Rightarrow> string \<Rightarrow> exn" where
  "DupProcessorName aComputer aProcessor =
     RuntimeError (''Duplicate processor '' @ aProcessor @ '' added to computer '' @ aComputer)"

definition NoProcessorFound :: "string \<Rightarrow> string \<Rightarrow> exn" where
  "NoProcessorFound aComputer aProcessor =
     RuntimeError (''No processor '' @ aProcessor @ '' found in computer '' @ aComputer)"

definition DupContainerName :: "string \<Rightarrow> string \<Rightarrow> string \<Rightarrow> exn" where
  "DupContainerName aComputer aProcessor aContainer =
     RuntimeError (''Duplicate container '' @ aContainer @ '' hosted by processor '' @ aProcessor @
       '' added to computer '' @ aComputer)"

definition DupLambdaName :: "string \<Rightarrow> string \<Rightarrow> exn" where
  "DupLambdaName aComputer aLambda =
     RuntimeError (''Duplicate lambda '' @ aLambda @ '' added to computer '' @ aComputer)"

definition NoContainerFound :: "string \<Rightarrow> string \<Rightarrow> exn" where
  "NoContainerFound aComputer aLambda =
     RuntimeError (''No container for lambda '' @ aLambda @ '' found in computer '' @ aComputer)"

section \<open>State\<close>

record computer =
  cm_name :: string
  cm_initDone :: bool
  cm_terminating :: bool
  cm_newTask :: bool
  cm_nextId :: "64 word"
  cm_chrono :: bool
  cm_processors :: "(string, processor) smap"
  cm_containerNames :: "string sset"
  cm_containers :: "(string, ctr) smap"

definition computer_new :: "string \<Rightarrow> bool \<Rightarrow> exn + computer" where
  "computer_new aName hasCallback =
     (if \<not> hasCallback then Inl (RuntimeError (''Call of computer '' @ aName @ '' not callable''))
      else Inr \<lparr>cm_name = aName, cm_initDone = False, cm_terminating = False, cm_newTask = False,
                cm_nextId = 0, cm_chrono = False, cm_processors = [], cm_containerNames = [],
                cm_containers = []\<rparr>)"

section \<open>Configuration\<close>

definition throwIfInitDone :: "computer \<Rightarrow> exn + unit" where
  "throwIfInitDone s = (if cm_initDone s
     then Inl InitDone else Inr ())"

definition addProcessor ::
  "string \<Rightarrow> processor_type \<Rightarrow> real \<Rightarrow> 64 word \<Rightarrow> 64 word \<Rightarrow> computer \<Rightarrow> (exn + unit) \<times> computer" where
  "addProcessor aName aType aSpeed aCores aMem s =
     sbind (throwIfInitDone s, s) (\<lambda>_ s.
       if map_of (cm_processors s) aName \<noteq> None
       then (Inl (DupProcessorName (cm_name s) aName), s)
       else sbind (processor_new aName aType aSpeed aCores aMem, s) (\<lambda>p s.
         (Inr (), s\<lparr>cm_processors := mput aName p (cm_processors s)\<rparr>)))"

definition addContainer ::
  "string \<Rightarrow> string \<Rightarrow> lambda \<Rightarrow> nat \<Rightarrow> computer \<Rightarrow> (exn + unit) \<times> computer" where
  "addContainer aName aProcName aLambda aNumWorkers s =
     sbind (throwIfInitDone s, s) (\<lambda>_ s.
       if aName \<in> set (cm_containerNames s)
       then (Inl (DupContainerName (cm_name s) aProcName aName), s)
       else if map_of (cm_containers s) (lm_name aLambda) \<noteq> None
       then (Inl (DupLambdaName (cm_name s) (lm_name aLambda)), s)
       else if map_of (cm_processors s) aProcName = None
       then (Inl (NoProcessorFound (cm_name s) aProcName), s)
       else (let s = s\<lparr>cm_containerNames := sinsert aName (cm_containerNames s)\<rparr>
             in sbind (container_new aName aProcName aLambda aNumWorkers, s) (\<lambda>c s.
                  (Inr (), s\<lparr>cm_containers := mput (lm_name aLambda) c (cm_containers s)\<rparr>))))"

section \<open>Tasks\<close>

text \<open>The container of a lambda with the processor it refers to, and the update of both.\<close>

definition lookup_ctr :: "string \<Rightarrow> computer \<Rightarrow> (ctr \<times> processor) option" where
  "lookup_ctr l s = (case map_of (cm_containers s) l of None \<Rightarrow> None
     | Some c \<Rightarrow> map_option (\<lambda>p. (c, p)) (map_of (cm_processors s) (cn_processor c)))"

definition update_ctr :: "string \<Rightarrow> ctr \<times> processor \<Rightarrow> computer \<Rightarrow> computer" where
  "update_ctr l cp s = s\<lparr>cm_containers := mupd l (\<lambda>_. fst cp) (cm_containers s),
     cm_processors := mupd (cn_processor (fst cp)) (\<lambda>_. snd cp) (cm_processors s)\<rparr>"

definition on_ctr ::
  "string \<Rightarrow> (ctr \<times> processor \<Rightarrow> exn + 'a \<times> ctr \<times> processor) \<Rightarrow> computer \<Rightarrow> (exn + 'a) \<times> computer" where
  "on_ctr l f s = (case lookup_ctr l s of None \<Rightarrow> (Inl (Undefined ''null container''), s)
     | Some cp \<Rightarrow> (case f cp of Inl e \<Rightarrow> (Inl e, s) | Inr (a, cp') \<Rightarrow> (Inr a, update_ctr l cp' s)))"

definition someActive :: "computer \<Rightarrow> bool" where
  "someActive s \<longleftrightarrow> (\<exists>(l, c)\<in>set (cm_containers s). length (cn_active c) > 0)"

definition someReady :: "computer \<Rightarrow> bool" where
  "someReady s \<longleftrightarrow> (\<exists>(l, c)\<in>set (cm_containers s). length (cn_active c) > 0 \<and>
     (case lookup_ctr l s of None \<Rightarrow> False | Some (c, p) \<Rightarrow> ctr_nearest c p = Inr 0))"

definition pause :: "real \<Rightarrow> computer \<Rightarrow> (exn + unit) \<times> computer" where
  "pause e s =
     (if cm_chrono s
      then sfor (mkeys (cm_containers s))
             (\<lambda>l. on_ctr l (\<lambda>(c, p). rbind (ctr_advance e p c) (\<lambda>c. Inr ((), c, p))))
             (s\<lparr>cm_chrono := False\<rparr>)
      else (Inr (), s))"

definition resume :: "computer \<Rightarrow> (exn + unit) \<times> computer" where
  "resume s =
     (if cm_chrono s then (Inl (Undefined ''assertion not theChrono''), s)
      else (Inr (), if someActive s then s\<lparr>cm_chrono := True\<rparr> else s))"

text \<open>
  \<open>e\<close> is the time since the last pause and \<open>t\<close> the reading of the busy chronometer of the processor.
\<close>

definition addTask ::
  "moving_avg \<Rightarrow> real \<Rightarrow> real \<Rightarrow> request \<Rightarrow> computer \<Rightarrow> (exn + 64 word) \<times> computer" where
  "addTask W e t r s =
     (if map_of (cm_containers s) (rq_name r) = None
      then (Inl (NoContainerFound (cm_name s) (rq_name r)), s)
      else (let s = s\<lparr>cm_initDone := True\<rparr>;
                myId = cm_nextId s;
                s = s\<lparr>cm_nextId := myId + 1\<rparr>
            in sbind (pause e s) (\<lambda>_ s.
               sbind (on_ctr (rq_name r) (\<lambda>cp. rbind (ctr_push W t r myId cp) (\<lambda>cp. Inr ((), cp))) s) (\<lambda>_ s.
               sbind (resume (s\<lparr>cm_newTask := True\<rparr>)) (\<lambda>_ s. (Inr myId, s))))))"

definition simTask ::
  "moving_avg \<Rightarrow> request \<Rightarrow> computer \<Rightarrow> exn + real \<times> (real \<times> real \<times> real)" where
  "simTask W r s =
     (case map_of (cm_containers s) (rq_name r) of
        None \<Rightarrow> Inl (NoContainerFound (cm_name s) (rq_name r))
      | Some _ \<Rightarrow> (case lookup_ctr (rq_name r) s of
          None \<Rightarrow> Inl (Undefined ''null processor'')
        | Some (c, p) \<Rightarrow> rbind (ctr_simulate r c p) (\<lambda>e. Inr (e, lastUtils W p))))"

definition containerList :: "computer \<Rightarrow> container list" where
  "containerList s = map (\<lambda>(l, c). \<lparr>ct_name = cn_name c, ct_processor = cn_processor c,
     ct_lambda = lm_name (cn_lambda c), ct_numWorkers = 0\<rparr>) (cm_containers s)"

section \<open>The dispatcher\<close>

text \<open>The time to sleep, in nanoseconds.\<close>

definition round_half :: "real \<Rightarrow> int" where
  "round_half x = (if x \<ge> 0 then \<lfloor>x + 1 / 2\<rfloor> else \<lceil>x - 1 / 2\<rceil>)"

definition sleepTime :: "computer \<Rightarrow> int" where
  "sleepTime s = foldl (\<lambda>t (l, c).
     if length (cn_active c) = 0 then t
     else case lookup_ctr l s of None \<Rightarrow> t
     | Some (c, p) \<Rightarrow> (case ctr_nearest c p of Inl _ \<Rightarrow> t | Inr e \<Rightarrow> min t (round_half (e * 10 ^ 9))))
     (10 ^ 9) (cm_containers s)"

lemma ctr_pop_decreases:
  assumes "ctr_pop ts (c, p) = Inr (tk, c', p')"
  shows "length (cn_active c') + length (cn_pending c') < length (cn_active c) + length (cn_pending c)"
proof -
  have act: "length (cn_active c') + length (cn_pending c') \<le> length (cn_active c) + length tks"
    if "activate_pending ts tks (c, p) = Inr (c', p')" for tks c p c' p'
    using that
  proof (induction tks arbitrary: c p)
    case Nil
    then show ?case by auto
  next
    case (Cons t tks)
    show ?case
    proof (cases "length (cn_active c) = cn_numWorkers c \<or> memAvailable p < tk_memory t")
      case True
      then show ?thesis using Cons.prems by auto
    next
      case False
      then obtain p1 where "activate_pending ts tks (makeActive t c, p1) = Inr (c', p')"
        using Cons.prems by (auto simp: rbind_eq_Inr)
      from Cons.IH[OF this] show ?thesis by (simp add: makeActive_def)
    qed
  qed
  from assms obtain p1 where ne: "cn_active c \<noteq> []"
    and a: "activate_pending ts (cn_pending c) (c\<lparr>cn_active := tl (cn_active c)\<rparr>, p1) = Inr (c', p')"
    by (auto simp: ctr_pop_def rbind_eq_Inr throwIfEmpty_def Let_def split: if_splits)
  from act[OF a] ne show ?thesis by (cases "cn_active c") auto
qed

text \<open>
  The inner loop of \<open>dispatchCompletedTasks\<close>. Each \<open>pop\<close> leaves one task less in the container. The
  reading of the busy chronometer in the \<open>pop\<close> made with \<open>n\<close> tasks in the container is \<open>E n\<close>.
\<close>

function dispatch_ctr ::
  "(nat \<Rightarrow> nat \<Rightarrow> real) \<Rightarrow> ctr \<times> processor \<Rightarrow> exn + (64 word \<times> response) list \<times> ctr \<times> processor" where
  "dispatch_ctr E (c, p) =
     (if length (cn_active c) > 0 \<and> ctr_nearest c p = Inr 0
      then rbind (ctr_pop (E (length (cn_active c) + length (cn_pending c))) (c, p)) (\<lambda>(tk, c', p').
             rbind (dispatch_ctr E (c', p')) (\<lambda>(out, cp). Inr ((tk_id tk, tk_resp tk) # out, cp)))
      else Inr ([], c, p))"
  by pat_completeness auto
termination
  by (relation "measure (\<lambda>(E, c, p). length (cn_active c) + length (cn_pending c))")
    (auto dest: ctr_pop_decreases)

declare dispatch_ctr.simps [simp del]

fun dispatch_all ::
  "(string \<Rightarrow> nat \<Rightarrow> nat \<Rightarrow> real) \<Rightarrow> string list \<Rightarrow> computer \<Rightarrow> (exn + (64 word \<times> response) list) \<times> computer" where
  "dispatch_all E [] s = (Inr [], s)"
| "dispatch_all E (l # ls) s = sbind (on_ctr l (dispatch_ctr (E l)) s) (\<lambda>out s.
     sbind (dispatch_all E ls s) (\<lambda>out' s. (Inr (out @ out'), s)))"

definition dispatchCompletedTasks ::
  "(string \<Rightarrow> nat \<Rightarrow> nat \<Rightarrow> real) \<Rightarrow> computer \<Rightarrow> (exn + (64 word \<times> response) list) \<times> computer" where
  "dispatchCompletedTasks E s = dispatch_all E (mkeys (cm_containers s)) s"

text \<open>One iteration of the dispatcher after its wait; the result tells whether it goes on.\<close>

definition dispatcher_step ::
  "real \<Rightarrow> (string \<Rightarrow> nat \<Rightarrow> nat \<Rightarrow> real) \<Rightarrow> computer \<Rightarrow> (exn + bool \<times> (64 word \<times> response) list) \<times> computer" where
  "dispatcher_step e E s =
     (if cm_terminating s then (Inr (False, []), s)
      else (let s = s\<lparr>cm_newTask := False\<rparr>
            in if someActive s
               then sbind (pause e s) (\<lambda>_ s.
                    sbind (dispatchCompletedTasks E s) (\<lambda>out s.
                    sbind (resume s) (\<lambda>_ s. (Inr (True, out), s))))
               else (Inr (True, []), s)))"

text \<open>One iteration of the collector of the utilization, with the readings of the two chronometers.\<close>

fun collect_utils ::
  "(string \<Rightarrow> real \<times> real) \<Rightarrow> (string, processor) smap \<Rightarrow> (exn + (string, real) smap) \<times> (string, processor) smap" where
  "collect_utils T [] = (Inr [], [])"
| "collect_utils T ((n, p) # ps) =
     (case utilization (fst (T n)) (snd (T n)) p of
        (Inl e, p') \<Rightarrow> (Inl e, (n, p') # ps)
      | (Inr u, p') \<Rightarrow> (case collect_utils T ps of
           (Inl e, ps') \<Rightarrow> (Inl e, (n, p') # ps')
         | (Inr us, ps') \<Rightarrow> (Inr ((n, u) # us), (n, p') # ps')))"

definition util_step ::
  "(string \<Rightarrow> real \<times> real) \<Rightarrow> computer \<Rightarrow> (exn + (string, real) smap) \<times> computer" where
  "util_step T s = (if cm_terminating s then (Inr [], s)
     else case collect_utils T (cm_processors s) of (r, ps) \<Rightarrow> (r, s\<lparr>cm_processors := ps\<rparr>))"

section \<open>The accounts of all processors\<close>

text \<open>The total of a quantity over the containers of a processor.\<close>

definition usage :: "(ctr \<Rightarrow> nat) \<Rightarrow> string \<Rightarrow> (string, ctr) smap \<Rightarrow> nat" where
  "usage f n cs = sum_list (map (\<lambda>(l, c). if cn_processor c = n then f c else 0) cs)"

abbreviation mem_in_use :: "ctr \<Rightarrow> nat" where
  "mem_in_use c \<equiv> mem_sum (cn_active c)"

abbreviation num_active :: "ctr \<Rightarrow> nat" where
  "num_active c \<equiv> length (cn_active c)"

text \<open>
  The invariant: every container is well formed and refers to a processor; the memory in use and the
  number of running tasks of every processor are the totals over its containers. The number of
  workers of the computer fits in a 64-bit integer.
\<close>

definition comp_inv :: "computer \<Rightarrow> bool" where
  "comp_inv s \<longleftrightarrow> mwf (cm_processors s) \<and> mwf (cm_containers s) \<and>
     sum_list (map (\<lambda>(l, c). cn_numWorkers c) (cm_containers s)) < 2 ^ 64 \<and>
     (\<forall>l c. map_of (cm_containers s) l = Some c \<longrightarrow> ctr_wf c \<and> lm_name (cn_lambda c) = l \<and>
        map_of (cm_processors s) (cn_processor c) \<noteq> None) \<and>
     (\<forall>n p. map_of (cm_processors s) n = Some p \<longrightarrow> proc_wf p \<and>
        unat (pr_memUsed p) = usage mem_in_use n (cm_containers s) \<and>
        pr_running p = of_nat (usage num_active n (cm_containers s)))"

lemma usage_split:
  assumes "mwf cs" and "map_of cs l = Some c"
  shows "usage f n cs = (if cn_processor c = n then f c else 0) + usage f n (merase l cs)"
  using assms
proof (induction cs)
  case Nil
  then show ?case by simp
next
  case (Cons q cs)
  obtain l' c' where q: "q = (l', c')" by (cases q)
  show ?case
  proof (cases "l' = l")
    case True
    then have "merase l cs = cs" using Cons.prems(1) q by (intro merase_id) auto
    then show ?thesis using True Cons.prems q by (simp add: usage_def merase_def)
  next
    case False
    then show ?thesis using Cons.IH Cons.prems q by (simp add: usage_def merase_def)
  qed
qed

lemma usage_update:
  assumes "mwf cs" and "map_of cs l = Some c"
  shows "usage f n (mupd l (\<lambda>_. c') cs) = (if cn_processor c' = n then f c' else 0) + usage f n (merase l cs)"
  using usage_split[of "mupd l (\<lambda>_. c') cs" l c' f n] assms by simp

lemma usage_le_workers:
  assumes "\<forall>l c. map_of cs l = Some c \<longrightarrow> num_active c \<le> cn_numWorkers c" and "mwf cs"
  shows "usage num_active n cs \<le> sum_list (map (\<lambda>(l, c). cn_numWorkers c) cs)"
proof -
  have "\<forall>(l, c)\<in>set cs. num_active c \<le> cn_numWorkers c"
    using assms mwf_distinct[OF assms(2)] by auto
  then show ?thesis unfolding usage_def by (induction cs) fastforce+
qed

lemma workers_split:
  assumes "mwf cs" and "map_of cs l = Some c"
  shows "sum_list (map (\<lambda>(l, c). cn_numWorkers c) cs) =
    cn_numWorkers c + sum_list (map (\<lambda>(l, c). cn_numWorkers c) (merase l cs))"
  using assms
proof (induction cs)
  case Nil
  then show ?case by simp
next
  case (Cons q cs)
  then have "fst q = l \<Longrightarrow> merase l cs = cs" by (intro merase_id) auto
  then show ?case using Cons by (cases q) (auto simp: merase_def)
qed

lemma workers_mupd:
  assumes "map_of cs l = Some c" and "mwf cs" and "cn_numWorkers c' = cn_numWorkers c"
  shows "sum_list (map (\<lambda>(l, c). cn_numWorkers c) (mupd l (\<lambda>_. c') cs)) = sum_list (map (\<lambda>(l, c). cn_numWorkers c) cs)"
  using workers_split[of "mupd l (\<lambda>_. c') cs" l c'] workers_split[OF assms(2,1)] assms by simp

text \<open>A container and its processor, seen with the rest of the computer as the context.\<close>

lemma comp_inv_lookup:
  assumes "comp_inv s" and "map_of (cm_containers s) l = Some c"
  obtains p where "lookup_ctr l s = Some (c, p)" and "map_of (cm_processors s) (cn_processor c) = Some p"
    and "ctr_wf c"
    and "accounts (usage mem_in_use (cn_processor c) (merase l (cm_containers s)))
           (usage num_active (cn_processor c) (merase l (cm_containers s))) c p"
    and "cn_numWorkers c + usage num_active (cn_processor c) (merase l (cm_containers s)) < 2 ^ 64"
proof -
  obtain p where p: "map_of (cm_processors s) (cn_processor c) = Some p"
    using assms unfolding comp_inv_def by blast
  have wf: "mwf (cm_containers s)" using assms(1) by (simp add: comp_inv_def)
  note sp = usage_split[OF wf assms(2), of _ "cn_processor c"]
  have "usage num_active (cn_processor c) (merase l (cm_containers s))
      \<le> sum_list (map (\<lambda>(l, c). cn_numWorkers c) (merase l (cm_containers s)))"
    by (rule usage_le_workers) (use assms(1) in \<open>auto simp: comp_inv_def ctr_wf_def\<close>)
  then have lt: "cn_numWorkers c + usage num_active (cn_processor c) (merase l (cm_containers s)) < 2 ^ 64"
    using workers_split[OF wf assms(2)] assms(1) by (simp add: comp_inv_def)
  have "accounts (usage mem_in_use (cn_processor c) (merase l (cm_containers s)))
           (usage num_active (cn_processor c) (merase l (cm_containers s))) c p"
    using assms(1) p sp unfolding comp_inv_def accounts_def by auto
  moreover have "ctr_wf c" using assms by (simp add: comp_inv_def)
  ultimately show ?thesis using that[of p] p lt assms(2) by (simp add: lookup_ctr_def)
qed

lemma comp_inv_update:
  assumes inv: "comp_inv s" and c: "map_of (cm_containers s) l = Some c" and same: "same_ctr c c'"
    and wf: "ctr_wf c'"
    and acc: "accounts (usage mem_in_use (cn_processor c) (merase l (cm_containers s)))
           (usage num_active (cn_processor c) (merase l (cm_containers s))) c' p'"
  shows "comp_inv (update_ctr l (c', p') s)"
proof -
  let ?cs = "mupd l (\<lambda>_. c') (cm_containers s)"
  have mw: "mwf (cm_containers s)" "mwf (cm_processors s)" using inv by (simp_all add: comp_inv_def)
  have pc: "cn_processor c' = cn_processor c" "cn_numWorkers c' = cn_numWorkers c" "cn_lambda c' = cn_lambda c"
    using same by (simp_all add: same_ctr_def)
  have other: "usage f n ?cs = usage f n (cm_containers s)" if "n \<noteq> cn_processor c" for f n
    using usage_update[OF mw(1) c, of f n c'] usage_split[OF mw(1) c, of f n] pc that by simp
  have own: "usage f (cn_processor c) ?cs = f c' + usage f (cn_processor c) (merase l (cm_containers s))" for f
    using usage_update[OF mw(1) c, of f "cn_processor c" c'] pc by simp
  have procs: "proc_wf q \<and> unat (pr_memUsed q) = usage mem_in_use n ?cs \<and> pr_running q = of_nat (usage num_active n ?cs)"
    if "map_of (mupd (cn_processor c) (\<lambda>_. p') (cm_processors s)) n = Some q" for n q
  proof (cases "n = cn_processor c")
    case True
    then have "q = p'" using that by (auto split: if_splits)
    then show ?thesis using acc own[of mem_in_use] own[of num_active] True by (simp add: accounts_def)
  next
    case False
    then show ?thesis using that inv other[OF False] by (simp add: comp_inv_def)
  qed
  have "ctr_wf d \<and> lm_name (cn_lambda d) = k \<and>
      map_of (mupd (cn_processor c) (\<lambda>_. p') (cm_processors s)) (cn_processor d) \<noteq> None"
    if "map_of ?cs k = Some d" for k d
    using that inv c wf pc by (auto simp: comp_inv_def split: if_splits)
  then show ?thesis
    using procs inv workers_mupd[OF c mw(1) pc(2)] pc(1) mw
    by (simp add: comp_inv_def update_ctr_def)
qed

text \<open>The tasks in a computer.\<close>

definition ids_of :: "(string, ctr) smap \<Rightarrow> 64 word multiset" where
  "ids_of cs = sum_list (map (\<lambda>(l, c). task_ids c) cs)"

lemma ids_split:
  assumes "mwf cs" and "map_of cs l = Some c"
  shows "ids_of cs = task_ids c + ids_of (merase l cs)"
  using assms
proof (induction cs)
  case Nil
  then show ?case by simp
next
  case (Cons q cs)
  obtain l' c' where q: "q = (l', c')" by (cases q)
  show ?case
  proof (cases "l' = l")
    case True
    then have "merase l cs = cs" using Cons.prems(1) q by (intro merase_id) auto
    then show ?thesis using True Cons.prems q by (simp add: ids_of_def merase_def)
  next
    case False
    then show ?thesis using Cons.IH Cons.prems q by (simp add: ids_of_def merase_def)
  qed
qed

lemma ids_update:
  assumes "mwf cs" and "map_of cs l = Some c"
  shows "ids_of (mupd l (\<lambda>_. c') cs) = task_ids c' + ids_of (merase l cs)"
  using ids_split[of "mupd l (\<lambda>_. c') cs" l c'] assms by simp

text \<open>What the operations on containers leave alone.\<close>

definition frame :: "computer \<Rightarrow> computer \<Rightarrow> bool" where
  "frame s s' \<longleftrightarrow> cm_name s' = cm_name s \<and> cm_initDone s' = cm_initDone s \<and>
     cm_terminating s' = cm_terminating s \<and> cm_newTask s' = cm_newTask s \<and> cm_nextId s' = cm_nextId s \<and>
     cm_containerNames s' = cm_containerNames s \<and> mkeys (cm_containers s') = mkeys (cm_containers s)"

lemma frame_trans [trans]: "frame s s' \<Longrightarrow> frame s' s'' \<Longrightarrow> frame s s''"
  by (simp add: frame_def)

lemma frame_refl [simp]: "frame s s"
  by (simp add: frame_def)

text \<open>The context of a container, as the lemmas about containers need it.\<close>

abbreviation ctx_ok :: "string \<Rightarrow> computer \<Rightarrow> ctr \<Rightarrow> processor \<Rightarrow> bool" where
  "ctx_ok l s c p \<equiv> accounts (usage mem_in_use (cn_processor c) (merase l (cm_containers s)))
     (usage num_active (cn_processor c) (merase l (cm_containers s))) c p"

lemma on_ctr_ok:
  assumes inv: "comp_inv s" and l: "l \<in> set (mkeys (cm_containers s))"
    and f: "\<And>c p. map_of (cm_containers s) l = Some c \<Longrightarrow> ctr_wf c \<Longrightarrow> ctx_ok l s c p \<Longrightarrow>
        cn_numWorkers c + usage num_active (cn_processor c) (merase l (cm_containers s)) < 2 ^ 64 \<Longrightarrow>
        \<exists>a c' p'. f (c, p) = Inr (a, c', p') \<and> ctr_wf c' \<and> ctx_ok l s c' p' \<and> same_ctr c c' \<and> R a c c'"
  shows "\<exists>a c c' s'. on_ctr l f s = (Inr a, s') \<and> comp_inv s' \<and> frame s s' \<and> cm_chrono s' = cm_chrono s \<and>
    map_of (cm_containers s) l = Some c \<and> cm_containers s' = mupd l (\<lambda>_. c') (cm_containers s) \<and>
    ids_of (cm_containers s) = task_ids c + ids_of (merase l (cm_containers s)) \<and>
    ids_of (cm_containers s') = task_ids c' + ids_of (merase l (cm_containers s)) \<and> same_ctr c c' \<and> R a c c'"
proof -
  obtain c where c: "map_of (cm_containers s) l = Some c"
    using l in_fst_set_iff[of l "cm_containers s"] by auto
  from comp_inv_lookup[OF inv c] obtain p where p: "lookup_ctr l s = Some (c, p)" "ctr_wf c" "ctx_ok l s c p"
    "cn_numWorkers c + usage num_active (cn_processor c) (merase l (cm_containers s)) < 2 ^ 64" by blast
  from f[OF c p(2-4)] obtain a c' p' where r: "f (c, p) = Inr (a, c', p')" "ctr_wf c'" "ctx_ok l s c' p'"
    "same_ctr c c'" "R a c c'" by blast
  let ?s = "update_ctr l (c', p') s"
  have mw: "mwf (cm_containers s)" using inv by (simp add: comp_inv_def)
  have "comp_inv ?s" using comp_inv_update[OF inv c r(4,2)] r(3,4) by (simp add: same_ctr_def)
  moreover have "frame s ?s" "cm_chrono ?s = cm_chrono s" "cm_containers ?s = mupd l (\<lambda>_. c') (cm_containers s)"
    by (simp_all add: frame_def update_ctr_def)
  moreover have "on_ctr l f s = (Inr a, ?s)" by (simp add: on_ctr_def p(1) r(1))
  ultimately show ?thesis using c r(4,5) ids_split[OF mw c] ids_update[OF mw c, of c'] by auto
qed

lemma pause_ok:
  assumes inv: "comp_inv s" and e: "0 \<le> e"
  shows "\<exists>s'. pause e s = (Inr (), s') \<and> comp_inv s' \<and> frame s s' \<and> \<not> cm_chrono s' \<and>
    ids_of (cm_containers s') = ids_of (cm_containers s)"
proof (cases "cm_chrono s")
  case False
  then show ?thesis using inv by (simp add: pause_def)
next
  case True
  let ?s = "s\<lparr>cm_chrono := False\<rparr>"
  let ?I = "\<lambda>(done :: string list) s'. comp_inv s' \<and> frame ?s s' \<and> \<not> cm_chrono s' \<and> ids_of (cm_containers s') = ids_of (cm_containers s)"
  have "\<exists>s'. sfor (mkeys (cm_containers s)) (\<lambda>l. on_ctr l (\<lambda>(c, p). rbind (ctr_advance e p c) (\<lambda>c. Inr ((), c, p)))) ?s
      = (Inr (), s') \<and> ?I (mkeys (cm_containers s)) s'"
  proof (rule sfor_inv)
    show "?I [] ?s" using inv by (simp add: comp_inv_def)
  next
    fix "done" :: "string list" and l s1
    assume l: "l \<in> set (mkeys (cm_containers s))" and I: "?I done s1"
    then have inv1: "comp_inv s1" and l1: "l \<in> set (mkeys (cm_containers s1))"
      by (simp_all add: frame_def)
    let ?f = "\<lambda>(c, p). rbind (ctr_advance e p c) (\<lambda>c. Inr ((), c, p))"
    have "\<exists>a c c' s'. on_ctr l ?f s1 = (Inr a, s') \<and> comp_inv s' \<and> frame s1 s' \<and> cm_chrono s' = cm_chrono s1 \<and>
      map_of (cm_containers s1) l = Some c \<and> cm_containers s' = mupd l (\<lambda>_. c') (cm_containers s1) \<and>
      ids_of (cm_containers s1) = task_ids c + ids_of (merase l (cm_containers s1)) \<and>
      ids_of (cm_containers s') = task_ids c' + ids_of (merase l (cm_containers s1)) \<and> same_ctr c c' \<and>
      task_ids c' = task_ids c"
    proof (rule on_ctr_ok[OF inv1 l1])
      fix c p
      assume wf: "ctr_wf c" and acc: "ctx_ok l s1 c p"
      from ctr_advance_ok[OF wf acc e] obtain c' where c': "ctr_advance e p c = Inr c'" "ctr_wf c'"
        "accounts (usage mem_in_use (cn_processor c) (merase l (cm_containers s1)))
           (usage num_active (cn_processor c) (merase l (cm_containers s1))) c' p"
        "task_ids c' = task_ids c" "same_ctr c c'" by blast
      have "cn_processor c' = cn_processor c" using c'(5) by (simp add: same_ctr_def)
      then show "\<exists>a c' p'. ?f (c, p) = Inr (a, c', p') \<and> ctr_wf c' \<and> ctx_ok l s1 c' p' \<and> same_ctr c c' \<and> task_ids c' = task_ids c"
        using c' by (intro exI[of _ "()"] exI[of _ c'] exI[of _ p]) simp
    qed
    then show "\<exists>s'. on_ctr l ?f s1 = (Inr (), s') \<and> ?I (done @ [l]) s'"
      using I frame_trans by fastforce
  qed
  then show ?thesis using True by (auto simp: pause_def frame_def)
qed

text \<open>The first task is complete.\<close>

definition ready :: "ctr \<Rightarrow> bool" where
  "ready c \<longleftrightarrow> cn_active c \<noteq> [] \<and> tk_residualOps (hd (cn_active c)) = 0"

lemma nearest_ready:
  assumes "ctr_wf c" and "accounts m k c p" and "cn_numWorkers c + k < 2 ^ 64"
  shows "length (cn_active c) > 0 \<and> ctr_nearest c p = Inr 0 \<longleftrightarrow> ready c"
proof (cases "cn_active c")
  case Nil
  then show ?thesis by (simp add: ready_def)
next
  case (Cons x xs)
  have "pr_running p = of_nat (Suc (length xs) + k)" "proc_wf p" using assms(2) Cons by (simp_all add: accounts_def)
  moreover have "Suc (length xs) + k < 2 ^ 64" using assms(1,3) Cons by (simp add: ctr_wf_def)
  ultimately have "pr_running p \<noteq> 0" by (metis of_nat_word_neq_0 zero_less_Suc add_Suc)
  then show ?thesis using opsToTime_0_iff[OF \<open>proc_wf p\<close>] Cons
    by (auto simp: ctr_nearest_def throwIfEmpty_def ready_def)
qed

lemma dispatch_ctr_ok:
  assumes "ctr_wf c" and "accounts m k c p" and "cn_numWorkers c + k < 2 ^ 64"
  shows "\<exists>out c' p'. dispatch_ctr E (c, p) = Inr (out, c', p') \<and> ctr_wf c' \<and> accounts m k c' p' \<and> same_ctr c c' \<and>
    task_ids c = mset (map fst out) + task_ids c' \<and> \<not> ready c' \<and>
    (ready c \<longrightarrow> tk_id (hd (cn_active c)) \<in> set (map fst out)) \<and> (\<not> ready c \<longrightarrow> c' = c)"
  using assms
proof (induction "length (cn_active c) + length (cn_pending c)" arbitrary: c p rule: less_induct)
  case less
  note nr = nearest_ready[OF less.prems]
  show ?case
  proof (cases "ready c")
    case False
    then have "\<not> (length (cn_active c) > 0 \<and> ctr_nearest c p = Inr 0)" using nr by simp
    then have "dispatch_ctr E (c, p) = Inr ([], c, p)" by (subst dispatch_ctr.simps) (rule if_not_P)
    then show ?thesis using False less.prems by simp
  next
    case True
    then have ne: "cn_active c \<noteq> []" by (simp add: ready_def)
    let ?ts = "E (length (cn_active c) + length (cn_pending c))"
    from ctr_pop_ok[OF less.prems(1,2) ne, of ?ts] obtain c1 p1 where r:
      "ctr_pop ?ts (c, p) = Inr (hd (cn_active c), c1, p1)" "ctr_wf c1" "accounts m k c1 p1"
      "task_ids c = add_mset (tk_id (hd (cn_active c))) (task_ids c1)" "same_ctr c c1" by blast
    have w: "cn_numWorkers c1 + k < 2 ^ 64" using r(5) less.prems(3) by (simp add: same_ctr_def)
    from less.hyps[OF ctr_pop_decreases[OF r(1)] r(2,3) w] obtain out c' p' where d:
      "dispatch_ctr E (c1, p1) = Inr (out, c', p')" "ctr_wf c'" "accounts m k c' p'" "same_ctr c1 c'"
      "task_ids c1 = mset (map fst out) + task_ids c'" "\<not> ready c'" by blast
    have "dispatch_ctr E (c, p) = Inr ((tk_id (hd (cn_active c)), tk_resp (hd (cn_active c))) # out, c', p')"
      by (subst dispatch_ctr.simps) (use True nr r(1) d(1) in simp)
    then show ?thesis using True r d by (auto simp: same_ctr_def)
  qed
qed

lemma dispatch_all_ok:
  assumes "comp_inv s" and "set ls \<subseteq> set (mkeys (cm_containers s))" and "distinct ls"
  shows "\<exists>out s'. dispatch_all E ls s = (Inr out, s') \<and> comp_inv s' \<and> frame s s' \<and> cm_chrono s' = cm_chrono s \<and>
    ids_of (cm_containers s) = mset (map fst out) + ids_of (cm_containers s') \<and>
    (\<forall>l\<in>set ls. \<forall>c. map_of (cm_containers s') l = Some c \<longrightarrow> \<not> ready c) \<and>
    (\<forall>l c. map_of (cm_containers s) l = Some c \<longrightarrow> l \<in> set ls \<longrightarrow> ready c \<longrightarrow>
       tk_id (hd (cn_active c)) \<in> set (map fst out)) \<and>
    (\<forall>l. l \<notin> set ls \<longrightarrow> map_of (cm_containers s') l = map_of (cm_containers s) l) \<and>
    (\<forall>l c. map_of (cm_containers s) l = Some c \<longrightarrow> \<not> ready c \<longrightarrow> map_of (cm_containers s') l = Some c)"
  using assms
proof (induction ls arbitrary: s)
  case Nil
  then show ?case by simp
next
  case (Cons l ls)
  let ?R = "\<lambda>out c c'. task_ids c = mset (map fst out) + task_ids c' \<and> \<not> ready c' \<and>
    (ready c \<longrightarrow> tk_id (hd (cn_active c)) \<in> set (map fst out)) \<and> (\<not> ready c \<longrightarrow> c' = c)"
  have l: "l \<in> set (mkeys (cm_containers s))" using Cons.prems(2) by simp
  have "\<exists>out c c' s'. on_ctr l (dispatch_ctr (E l)) s = (Inr out, s') \<and> comp_inv s' \<and> frame s s' \<and> cm_chrono s' = cm_chrono s \<and>
    map_of (cm_containers s) l = Some c \<and> cm_containers s' = mupd l (\<lambda>_. c') (cm_containers s) \<and>
    ids_of (cm_containers s) = task_ids c + ids_of (merase l (cm_containers s)) \<and>
    ids_of (cm_containers s') = task_ids c' + ids_of (merase l (cm_containers s)) \<and> same_ctr c c' \<and> ?R out c c'"
  proof (rule on_ctr_ok[OF Cons.prems(1) l])
    fix c p
    assume h: "ctr_wf c" "ctx_ok l s c p"
      "cn_numWorkers c + usage num_active (cn_processor c) (merase l (cm_containers s)) < 2 ^ 64"
    from dispatch_ctr_ok[OF h, of "E l"] obtain out c' p' where d: "dispatch_ctr (E l) (c, p) = Inr (out, c', p')"
      "ctr_wf c'" "accounts (usage mem_in_use (cn_processor c) (merase l (cm_containers s)))
        (usage num_active (cn_processor c) (merase l (cm_containers s))) c' p'" "same_ctr c c'" "?R out c c'" by blast
    have "cn_processor c' = cn_processor c" using d(4) by (simp add: same_ctr_def)
    then show "\<exists>a c' p'. dispatch_ctr (E l) (c, p) = Inr (a, c', p') \<and> ctr_wf c' \<and> ctx_ok l s c' p' \<and> same_ctr c c' \<and> ?R a c c'"
      using d by (intro exI[of _ out] exI[of _ c'] exI[of _ p']) simp
  qed
  then obtain out1 c c' s1 where r: "on_ctr l (dispatch_ctr (E l)) s = (Inr out1, s1)" "comp_inv s1" "frame s s1"
    "cm_chrono s1 = cm_chrono s" "map_of (cm_containers s) l = Some c"
    "cm_containers s1 = mupd l (\<lambda>_. c') (cm_containers s)"
    "ids_of (cm_containers s) = task_ids c + ids_of (merase l (cm_containers s))"
    "ids_of (cm_containers s1) = task_ids c' + ids_of (merase l (cm_containers s))" "?R out1 c c'" by blast
  have k: "set ls \<subseteq> set (mkeys (cm_containers s1))" "distinct ls" "l \<notin> set ls"
    using Cons.prems(2,3) r(3) by (simp_all add: frame_def)
  from Cons.IH[OF r(2) k(1,2)] obtain out2 s2 where q: "dispatch_all E ls s1 = (Inr out2, s2)" "comp_inv s2" "frame s1 s2"
    "cm_chrono s2 = cm_chrono s1" "ids_of (cm_containers s1) = mset (map fst out2) + ids_of (cm_containers s2)"
    "\<forall>l\<in>set ls. \<forall>c. map_of (cm_containers s2) l = Some c \<longrightarrow> \<not> ready c"
    "\<forall>l c. map_of (cm_containers s1) l = Some c \<longrightarrow> l \<in> set ls \<longrightarrow> ready c \<longrightarrow> tk_id (hd (cn_active c)) \<in> set (map fst out2)"
    "\<forall>l. l \<notin> set ls \<longrightarrow> map_of (cm_containers s2) l = map_of (cm_containers s1) l"
    "\<forall>l c. map_of (cm_containers s1) l = Some c \<longrightarrow> \<not> ready c \<longrightarrow> map_of (cm_containers s2) l = Some c" by blast
  have m1: "map_of (cm_containers s1) l' = map_of (cm_containers s) l'" if "l' \<noteq> l" for l'
    using that by (simp add: r(6))
  have m2: "map_of (cm_containers s2) l = Some c'" using q(8) k(3) r(5) by (simp add: r(6))
  have "dispatch_all E (l # ls) s = (Inr (out1 @ out2), s2)" by (simp add: r(1) q(1))
  moreover have "ids_of (cm_containers s) = mset (map fst (out1 @ out2)) + ids_of (cm_containers s2)"
    using r(7,8,9) q(5) by (simp add: add.assoc add.left_commute)
  moreover have "\<forall>l'\<in>set (l # ls). \<forall>c. map_of (cm_containers s2) l' = Some c \<longrightarrow> \<not> ready c"
    using q(6) m2 r(9) by auto
  moreover have "\<forall>l' c0. map_of (cm_containers s) l' = Some c0 \<longrightarrow> l' \<in> set (l # ls) \<longrightarrow> ready c0 \<longrightarrow>
      tk_id (hd (cn_active c0)) \<in> set (map fst (out1 @ out2))"
  proof (intro allI impI)
    fix l' c0
    assume h: "map_of (cm_containers s) l' = Some c0" "l' \<in> set (l # ls)" "ready c0"
    show "tk_id (hd (cn_active c0)) \<in> set (map fst (out1 @ out2))"
    proof (cases "l' = l")
      case True
      then have "c0 = c" using h(1) r(5) by simp
      then show ?thesis using h(3) r(9) by simp
    next
      case False
      then have "tk_id (hd (cn_active c0)) \<in> set (map fst out2)" using q(7) h m1[OF False] by simp
      then show ?thesis by simp
    qed
  qed
  moreover have "\<forall>l'. l' \<notin> set (l # ls) \<longrightarrow> map_of (cm_containers s2) l' = map_of (cm_containers s) l'"
    using q(8) m1 by auto
  moreover have "\<forall>l' c0. map_of (cm_containers s) l' = Some c0 \<longrightarrow> \<not> ready c0 \<longrightarrow> map_of (cm_containers s2) l' = Some c0"
  proof (intro allI impI)
    fix l' c0
    assume h: "map_of (cm_containers s) l' = Some c0" "\<not> ready c0"
    show "map_of (cm_containers s2) l' = Some c0"
    proof (cases "l' = l")
      case True
      then show ?thesis using m2 h r(5,9) by simp
    next
      case False
      then show ?thesis using m1[OF False] h q(9) by simp
    qed
  qed
  moreover have "cm_chrono s2 = cm_chrono s" "frame s s2" using q(4) r(4) frame_trans[OF r(3) q(3)] by simp_all
  ultimately show ?case using q(2) by (intro exI conjI)
qed

lemma not_someReady:
  assumes "comp_inv s" and "\<forall>l c. map_of (cm_containers s) l = Some c \<longrightarrow> \<not> ready c"
  shows "\<not> someReady s"
proof
  assume "someReady s"
  then obtain l c c' p where lc: "(l, c) \<in> set (cm_containers s)" "length (cn_active c) > 0"
    "lookup_ctr l s = Some (c', p)" "ctr_nearest c' p = Inr 0"
    unfolding someReady_def by (auto split: option.splits)
  have "map_of (cm_containers s) l = Some c" using assms(1) lc(1) mwf_distinct[of "cm_containers s"] by (simp add: comp_inv_def)
  with comp_inv_lookup[OF assms(1) this] lc(3,4) nearest_ready[of c] assms(2) lc(2) show False
    by fastforce
qed

text \<open>What a pause does to each container.\<close>

lemma advance_all:
  assumes "comp_inv s" and "0 \<le> e" and "distinct ls" and "set ls \<subseteq> set (mkeys (cm_containers s))"
  shows "\<exists>s'. sfor ls (\<lambda>l. on_ctr l (\<lambda>(c, p). rbind (ctr_advance e p c) (\<lambda>c. Inr ((), c, p)))) s = (Inr (), s') \<and>
    (\<forall>l c p. lookup_ctr l s = Some (c, p) \<longrightarrow> (\<exists>c'. map_of (cm_containers s') l = Some c' \<and>
       (if l \<in> set ls then ctr_advance e p c = Inr c' else c' = c)))"
  using assms
proof (induction ls arbitrary: s)
  case Nil
  then show ?case by (auto simp: lookup_ctr_def split: option.splits)
next
  case (Cons l ls)
  obtain c where c: "map_of (cm_containers s) l = Some c"
    using Cons.prems(4) in_fst_set_iff[of l "cm_containers s"] by auto
  from comp_inv_lookup[OF Cons.prems(1) c] obtain p where p: "lookup_ctr l s = Some (c, p)"
    "map_of (cm_processors s) (cn_processor c) = Some p" "ctr_wf c" "ctx_ok l s c p" by blast
  from ctr_advance_ok[OF p(3,4) Cons.prems(2)] obtain c' where c': "ctr_advance e p c = Inr c'" "ctr_wf c'"
    "accounts (usage mem_in_use (cn_processor c) (merase l (cm_containers s)))
       (usage num_active (cn_processor c) (merase l (cm_containers s))) c' p" "same_ctr c c'" by blast
  let ?s1 = "update_ctr l (c', p) s"
  have inv1: "comp_inv ?s1" by (rule comp_inv_update[OF Cons.prems(1) c c'(4,2,3)])
  have pc: "cn_processor c' = cn_processor c" using c'(4) by (simp add: same_ctr_def)
  have look: "lookup_ctr k ?s1 = lookup_ctr k s" if "k \<noteq> l" for k
    using that p(2) pc by (auto simp: lookup_ctr_def update_ctr_def split: option.split)
  have c1: "map_of (cm_containers ?s1) l = Some c'" using c by (simp add: update_ctr_def)
  from Cons.IH[OF inv1 Cons.prems(2)] obtain s' where
    s': "sfor ls (\<lambda>l. on_ctr l (\<lambda>(c, p). rbind (ctr_advance e p c) (\<lambda>c. Inr ((), c, p)))) ?s1 = (Inr (), s')"
    "\<forall>l c p. lookup_ctr l ?s1 = Some (c, p) \<longrightarrow> (\<exists>c'. map_of (cm_containers s') l = Some c' \<and>
       (if l \<in> set ls then ctr_advance e p c = Inr c' else c' = c))"
    using Cons.prems(3,4) by (auto simp: update_ctr_def)
  have "lookup_ctr l ?s1 = Some (c', p)" using c p(2) pc by (simp add: lookup_ctr_def update_ctr_def)
  then have l': "map_of (cm_containers s') l = Some c'" using s'(2) Cons.prems(3) by fastforce
  have "\<exists>d'. map_of (cm_containers s') k = Some d' \<and> (if k \<in> set (l # ls) then ctr_advance e q d = Inr d' else d' = d)"
    if k: "lookup_ctr k s = Some (d, q)" for k d q
  proof (cases "k = l")
    case True
    then show ?thesis using k p(1) l' c'(1) by simp
  next
    case False
    then show ?thesis using s'(2) look[OF False] k by simp
  qed
  moreover have "on_ctr l (\<lambda>(c, p). rbind (ctr_advance e p c) (\<lambda>c. Inr ((), c, p))) s = (Inr (), ?s1)"
    by (simp add: on_ctr_def p(1) c'(1))
  ultimately show ?case using s'(1) by auto
qed

lemma pause_advances:
  assumes "comp_inv s" and "0 \<le> e" and "lookup_ctr l s = Some (c, p)" and "pause e s = (Inr (), s')"
  shows "\<exists>c'. map_of (cm_containers s') l = Some c' \<and> (if cm_chrono s then ctr_advance e p c = Inr c' else c' = c)"
proof (cases "cm_chrono s")
  case False
  then show ?thesis using assms(3,4) by (auto simp: pause_def lookup_ctr_def split: option.splits)
next
  case True
  have c: "map_of (cm_containers s) l = Some c" using assms(3) by (auto simp: lookup_ctr_def split: option.splits)
  then have l: "l \<in> set (mkeys (cm_containers s))" using in_fst_set_iff[of l "cm_containers s"] by simp
  have "comp_inv (s\<lparr>cm_chrono := False\<rparr>)" "distinct (mkeys (cm_containers s))"
    using assms(1) mwf_distinct[of "cm_containers s"] by (simp_all add: comp_inv_def)
  from advance_all[OF this(1) assms(2) this(2)] obtain s1 where
    s1: "sfor (mkeys (cm_containers s)) (\<lambda>l. on_ctr l (\<lambda>(c, p). rbind (ctr_advance e p c) (\<lambda>c. Inr ((), c, p))))
        (s\<lparr>cm_chrono := False\<rparr>) = (Inr (), s1)"
    "\<forall>l' c p. lookup_ctr l' (s\<lparr>cm_chrono := False\<rparr>) = Some (c, p) \<longrightarrow> (\<exists>c'. map_of (cm_containers s1) l' = Some c' \<and>
       (if l' \<in> set (mkeys (cm_containers s)) then ctr_advance e p c = Inr c' else c' = c))"
    by auto
  have "s1 = s'" using assms(4) True s1(1) by (simp add: pause_def)
  moreover have "lookup_ctr l (s\<lparr>cm_chrono := False\<rparr>) = Some (c, p)"
    using assms(3) by (simp add: lookup_ctr_def cong: option.case_cong)
  ultimately show ?thesis using s1(2) l True by fastforce
qed

section \<open>Each operation keeps the invariant and the tasks\<close>

lemma comp_inv_flags [simp]:
  "comp_inv (s\<lparr>cm_chrono := b\<rparr>) = comp_inv s" "comp_inv (s\<lparr>cm_newTask := b\<rparr>) = comp_inv s"
  "comp_inv (s\<lparr>cm_initDone := b\<rparr>) = comp_inv s" "comp_inv (s\<lparr>cm_nextId := i\<rparr>) = comp_inv s"
  "comp_inv (s\<lparr>cm_terminating := b\<rparr>) = comp_inv s" "comp_inv (s\<lparr>cm_containerNames := ns\<rparr>) = comp_inv s"
  by (simp_all add: comp_inv_def)

lemma resume_ok:
  assumes "comp_inv s" and "\<not> cm_chrono s"
  shows "\<exists>s'. resume s = (Inr (), s') \<and> comp_inv s' \<and> frame s s' \<and> cm_containers s' = cm_containers s"
  using assms by (auto simp: resume_def frame_def)

lemma addTask_ok:
  assumes inv: "comp_inv s" and e: "0 \<le> e"
  shows "\<exists>x s'. addTask W e t r s = (x, s') \<and> comp_inv s' \<and>
    (case x of Inr i \<Rightarrow> i = cm_nextId s \<and> ids_of (cm_containers s') = add_mset i (ids_of (cm_containers s))
     | Inl _ \<Rightarrow> ids_of (cm_containers s') = ids_of (cm_containers s))"
proof (cases "map_of (cm_containers s) (rq_name r) = None")
  case True
  then show ?thesis using inv by (simp add: addTask_def)
next
  case False
  then obtain y where nf: "map_of (cm_containers s) (rq_name r) = Some y" by auto
  let ?i = "cm_nextId s" and ?s = "s\<lparr>cm_initDone := True, cm_nextId := cm_nextId s + 1\<rparr>" and ?l = "rq_name r"
  obtain s1 where s1: "pause e ?s = (Inr (), s1)" "comp_inv s1" "frame ?s s1" "\<not> cm_chrono s1"
    "ids_of (cm_containers s1) = ids_of (cm_containers s)"
    using pause_ok[of ?s e] inv e by auto
  let ?f = "\<lambda>cp. rbind (ctr_push W t r ?i cp) (\<lambda>cp. Inr ((), cp))"
  have "?l \<in> set (mkeys (cm_containers s1))" using False s1(3) in_fst_set_iff[of ?l "cm_containers s"] by (simp add: frame_def)
  then obtain c where c: "map_of (cm_containers s1) ?l = Some c" using in_fst_set_iff[of ?l "cm_containers s1"] by auto
  from comp_inv_lookup[OF s1(2) c] obtain p where p: "lookup_ctr ?l s1 = Some (c, p)" "ctr_wf c" "ctx_ok ?l s1 c p" by blast
  show ?thesis
  proof (cases "theMemory (lm_converter (cn_lambda c) p r) \<le> pr_memTotal p")
    case True
    from ctr_push_ok[OF p(2,3) True, of W t ?i] obtain c' p' where q: "ctr_push W t r ?i (c, p) = Inr (c', p')" "ctr_wf c'"
      "accounts (usage mem_in_use (cn_processor c) (merase ?l (cm_containers s1)))
        (usage num_active (cn_processor c) (merase ?l (cm_containers s1))) c' p'"
      "task_ids c' = add_mset ?i (task_ids c)" "same_ctr c c'" by blast
    let ?s2 = "update_ctr ?l (c', p') s1"
    have mw: "mwf (cm_containers s1)" using s1(2) by (simp add: comp_inv_def)
    have inv2: "comp_inv ?s2" by (rule comp_inv_update[OF s1(2) c q(5,2,3)])
    have ids: "ids_of (cm_containers ?s2) = add_mset ?i (ids_of (cm_containers s))"
      using ids_split[OF mw c] ids_update[OF mw c, of c'] q(4) s1(5) by (simp add: update_ctr_def)
    obtain s3 where s3: "resume (?s2\<lparr>cm_newTask := True\<rparr>) = (Inr (), s3)" "comp_inv s3"
      "cm_containers s3 = cm_containers ?s2"
      using resume_ok[of "?s2\<lparr>cm_newTask := True\<rparr>"] inv2 s1(4) by (auto simp: update_ctr_def)
    have "addTask W e t r s = (Inr ?i, s3)"
      using False s1(1) by (simp add: addTask_def Let_def on_ctr_def p(1) q(1) s3(1))
    then show ?thesis using s3 ids by simp
  next
    case big: False
    then have "pr_memTotal p < theMemory (lm_converter (cn_lambda c) p r)" by simp
    then obtain m where "ctr_push W t r ?i (c, p) = Inl m"
      by (simp add: ctr_push_def ctr_requirements_def Let_def)
    then have "addTask W e t r s = (Inl m, s1)"
      using nf s1(1) by (simp add: addTask_def Let_def on_ctr_def p(1))
    then show ?thesis using s1 by simp
  qed
qed

lemma dispatcher_step_ok:
  assumes inv: "comp_inv s" and e: "0 \<le> e" and nt: "\<not> cm_terminating s"
  shows "\<exists>out s'. dispatcher_step e E s = (Inr (True, out), s') \<and> comp_inv s' \<and>
    ids_of (cm_containers s) = mset (map fst out) + ids_of (cm_containers s') \<and>
    (\<forall>l c. map_of (cm_containers s') l = Some c \<longrightarrow> \<not> ready c) \<and>
    (\<forall>s1 l c. someActive s \<longrightarrow> pause e (s\<lparr>cm_newTask := False\<rparr>) = (Inr (), s1) \<longrightarrow>
       map_of (cm_containers s1) l = Some c \<longrightarrow>
       (ready c \<longrightarrow> tk_id (hd (cn_active c)) \<in> set (map fst out)) \<and>
       (\<not> ready c \<longrightarrow> map_of (cm_containers s') l = Some c)) \<and>
    (\<not> someActive s \<longrightarrow> cm_containers s' = cm_containers s)"
proof (cases "someActive s")
  case False
  have na: "cn_active c = []" if "map_of (cm_containers s) l = Some c" for l c
    using map_of_SomeD[OF that] False by (auto simp: someActive_def)
  then show ?thesis using False nt inv by (auto simp: dispatcher_step_def Let_def someActive_def ready_def)
next
  case True
  let ?s = "s\<lparr>cm_newTask := False\<rparr>"
  obtain s1 where s1: "pause e ?s = (Inr (), s1)" "comp_inv s1" "\<not> cm_chrono s1"
    "ids_of (cm_containers s1) = ids_of (cm_containers s)"
    using pause_ok[of ?s e] inv e by auto
  have "distinct (mkeys (cm_containers s1))" using s1(2) by (intro mwf_distinct) (simp add: comp_inv_def)
  from dispatch_all_ok[OF s1(2) subset_refl this, of E] obtain out s2 where s2:
    "dispatchCompletedTasks E s1 = (Inr out, s2)" "comp_inv s2" "frame s1 s2" "cm_chrono s2 = cm_chrono s1"
    "ids_of (cm_containers s1) = mset (map fst out) + ids_of (cm_containers s2)"
    "\<forall>l\<in>set (mkeys (cm_containers s1)). \<forall>c. map_of (cm_containers s2) l = Some c \<longrightarrow> \<not> ready c"
    "\<forall>l c. map_of (cm_containers s1) l = Some c \<longrightarrow> l \<in> set (mkeys (cm_containers s1)) \<longrightarrow> ready c \<longrightarrow>
       tk_id (hd (cn_active c)) \<in> set (map fst out)"
    "\<forall>l c. map_of (cm_containers s1) l = Some c \<longrightarrow> \<not> ready c \<longrightarrow> map_of (cm_containers s2) l = Some c"
    unfolding dispatchCompletedTasks_def by blast
  have keys: "map_of (cm_containers x) l = Some c \<Longrightarrow> l \<in> set (mkeys (cm_containers x))" for x l c
    using in_fst_set_iff[of l "cm_containers x"] by simp
  obtain s3 where s3: "resume s2 = (Inr (), s3)" "comp_inv s3" "cm_containers s3 = cm_containers s2"
    using resume_ok[OF s2(2)] s1(3) s2(4) by auto
  have sa: "someActive ?s" using True by (simp add: someActive_def)
  have "dispatcher_step e E s = (Inr (True, out), s3)"
    by (simp add: dispatcher_step_def Let_def nt sa s1(1) s2(1) s3(1))
  moreover have "\<forall>l c. map_of (cm_containers s3) l = Some c \<longrightarrow> \<not> ready c"
  proof (intro allI impI)
    fix l c
    assume c: "map_of (cm_containers s3) l = Some c"
    have "mkeys (cm_containers s2) = mkeys (cm_containers s1)" using s2(3) by (simp add: frame_def)
    then have "l \<in> set (mkeys (cm_containers s1))" using keys[of s2 l c] c s3(3) by metis
    then show "\<not> ready c" using s2(6) c s3(3) by metis
  qed
  moreover have "\<forall>l c. map_of (cm_containers s1) l = Some c \<longrightarrow> ready c \<longrightarrow> tk_id (hd (cn_active c)) \<in> set (map fst out)"
    using s2(7) keys[of s1] by blast
  moreover have "ids_of (cm_containers s) = mset (map fst out) + ids_of (cm_containers s3)"
    using s2(5) s1(4) s3(3) by simp
  moreover have "\<forall>s1' l c. someActive s \<longrightarrow> pause e ?s = (Inr (), s1') \<longrightarrow> map_of (cm_containers s1') l = Some c \<longrightarrow>
      (ready c \<longrightarrow> tk_id (hd (cn_active c)) \<in> set (map fst out)) \<and> (\<not> ready c \<longrightarrow> map_of (cm_containers s3) l = Some c)"
    using calculation(3) s1(1) s2(8) s3(3) by simp
  moreover have "\<not> someActive s \<longrightarrow> cm_containers s3 = cm_containers s" using True by simp
  ultimately show ?thesis using s3(2) by (intro exI conjI)
qed

text \<open>Configuration.\<close>

lemma merase_mput: "mwf cs \<Longrightarrow> merase l (mput l c cs) = merase l cs"
  by (rule smap_ext) (auto simp: fun_eq_iff)

lemma addContainer_ok:
  assumes inv: "comp_inv s" and w: "sum_list (map (\<lambda>(l, c). cn_numWorkers c) (cm_containers s)) + aNumWorkers < 2 ^ 64"
  shows "comp_inv (snd (addContainer aName aProc aLambda aNumWorkers s)) \<and>
    ids_of (cm_containers (snd (addContainer aName aProc aLambda aNumWorkers s))) = ids_of (cm_containers s)"
proof (cases "\<exists>c. addContainer aName aProc aLambda aNumWorkers s =
    (Inr (), s\<lparr>cm_containerNames := sinsert aName (cm_containerNames s),
       cm_containers := mput (lm_name aLambda) c (cm_containers s)\<rparr>) \<and> container_new aName aProc aLambda aNumWorkers = Inr c
    \<and> map_of (cm_containers s) (lm_name aLambda) = None \<and> map_of (cm_processors s) aProc \<noteq> None")
  case False
  then have "snd (addContainer aName aProc aLambda aNumWorkers s) = s \<or>
      snd (addContainer aName aProc aLambda aNumWorkers s) = s\<lparr>cm_containerNames := sinsert aName (cm_containerNames s)\<rparr>"
    by (cases "container_new aName aProc aLambda aNumWorkers")
      (auto simp: addContainer_def throwIfInitDone_def Let_def split: if_splits)
  then show ?thesis using inv by auto
next
  case True
  then obtain c where c: "addContainer aName aProc aLambda aNumWorkers s =
    (Inr (), s\<lparr>cm_containerNames := sinsert aName (cm_containerNames s),
       cm_containers := mput (lm_name aLambda) c (cm_containers s)\<rparr>)"
    "container_new aName aProc aLambda aNumWorkers = Inr c" "map_of (cm_containers s) (lm_name aLambda) = None"
    "map_of (cm_processors s) aProc \<noteq> None" by blast
  let ?l = "lm_name aLambda" let ?cs = "mput ?l c (cm_containers s)"
  have mw: "mwf (cm_containers s)" using inv by (simp add: comp_inv_def)
  have er: "merase ?l ?cs = cm_containers s"
    using merase_mput[OF mw] c(3) by (simp add: merase_id map_of_eq_None_iff)
  have new: "cn_active c = []" "cn_pending c = []" "cn_processor c = aProc" "cn_lambda c = aLambda"
    "cn_numWorkers c = aNumWorkers" "0 < aNumWorkers"
    using c(2) by (auto simp: container_new_def split: if_splits)
  have us: "usage f n ?cs = (if cn_processor c = n then f c else 0) + usage f n (cm_containers s)" for f n
    using usage_split[of ?cs ?l c f n] mw er by simp
  have ids: "ids_of ?cs = ids_of (cm_containers s)"
    using ids_split[of ?cs ?l c] mw er new by (simp add: task_ids_def)
  have wk: "sum_list (map (\<lambda>(l, c). cn_numWorkers c) ?cs) = aNumWorkers + sum_list (map (\<lambda>(l, c). cn_numWorkers c) (cm_containers s))"
    using workers_split[of ?cs ?l c] mw er new(5) by simp
  have "ctr_wf d \<and> lm_name (cn_lambda d) = k \<and> map_of (cm_processors s) (cn_processor d) \<noteq> None"
    if "map_of ?cs k = Some d" for k d
  proof (cases "k = ?l")
    case True
    then show ?thesis using that c(4) new by (simp add: ctr_wf_def)
  next
    case False
    then have "map_of (cm_containers s) k = Some d" using that by simp
    then show ?thesis using inv unfolding comp_inv_def by blast
  qed
  moreover have "usage mem_in_use n ?cs = usage mem_in_use n (cm_containers s)"
    "usage num_active n ?cs = usage num_active n (cm_containers s)" for n using us new by simp_all
  ultimately have "comp_inv (s\<lparr>cm_containers := ?cs\<rparr>)"
    using inv mw wk w by (simp add: comp_inv_def)
  then have "comp_inv (s\<lparr>cm_containerNames := sinsert aName (cm_containerNames s), cm_containers := ?cs\<rparr>)"
    by (simp add: comp_inv_def)
  then show ?thesis using c(1) ids by simp
qed

lemma addProcessor_cases:
  "snd (addProcessor aName aType aSpeed aCores aMem s) = s \<or>
   (\<exists>p. snd (addProcessor aName aType aSpeed aCores aMem s) = s\<lparr>cm_processors := mput aName p (cm_processors s)\<rparr> \<and>
      processor_new aName aType aSpeed aCores aMem = Inr p \<and> map_of (cm_processors s) aName = None)"
proof (cases "cm_initDone s \<or> map_of (cm_processors s) aName \<noteq> None")
  case True
  then show ?thesis by (auto simp: addProcessor_def throwIfInitDone_def)
next
  case False
  then show ?thesis
    by (cases "processor_new aName aType aSpeed aCores aMem")
      (simp_all add: addProcessor_def throwIfInitDone_def)
qed

lemma addProcessor_ok:
  assumes inv: "comp_inv s"
  shows "comp_inv (snd (addProcessor aName aType aSpeed aCores aMem s)) \<and>
    cm_containers (snd (addProcessor aName aType aSpeed aCores aMem s)) = cm_containers s"
proof (cases "snd (addProcessor aName aType aSpeed aCores aMem s) = s")
  case True
  then show ?thesis using inv by simp
next
  case False
  then obtain p where p: "snd (addProcessor aName aType aSpeed aCores aMem s) = s\<lparr>cm_processors := mput aName p (cm_processors s)\<rparr>"
    "processor_new aName aType aSpeed aCores aMem = Inr p" "map_of (cm_processors s) aName = None"
    using addProcessor_cases[of aName aType aSpeed aCores aMem s] by blast
  have pw: "proc_wf p" "pr_memUsed p = 0" "pr_running p = 0"
    using processor_new_wf[OF p(2)] p(2) by (auto simp: processor_new_def split: if_splits)
  have mw: "mwf (cm_containers s)" using inv by (simp add: comp_inv_def)
  have "\<forall>(l, c)\<in>set (cm_containers s). cn_processor c \<noteq> aName"
  proof clarify
    fix l c
    assume "(l, c) \<in> set (cm_containers s)" "aName = cn_processor c"
    then have "map_of (cm_containers s) l = Some c" using mwf_distinct[OF mw] by simp
    then show False using inv p(3) \<open>aName = cn_processor c\<close> unfolding comp_inv_def by blast
  qed
  then have "usage f aName (cm_containers s) = 0" for f
    unfolding usage_def by (auto simp: sum_list_eq_0_iff split: if_splits)
  then have "proc_wf q \<and> unat (pr_memUsed q) = usage mem_in_use n (cm_containers s) \<and>
      pr_running q = of_nat (usage num_active n (cm_containers s))"
    if "map_of (mput aName p (cm_processors s)) n = Some q" for n q
    using that inv pw by (cases "n = aName") (simp_all add: comp_inv_def)
  moreover have "map_of (mput aName p (cm_processors s)) (cn_processor c) \<noteq> None"
    if "map_of (cm_containers s) l = Some c" for l c
    using that inv unfolding comp_inv_def by auto
  ultimately have "comp_inv (s\<lparr>cm_processors := mput aName p (cm_processors s)\<rparr>)"
    using inv by (simp add: comp_inv_def)
  then show ?thesis using p(1) by simp
qed

lemma collect_utils_accounts:
  "mkeys (snd (collect_utils T ps)) = mkeys ps \<and>
   (\<forall>n. map_option (\<lambda>p. (proc_wf p, pr_memUsed p, pr_running p)) (map_of (snd (collect_utils T ps)) n) =
        map_option (\<lambda>p. (proc_wf p, pr_memUsed p, pr_running p)) (map_of ps n))"
proof (induction ps)
  case Nil
  then show ?case by simp
next
  case (Cons q ps)
  obtain n p where q: "q = (n, p)" by (cases q)
  obtain u p' where u: "utilization (fst (T n)) (snd (T n)) p = (u, p')" by (cases "utilization (fst (T n)) (snd (T n)) p")
  have "proc_wf p' = proc_wf p \<and> pr_memUsed p' = pr_memUsed p \<and> pr_running p' = pr_running p"
    using u by (auto simp: utilization_def addBusy_def Let_def proc_wf_def split: if_splits)
  then show ?case using Cons u
    by (cases u; cases "collect_utils T ps"; cases "fst (collect_utils T ps)") (auto simp: q)
qed

lemma comp_inv_processors:
  assumes inv: "comp_inv s" and wf: "mwf ps"
    and some: "\<And>n p'. map_of ps n = Some p' \<Longrightarrow> \<exists>p. map_of (cm_processors s) n = Some p \<and>
      proc_wf p = proc_wf p' \<and> pr_memUsed p = pr_memUsed p' \<and> pr_running p = pr_running p'"
    and none: "\<And>n. map_of ps n = None \<Longrightarrow> map_of (cm_processors s) n = None"
  shows "comp_inv (s\<lparr>cm_processors := ps\<rparr>)"
proof -
  have "proc_wf p' \<and> unat (pr_memUsed p') = usage mem_in_use n (cm_containers s) \<and>
      pr_running p' = of_nat (usage num_active n (cm_containers s))" if p': "map_of ps n = Some p'" for n p'
  proof -
    obtain p where p: "map_of (cm_processors s) n = Some p" "proc_wf p = proc_wf p'" "pr_memUsed p = pr_memUsed p'"
      "pr_running p = pr_running p'" using some[OF p'] by blast
    have "proc_wf p \<and> unat (pr_memUsed p) = usage mem_in_use n (cm_containers s) \<and>
      pr_running p = of_nat (usage num_active n (cm_containers s))"
      using inv p(1) unfolding comp_inv_def by blast
    then show ?thesis using p by simp
  qed
  moreover have "ctr_wf c \<and> lm_name (cn_lambda c) = l \<and> map_of ps (cn_processor c) \<noteq> None"
    if "map_of (cm_containers s) l = Some c" for l c
    using that inv none unfolding comp_inv_def by blast
  ultimately show ?thesis using inv wf by (simp add: comp_inv_def)
qed

lemma util_step_ok:
  assumes inv: "comp_inv s"
  shows "comp_inv (snd (util_step T s)) \<and> cm_containers (snd (util_step T s)) = cm_containers s"
proof (cases "cm_terminating s")
  case True
  then show ?thesis using inv by (simp add: util_step_def)
next
  case False
  let ?ps = "snd (collect_utils T (cm_processors s))"
  note acc = collect_utils_accounts[of T "cm_processors s"]
  have st: "snd (util_step T s) = s\<lparr>cm_processors := ?ps\<rparr>" using False by (simp add: util_step_def split: prod.split)
  have "comp_inv (s\<lparr>cm_processors := ?ps\<rparr>)"
  proof (rule comp_inv_processors[OF inv])
    show "mwf ?ps" using acc inv by (simp add: comp_inv_def)
    fix n
    note eq = conjunct2[OF acc, THEN spec, of n]
    show "map_of ?ps n = None \<Longrightarrow> map_of (cm_processors s) n = None" using eq by simp
    show "\<exists>p. map_of (cm_processors s) n = Some p \<and> proc_wf p = proc_wf p' \<and> pr_memUsed p = pr_memUsed p' \<and>
      pr_running p = pr_running p'" if "map_of ?ps n = Some p'" for p'
      using eq that by (cases "map_of (cm_processors s) n") simp_all
  qed
  then show ?thesis using st by simp
qed

section \<open>Runs of a computer\<close>

text \<open>
  The states of a computer under any sequence of public operations and iterations of its threads,
  with the identifiers of the tasks accepted and of the tasks completed so far.
\<close>

inductive comp_run :: "computer \<Rightarrow> 64 word multiset \<Rightarrow> 64 word multiset \<Rightarrow> bool" where
  run_new: "computer_new aName True = Inr s \<Longrightarrow> comp_run s {#} {#}"
| run_addProcessor: "comp_run s I D \<Longrightarrow> comp_run (snd (addProcessor aName aType aSpeed aCores aMem s)) I D"
| run_addContainer: "comp_run s I D \<Longrightarrow>
    sum_list (map (\<lambda>(l, c). cn_numWorkers c) (cm_containers s)) + aNumWorkers < 2 ^ 64 \<Longrightarrow>
    comp_run (snd (addContainer aName aProc aLambda aNumWorkers s)) I D"
| run_addTask: "comp_run s I D \<Longrightarrow> 0 \<le> e \<Longrightarrow> addTask W e t r s = (Inr i, s') \<Longrightarrow> comp_run s' (add_mset i I) D"
| run_addTask_error: "comp_run s I D \<Longrightarrow> 0 \<le> e \<Longrightarrow> addTask W e t r s = (Inl x, s') \<Longrightarrow> comp_run s' I D"
| run_dispatcher: "comp_run s I D \<Longrightarrow> 0 \<le> e \<Longrightarrow> dispatcher_step e E s = (Inr (b, out), s') \<Longrightarrow>
    comp_run s' I (D + mset (map fst out))"
| run_util: "comp_run s I D \<Longrightarrow> comp_run (snd (util_step T s)) I D"
| run_terminate: "comp_run s I D \<Longrightarrow> comp_run (s\<lparr>cm_terminating := True\<rparr>) I D"

lemma comp_run_inv: "comp_run s I D \<Longrightarrow> comp_inv s \<and> I = D + ids_of (cm_containers s)"
proof (induction rule: comp_run.induct)
  case (run_new aName s)
  then show ?case by (auto simp: computer_new_def comp_inv_def ids_of_def)
next
  case (run_addProcessor s I D aName aType aSpeed aCores aMem)
  then show ?case using addProcessor_ok[of s aName aType aSpeed aCores aMem] by simp
next
  case (run_addContainer s I D n aName aProc aLambda)
  then show ?case using addContainer_ok[of s n aName aProc aLambda] by simp
next
  case (run_addTask s I D e W t r i s')
  then show ?case using addTask_ok[of s e W t r] by auto
next
  case (run_addTask_error s I D e W t r x s')
  then show ?case using addTask_ok[of s e W t r] by auto
next
  case (run_dispatcher s I D e E b out s')
  show ?case
  proof (cases "cm_terminating s")
    case True
    then show ?thesis using run_dispatcher by (auto simp: dispatcher_step_def)
  next
    case False
    then show ?thesis using run_dispatcher dispatcher_step_ok[of s e E] by (auto simp: add.assoc)
  qed
next
  case (run_util s I D T)
  then show ?case using util_step_ok[of s T] by simp
next
  case (run_terminate s I D)
  then show ?case by simp
qed

section \<open>An example\<close>

text \<open>
  Two lambdas on one processor with 100 bytes: \<open>f\<close> takes 80 bytes and 10 operations, \<open>g\<close> takes 40
  bytes and 5 operations.
\<close>

definition comp_ex :: computer where
  "comp_ex = snd (addContainer ''cg'' ''p'' (lambda_copy ''g'' (fixedRequirements 5 40)) 1
    (snd (addContainer ''cf'' ''p'' (lambda_copy ''f'' (fixedRequirements 10 80)) 1
    (snd (addProcessor ''p'' GenericCpu 1 1 100
      \<lparr>cm_name = ''c'', cm_initDone = False, cm_terminating = False, cm_newTask = False,
       cm_nextId = 0, cm_chrono = False, cm_processors = [], cm_containerNames = [], cm_containers = []\<rparr>)))))"

definition comp_ex1 :: "(exn + 64 word) \<times> computer" where
  "comp_ex1 = addTask wnd_ex 0 0 (client_request ''u'' ''f'' ''x'' []) comp_ex"

lemma comp_ex_run: "comp_run comp_ex {#} {#}"
proof -
  have "computer_new ''c'' True = Inr \<lparr>cm_name = ''c'', cm_initDone = False, cm_terminating = False, cm_newTask = False,
       cm_nextId = 0, cm_chrono = False, cm_processors = [], cm_containerNames = [], cm_containers = []\<rparr>"
    by (simp add: computer_new_def)
  then show ?thesis unfolding comp_ex_def
    by (intro run_addContainer run_addProcessor run_new) 
      (simp_all add: addContainer_def addProcessor_def throwIfInitDone_def processor_new_def container_new_def lambda_copy_def)
qed

definition ctr_ex_f :: "task list \<Rightarrow> ctr" where
  "ctr_ex_f ts = \<lparr>cn_name = ''cf'', cn_processor = ''p'', cn_lambda = lambda_copy ''f'' (fixedRequirements 10 80),
     cn_numWorkers = 1, cn_active = ts, cn_pending = []\<rparr>"

definition ctr_ex_g :: "task list \<Rightarrow> ctr" where
  "ctr_ex_g ts = \<lparr>cn_name = ''cg'', cn_processor = ''p'', cn_lambda = lambda_copy ''g'' (fixedRequirements 5 40),
     cn_numWorkers = 1, cn_active = [], cn_pending = ts\<rparr>"

definition state_ex :: "bool \<Rightarrow> bool \<Rightarrow> bool \<Rightarrow> 64 word \<Rightarrow> processor \<Rightarrow> task list \<Rightarrow> task list \<Rightarrow> computer" where
  "state_ex i t ch n p fs gs = \<lparr>cm_name = ''c'', cm_initDone = i, cm_terminating = False, cm_newTask = t,
     cm_nextId = n, cm_chrono = ch, cm_processors = [(''p'', p)], cm_containerNames = [''cf'', ''cg''],
     cm_containers = [(''f'', ctr_ex_f fs), (''g'', ctr_ex_g gs)]\<rparr>"

lemma state_ex_simps [simp]:
  "(state_ex i t ch n p fs gs)\<lparr>cm_initDone := x\<rparr> = state_ex x t ch n p fs gs"
  "(state_ex i t ch n p fs gs)\<lparr>cm_newTask := x\<rparr> = state_ex i x ch n p fs gs"
  "(state_ex i t ch n p fs gs)\<lparr>cm_chrono := x\<rparr> = state_ex i t x n p fs gs"
  "(state_ex i t ch n p fs gs)\<lparr>cm_nextId := m\<rparr> = state_ex i t ch m p fs gs"
  "cm_chrono (state_ex i t ch n p fs gs) = ch" "cm_nextId (state_ex i t ch n p fs gs) = n"
  "\<not> cm_terminating (state_ex i t ch n p fs gs)"
  "cm_containers (state_ex i t ch n p fs gs) = [(''f'', ctr_ex_f fs), (''g'', ctr_ex_g gs)]"
  by (simp_all add: state_ex_def)

lemma comp_ex_eq: "comp_ex = state_ex False False False 0 proc_ex [] []"
  by (simp add: comp_ex_def addContainer_def addProcessor_def throwIfInitDone_def processor_new_def
      container_new_def lambda_copy_def state_ex_def proc_ex_def ctr_ex_f_def ctr_ex_g_def)

definition task_ex_f :: task where
  "task_ex_f = \<lparr>tk_id = 0, tk_memory = 80, tk_residualOps = 10,
     tk_resp = lambda_execute (lambda_copy ''f'' (fixedRequirements 10 80)) (client_request ''u'' ''f'' ''x'' [])
       (lastUtils wnd_ex proc_ex)\<rparr>"

definition proc_ex1 :: processor where
  "proc_ex1 = proc_ex\<lparr>pr_memUsed := 80, pr_running := 1\<rparr>"

definition task_ex_g :: task where
  "task_ex_g = \<lparr>tk_id = 1, tk_memory = 40, tk_residualOps = 5,
     tk_resp = lambda_execute (lambda_copy ''g'' (fixedRequirements 5 40)) (client_request ''u'' ''g'' ''x'' [])
       (lastUtils wnd_ex proc_ex1)\<rparr>"

definition comp_ex2 :: "(exn + 64 word) \<times> computer" where
  "comp_ex2 = addTask wnd_ex 0 0 (client_request ''u'' ''g'' ''x'' []) (snd comp_ex1)"

lemma push_ex1: "ctr_push wnd_ex 0 (client_request ''u'' ''f'' ''x'' []) 0 (ctr_ex_f [], proc_ex) = Inr (ctr_ex_f [task_ex_f], proc_ex1)"
  by (simp add: ctr_push_def ctr_requirements_def Let_def ctr_ex_f_def proc_ex_def proc_ex1_def task_ex_f_def
      lambda_copy_def fixedRequirements_def memAvailable_def allocate_def addBusy_def makeActive_def)

lemma push_ex2: "ctr_push wnd_ex 0 (client_request ''u'' ''g'' ''x'' []) 1 (ctr_ex_g [], proc_ex1) = Inr (ctr_ex_g [task_ex_g], proc_ex1)"
  by (simp add: ctr_push_def ctr_requirements_def Let_def ctr_ex_g_def proc_ex_def proc_ex1_def task_ex_g_def
      lambda_copy_def fixedRequirements_def memAvailable_def)

lemma advance_ex: "ctr_advance 0 proc_ex1 (ctr_ex_f [task_ex_f]) = Inr (ctr_ex_f [task_ex_f])"
  "ctr_advance 0 proc_ex1 (ctr_ex_g gs) = Inr (ctr_ex_g gs)"
  by (simp_all add: ctr_advance_def ctr_ex_f_def ctr_ex_g_def task_ex_f_def timeToOps_def to_u64_def Let_def)

lemma lookup_ex [simp]:
  "lookup_ctr ''f'' (state_ex i t ch n p fs gs) = Some (ctr_ex_f fs, p)"
  "lookup_ctr ''g'' (state_ex i t ch n p fs gs) = Some (ctr_ex_g gs, p)"
  by (simp_all add: lookup_ctr_def state_ex_def) (simp_all add: ctr_ex_f_def ctr_ex_g_def)

lemma update_ctr_ex [simp]:
  "update_ctr ''f'' (ctr_ex_f fs', p') (state_ex i t ch n p fs gs) = state_ex i t ch n p' fs' gs"
  "update_ctr ''g'' (ctr_ex_g gs', p') (state_ex i t ch n p fs gs) = state_ex i t ch n p' fs gs'"
  by (simp_all add: update_ctr_def state_ex_def mupd_def) (simp_all add: ctr_ex_f_def ctr_ex_g_def)

lemma active_ex [simp]: "someActive (state_ex i t ch n p fs gs) \<longleftrightarrow> fs \<noteq> []"
  by (simp add: someActive_def) (simp add: ctr_ex_f_def ctr_ex_g_def)

lemma name_ex [simp]: "rq_name (client_request u f x d) = f"
  by (simp add: client_request_def request_new_def)

lemma comp_ex1_eq: "comp_ex1 = (Inr 0, state_ex True True True 1 proc_ex1 [task_ex_f] [])"
  by (simp add: comp_ex1_def comp_ex_eq addTask_def Let_def pause_def on_ctr_def push_ex1 resume_def)

lemma comp_ex2_eq: "comp_ex2 = (Inr 1, state_ex True True True 2 proc_ex1 [task_ex_f] [task_ex_g])"
  by (simp add: comp_ex2_def comp_ex1_eq addTask_def Let_def pause_def on_ctr_def push_ex2 resume_def advance_ex)

lemma comp_ex1_run: "comp_run (snd comp_ex1) {#0#} {#}"
proof -
  have "addTask wnd_ex 0 0 (client_request ''u'' ''f'' ''x'' []) comp_ex = (Inr 0, snd comp_ex1)"
    using comp_ex1_eq by (simp add: comp_ex1_def)
  from run_addTask[OF comp_ex_run _ this] show ?thesis by simp
qed

lemma comp_ex2_run: "comp_run (snd comp_ex2) {#1, 0#} {#}"
proof -
  have "addTask wnd_ex 0 0 (client_request ''u'' ''g'' ''x'' []) (snd comp_ex1) = (Inr 1, snd comp_ex2)"
    using comp_ex2_eq by (simp add: comp_ex2_def)
  from run_addTask[OF comp_ex1_run _ this] show ?thesis by simp
qed

section \<open>Properties\<close>

text \<open>
  C13: Whatever the operations and the iterations of its threads, a computer loses no task and completes none
  twice: the tasks accepted are those completed and those in its containers. The memory in use and the number
  of running tasks of each processor are the totals over the active tasks of its containers and the memory
  never exceeds what the processor has; a container never has more active tasks than workers.
\<close>

theorem computer_conserves_tasks:
  assumes "comp_run s I D"
  shows "I = D + ids_of (cm_containers s) \<and>
    (\<forall>n p. map_of (cm_processors s) n = Some p \<longrightarrow> pr_memUsed p \<le> pr_memTotal p \<and>
       unat (pr_memUsed p) = usage mem_in_use n (cm_containers s) \<and>
       pr_running p = of_nat (usage num_active n (cm_containers s))) \<and>
    (\<forall>l c. map_of (cm_containers s) l = Some c \<longrightarrow> length (cn_active c) \<le> cn_numWorkers c)"
  using comp_run_inv[OF assms] unfolding comp_inv_def proc_wf_def ctr_wf_def by blast

theorem computer_conserves_tasks_witness:
  "{#0#} = {#} + ids_of (cm_containers (snd comp_ex1)) \<and>
   (\<exists>c. map_of (cm_containers (snd comp_ex1)) ''f'' = Some c \<and> map tk_memory (cn_active c) = [80])"
proof -
  have "\<exists>c. map_of (cm_containers (snd comp_ex1)) ''f'' = Some c \<and> map tk_memory (cn_active c) = [80]"
    by (simp add: comp_ex1_eq) (simp add: ctr_ex_f_def task_ex_f_def)
  then show ?thesis using computer_conserves_tasks[OF comp_ex1_run] by blast
qed



text \<open>
  A container that has pending tasks and no active one is never served by the dispatcher: an
  iteration leaves it as it is, even if another container of the same processor has just freed the
  memory that the pending tasks were waiting for.
\<close>

theorem idle_container_not_served:
  assumes "comp_run s I D" and "0 \<le> e" and "map_of (cm_containers s) l = Some c" and "cn_active c = []"
    and "dispatcher_step e E s = (x, s')"
  shows "map_of (cm_containers s') l = Some c"
proof (cases "cm_terminating s")
  case True
  then show ?thesis using assms(3,5) by (simp add: dispatcher_step_def)
next
  case False
  have inv: "comp_inv s" using comp_run_inv[OF assms(1)] by simp
  let ?s = "s\<lparr>cm_newTask := False\<rparr>"
  obtain s1 where s1: "pause e ?s = (Inr (), s1)" using pause_ok[of ?s e] inv assms(2) by auto
  obtain p where p: "lookup_ctr l s = Some (c, p)" using comp_inv_lookup[OF inv assms(3)] by blast
  then have "lookup_ctr l ?s = Some (c, p)" by (simp add: lookup_ctr_def cong: option.case_cong)
  moreover have "ctr_advance e p c = Inr c" using assms(2,4) by (simp add: ctr_advance_def)
  ultimately have m1: "map_of (cm_containers s1) l = Some c"
    using pause_advances[of ?s e l c p s1] inv assms(2) s1 by (auto split: if_splits)
  have nr: "\<not> ready c" using assms(4) by (simp add: ready_def)
  show ?thesis
    using dispatcher_step_ok[OF inv assms(2) False, of E] assms(3,5) s1 m1 nr by (cases "someActive s") auto
qed

theorem idle_container_not_served_witness:
  "\<exists>c x s'. map_of (cm_containers (snd comp_ex2)) ''g'' = Some c \<and> map tk_id (cn_pending c) = [1] \<and>
     dispatcher_step 10 (\<lambda>_ _ _. 0) (snd comp_ex2) = (x, s') \<and> map_of (cm_containers s') ''g'' = Some c"
proof -
  obtain c where c: "map_of (cm_containers (snd comp_ex2)) ''g'' = Some c" "cn_active c = []" "map tk_id (cn_pending c) = [1]"
    by (simp add: comp_ex2_eq) (simp add: ctr_ex_g_def task_ex_g_def)
  obtain x s' where d: "dispatcher_step 10 (\<lambda>_ _ _. 0) (snd comp_ex2) = (x, s')" by fastforce
  show ?thesis using idle_container_not_served[OF comp_ex2_run _ c(1,2) d] c d by auto
qed

end
