(* ===== verification/ClientPool.thy ===== *)
theory ClientPool
  imports Entry "HOL-Library.Multiset"
begin

text \<open>
  The pool of clients through which a lambda processor reaches its destinations,
  \<open>Edge/edgeclientpool.cpp\<close>.

  A descriptor counts the busy clients of a destination and keeps the free ones. \<open>getClient\<close> waits on a
  condition variable: it is a transition that is enabled when its predicate holds. The threads inside
  \<open>operator()\<close> are the multiset of calls in progress, pairs of a destination and a client; a client is
  a number. A call ends with the release of the client, or with an exception of \<open>RunLambda\<close>, which
  destroys the client and skips the release.
\<close>

section \<open>State and operations\<close>

record client_desc =
  cl_free :: "nat list"
  cl_busy :: nat

type_synonym pool = "(string, client_desc) smap"

definition desc_empty :: client_desc where
  "desc_empty = \<lparr>cl_free = [], cl_busy = 0\<rparr>"

text \<open>\<open>thePool[aDestination]\<close> may insert.\<close>

definition pool_desc :: "string \<Rightarrow> pool \<Rightarrow> client_desc" where
  "pool_desc d p = (case map_of p d of None \<Rightarrow> desc_empty | Some c \<Rightarrow> c)"

definition can_get :: "nat \<Rightarrow> string \<Rightarrow> pool \<Rightarrow> bool" where
  "can_get theMaxClients d p \<longleftrightarrow>
     theMaxClients = 0 \<or> cl_free (pool_desc d p) \<noteq> [] \<or> cl_busy (pool_desc d p) < theMaxClients"

text \<open>
  The client obtained: the first free one, or a new one; the factory that creates it may throw, after
  the counter was increased.
\<close>

definition getClient :: "string \<Rightarrow> exn + nat \<Rightarrow> pool \<Rightarrow> (exn + nat) \<times> pool" where
  "getClient d mk p =
     (let c = pool_desc d p
      in case cl_free c of
           [] \<Rightarrow> (mk, mput d (c\<lparr>cl_busy := cl_busy c + 1\<rparr>) p)
         | x # xs \<Rightarrow> (Inr x, mput d (c\<lparr>cl_free := xs, cl_busy := cl_busy c + 1\<rparr>) p))"

definition releaseClient :: "string \<Rightarrow> nat \<Rightarrow> pool \<Rightarrow> pool" where
  "releaseClient d x p =
     (let c = pool_desc d p in mput d (c\<lparr>cl_free := cl_free c @ [x], cl_busy := cl_busy c - 1\<rparr>) p)"

section \<open>Threads\<close>

record pool_sys =
  sy_pool :: pool
  sy_active :: "(string \<times> nat) multiset"

inductive pool_step :: "nat \<Rightarrow> pool_sys \<Rightarrow> pool_sys \<Rightarrow> bool" for theMaxClients where
  ps_get: "can_get theMaxClients d (sy_pool s) \<Longrightarrow> getClient d (Inr n) (sy_pool s) = (Inr x, p) \<Longrightarrow>
    pool_step theMaxClients s (s\<lparr>sy_pool := p, sy_active := add_mset (d, x) (sy_active s)\<rparr>)"
| ps_get_throws: "can_get theMaxClients d (sy_pool s) \<Longrightarrow> getClient d (Inl e) (sy_pool s) = (Inl e, p) \<Longrightarrow>
    pool_step theMaxClients s (s\<lparr>sy_pool := p\<rparr>)"
| ps_return: "(d, x) \<in># sy_active s \<Longrightarrow>
    pool_step theMaxClients s (s\<lparr>sy_pool := releaseClient d x (sy_pool s), sy_active := sy_active s - {#(d, x)#}\<rparr>)"
| ps_throws: "(d, x) \<in># sy_active s \<Longrightarrow>
    pool_step theMaxClients s (s\<lparr>sy_active := sy_active s - {#(d, x)#}\<rparr>)"

definition pool_init :: pool_sys where
  "pool_init = \<lparr>sy_pool = [], sy_active = {#}\<rparr>"

definition active_calls :: "pool_sys \<Rightarrow> string \<Rightarrow> nat" where
  "active_calls s d = size (filter_mset (\<lambda>c. fst c = d) (sy_active s))"

abbreviation busy :: "pool_sys \<Rightarrow> string \<Rightarrow> nat" where
  "busy s d \<equiv> cl_busy (pool_desc d (sy_pool s))"

abbreviation free :: "pool_sys \<Rightarrow> string \<Rightarrow> nat list" where
  "free s d \<equiv> cl_free (pool_desc d (sy_pool s))"

section \<open>Invariant\<close>

text \<open>The counter bounds the calls in progress; with the free clients it stays below the maximum.\<close>

definition pool_inv :: "nat \<Rightarrow> pool_sys \<Rightarrow> bool" where
  "pool_inv m s \<longleftrightarrow> (\<forall>d. active_calls s d \<le> busy s d \<and> (m > 0 \<longrightarrow> busy s d + length (free s d) \<le> m))"

lemma pool_desc_mput: "pool_desc d (mput d' c p) = (if d = d' then c else pool_desc d p)"
  by (simp add: pool_desc_def)

lemma active_add: "active_calls (s\<lparr>sy_pool := p, sy_active := add_mset (d, x) (sy_active s)\<rparr>) e =
    (if e = d then Suc (active_calls s e) else active_calls s e)"
  by (simp add: active_calls_def)

lemma active_remove:
  assumes "(d, x) \<in># sy_active s"
  shows "active_calls s d = Suc (active_calls (s\<lparr>sy_active := sy_active s - {#(d, x)#}\<rparr>) d)"
    and "e \<noteq> d \<Longrightarrow> active_calls (s\<lparr>sy_active := sy_active s - {#(d, x)#}\<rparr>) e = active_calls s e"
proof -
  obtain A where A: "sy_active s = add_mset (d, x) A" using assms by (metis insert_DiffM)
  show "active_calls s d = Suc (active_calls (s\<lparr>sy_active := sy_active s - {#(d, x)#}\<rparr>) d)"
    by (simp add: active_calls_def A)
  show "e \<noteq> d \<Longrightarrow> active_calls (s\<lparr>sy_active := sy_active s - {#(d, x)#}\<rparr>) e = active_calls s e"
    by (simp add: active_calls_def A)
qed

lemma active_pool [simp]: "active_calls (s\<lparr>sy_pool := p\<rparr>) d = active_calls s d"
  "active_calls (s\<lparr>sy_pool := p, sy_active := A\<rparr>) d = active_calls (s\<lparr>sy_active := A\<rparr>) d"
  by (simp_all add: active_calls_def)

text \<open>What each step does to the counters of a destination.\<close>

lemma getClient_effect:
  assumes "getClient d mk p = (r, p')"
  shows "cl_busy (pool_desc e p') = (if e = d then Suc (cl_busy (pool_desc e p)) else cl_busy (pool_desc e p))"
    and "cl_free (pool_desc e p') = (if e = d then tl (cl_free (pool_desc e p)) else cl_free (pool_desc e p))"
  using assms by (auto simp: getClient_def Let_def pool_desc_mput split: list.splits)

lemma releaseClient_effect:
  "cl_busy (pool_desc e (releaseClient d x p)) = (if e = d then cl_busy (pool_desc e p) - 1 else cl_busy (pool_desc e p))"
  "length (cl_free (pool_desc e (releaseClient d x p))) =
     (if e = d then Suc (length (cl_free (pool_desc e p))) else length (cl_free (pool_desc e p)))"
  by (auto simp: releaseClient_def Let_def pool_desc_mput)

lemma get_bound:
  assumes "pool_inv m s" and "can_get m d (sy_pool s)" and "m > 0"
  shows "Suc (busy s d) + length (tl (free s d)) \<le> m"
  using assms by (cases "free s d") (auto simp: pool_inv_def can_get_def dest: spec[of _ d])

lemma pool_step_inv: "pool_step m s s' \<Longrightarrow> pool_inv m s \<Longrightarrow> pool_inv m s'"
proof (induction rule: pool_step.induct)
  case (ps_get d s n x p)
  note g = getClient_effect[OF ps_get(2)]
  show ?case unfolding pool_inv_def
  proof
    fix e
    show "active_calls (s\<lparr>sy_pool := p, sy_active := add_mset (d, x) (sy_active s)\<rparr>) e
          \<le> busy (s\<lparr>sy_pool := p, sy_active := add_mset (d, x) (sy_active s)\<rparr>) e \<and>
        (m > 0 \<longrightarrow> busy (s\<lparr>sy_pool := p, sy_active := add_mset (d, x) (sy_active s)\<rparr>) e +
          length (free (s\<lparr>sy_pool := p, sy_active := add_mset (d, x) (sy_active s)\<rparr>) e) \<le> m)"
      using get_bound[OF ps_get(3,1)] ps_get(3) unfolding active_add by (simp add: g pool_inv_def)
  qed
next
  case (ps_get_throws d s e p)
  note g = getClient_effect[OF ps_get_throws(2)]
  show ?case using get_bound[OF ps_get_throws(3,1)] ps_get_throws(3)
    by (auto simp: g pool_inv_def intro: le_SucI)
next
  case (ps_return d x s)
  note r = active_remove[OF ps_return(1)]
  have "1 \<le> busy s d" using r(1) ps_return(2) by (auto simp: pool_inv_def dest: spec[of _ d])
  moreover have "active_calls s e \<le> busy s e" "m > 0 \<Longrightarrow> busy s e + length (free s e) \<le> m" for e
    using ps_return(2) by (auto simp: pool_inv_def)
  moreover from this(1)[of d] have "Suc (active_calls (s\<lparr>sy_active := sy_active s - {#(d, x)#}\<rparr>) d) \<le> busy s d"
    unfolding r(1) .
  then have "active_calls (s\<lparr>sy_active := sy_active s - {#(d, x)#}\<rparr>) d \<le> busy s d - 1" by linarith
  ultimately show ?case unfolding pool_inv_def using r(2)
    by (intro allI) (simp add: releaseClient_effect)
next
  case (ps_throws d x s)
  note r = active_remove[OF ps_throws(1)]
  have "active_calls (s\<lparr>sy_active := sy_active s - {#(d, x)#}\<rparr>) e \<le> active_calls s e" for e
    using r by (cases "e = d") auto
  then show ?case using ps_throws(2) unfolding pool_inv_def by (auto intro: order_trans)
qed

lemma pool_init_inv: "pool_inv m pool_init"
  by (simp add: pool_inv_def pool_init_def active_calls_def pool_desc_def desc_empty_def)

lemma pool_reach_inv: "(pool_step m)\<^sup>*\<^sup>* pool_init s \<Longrightarrow> pool_inv m s"
  by (induction rule: rtranclp_induct) (auto intro: pool_step_inv pool_init_inv)

section \<open>A destination whose counter is exhausted\<close>

definition exhausted :: "nat \<Rightarrow> string \<Rightarrow> pool_sys \<Rightarrow> bool" where
  "exhausted m d s \<longleftrightarrow> m > 0 \<and> busy s d = m \<and> free s d = [] \<and> active_calls s d = 0"

lemma exhausted_blocks: "exhausted m d s \<Longrightarrow> \<not> can_get m d (sy_pool s)"
  by (simp add: exhausted_def can_get_def)

lemma active_zero: "active_calls s d = 0 \<Longrightarrow> (d, x) \<notin># sy_active s"
  by (auto simp: active_calls_def dest: multi_member_split)

lemma exhausted_step: "pool_step m s s' \<Longrightarrow> exhausted m d s \<Longrightarrow> exhausted m d s'"
proof (induction rule: pool_step.induct)
  case (ps_get d' s n x p)
  then have "d' \<noteq> d" using exhausted_blocks by blast
  then show ?case using ps_get(3) getClient_effect[OF ps_get(2), of d] unfolding exhausted_def active_add by simp
next
  case (ps_get_throws d' s e p)
  then have "d' \<noteq> d" using exhausted_blocks by blast
  then show ?case using ps_get_throws(3) getClient_effect[OF ps_get_throws(2), of d] by (simp add: exhausted_def)
next
  case (ps_return d' x s)
  then have "d' \<noteq> d" using active_zero by (auto simp: exhausted_def)
  then show ?case using ps_return releaseClient_effect[of d d' x "sy_pool s"] active_remove(2)[OF ps_return(1), of d]
    by (simp add: exhausted_def)
next
  case (ps_throws d' x s)
  then have "d' \<noteq> d" using active_zero by (auto simp: exhausted_def)
  then show ?case using ps_throws active_remove(2)[OF ps_throws(1), of d] by (simp add: exhausted_def)
qed

lemma exhausted_forever: "(pool_step m)\<^sup>*\<^sup>* s s' \<Longrightarrow> exhausted m d s \<Longrightarrow> exhausted m d s'"
  by (induction rule: rtranclp_induct) (auto intro: exhausted_step)

text \<open>A call that throws: the counter grows by one and nothing else is left.\<close>

lemma failed_call:
  assumes "can_get m d (sy_pool s)" and "free s d = []" and "sy_active s = {#}"
  shows "\<exists>s'. (pool_step m)\<^sup>*\<^sup>* s s' \<and> busy s' d = Suc (busy s d) \<and> free s' d = [] \<and> sy_active s' = {#}"
proof -
  obtain p where g: "getClient d (Inr 0) (sy_pool s) = (Inr 0, p)" using assms(2) by (simp add: getClient_def Let_def)
  let ?s1 = "s\<lparr>sy_pool := p, sy_active := add_mset (d, 0) (sy_active s)\<rparr>"
  let ?s2 = "?s1\<lparr>sy_active := sy_active ?s1 - {#(d, 0)#}\<rparr>"
  have "pool_step m s ?s1" by (rule ps_get[OF assms(1) g])
  moreover have "pool_step m ?s1 ?s2" by (rule ps_throws) simp
  ultimately have "(pool_step m)\<^sup>*\<^sup>* s ?s2" by (blast intro: rtranclp.rtrancl_into_rtrancl)
  moreover have "busy ?s2 d = Suc (busy s d)" "free ?s2 d = []" "sy_active ?s2 = {#}"
    using getClient_effect[OF g, of d] assms(2,3) by simp_all
  ultimately show ?thesis by blast
qed

lemma failed_calls:
  "k \<le> m \<Longrightarrow> \<exists>s. (pool_step m)\<^sup>*\<^sup>* pool_init s \<and> busy s d = k \<and> free s d = [] \<and> sy_active s = {#}"
proof (induction k)
  case 0
  show ?case by (rule exI[of _ pool_init]) (simp add: pool_init_def pool_desc_def desc_empty_def)
next
  case (Suc k)
  then obtain s where s: "(pool_step m)\<^sup>*\<^sup>* pool_init s" "busy s d = k" "free s d = []" "sy_active s = {#}" by auto
  have "can_get m d (sy_pool s)" using s(2) Suc.prems by (simp add: can_get_def)
  from failed_call[OF this s(3,4)] obtain s' where "(pool_step m)\<^sup>*\<^sup>* s s'" "busy s' d = Suc (busy s d)"
    "free s' d = []" "sy_active s' = {#}" by blast
  moreover from this s(1) have "(pool_step m)\<^sup>*\<^sup>* pool_init s'" by (meson rtranclp_trans)
  ultimately show ?case using s(2) by blast
qed

section \<open>Properties\<close>

text \<open>
  C20: With a maximum number of clients, no interleaving of the threads ever has more calls in progress
  to one destination than the maximum.
\<close>

theorem pool_bounds_concurrent_calls:
  assumes "(pool_step theMaxClients)\<^sup>*\<^sup>* pool_init s" and "theMaxClients > 0"
  shows "active_calls s d \<le> theMaxClients"
  using pool_reach_inv[OF assms(1)] assms(2) by (auto simp: pool_inv_def dest: spec[of _ d])

theorem pool_bounds_concurrent_calls_witness:
  "\<exists>s. (pool_step 2)\<^sup>*\<^sup>* pool_init s \<and> active_calls s ''d'' = 1 \<and> active_calls s ''d'' \<le> 2"
proof -
  let ?s = "pool_init\<lparr>sy_pool := snd (getClient ''d'' (Inr 4) []), sy_active := add_mset (''d'', 4) (sy_active pool_init)\<rparr>"
  have g: "can_get 2 ''d'' (sy_pool pool_init)" "getClient ''d'' (Inr 4) (sy_pool pool_init) = (Inr 4, snd (getClient ''d'' (Inr 4) []))"
    by (simp_all add: pool_init_def can_get_def getClient_def pool_desc_def desc_empty_def Let_def)
  have "pool_step 2 pool_init ?s" by (rule ps_get[OF g])
  then have r: "(pool_step 2)\<^sup>*\<^sup>* pool_init ?s" by blast
  moreover have "active_calls ?s ''d'' = 1" by (simp add: active_calls_def pool_init_def)
  ultimately show ?thesis using pool_bounds_concurrent_calls[OF r, of "''d''"] by auto
qed

text \<open>
  A call that ends with an exception does not give its slot back. After as many failed calls as
  the maximum number of clients, with no call in progress any more, every later request for a client of that
  destination waits for ever, whatever the other threads do.
\<close>

theorem pool_failed_calls_block_destination:
  assumes "theMaxClients > 0"
  shows "\<exists>s. (pool_step theMaxClients)\<^sup>*\<^sup>* pool_init s \<and> sy_active s = {#} \<and>
    (\<forall>s'. (pool_step theMaxClients)\<^sup>*\<^sup>* s s' \<longrightarrow> \<not> can_get theMaxClients d (sy_pool s'))"
proof -
  obtain s where s: "(pool_step theMaxClients)\<^sup>*\<^sup>* pool_init s" "busy s d = theMaxClients" "free s d = []" "sy_active s = {#}"
    using failed_calls[of theMaxClients theMaxClients d] by auto
  then have "exhausted theMaxClients d s" using assms by (simp add: exhausted_def active_calls_def)
  then show ?thesis using s exhausted_forever exhausted_blocks by blast
qed

theorem pool_failed_calls_block_destination_witness:
  "\<exists>s. (pool_step 2)\<^sup>*\<^sup>* pool_init s \<and> sy_active s = {#} \<and>
    (\<forall>s'. (pool_step 2)\<^sup>*\<^sup>* s s' \<longrightarrow> \<not> can_get 2 ''10.0.0.1:6473'' (sy_pool s'))"
  by (rule pool_failed_calls_block_destination) simp

end
