(* ===== verification/SimClient.thy ===== *)
theory SimClient
  imports StateStore
begin

text \<open>
  The clients that drive the experiments, \<open>Simulation/client.cpp\<close>: the settings of a client, its
  states, and the three ways in which it runs an application: one invocation (\<open>singleExecution\<close>), a chain
  of functions that the client invokes one after the other (\<open>functionChain\<close>), and a graph of functions
  that it invokes from one thread each (\<open>functionDag\<close>, in \<open>SimClientDag\<close>).

  The edge client, an implementation of \<open>EdgeClientInterface\<close>, is the parameter \<open>rl\<close>: it answers a
  request, or throws, and changes the world; the state servers are part of the world since the edge
  computers use them. The unique identifiers of the requests are the parameter \<open>uuids\<close>, and the time
  measured by a chronometer is an argument of the operation that reads it.
\<close>

section \<open>State\<close>

record saver_line =
  sl_latency :: real
  sl_load1 :: "16 word"
  sl_responder :: string
  sl_name :: string
  sl_hops :: "32 word"

record sim_client =
  sc_stopFlag :: bool
  sc_finishedFlag :: bool
  sc_notStartedFlag :: bool
  sc_numRequests :: nat
  sc_lambda :: string
  sc_saved :: "saver_line list"
  sc_latencyStat :: "real list"
  sc_processingStat :: "real list"
  sc_dry :: bool
  sc_sendRequestQueue :: "nat option"
  sc_lastStates :: "(string, state) smap"
  sc_invalidStates :: bool
  sc_sizeDist :: "(nat \<times> nat) option"
  sc_sizes :: "nat list"
  sc_chain :: "chain option"
  sc_dag :: "dag option"
  sc_stateSizes :: "(string, nat) smap"
  sc_callback :: string
  sc_content :: string
  sc_stateEndpoint :: string

text \<open>The queue holds a number of equal tokens, or is closed.\<close>

type_synonym 'w client_world = "'w \<times> state_world"
type_synonym 'w edge_client = "request \<Rightarrow> bool \<Rightarrow> 'w client_world \<Rightarrow> (exn + response) \<times> 'w client_world"

definition client_new :: "nat \<Rightarrow> string \<Rightarrow> bool \<Rightarrow> sim_client" where
  "client_new aNumRequests aLambda aDry =
     \<lparr>sc_stopFlag = False, sc_finishedFlag = False, sc_notStartedFlag = True, sc_numRequests = aNumRequests,
      sc_lambda = aLambda, sc_saved = [], sc_latencyStat = [], sc_processingStat = [], sc_dry = aDry,
      sc_sendRequestQueue = Some 0, sc_lastStates = [], sc_invalidStates = False, sc_sizeDist = None,
      sc_sizes = [], sc_chain = None, sc_dag = None, sc_stateSizes = [], sc_callback = [], sc_content = [],
      sc_stateEndpoint = []\<rparr>"

section \<open>Settings\<close>

definition setContent :: "string \<Rightarrow> sim_client \<Rightarrow> sim_client" where
  "setContent aContent c = c\<lparr>sc_content := aContent\<rparr>"

definition setChain :: "chain \<Rightarrow> (string, nat) smap \<Rightarrow> sim_client \<Rightarrow> (exn + unit) \<times> sim_client" where
  "setChain aChain sizes c =
     (if sc_lambda c \<noteq> []
      then (Inl (RuntimeError ''cannot set chain info on a client operating in single function execution mode''), c)
      else (Inr (), c\<lparr>sc_dag := None, sc_chain := Some aChain, sc_stateSizes := sizes, sc_invalidStates := True\<rparr>))"

definition setDag :: "dag \<Rightarrow> (string, nat) smap \<Rightarrow> sim_client \<Rightarrow> (exn + unit) \<times> sim_client" where
  "setDag aDag sizes c =
     (if sc_lambda c \<noteq> []
      then (Inl (RuntimeError ''cannot set DAG info on a client operating in single function execution mode''), c)
      else (Inr (), c\<lparr>sc_chain := None, sc_dag := Some aDag, sc_stateSizes := sizes, sc_invalidStates := True\<rparr>))"

definition setCallback :: "string \<Rightarrow> sim_client \<Rightarrow> (exn + unit) \<times> sim_client" where
  "setCallback cb c =
     (if cb = [] then (Inl (RuntimeError ''cannot set an empty callback endpoint''), c)
      else (Inr (), c\<lparr>sc_callback := cb\<rparr>))"

definition setStateServer :: "string \<Rightarrow> sim_client \<Rightarrow> sim_client" where
  "setStateServer ep c = c\<lparr>sc_stateEndpoint := ep, sc_invalidStates := True\<rparr>"

definition setSizeDist_range :: "nat \<Rightarrow> nat \<Rightarrow> sim_client \<Rightarrow> sim_client" where
  "setSizeDist_range lo hi c = c\<lparr>sc_sizeDist := Some (lo, hi), sc_sizes := []\<rparr>"

definition setSizeDist_sizes :: "nat list \<Rightarrow> sim_client \<Rightarrow> (exn + unit) \<times> sim_client" where
  "setSizeDist_sizes sizes c =
     (if sizes = [] then (Inl (RuntimeError ''Cannot draw sizes from an empty set''), c)
      else (Inr (), c\<lparr>sc_sizeDist := Some (0, length sizes - 1), sc_sizes := sizes\<rparr>))"

text \<open>The random variable gives a value between its bounds, both included.\<close>

definition nextSize :: "(nat \<Rightarrow> nat \<Rightarrow> nat) \<Rightarrow> sim_client \<Rightarrow> exn + nat" where
  "nextSize rv c = (case sc_sizeDist c of
       None \<Rightarrow> Inl (RuntimeError ''The lambda request size r.v. is uninitialized'')
     | Some (lo, hi) \<Rightarrow> let v = rv lo hi
         in if sc_sizes c = [] then Inr v
            else if v < length (sc_sizes c) then Inr (sc_sizes c ! v)
            else Inl (RuntimeError ''vector::at''))"

section \<open>States of the application\<close>

definition validate_state :: "(nat \<Rightarrow> bool) \<Rightarrow> string \<times> nat \<Rightarrow> sim_client \<times> 'w client_world \<Rightarrow>
    (exn + unit) \<times> sim_client \<times> 'w client_world" where
  "validate_state net x s = (case x of (name, sz) \<Rightarrow> case s of (c, w, sw) \<Rightarrow>
     let content = replicate sz CHR ''A''; ep = sc_stateEndpoint c;
         st = (if ep = [] then fromContent content else fromLocation ep);
         c = c\<lparr>sc_lastStates := memplace name st (sc_lastStates c)\<rparr>
     in if ep = [] then (Inr (), c, w, sw)
        else case client_Put net ep name content sw of (r, sw) \<Rightarrow> (r, c, w, sw))"

definition validateStates :: "(nat \<Rightarrow> bool) \<Rightarrow> sim_client \<times> 'w client_world \<Rightarrow> (exn + unit) \<times> sim_client \<times> 'w client_world" where
  "validateStates net s =
     (if \<not> sc_invalidStates (fst s) then (Inr (), s)
      else sbind (sfor (sc_stateSizes (fst s)) (validate_state net) ((fst s)\<lparr>sc_lastStates := []\<rparr>, snd s))
             (\<lambda>_ s. (Inr (), (fst s)\<lparr>sc_invalidStates := False\<rparr>, snd s)))"

definition NoState :: exn where
  "NoState = Undefined ''assertion it != theLastStates.end()''"

text \<open>The states of a request are copied from the last ones; those of a response replace them.\<close>

fun fill_states :: "(string, state) smap \<Rightarrow> string list \<Rightarrow> request \<Rightarrow> exn + request" where
  "fill_states lst [] q = Inr q"
| "fill_states lst (s # ss) q = (case map_of lst s of None \<Rightarrow> Inl NoState
     | Some v \<Rightarrow> fill_states lst ss (q\<lparr>rq_states := memplace s v (rq_states q)\<rparr>))"

fun save_states :: "(string \<times> state) list \<Rightarrow> (string, state) smap \<Rightarrow> exn + (string, state) smap" where
  "save_states [] lst = Inr lst"
| "save_states ((s, v) # xs) lst = (case map_of lst s of None \<Rightarrow> Inl NoState
     | Some _ \<Rightarrow> save_states xs (mput s v lst))"

section \<open>One invocation\<close>

definition entry_name :: "sim_client \<Rightarrow> exn + string" where
  "entry_name c = (case sc_chain c of Some ch \<Rightarrow> chain_entryFunctionName ch
     | None \<Rightarrow> (case sc_dag c of Some d \<Rightarrow> Inr (dag_entryFunctionName d) | None \<Rightarrow> Inr (sc_lambda c)))"

definition app_states :: "sim_client \<Rightarrow> dependencies" where
  "app_states c = (case sc_chain c of Some ch \<Rightarrow> chainStates ch
     | None \<Rightarrow> (case sc_dag c of Some d \<Rightarrow> dagStates d | None \<Rightarrow> []))"

definition single_request :: "string \<Rightarrow> string \<Rightarrow> string \<Rightarrow> sim_client \<Rightarrow> exn + request" where
  "single_request uuid name aInput c =
     rbind (fill_states (sc_lastStates c) (allStates (app_states c) False) (client_request uuid name aInput [])) (\<lambda>q.
     Inr (q\<lparr>rq_chain := sc_chain c, rq_dag := (if sc_chain c = None then sc_dag c else None),
            rq_nextFunctionIndex := 0, rq_callback := sc_callback c\<rparr>))"

definition singleExecution :: "(nat \<Rightarrow> bool) \<Rightarrow> 'w edge_client \<Rightarrow> string \<Rightarrow> string \<Rightarrow> sim_client \<times> 'w client_world \<Rightarrow>
    (exn + response) \<times> sim_client \<times> 'w client_world" where
  "singleExecution net rl uuid aInput s =
     (let c = fst s; app = (sc_chain c \<noteq> None \<or> sc_dag c \<noteq> None)
      in if sc_lambda c = [] \<and> sc_callback c = []
         then (Inl (Undefined ''assertion not theLambda.empty() or not theCallback.empty()''), s)
         else if app \<and> sc_callback c = [] then (Inl (RuntimeError ''uninitialized callback end-point''), s)
         else case entry_name c of Inl e \<Rightarrow> (Inl e, s)
         | Inr name \<Rightarrow> sbind (if app then validateStates net s else (Inr (), s)) (\<lambda>_ (c, W).
             case single_request uuid name aInput c of Inl e \<Rightarrow> (Inl e, c, W)
             | Inr q \<Rightarrow> (case rl q (sc_dry c) W of (r, W) \<Rightarrow> (r, c, W))))"

section \<open>A chain of invocations\<close>

definition chain_request :: "string \<Rightarrow> chain \<Rightarrow> (string, state) smap \<Rightarrow> string \<Rightarrow> string \<Rightarrow> string \<Rightarrow> exn + request" where
  "chain_request uuid ch lst f inp din =
     rbind (fill_states lst (states_of (chainStates ch) f) (client_request uuid f inp din)) (\<lambda>q.
     rbind (singleFunctionChain ch f) (\<lambda>ch1. Inr (q\<lparr>rq_chain := Some ch1\<rparr>)))"

fun chain_loop :: "'w edge_client \<Rightarrow> (nat \<Rightarrow> string) \<Rightarrow> chain \<Rightarrow> nat \<Rightarrow> string list \<Rightarrow> string \<Rightarrow> string \<Rightarrow> response option \<Rightarrow>
    32 word \<Rightarrow> 32 word \<Rightarrow> sim_client \<times> 'w client_world \<Rightarrow>
    (exn + response option \<times> 32 word \<times> 32 word) \<times> sim_client \<times> 'w client_world" where
  "chain_loop rl uuids ch k [] inp din resp hops ptime s = (Inr (resp, hops, ptime), s)"
| "chain_loop rl uuids ch k (f # fs) inp din resp hops ptime (c, W) =
     (case chain_request (uuids k) ch (sc_lastStates c) f inp din of
        Inl e \<Rightarrow> (Inl e, c, W)
      | Inr q \<Rightarrow> (case rl q (sc_dry c) W of
          (Inl e, W) \<Rightarrow> (Inl e, c, W)
        | (Inr r, W) \<Rightarrow>
            if rs_retCode r \<noteq> ''OK'' then (Inr (Some r, hops, ptime), c, W)
            else (case save_states (rs_states r) (sc_lastStates c) of
                Inl e \<Rightarrow> (Inl e, c, W)
              | Inr lst \<Rightarrow> chain_loop rl uuids ch (Suc k) fs (rs_output r) (rs_dataOut r) (Some r)
                  (hops + rs_hops r) (ptime + rs_processingTime r) (c\<lparr>sc_lastStates := lst\<rparr>, W))))"

definition chain_response :: "chain \<Rightarrow> (string, state) smap \<Rightarrow> response \<Rightarrow> 32 word \<Rightarrow> 32 word \<Rightarrow> response" where
  "chain_response ch lst r hops ptime =
     (let r = r\<lparr>rs_states := lst\<rparr>
      in if length (theFunctions ch) > 1
         then r\<lparr>rs_responder := [], rs_load1 := 0, rs_load10 := 0, rs_load30 := 0, rs_hops := hops, rs_processingTime := ptime\<rparr>
         else r)"

definition functionChain :: "(nat \<Rightarrow> bool) \<Rightarrow> 'w edge_client \<Rightarrow> (nat \<Rightarrow> string) \<Rightarrow> string \<Rightarrow> sim_client \<times> 'w client_world \<Rightarrow>
    (exn + response) \<times> sim_client \<times> 'w client_world" where
  "functionChain net rl uuids aInput s = (let c = fst s in
     if sc_lambda c \<noteq> [] then (Inl (Undefined ''assertion theLambda.empty()''), s)
     else if sc_callback c \<noteq> [] then (Inl (Undefined ''assertion theCallback.empty()''), s)
     else case sc_chain c of None \<Rightarrow> (Inl (Undefined ''assertion theChain.get() != nullptr''), s)
     | Some ch \<Rightarrow>
         sbind (validateStates net s) (\<lambda>_ s.
         sbind (chain_loop rl uuids ch 0 (theFunctions ch) aInput [] None 0 0 s) (\<lambda>(resp, hops, ptime) (c, W).
         case resp of None \<Rightarrow> (Inl (Undefined ''null myResp''), c, W)
         | Some r \<Rightarrow> (Inr (chain_response ch (sc_lastStates c) r hops ptime), c, W))))"

section \<open>Statistics and the main loop\<close>

definition processingTimeSeconds :: "response \<Rightarrow> real" where
  "processingTimeSeconds r = real (unat (rs_processingTime r)) * (1 / 1000)"

definition queue_push :: "sim_client \<Rightarrow> sim_client" where
  "queue_push c = c\<lparr>sc_sendRequestQueue := map_option Suc (sc_sendRequestQueue c)\<rparr>"

text \<open>The name of a chain or graph is the list of its functions; \<open>join\<close> is \<open>toString\<close> of the support library.\<close>

definition recordStat :: "(string list \<Rightarrow> string) \<Rightarrow> real \<Rightarrow> response \<Rightarrow> sim_client \<Rightarrow> (exn + unit) \<times> sim_client" where
  "recordStat join elapsed r c =
     (case save_states (rs_states r) (sc_lastStates c) of Inl e \<Rightarrow> (Inl e, c) | Inr lst \<Rightarrow>
       (let c = c\<lparr>sc_lastStates := lst\<rparr>;
            name = (case sc_chain c of Some ch \<Rightarrow> join (theFunctions ch)
                    | None \<Rightarrow> (case sc_dag c of Some d \<Rightarrow> join (theFunctionNames d) | None \<Rightarrow> sc_lambda c));
            line = \<lparr>sl_latency = (if sc_dry c then processingTimeSeconds r else elapsed), sl_load1 = rs_load1 r,
                    sl_responder = rs_responder r, sl_name = name, sl_hops = rs_hops r\<rparr>
        in (Inr (), queue_push (if rs_retCode r = ''OK''
             then c\<lparr>sc_saved := sc_saved c @ [line], sc_latencyStat := sc_latencyStat c @ [elapsed],
                    sc_processingStat := sc_processingStat c @ [processingTimeSeconds r]\<rparr>
             else c))))"

definition request_content :: "nat \<Rightarrow> sim_client \<Rightarrow> string" where
  "request_content aSize c =
     (let mySize = (if aSize < 12 then 0 else aSize - 12)
      in if sc_content c = [] then CHR ''{'' # CHR 0x22 # ''input'' @ [CHR 0x22, CHR '':'', CHR 0x22] @ replicate mySize CHR ''A'' @ [CHR 0x22, CHR ''}'']
         else sc_content c)"

text \<open>
  Sending a request, up to the point where the client waits for the token that \<open>recordStat\<close> pushes; for an
  asynchronous response it is pushed when the callback server receives the final response. The execution
  of a graph is the parameter \<open>run_dag\<close>.
\<close>

definition sendRequest :: "(string list \<Rightarrow> string) \<Rightarrow> (nat \<Rightarrow> bool) \<Rightarrow> 'w edge_client \<Rightarrow> (nat \<Rightarrow> string) \<Rightarrow>
    (string \<Rightarrow> sim_client \<times> 'w client_world \<Rightarrow> (exn + response) \<times> sim_client \<times> 'w client_world) \<Rightarrow>
    real \<Rightarrow> nat \<Rightarrow> sim_client \<times> 'w client_world \<Rightarrow> (exn + unit) \<times> sim_client \<times> 'w client_world" where
  "sendRequest join net rl uuids run_dag elapsed aSize s =
     (let c = fst s; content = request_content aSize c
      in sbind (if sc_chain c \<noteq> None \<and> sc_callback c = [] then functionChain net rl uuids content s
                else if sc_dag c \<noteq> None \<and> sc_callback c = [] then run_dag content s
                else singleExecution net rl (uuids 0) content s)
           (\<lambda>r (c, W). if \<not> rs_asynchronous r
              then (case recordStat join elapsed r c of (x, c) \<Rightarrow> (x, c, W))
              else (Inr (), c, W)))"

text \<open>The token: none if the client would wait, an exception if the queue is closed.\<close>

definition wait_token :: "sim_client \<Rightarrow> ((exn + unit) \<times> sim_client) option" where
  "wait_token c = (case sc_sendRequestQueue c of
       None \<Rightarrow> Some (Inl (RuntimeError ''queue closed''), c)
     | Some 0 \<Rightarrow> None
     | Some (Suc n) \<Rightarrow> Some (Inr (), c\<lparr>sc_sendRequestQueue := Some n\<rparr>))"

definition client_finish :: "sim_client \<Rightarrow> sim_client" where
  "client_finish c = c\<lparr>sc_finishedFlag := True\<rparr>"

text \<open>
  The body of \<open>operator()\<close>; \<open>stopped\<close> tells whether \<open>stop\<close> was called before an iteration. The
  loop of a derived class may send nothing, so that this one may never end.
\<close>

partial_function (option) client_loop :: "('s \<Rightarrow> (exn + nat) \<times> 's) \<Rightarrow> (nat \<Rightarrow> bool) \<Rightarrow> nat \<Rightarrow> nat \<Rightarrow> nat \<Rightarrow> 's \<Rightarrow> ((exn + nat) \<times> 's) option" where
  "client_loop loop stopped num k counter s =
     (if counter \<ge> num \<or> stopped k then Some (Inr counter, s)
      else case loop s of (Inl e, s) \<Rightarrow> Some (Inl e, s)
        | (Inr n, s) \<Rightarrow> client_loop loop stopped num (Suc k) (counter + n) s)"

definition client_start :: "sim_client \<Rightarrow> (exn + unit) \<times> sim_client" where
  "client_start c = (if \<not> sc_notStartedFlag c then (Inl (RuntimeError ''client started multiple times''), c)
     else (Inr (), c\<lparr>sc_notStartedFlag := False\<rparr>))"

text \<open>Whether \<open>stop\<close> returns at once is the left component: it waits for the end of a client that was started.\<close>

definition client_stop :: "sim_client \<Rightarrow> bool \<times> sim_client" where
  "client_stop c = (if sc_notStartedFlag c then (True, c)
     else (sc_finishedFlag c, c\<lparr>sc_sendRequestQueue := None, sc_stopFlag := True\<rparr>))"

section \<open>The chain is a pipeline\<close>

text \<open>
  An edge client that never throws and whose answers depend on the history of the requests, which it keeps:
  any behaviour of the edge system as one client sees it. \<open>answers\<close> are its answers to a list of requests.
\<close>

definition logging :: "(request list \<Rightarrow> request \<Rightarrow> response) \<Rightarrow> request list edge_client" where
  "logging ans q dry W = (Inr (ans (fst W) q), fst W @ [q], snd W)"

fun answers :: "(request list \<Rightarrow> request \<Rightarrow> response) \<Rightarrow> request list \<Rightarrow> request list \<Rightarrow> response list" where
  "answers ans lg [] = []"
| "answers ans lg (q # qs) = ans lg q # answers ans (lg @ [q]) qs"

abbreviation ok_response :: "response \<Rightarrow> bool" where
  "ok_response r \<equiv> rs_retCode r = ''OK''"

definition states_after :: "(string \<rightharpoonup> state) \<Rightarrow> response list \<Rightarrow> string \<rightharpoonup> state" where
  "states_after m rs = foldl (\<lambda>m r. m ++ map_of (rs_states r)) m rs"

text \<open>
  What the requests of a chain have to be: the functions in order, up to the first that fails, each with
  the output of the one before as its input, and with the states it depends on as the functions before it
  left them.
\<close>

definition piped :: "chain \<Rightarrow> string list \<Rightarrow> string \<Rightarrow> string \<Rightarrow> (string \<rightharpoonup> state) \<Rightarrow> request list \<Rightarrow> response list \<Rightarrow> bool" where
  "piped ch fs inp din m qs rs \<longleftrightarrow> length rs = length qs \<and> length qs \<le> length fs \<and>
     (\<forall>k<length qs. rq_name (qs ! k) = fs ! k \<and>
        rq_input (qs ! k) = (if k = 0 then inp else rs_output (rs ! (k - 1))) \<and>
        rq_dataIn (qs ! k) = (if k = 0 then din else rs_dataOut (rs ! (k - 1))) \<and>
        map_of (rq_states (qs ! k)) = states_after m (take k rs) |` set (states_of (chainStates ch) (fs ! k)) \<and>
        (Suc k < length qs \<longrightarrow> ok_response (rs ! k))) \<and>
     (length qs < length fs \<longrightarrow> rs \<noteq> [] \<and> \<not> ok_response (last rs))"

lemma logging_eq: "logging ans q dry (lg, sw) = (Inr (ans lg q), lg @ [q], sw)"
  by (simp add: logging_def)

lemma length_answers [simp]: "length (answers ans lg qs) = length qs"
  by (induction qs arbitrary: lg) simp_all

lemma fill_states_ok:
  assumes "set ss \<subseteq> dom (map_of ls)" and "dom (map_of (rq_states q)) \<inter> set ss = {}" and "distinct ss"
  shows "\<exists>st. fill_states ls ss q = Inr (q\<lparr>rq_states := st\<rparr>) \<and> map_of st = map_of (rq_states q) ++ (map_of ls |` set ss)"
  using assms
proof (induction ss arbitrary: q)
  case Nil
  then show ?case by (intro exI[of _ "rq_states q"]) simp
next
  case (Cons s ss)
  obtain v where v: "map_of ls s = Some v" using Cons.prems(1) by auto
  have n: "map_of (rq_states q) s = None" using Cons.prems(2) by auto
  let ?q = "q\<lparr>rq_states := memplace s v (rq_states q)\<rparr>"
  have m: "map_of (rq_states ?q) = (map_of (rq_states q))(s \<mapsto> v)" by (simp add: map_of_memplace n)
  have "dom (map_of (rq_states ?q)) \<inter> set ss = {}" unfolding m using Cons.prems(2,3) by auto
  then obtain st where st: "fill_states ls ss ?q = Inr (?q\<lparr>rq_states := st\<rparr>)"
    "map_of st = (map_of (rq_states q))(s \<mapsto> v) ++ (map_of ls |` set ss)"
    using Cons.IH[of ?q] Cons.prems(1,3) m by auto
  have "(map_of (rq_states q))(s \<mapsto> v) ++ (map_of ls |` set ss) = map_of (rq_states q) ++ (map_of ls |` set (s # ss))"
    using v n Cons.prems(3) by (auto simp: fun_eq_iff map_add_def restrict_map_def split: option.split)
  then show ?case using st v by (intro exI[of _ st]) simp
qed

lemma save_states_ok:
  assumes "fst ` set xs \<subseteq> dom (map_of ls)" and "distinct (map fst xs)"
  shows "\<exists>ls'. save_states xs ls = Inr ls' \<and> map_of ls' = map_of ls ++ map_of xs"
  using assms
proof (induction xs arbitrary: ls)
  case (Cons x xs)
  obtain s v where x: "x = (s, v)" by (cases x)
  obtain u where "map_of ls s = Some u" using Cons.prems(1) x by auto
  moreover have "fst ` set xs \<subseteq> dom (map_of (mput s v ls))" using Cons.prems(1) x by auto
  note IH = Cons.IH[OF this]
  obtain ls' where "save_states xs (mput s v ls) = Inr ls'" "map_of ls' = (map_of ls)(s \<mapsto> v) ++ map_of xs"
    using IH Cons.prems(2) x by (auto simp del: fun_upd_apply)
  moreover have "(map_of ls)(s \<mapsto> v) ++ map_of xs = map_of ls ++ map_of ((s, v) # xs)"
    using Cons.prems(2) x by (simp add: map_add_upd_left dom_map_of_conv_image_fst)
  ultimately show ?case using x by (auto simp del: fun_upd_apply)
qed simp

lemma swf_states_of: "swf (states_of ds f)"
proof -
  have "swf acc \<Longrightarrow> swf (foldl (\<lambda>ret (s, fs). if f \<in> set fs then sinsert s ret else ret) acc ds)" for acc
    by (induction ds arbitrary: acc) auto
  then show ?thesis by (simp add: states_of_def)
qed

lemma chain_request_ok:
  assumes "set (states_of (chainStates ch) f) \<subseteq> dom (map_of ls)"
  obtains q where "chain_request u ch ls f inp din = Inr q" "rq_name q = f" "rq_input q = inp" "rq_dataIn q = din"
    "map_of (rq_states q) = map_of ls |` set (states_of (chainStates ch) f)"
proof -
  let ?q = "client_request u f inp din"
  have e: "rq_states ?q = []" by (simp add: client_request_def request_new_def)
  obtain st where st: "fill_states ls (states_of (chainStates ch) f) ?q = Inr (?q\<lparr>rq_states := st\<rparr>)"
    "map_of st = map_of ls |` set (states_of (chainStates ch) f)"
    using fill_states_ok[OF assms(1), of ?q] e swf_states_of[of "chainStates ch" f]
    by (auto simp: strict_sorted_iff)
  then show thesis
    using that[of "?q\<lparr>rq_states := st, rq_chain := Some \<lparr>theFunctions = [f], chainStates = deps_of (chainStates ch) f\<rparr>\<rparr>"]
    by (simp add: chain_request_def singleFunctionChain_ok client_request_def request_new_def)
qed

lemma states_after_simps:
  "states_after m [] = m" "states_after m (r # rs) = states_after (m ++ map_of (rs_states r)) rs"
  by (simp_all add: states_after_def)

lemma piped_Cons:
  assumes "piped ch fs (rs_output r) (rs_dataOut r) (m ++ map_of (rs_states r)) qs rs" and "ok_response r"
    and "rq_name q = f" "rq_input q = inp" "rq_dataIn q = din" "map_of (rq_states q) = m |` set (states_of (chainStates ch) f)"
  shows "piped ch (f # fs) inp din m (q # qs) (r # rs)"
proof -
  have p: "length rs = length qs" "length qs \<le> length fs"
    "k < length qs \<Longrightarrow> rq_name (qs ! k) = fs ! k \<and>
        rq_input (qs ! k) = (if k = 0 then rs_output r else rs_output (rs ! (k - 1))) \<and>
        rq_dataIn (qs ! k) = (if k = 0 then rs_dataOut r else rs_dataOut (rs ! (k - 1))) \<and>
        map_of (rq_states (qs ! k)) = states_after (m ++ map_of (rs_states r)) (take k rs) |` set (states_of (chainStates ch) (fs ! k)) \<and>
        (Suc k < length qs \<longrightarrow> ok_response (rs ! k))"
    "length qs < length fs \<Longrightarrow> rs \<noteq> [] \<and> \<not> ok_response (last rs)" for k
    using assms(1) unfolding piped_def by auto
  show ?thesis unfolding piped_def
  proof (intro conjI allI impI)
    fix k assume k: "k < length (q # qs)"
    note P = p(3)[of "k - 1"]
    show "rq_name ((q # qs) ! k) = (f # fs) ! k" using P k assms(3) by (cases k) auto
    show "rq_input ((q # qs) ! k) = (if k = 0 then inp else rs_output ((r # rs) ! (k - 1)))"
      using P k assms(4) by (cases k) (auto simp: nth_Cons')
    show "rq_dataIn ((q # qs) ! k) = (if k = 0 then din else rs_dataOut ((r # rs) ! (k - 1)))"
      using P k assms(5) by (cases k) (auto simp: nth_Cons')
    show "map_of (rq_states ((q # qs) ! k)) = states_after m (take k (r # rs)) |` set (states_of (chainStates ch) ((f # fs) ! k))"
      using P k assms(6) by (cases k) (auto simp: states_after_simps)
    show "ok_response ((r # rs) ! k)" if "Suc k < length (q # qs)" using P that assms(2) by (cases k) auto
  qed (use p in auto)
qed

abbreviation sum_ok :: "(response \<Rightarrow> 32 word) \<Rightarrow> response list \<Rightarrow> 32 word" where
  "sum_ok g rs \<equiv> sum_list (map g (filter ok_response rs))"

text \<open>The loop, from any point.\<close>

lemma chain_loop_pipeline:
  assumes "\<forall>f\<in>set fs. set (states_of (chainStates ch) f) \<subseteq> dom (map_of (sc_lastStates c))"
    and "\<forall>lg q. distinct (map fst (rs_states (ans lg q))) \<and> fst ` set (rs_states (ans lg q)) \<subseteq> dom (map_of (sc_lastStates c))"
  shows "\<exists>qs ls. chain_loop (logging ans) uuids ch k fs inp din resp hops ptime (c, lg, sw) =
      (let rs = answers ans lg qs
       in (Inr (if rs = [] then resp else Some (last rs), hops + sum_ok rs_hops rs, ptime + sum_ok rs_processingTime rs),
           c\<lparr>sc_lastStates := ls\<rparr>, lg @ qs, sw)) \<and>
    piped ch fs inp din (map_of (sc_lastStates c)) qs (answers ans lg qs) \<and>
    map_of ls = states_after (map_of (sc_lastStates c)) (filter ok_response (answers ans lg qs))"
  using assms
proof (induction fs arbitrary: k inp din resp hops ptime c lg)
  case Nil
  then show ?case
    by (intro exI[of _ "[]"] exI[of _ "sc_lastStates c"]) (simp add: piped_def states_after_def)
next
  case (Cons f fs)
  obtain q where q: "chain_request (uuids k) ch (sc_lastStates c) f inp din = Inr q" "rq_name q = f" "rq_input q = inp" "rq_dataIn q = din"
    "map_of (rq_states q) = map_of (sc_lastStates c) |` set (states_of (chainStates ch) f)"
    using chain_request_ok[of ch f "sc_lastStates c" "uuids k" inp din] Cons.prems(1) by auto
  let ?r = "ans lg q"
  show ?case
  proof (cases "ok_response ?r")
    case False
    then have "piped ch (f # fs) inp din (map_of (sc_lastStates c)) [q] [?r]"
      using q by (simp add: piped_def states_after_def)
    then show ?thesis using False q
      by (intro exI[of _ "[q]"] exI[of _ "sc_lastStates c"]) (simp add: logging_eq states_after_def)
  next
    case True
    obtain ls where ls: "save_states (rs_states ?r) (sc_lastStates c) = Inr ls" "map_of ls = map_of (sc_lastStates c) ++ map_of (rs_states ?r)"
      using save_states_ok[of "rs_states ?r" "sc_lastStates c"] Cons.prems(2) by auto
    let ?c = "c\<lparr>sc_lastStates := ls\<rparr>"
    have d: "dom (map_of (sc_lastStates c)) \<subseteq> dom (map_of (sc_lastStates ?c))" using ls(2) by auto
    obtain qs ls' where IH: "chain_loop (logging ans) uuids ch (Suc k) fs (rs_output ?r) (rs_dataOut ?r) (Some ?r)
          (hops + rs_hops ?r) (ptime + rs_processingTime ?r) (?c, lg @ [q], sw) =
        (let rs = answers ans (lg @ [q]) qs
         in (Inr (if rs = [] then Some ?r else Some (last rs), hops + rs_hops ?r + sum_ok rs_hops rs,
               ptime + rs_processingTime ?r + sum_ok rs_processingTime rs), ?c\<lparr>sc_lastStates := ls'\<rparr>, (lg @ [q]) @ qs, sw))"
      "piped ch fs (rs_output ?r) (rs_dataOut ?r) (map_of (sc_lastStates ?c)) qs (answers ans (lg @ [q]) qs)"
      "map_of ls' = states_after (map_of (sc_lastStates ?c)) (filter ok_response (answers ans (lg @ [q]) qs))"
      using Cons.IH[of ?c "Suc k" "rs_output ?r" "rs_dataOut ?r" "Some ?r" "hops + rs_hops ?r" "ptime + rs_processingTime ?r" "lg @ [q]"]
        Cons.prems d by (meson list.set_intros(2) subset_trans)
    have p: "piped ch (f # fs) inp din (map_of (sc_lastStates c)) (q # qs) (?r # answers ans (lg @ [q]) qs)"
      by (rule piped_Cons) (use IH(2) ls(2) q True in simp_all)
    show ?thesis
      using IH(3) p q True ls IH(1)[unfolded Let_def]
      by (intro exI[of _ "q # qs"] exI[of _ ls']) (simp add: logging_eq Let_def states_after_simps add.assoc)
  qed
qed

text \<open>The initial states.\<close>

definition initial_states :: "string \<Rightarrow> (string, nat) smap \<Rightarrow> string \<rightharpoonup> state" where
  "initial_states ep sizes = (\<lambda>s. map_option (\<lambda>n. if ep = [] then fromContent (replicate n CHR ''A'') else fromLocation ep) (map_of sizes s))"

lemma validate_loop:
  assumes "sc_stateEndpoint c = [] \<or> (\<forall>n. net n)" and "distinct (map fst xs)"
    and "fst ` set xs \<inter> dom (map_of (sc_lastStates c)) = {}"
  shows "\<exists>ls sw'. sfor xs (validate_state net) (c, w, sw) = (Inr (), c\<lparr>sc_lastStates := ls\<rparr>, w, sw') \<and>
    map_of ls = map_of (sc_lastStates c) ++ initial_states (sc_stateEndpoint c) xs"
  using assms
proof (induction xs arbitrary: c sw)
  case Nil
  then show ?case by (intro exI[of _ "sc_lastStates c"] exI[of _ sw]) (simp add: initial_states_def map_add_def)
next
  case (Cons x xs)
  obtain s n where x: "x = (s, n)" by (cases x)
  let ?v = "if sc_stateEndpoint c = [] then fromContent (replicate n CHR ''A'') else fromLocation (sc_stateEndpoint c)"
  let ?c = "c\<lparr>sc_lastStates := memplace s ?v (sc_lastStates c)\<rparr>"
  have new: "map_of (sc_lastStates c) s = None" using Cons.prems(3) x by auto
  have m: "map_of (sc_lastStates ?c) = (map_of (sc_lastStates c))(s \<mapsto> ?v)" by (simp add: map_of_memplace new)
  obtain sw1 where step: "validate_state net x (c, w, sw) = (Inr (), ?c, w, sw1)"
    using Cons.prems(1) x by (cases "sc_stateEndpoint c = []")
      (auto simp: validate_state_def client_Put_def srv_Put_def Let_def)
  have d: "fst ` set xs \<inter> dom (map_of (sc_lastStates ?c)) = {}" unfolding m using Cons.prems(2,3) x by auto
  obtain ls sw' where ls: "sfor xs (validate_state net) (?c, w, sw1) = (Inr (), ?c\<lparr>sc_lastStates := ls\<rparr>, w, sw')"
    "map_of ls = map_of (sc_lastStates ?c) ++ initial_states (sc_stateEndpoint ?c) xs"
    using Cons.IH[of ?c sw1] Cons.prems(1,2) d by auto
  have "s \<notin> fst ` set xs" using Cons.prems(2) x by simp
  then have "map_of xs s = None" by (simp add: map_of_eq_None_iff)
  then have "map_of ls = map_of (sc_lastStates c) ++ initial_states (sc_stateEndpoint c) (x # xs)"
    unfolding ls(2) m using x by (auto simp: initial_states_def map_add_def fun_eq_iff split: option.split)
  then show ?case using step ls(1) by (intro exI[of _ ls] exI[of _ sw']) simp
qed

text \<open>
  C4: a client in chain mode whose calls are all answered, with answers that name only states of the
  application, always ends a chain: it invoked the functions in order and once each up to the first that
  fails, every one with the output of the one before and with the states that the functions before it
  returned; it returns the code and the output of the last function invoked, the latest states, and for a
  chain of several functions the hops and the processing time summed over the functions that succeeded.
\<close>

theorem client_chain_pipeline:
  assumes "chain_make fns ds = Inr ch" and "fns \<noteq> []" and "setChain ch sizes c0 = (Inr (), c)" and "mwf sizes"
    and "sc_callback c0 = []" and "sc_stateEndpoint c0 = [] \<or> (\<forall>n. net n)"
    and "\<forall>(s, fs)\<in>set ds. fs \<noteq> [] \<longrightarrow> s \<in> fst ` set sizes"
    and "\<And>lg q. mwf (rs_states (ans lg q)) \<and> fst ` set (rs_states (ans lg q)) \<subseteq> fst ` set sizes"
  shows "\<exists>resp c' qs sw'. functionChain net (logging ans) uuids inp (c, [], sw) = (Inr resp, c', qs, sw') \<and>
    (let rs = answers ans [] qs; init = initial_states (sc_stateEndpoint c0) sizes
     in piped ch fns inp [] init qs rs \<and> rs_retCode resp = rs_retCode (last rs) \<and> rs_output resp = rs_output (last rs) \<and>
        map_of (rs_states resp) = states_after init (filter ok_response rs) \<and>
        (1 < length fns \<longrightarrow> rs_hops resp = sum_ok rs_hops rs \<and> rs_processingTime resp = sum_ok rs_processingTime rs))"
proof -
  have ch: "theFunctions ch = fns" "chainStates ch = ds" using assms(1) by (auto simp: chain_make_def rbind_eq_Inr)
  have lam: "sc_lambda c0 = []" and c: "c = c0\<lparr>sc_dag := None, sc_chain := Some ch, sc_stateSizes := sizes, sc_invalidStates := True\<rparr>"
    using assms(3) by (auto simp: setChain_def split: if_splits)
  obtain ls sw1 where ls: "sfor sizes (validate_state net) (c\<lparr>sc_lastStates := []\<rparr>, [] :: request list, sw) = (Inr (), c\<lparr>sc_lastStates := ls\<rparr>, [], sw1)"
    "map_of ls = initial_states (sc_stateEndpoint c0) sizes"
    using validate_loop[of "c\<lparr>sc_lastStates := []\<rparr>" net sizes "[]" sw] assms(4,6) c by (auto simp: strict_sorted_iff)
  let ?c = "c\<lparr>sc_lastStates := ls, sc_invalidStates := False\<rparr>"
  have v: "validateStates net (c, [] :: request list, sw) = (Inr (), ?c, [], sw1)"
    using ls(1) by (simp add: validateStates_def c)
  have dom: "dom (map_of (sc_lastStates ?c)) = fst ` set sizes"
    by (simp add: ls(2) initial_states_def set_eq_iff domIff in_fst_set_iff)
  have st: "\<forall>f\<in>set fns. set (states_of (chainStates ch) f) \<subseteq> dom (map_of (sc_lastStates ?c))"
    unfolding dom ch using assms(7) by (fastforce simp: set_states_of)
  have kn: "\<forall>lg q. distinct (map fst (rs_states (ans lg q))) \<and> fst ` set (rs_states (ans lg q)) \<subseteq> dom (map_of (sc_lastStates ?c))"
    unfolding dom using assms(8) by (simp add: strict_sorted_iff)
  obtain qs ls' where L: "chain_loop (logging ans) uuids ch 0 fns inp [] None 0 0 (?c, [], sw1) =
      (let rs = answers ans [] qs
       in (Inr (if rs = [] then None else Some (last rs), sum_ok rs_hops rs, sum_ok rs_processingTime rs),
           ?c\<lparr>sc_lastStates := ls'\<rparr>, qs, sw1))"
    "piped ch fns inp [] (map_of (sc_lastStates ?c)) qs (answers ans [] qs)"
    "map_of ls' = states_after (map_of (sc_lastStates ?c)) (filter ok_response (answers ans [] qs))"
    using chain_loop_pipeline[OF st kn, where k = 0 and inp = inp and din = "[]" and resp = None and hops = 0 and ptime = 0 and lg = "[]" and sw = sw1 and uuids = uuids] by auto
  have ne: "answers ans [] qs \<noteq> []" using L(2) assms(2) by (cases qs) (auto simp: piped_def)
  have "functionChain net (logging ans) uuids inp (c, [], sw) =
      (Inr (chain_response ch ls' (last (answers ans [] qs)) (sum_ok rs_hops (answers ans [] qs)) (sum_ok rs_processingTime (answers ans [] qs))),
       ?c\<lparr>sc_lastStates := ls'\<rparr>, qs, sw1)"
    using v L(1) ne lam assms(5) by (simp add: functionChain_def c ch Let_def)
  then show ?thesis
    using L(2,3) ls(2) by (auto simp: Let_def chain_response_def ch)
qed

text \<open>A chain of two functions, the second of which gets the output of the first.\<close>

definition ans_ex :: "request list \<Rightarrow> request \<Rightarrow> response" where
  "ans_ex lg q = (response_sync ''OK'' (rq_input q @ ''!''))\<lparr>rs_hops := 1\<rparr>"

theorem client_chain_pipeline_witness:
  "\<exists>c resp c' qs. setChain \<lparr>theFunctions = [''f'', ''g''], chainStates = [(''s'', [''g''])]\<rparr> [(''s'', 3)] (client_new 1 [] False) = (Inr (), c) \<and>
    functionChain (\<lambda>_. False) (logging ans_ex) (\<lambda>_. []) ''x'' (c, [], \<lparr>sw_repo = \<lambda>_. [], sw_calls = 0\<rparr>) = (Inr resp, c', qs, \<lparr>sw_repo = \<lambda>_. [], sw_calls = 0\<rparr>) \<and>
    map rq_name qs = [''f'', ''g''] \<and> rs_output resp = ''x!!'' \<and> rs_hops resp = 2 \<and>
    map_of (rs_states resp) = initial_states [] [(''s'', 3)]"
proof -
  let ?ch = "\<lparr>theFunctions = [''f'', ''g''], chainStates = [(''s'', [''g''])]\<rparr>"
  have mk: "chain_make [''f'', ''g''] [(''s'', [''g''])] = Inr ?ch" by code_simp
  let ?c = "(client_new 1 [] False)\<lparr>sc_dag := None, sc_chain := Some ?ch, sc_stateSizes := [(''s'', 3)], sc_invalidStates := True\<rparr>"
  have set: "setChain ?ch [(''s'', 3)] (client_new 1 [] False) = (Inr (), ?c)" by (simp add: setChain_def client_new_def)
  have st: "rs_states (ans_ex lg q) = []" "rs_retCode (ans_ex lg q) = ''OK''" "rs_hops (ans_ex lg q) = 1"
    "rs_output (ans_ex lg q) = rq_input q @ ''!''" for lg q
    by (simp_all add: ans_ex_def response_sync_def response_new_def)
  obtain resp c' qs sw' where R: "functionChain (\<lambda>_. False) (logging ans_ex) (\<lambda>_. []) ''x'' (?c, [], \<lparr>sw_repo = \<lambda>_. [], sw_calls = 0\<rparr>) = (Inr resp, c', qs, sw')"
    "piped ?ch [''f'', ''g''] ''x'' [] (initial_states [] [(''s'', 3)]) qs (answers ans_ex [] qs)"
    "rs_output resp = rs_output (last (answers ans_ex [] qs))"
    "map_of (rs_states resp) = states_after (initial_states [] [(''s'', 3)]) (filter ok_response (answers ans_ex [] qs))"
    "rs_hops resp = sum_ok rs_hops (answers ans_ex [] qs)"
    using client_chain_pipeline[OF mk _ set, of "\<lambda>_. False" ans_ex "\<lambda>_. []" "''x''" "\<lparr>sw_repo = \<lambda>_. [], sw_calls = 0\<rparr>"] st
    by (auto simp: client_new_def Let_def)
  have okall: "r \<in> set (answers ans_ex lg qs) \<Longrightarrow> ok_response r \<and> rs_hops r = 1 \<and> rs_states r = []" for r lg
    by (induction qs arbitrary: lg) (auto simp: st)
  have len: "length qs = 2"
  proof (rule ccontr)
    assume "length qs \<noteq> 2"
    then have "answers ans_ex [] qs \<noteq> [] \<and> \<not> ok_response (last (answers ans_ex [] qs))"
      using R(2) by (auto simp: piped_def)
    then show False using okall[of "last (answers ans_ex [] qs)"] last_in_set by blast
  qed
  then obtain q0 q1 where qs: "qs = [q0, q1]" by (auto simp: length_Suc_conv numeral_2_eq_2)
  have P: "rq_name q0 = ''f''" "rq_name q1 = ''g''" "rq_input q0 = ''x''" "rq_input q1 = ''x!''"
    using R(2) by (auto simp: piped_def qs st All_less_Suc)
  have run: "sw' = \<lparr>sw_repo = \<lambda>_. [], sw_calls = 0\<rparr>"
    using R(1) by (auto simp: functionChain_def validateStates_def validate_state_def client_new_def chain_loop.simps
      logging_eq chain_request_def singleFunctionChain_ok states_of_def fromContent_def st memplace_def client_request_def request_new_def)
  show ?thesis
    using set R(1,3,4,5) P by (auto simp: run qs st states_after_simps)
qed

end
