(* ===== verification/SimClientDag.thy ===== *)
theory SimClientDag
  imports SimClient
begin

text \<open>
  \<open>Client::functionDag\<close> of \<open>Simulation/client.cpp\<close>: the main thread starts a thread for every
  function that can be called, and waits on a queue for the functions that have completed. A run is any
  interleaving of the steps of the threads. Starting the threads for the functions that are callable is one
  step, since it reads nothing that another thread writes; so are the two additions to the counters with the
  push that follows, since the counters are read after all the threads have joined. The response to an
  invocation is arbitrary; an exception of the edge client, which no handler of the thread catches, ends the
  program.
\<close>

section \<open>Model\<close>

datatype stage = Started | Replied response | Reported response | Ended response

datatype dag_pc = Calling | Waiting | Joining "exn + unit" | Returned "exn + response" | Terminated

record dag_call =
  dc_completed :: "nat sset"
  dc_called :: "nat sset"
  dc_queue :: "int list"
  dc_threads :: "nat \<rightharpoonup> stage"
  dc_hops :: "32 word"
  dc_ptime :: "32 word"
  dc_pc :: dag_pc
  dc_log :: "nat list"

definition dag_call_init :: dag_call where
  "dag_call_init = \<lparr>dc_completed = [], dc_called = [], dc_queue = [], dc_threads = Map.empty, dc_hops = 0,
     dc_ptime = 0, dc_pc = Calling, dc_log = []\<rparr>"

definition dag_request :: "(nat \<Rightarrow> string) \<Rightarrow> dag \<Rightarrow> (string, state) smap \<Rightarrow> nat \<Rightarrow> string \<Rightarrow> exn + request" where
  "dag_request uuids d ls i aInput =
     (let f = toName d i
      in rbind (fill_states ls (states_of (dagStates d) f) (client_request (uuids i) f aInput [])) (\<lambda>q.
         rbind (singleFunctionDag d f) (\<lambda>d1. Inr (q\<lparr>rq_dag := Some d1\<rparr>))))"

definition dag_error :: exn where
  "dag_error = RuntimeError ''Error received while executing a function in a DAG''"

definition dag_response :: "(string, state) smap \<Rightarrow> string \<Rightarrow> dag_call \<Rightarrow> response" where
  "dag_response ls aInput s =
     (response_sync ''OK'' aInput)\<lparr>rs_states := ls, rs_hops := dc_hops s, rs_processingTime := dc_ptime s\<rparr>"

text \<open>The functions for which a thread is started.\<close>

definition to_call :: "nat sset \<Rightarrow> dag_call \<Rightarrow> nat list" where
  "to_call is s = filter (\<lambda>i. i \<notin> set (dc_called s)) is"

definition start_threads :: "nat list \<Rightarrow> dag_call \<Rightarrow> dag_call" where
  "start_threads new s = s\<lparr>dc_called := foldl (\<lambda>c i. sinsert i c) (dc_called s) new,
     dc_threads := dc_threads s ++ map_of (map (\<lambda>i. (i, Started)) new), dc_log := dc_log s @ new, dc_pc := Waiting\<rparr>"

inductive dag_step :: "nat \<Rightarrow> (nat \<Rightarrow> string) \<Rightarrow> dag \<Rightarrow> (string, state) smap \<Rightarrow> string \<Rightarrow> dag_call \<Rightarrow> dag_call \<Rightarrow> bool"
  for n uuids d ls aInput where
  call: "\<lbrakk>dc_pc s = Calling; length (dc_completed s) \<noteq> numFunctions d; callable n d (dc_completed s) = Some is\<rbrakk> \<Longrightarrow>
    dag_step n uuids d ls aInput s (start_threads (to_call is s) s)"
| all_completed: "\<lbrakk>dc_pc s = Calling; length (dc_completed s) = numFunctions d\<rbrakk> \<Longrightarrow>
    dag_step n uuids d ls aInput s (s\<lparr>dc_pc := Joining (Inr ())\<rparr>)"
| pop: "\<lbrakk>dc_pc s = Waiting; dc_queue s = x # xs; 0 \<le> x\<rbrakk> \<Longrightarrow>
    dag_step n uuids d ls aInput s (s\<lparr>dc_queue := xs, dc_completed := sinsert (nat x) (dc_completed s), dc_pc := Calling\<rparr>)"
| pop_error: "\<lbrakk>dc_pc s = Waiting; dc_queue s = x # xs; x < 0\<rbrakk> \<Longrightarrow>
    dag_step n uuids d ls aInput s (s\<lparr>dc_queue := xs, dc_pc := Joining (Inl dag_error)\<rparr>)"
| join: "\<lbrakk>dc_pc s = Joining r; \<forall>i\<in>set (dc_called s). \<exists>x. dc_threads s i = Some (Ended x)\<rbrakk> \<Longrightarrow>
    dag_step n uuids d ls aInput s
      (s\<lparr>dc_pc := Returned (case r of Inl e \<Rightarrow> Inl e | Inr _ \<Rightarrow> Inr (dag_response ls aInput s))\<rparr>)"
| reply: "\<lbrakk>dc_threads s i = Some Started; dc_pc s \<noteq> Terminated; dag_request uuids d ls i aInput = Inr q\<rbrakk> \<Longrightarrow>
    dag_step n uuids d ls aInput s (s\<lparr>dc_threads := (dc_threads s)(i \<mapsto> Replied r)\<rparr>)"
| crash: "\<lbrakk>dc_threads s i = Some Started; dc_pc s \<noteq> Terminated\<rbrakk> \<Longrightarrow>
    dag_step n uuids d ls aInput s (s\<lparr>dc_pc := Terminated\<rparr>)"
| report_error: "\<lbrakk>dc_threads s i = Some (Replied r); dc_pc s \<noteq> Terminated; \<not> ok_response r\<rbrakk> \<Longrightarrow>
    dag_step n uuids d ls aInput s (s\<lparr>dc_threads := (dc_threads s)(i \<mapsto> Reported r), dc_queue := dc_queue s @ [- 1]\<rparr>)"
| report: "\<lbrakk>dc_threads s i = Some (Reported r) \<or> dc_threads s i = Some (Replied r) \<and> ok_response r; dc_pc s \<noteq> Terminated\<rbrakk> \<Longrightarrow>
    dag_step n uuids d ls aInput s (s\<lparr>dc_threads := (dc_threads s)(i \<mapsto> Ended r), dc_queue := dc_queue s @ [int i],
      dc_hops := dc_hops s + rs_hops r, dc_ptime := dc_ptime s + rs_processingTime r\<rparr>)"

inductive dag_runs :: "nat \<Rightarrow> (nat \<Rightarrow> string) \<Rightarrow> dag \<Rightarrow> (string, state) smap \<Rightarrow> string \<Rightarrow> nat \<Rightarrow> dag_call \<Rightarrow> bool"
  for n uuids d ls aInput where
  begin_run: "dag_runs n uuids d ls aInput 0 dag_call_init"
| one_more: "\<lbrakk>dag_runs n uuids d ls aInput k s; dag_step n uuids d ls aInput s s'\<rbrakk> \<Longrightarrow> dag_runs n uuids d ls aInput (Suc k) s'"

section \<open>Invariant\<close>

fun stage_steps :: "stage option \<Rightarrow> nat" where
  "stage_steps None = 0"
| "stage_steps (Some Started) = 0"
| "stage_steps (Some (Replied _)) = 1"
| "stage_steps (Some (Reported _)) = 2"
| "stage_steps (Some (Ended _)) = 3"

fun pc_steps :: "dag_pc \<Rightarrow> nat" where
  "pc_steps Calling = 0"
| "pc_steps Waiting = 1"
| "pc_steps (Joining _) = 2"
| "pc_steps (Returned _) = 3"
| "pc_steps Terminated = 4"

text \<open>The outcome of the thread of a function that has pushed its index.\<close>

definition ended_with :: "dag_call \<Rightarrow> nat \<Rightarrow> response \<Rightarrow> bool" where
  "ended_with s i r \<longleftrightarrow> dc_threads s i = Some (Ended r)"

definition failed :: "dag_call \<Rightarrow> nat \<Rightarrow> bool" where
  "failed s i \<longleftrightarrow> (\<exists>r. \<not> ok_response r \<and> (dc_threads s i = Some (Replied r) \<or> dc_threads s i = Some (Reported r) \<or> dc_threads s i = Some (Ended r)))"

definition threads_inv :: "dag \<Rightarrow> dag_call \<Rightarrow> bool" where
  "threads_inv d s \<longleftrightarrow> swf (dc_completed s) \<and> set (dc_called s) = dom (dc_threads s) \<and> distinct (dc_log s) \<and> set (dc_log s) = set (dc_called s) \<and>
     (\<forall>i\<in>set (dc_called s). i < numFunctions d \<and> anc_set d i \<subseteq> set (dc_completed s)) \<and>
     (\<forall>i. i \<in> set (dc_completed s) \<or> int i \<in> set (dc_queue s) \<longleftrightarrow> (\<exists>r. ended_with s i r)) \<and>
     (\<forall>i. count_list (dc_queue s) (int i) + (if i \<in> set (dc_completed s) then 1 else 0) \<le> 1)"

definition queue_inv :: "dag_call \<Rightarrow> bool" where
  "queue_inv s \<longleftrightarrow> set (dc_queue s) \<subseteq> {- 1} \<union> range int \<and>
     (- 1 \<in> set (dc_queue s) \<longrightarrow> (\<exists>i. failed s i)) \<and>
     (dc_pc s \<in> {Calling, Waiting, Joining (Inr ())} \<longrightarrow>
       (\<forall>i r. (dc_threads s i = Some (Reported r) \<longrightarrow> - 1 \<in> set (dc_queue s)) \<and>
              (ended_with s i r \<and> \<not> ok_response r \<longrightarrow> - 1 \<in> set (takeWhile (\<lambda>x. x \<noteq> int i) (dc_queue s)) \<and> i \<notin> set (dc_completed s))))"

definition counts_inv :: "nat \<Rightarrow> dag_call \<Rightarrow> bool" where
  "counts_inv k s \<longleftrightarrow> k \<le> 2 * length (dc_completed s) + pc_steps (dc_pc s) + (\<Sum>i\<leftarrow>dc_log s. stage_steps (dc_threads s i)) \<and>
     dc_hops s = (\<Sum>i\<leftarrow>dc_log s. case dc_threads s i of Some (Ended r) \<Rightarrow> rs_hops r | _ \<Rightarrow> 0) \<and>
     dc_ptime s = (\<Sum>i\<leftarrow>dc_log s. case dc_threads s i of Some (Ended r) \<Rightarrow> rs_processingTime r | _ \<Rightarrow> 0)"

definition pc_inv :: "dag \<Rightarrow> string \<Rightarrow> (string, state) smap \<Rightarrow> dag_call \<Rightarrow> bool" where
  "pc_inv d aInput ls s \<longleftrightarrow>
     (dc_pc s = Waiting \<longrightarrow> (\<exists>i\<in>set (dc_called s). i \<notin> set (dc_completed s))) \<and>
     (\<forall>r. dc_pc s = Joining (Inr r) \<longrightarrow> length (dc_completed s) = numFunctions d) \<and>
     (\<forall>e. dc_pc s = Joining (Inl e) \<or> dc_pc s = Returned (Inl e) \<longrightarrow> e = dag_error \<and> (\<exists>i. failed s i)) \<and>
     (\<forall>resp. dc_pc s = Returned (Inr resp) \<longrightarrow> length (dc_completed s) = numFunctions d \<and> resp = dag_response ls aInput s \<and>
        (\<forall>i r. ended_with s i r \<longrightarrow> ok_response r))"

lemmas dag_step_cases = dag_step.cases[consumes 1, case_names call all_completed pop pop_error join reply crash report_error report]

lemma set_start [simp]: "set (foldl (\<lambda>c i. sinsert i c) c xs) = set c \<union> set xs"
  by (induction xs arbitrary: c) auto

lemma length_sinsert_swf: "length (sinsert x s) = (if x \<in> set s then length s else Suc (length s))" if "swf s"
  using that by (induction s) auto

lemma dom_start [simp]: "dom (map_of (map (\<lambda>i. (i, Started)) xs)) = set xs"
  by (simp add: dom_map_of_conv_image_fst image_image)

lemma map_of_start [simp]: "map_of (map (\<lambda>i. (i, Started)) xs) i = (if i \<in> set xs then Some Started else None)"
  by (induction xs) auto

lemma start_threads_simps [simp]:
  "dc_completed (start_threads xs s) = dc_completed s" "set (dc_called (start_threads xs s)) = set (dc_called s) \<union> set xs"
  "dc_queue (start_threads xs s) = dc_queue s" "dc_hops (start_threads xs s) = dc_hops s" "dc_ptime (start_threads xs s) = dc_ptime s"
  "dc_pc (start_threads xs s) = Waiting" "dc_log (start_threads xs s) = dc_log s @ xs"
  "dc_threads (start_threads xs s) i = (if i \<in> set xs then Some Started else dc_threads s i)"
  "dom (dc_threads (start_threads xs s)) = dom (dc_threads s) \<union> set xs"
  by (auto simp: start_threads_def map_add_def)

lemma callable_to_call:
  assumes "dag_wf d" and "acyclic (edges (theSuccessors d))" and "numFunctions d \<le> n" and "callable n d C = Some is"
  shows "distinct (to_call is s)"
    and "set (to_call is s) = {i. i < numFunctions d \<and> i \<notin> set C \<and> anc_set d i \<subseteq> set C \<and> i \<notin> set (dc_called s)}"
  using callable_acyclic[OF assms(1-3), of C] assms(4)
  by (auto simp: to_call_def strict_sorted_iff)

lemma threads_invD:
  assumes "threads_inv d s"
  shows "swf (dc_completed s)" "set (dc_called s) = dom (dc_threads s)" "distinct (dc_log s)" "set (dc_log s) = set (dc_called s)"
    and "i \<in> set (dc_called s) \<Longrightarrow> i < numFunctions d" "i \<in> set (dc_called s) \<Longrightarrow> anc_set d i \<subseteq> set (dc_completed s)"
    and "i \<in> set (dc_completed s) \<or> int i \<in> set (dc_queue s) \<longleftrightarrow> (\<exists>r. ended_with s i r)"
    and "count_list (dc_queue s) (int i) + (if i \<in> set (dc_completed s) then 1 else 0) \<le> 1"
  using assms unfolding threads_inv_def by (simp_all del: One_nat_def)

lemma threads_inv_step:
  assumes "dag_wf d" and "acyclic (edges (theSuccessors d))" and "numFunctions d \<le> n"
    and "dag_step n uuids d ls aInput s s'" and inv: "threads_inv d s" and q: "set (dc_queue s) \<subseteq> {- 1} \<union> range int"
  shows "threads_inv d s'"
  using assms(4)
proof (cases rule: dag_step_cases)
  case (call "is")
  note w = callable_to_call[OF assms(1-3) call(4), of s]
  have e: "ended_with s' i r = ended_with s i r" for i r
    using inv w(2) unfolding call(1) by (auto simp: ended_with_def threads_inv_def)
  have "\<forall>i\<in>set (dc_called s) \<union> set (to_call is s). i < numFunctions d \<and> anc_set d i \<subseteq> set (dc_completed s)"
  proof
    fix i assume "i \<in> set (dc_called s) \<union> set (to_call is s)"
    then show "i < numFunctions d \<and> anc_set d i \<subseteq> set (dc_completed s)"
      using threads_invD(5,6)[OF inv, of i] unfolding w(2) by (simp only: Un_iff mem_Collect_eq) blast
  qed
  moreover have "set (dc_log s) \<inter> set (to_call is s) = {}" unfolding w(2) threads_invD(4)[OF inv] by auto
  moreover note I = inv[unfolded threads_inv_def]
  ultimately show ?thesis using w(1) unfolding threads_inv_def e unfolding call(1) start_threads_simps
    by (intro conjI) (simp_all only: distinct_append set_append simp_thms)
next
  case (pop x xs)
  then obtain j where j: "x = int j" by (metis nonneg_int_cases)
  have e: "ended_with s' i r = ended_with s i r" for i r unfolding pop(1) by (simp add: ended_with_def)
  have "count_list xs (int i) + (if i \<in> set (sinsert j (dc_completed s)) then 1 else 0) \<le> 1" for i
    using inv pop(3) j unfolding threads_inv_def by (auto split: if_splits dest!: spec[of _ i])
  moreover have "i \<in> set (sinsert j (dc_completed s)) \<or> int i \<in> set xs \<longleftrightarrow> (\<exists>r. ended_with s i r)" for i
    using inv pop(3) j unfolding threads_inv_def by auto
  moreover have "\<forall>i\<in>set (dc_called s). i < numFunctions d \<and> anc_set d i \<subseteq> set (sinsert j (dc_completed s))"
    using threads_invD(5,6)[OF inv] by fastforce
  moreover note threads_invD(1-4)[OF inv]
  moreover have "dc_completed s' = sinsert j (dc_completed s)" "dc_called s' = dc_called s" "dc_queue s' = xs" "dc_threads s' = dc_threads s" "dc_log s' = dc_log s"
    by (simp_all add: pop(1) j)
  ultimately show ?thesis unfolding threads_inv_def e by (intro conjI) (simp_all only: swf_sinsert simp_thms)
next
  case (pop_error x xs)
  have e: "ended_with s' i r = ended_with s i r" for i r unfolding pop_error(1) by (simp add: ended_with_def)
  have "int i \<in> set xs \<longleftrightarrow> int i \<in> set (dc_queue s)" "count_list xs (int i) = count_list (dc_queue s) (int i)" for i
    using pop_error(3,4) by auto
  then show ?thesis using inv unfolding threads_inv_def e unfolding pop_error(1) by simp
next
  case (reply i q r)
  have e: "ended_with s' j x = ended_with s j x" for j x using reply(2) unfolding reply(1) by (simp add: ended_with_def)
  have "dom (dc_threads s') = dom (dc_threads s)" using reply(2) unfolding reply(1) by auto
  then show ?thesis using inv unfolding threads_inv_def e unfolding reply(1) by simp
next
  case (report_error i r)
  have e: "ended_with s' j x = ended_with s j x" for j x using report_error(2) unfolding report_error(1) by (simp add: ended_with_def)
  have "dom (dc_threads s') = dom (dc_threads s)" using report_error(2) unfolding report_error(1) by auto
  then show ?thesis using inv unfolding threads_inv_def e unfolding report_error(1) by simp
next
  case (report i r)
  have n: "\<not> ended_with s i x" for x using report(2) by (auto simp: ended_with_def)
  have e: "(\<exists>x. ended_with s' j x) \<longleftrightarrow> j = i \<or> (\<exists>x. ended_with s j x)" for j
    unfolding report(1) by (simp add: ended_with_def)
  have f: "i \<notin> set (dc_completed s)" "int i \<notin> set (dc_queue s)" using inv n unfolding threads_inv_def by blast+
  then have c: "count_list (dc_queue s) (int i) = 0" by simp
  have "dom (dc_threads s') = dom (dc_threads s)" using report(2) unfolding report(1) by auto
  moreover have "count_list (dc_queue s @ [int i]) (int j) + (if j \<in> set (dc_completed s) then 1 else 0) \<le> 1" for j
    using threads_invD(8)[OF inv, of j] f c by (cases "j = i") auto
  moreover have "j \<in> set (dc_completed s) \<or> int j \<in> set (dc_queue s @ [int i]) \<longleftrightarrow> j = i \<or> (\<exists>x. ended_with s j x)" for j
    using threads_invD(7)[OF inv, of j] by auto
  moreover have "dc_completed s' = dc_completed s" "dc_called s' = dc_called s" "dc_queue s' = dc_queue s @ [int i]" "dc_log s' = dc_log s"
    by (simp_all add: report(1))
  moreover have "\<forall>i\<in>set (dc_called s). i < numFunctions d \<and> anc_set d i \<subseteq> set (dc_completed s)"
    using threads_invD(5,6)[OF inv] by fastforce
  moreover note threads_invD(1-4)[OF inv]
  ultimately show ?thesis unfolding threads_inv_def e by (intro conjI) (simp_all only: simp_thms)
qed (use inv in \<open>auto simp: threads_inv_def ended_with_def\<close>)

lemma takeWhile_snoc: "- 1 \<in> set (takeWhile P q) \<Longrightarrow> - 1 \<in> set (takeWhile P (q @ xs))" for q :: "int list"
  by (induction q) auto

lemma takeWhile_notin: "x \<notin> set q \<Longrightarrow> takeWhile (\<lambda>y. y \<noteq> x) (q @ [x]) = q"
  by (induction q) auto

lemma failed_step:
  assumes "dag_step n uuids d ls aInput s s'" and "threads_inv d s" and "failed s i"
  shows "failed s' i"
  using assms(1)
proof (cases rule: dag_step_cases)
  case (call "is")
  have "i \<in> set (dc_called s)" using assms(3) threads_invD(2)[OF assms(2)] by (auto simp: failed_def)
  then have "i \<notin> set (to_call is s)" by (simp add: to_call_def)
  then show ?thesis using assms(3) by (simp add: call(1) failed_def)
qed (use assms(3) in \<open>auto simp: failed_def\<close>)

lemma queue_invD:
  assumes "queue_inv s"
  shows "set (dc_queue s) \<subseteq> {- 1} \<union> range int" "- 1 \<in> set (dc_queue s) \<Longrightarrow> \<exists>i. failed s i"
    and "dc_pc s \<in> {Calling, Waiting, Joining (Inr ())} \<Longrightarrow> dc_threads s i = Some (Reported r) \<Longrightarrow> - 1 \<in> set (dc_queue s)"
    and "dc_pc s \<in> {Calling, Waiting, Joining (Inr ())} \<Longrightarrow> ended_with s i r \<Longrightarrow> \<not> ok_response r \<Longrightarrow>
      - 1 \<in> set (takeWhile (\<lambda>x. x \<noteq> int i) (dc_queue s)) \<and> i \<notin> set (dc_completed s)"
  using assms unfolding queue_inv_def by blast+

lemma queue_inv_step:
  assumes "dag_step n uuids d ls aInput s s'" and T: "threads_inv d s" and Q: "queue_inv s"
  shows "queue_inv s'"
  using assms(1)
proof (cases rule: dag_step_cases)
  case (call "is")
  have f: "dc_threads s' i = Some (Reported r) \<longleftrightarrow> dc_threads s i = Some (Reported r)" "ended_with s' i r = ended_with s i r" for i r
    using threads_invD(2)[OF T] by (auto simp: call(1) to_call_def ended_with_def)
  have "dc_pc s \<in> {Calling, Waiting, Joining (Inr ())}" by (simp add: call(2))
  moreover have "- 1 \<in> set (dc_queue s) \<Longrightarrow> \<exists>i. failed s' i" using queue_invD(2)[OF Q] failed_step[OF assms(1) T] by blast
  moreover have "dc_queue s' = dc_queue s" "dc_completed s' = dc_completed s" by (simp_all add: call(1))
  ultimately show ?thesis
    using queue_invD(1,3,4)[OF Q] unfolding queue_inv_def f by (metis (no_types, lifting))
next
  case (all_completed)
  have "dc_pc s \<in> {Calling, Waiting, Joining (Inr ())}" by (simp add: all_completed(2))
  then show ?thesis using queue_invD[OF Q] unfolding all_completed(1) queue_inv_def ended_with_def failed_def by simp
next
  case (pop x xs)
  then obtain j where j: "x = int j" by (metis nonneg_int_cases)
  have pc: "dc_pc s \<in> {Calling, Waiting, Joining (Inr ())}" by (simp add: pop(2))
  have "- 1 \<in> set xs \<longleftrightarrow> - 1 \<in> set (dc_queue s)" by (simp add: pop(3) j)
  moreover have "- 1 \<in> set (takeWhile (\<lambda>x. x \<noteq> int i) xs) \<and> i \<notin> set (sinsert j (dc_completed s))"
    if "ended_with s i r" "\<not> ok_response r" for i r
    using queue_invD(4)[OF Q pc that] unfolding pop(3) j by (auto split: if_splits)
  ultimately show ?thesis
    using queue_invD[OF Q] pc j unfolding pop(1) queue_inv_def ended_with_def failed_def pop(3) by simp
next
  case (reply i q r)
  have f: "- 1 \<in> set (dc_queue s) \<Longrightarrow> \<exists>i. failed s' i" using queue_invD(2)[OF Q] failed_step[OF assms(1) T] by blast
  show ?thesis using queue_invD(1,3,4)[OF Q] f reply(2)
    unfolding queue_inv_def ended_with_def unfolding reply(1) by (auto split: if_splits)
next
  case (report_error i r)
  have f: "failed s' i" using report_error(4) by (auto simp: failed_def report_error(1))
  have "- 1 \<in> set (takeWhile (\<lambda>x. x \<noteq> int j) (dc_queue s @ [- 1])) \<and> j \<notin> set (dc_completed s)"
    if "ended_with s' j x" "\<not> ok_response x" "dc_pc s \<in> {Calling, Waiting, Joining (Inr ())}" for j x
    using queue_invD(4)[OF Q that(3) _ that(2), of j] that(1) takeWhile_snoc
    by (auto simp: ended_with_def report_error(1) split: if_splits)
  moreover have "dc_queue s' = dc_queue s @ [- 1]" "dc_completed s' = dc_completed s" "dc_pc s' = dc_pc s" by (simp_all add: report_error(1))
  ultimately show ?thesis using queue_invD(1)[OF Q] f unfolding queue_inv_def by auto
next
  case (report i r)
  have n: "\<not> ended_with s i x" for x using report(2) by (auto simp: ended_with_def)
  then have nq: "int i \<notin> set (dc_queue s)" "i \<notin> set (dc_completed s)" using threads_invD(7)[OF T, of i] by blast+
  have f: "- 1 \<in> set (dc_queue s) \<Longrightarrow> \<exists>i. failed s' i" using queue_invD(2)[OF Q] failed_step[OF assms(1) T] by blast
  have "- 1 \<in> set (takeWhile (\<lambda>x. x \<noteq> int j) (dc_queue s @ [int i])) \<and> j \<notin> set (dc_completed s)"
    if e: "ended_with s' j x" and x: "\<not> ok_response x" and pc: "dc_pc s \<in> {Calling, Waiting, Joining (Inr ())}" for j x
  proof (cases "j = i")
    case True
    then have "dc_threads s i = Some (Reported r)" using report(2) e x by (auto simp: ended_with_def report(1))
    then show ?thesis using True nq queue_invD(3)[OF Q pc] by (simp add: takeWhile_notin)
  next
    case False
    then show ?thesis using queue_invD(4)[OF Q pc _ x, of j] e takeWhile_snoc by (auto simp: ended_with_def report(1))
  qed
  moreover have "- 1 \<in> set (dc_queue s)" if "dc_threads s' j = Some (Reported x)" "dc_pc s \<in> {Calling, Waiting, Joining (Inr ())}" for j x
    using queue_invD(3)[OF Q that(2)] that(1) by (auto simp: report(1) split: if_splits)
  moreover have "dc_queue s' = dc_queue s @ [int i]" "dc_completed s' = dc_completed s" "dc_pc s' = dc_pc s" by (simp_all add: report(1))
  ultimately show ?thesis using queue_invD(1)[OF Q] f unfolding queue_inv_def by auto
qed (use queue_invD[OF Q] in \<open>auto simp: queue_inv_def failed_def\<close>)

text \<open>A sum over the functions called, after the thread of one of them has moved or new threads were started.\<close>

lemma sum_upd:
  fixes g :: "stage option \<Rightarrow> 'a::ab_group_add"
  assumes "distinct xs" and "i \<in> set xs"
  shows "(\<Sum>j\<leftarrow>xs. g ((m(i \<mapsto> v)) j)) = (\<Sum>j\<leftarrow>xs. g (m j)) + (g (Some v) - g (m i))"
  using assms
proof (induction xs)
  case (Cons x xs)
  show ?case
  proof (cases "x = i")
    case True
    then have "map (\<lambda>j. g ((m(i \<mapsto> v)) j)) xs = map (\<lambda>j. g (m j)) xs" using Cons.prems(1) by auto
    then have "(\<Sum>j\<leftarrow>xs. g ((m(i \<mapsto> v)) j)) = (\<Sum>j\<leftarrow>xs. g (m j))" by (rule arg_cong)
    then show ?thesis using True by simp
  next
    case False
    then show ?thesis using Cons by simp
  qed
qed simp

lemma sum_steps_upd:
  fixes xs :: "'a list" and m :: "'a \<rightharpoonup> stage"
  assumes "distinct xs" and "i \<in> set xs" and "stage_steps (Some v) = k + stage_steps (m i)"
  shows "(\<Sum>j\<leftarrow>xs. stage_steps ((m(i \<mapsto> v)) j)) = k + (\<Sum>j\<leftarrow>xs. stage_steps (m j))"
proof -
  have "int (\<Sum>j\<leftarrow>xs. stage_steps (M j)) = (\<Sum>j\<leftarrow>xs. int (stage_steps (M j)))" for M :: "'a \<rightharpoonup> stage"
    by (induction xs) simp_all
  then have "int (\<Sum>j\<leftarrow>xs. stage_steps ((m(i \<mapsto> v)) j)) = int (k + (\<Sum>j\<leftarrow>xs. stage_steps (m j)))"
    using sum_upd[OF assms(1,2), of "\<lambda>x. int (stage_steps x)" m v] assms(3) by simp
  then show ?thesis by linarith
qed

lemma sum_start:
  fixes g :: "stage option \<Rightarrow> 'a::monoid_add"
  assumes "g (Some Started) = 0" and "set xs \<inter> set new = {}"
  shows "(\<Sum>j\<leftarrow>xs. g (if j \<in> set new then Some Started else m j)) + (\<Sum>j\<leftarrow>new. g (if j \<in> set new then Some Started else m j)) =
    (\<Sum>j\<leftarrow>xs. g (m j))"
proof -
  have "map (\<lambda>j. g (if j \<in> set new then Some Started else m j)) xs = map (\<lambda>j. g (m j)) xs" using assms(2) by auto
  then have "(\<Sum>j\<leftarrow>xs. g (if j \<in> set new then Some Started else m j)) = (\<Sum>j\<leftarrow>xs. g (m j))" by (rule arg_cong)
  moreover have "map (\<lambda>j. g (if j \<in> set new then Some Started else m j)) new = map (\<lambda>_. 0) new" using assms(1) by auto
  then have "(\<Sum>j\<leftarrow>new. g (if j \<in> set new then Some Started else m j)) = 0" by (simp only: sum_list_0)
  ultimately show ?thesis by simp
qed

definition ended_sum :: "(response \<Rightarrow> 32 word) \<Rightarrow> stage option \<Rightarrow> 32 word" where
  "ended_sum g x = (case x of Some (Ended r) \<Rightarrow> g r | _ \<Rightarrow> 0)"

lemma ended_sum_simps [simp]:
  "ended_sum g None = 0" "ended_sum g (Some Started) = 0" "ended_sum g (Some (Replied r)) = 0"
  "ended_sum g (Some (Reported r)) = 0" "ended_sum g (Some (Ended r)) = g r"
  by (simp_all add: ended_sum_def)

lemma counts_inv_alt: "counts_inv k s \<longleftrightarrow>
   k \<le> 2 * length (dc_completed s) + pc_steps (dc_pc s) + (\<Sum>i\<leftarrow>dc_log s. stage_steps (dc_threads s i)) \<and>
   dc_hops s = (\<Sum>i\<leftarrow>dc_log s. ended_sum rs_hops (dc_threads s i)) \<and>
   dc_ptime s = (\<Sum>i\<leftarrow>dc_log s. ended_sum rs_processingTime (dc_threads s i))"
  by (simp add: counts_inv_def ended_sum_def)

lemma counts_inv_step:
  assumes "dag_step n uuids d ls aInput s s'" and T: "threads_inv d s" and C: "counts_inv k s"
  shows "counts_inv (Suc k) s'"
  using assms(1)
proof (cases rule: dag_step_cases)
  case (call "is")
  have "set (dc_log s) \<inter> set (to_call is s) = {}" using threads_invD(4)[OF T] by (auto simp: to_call_def)
  then show ?thesis
    using C call(2) sum_start[where g = stage_steps, OF _ \<open>set (dc_log s) \<inter> set (to_call is s) = {}\<close>, of "dc_threads s"]
      sum_start[where g = "ended_sum rs_hops", OF _ \<open>set (dc_log s) \<inter> set (to_call is s) = {}\<close>, of "dc_threads s"]
      sum_start[where g = "ended_sum rs_processingTime", OF _ \<open>set (dc_log s) \<inter> set (to_call is s) = {}\<close>, of "dc_threads s"]
    unfolding counts_inv_alt unfolding call(1) start_threads_simps map_append sum_list_append by simp
next
  case (pop x xs)
  then obtain j where j: "x = int j" by (metis nonneg_int_cases)
  have "1 \<le> count_list (dc_queue s) (int j)" by (simp add: pop(3) j)
  then have "j \<notin> set (dc_completed s)" using threads_invD(8)[OF T, of j] by (auto split: if_splits)
  then show ?thesis using C pop(2) j threads_invD(1)[OF T] unfolding counts_inv_alt pop(1) by (simp add: length_sinsert_swf)
next
  case (reply i q r)
  have i: "i \<in> set (dc_log s)" using reply(2) threads_invD(2,4)[OF T] by auto
  show ?thesis using C sum_steps_upd[OF threads_invD(3)[OF T] i, of "Replied r" 1 "dc_threads s"]
      sum_upd[OF threads_invD(3)[OF T] i, of "ended_sum rs_hops" "dc_threads s" "Replied r"]
      sum_upd[OF threads_invD(3)[OF T] i, of "ended_sum rs_processingTime" "dc_threads s" "Replied r"] reply(2)
    unfolding counts_inv_alt reply(1) by (simp del: fun_upd_apply)
next
  case (report_error i r)
  have i: "i \<in> set (dc_log s)" using report_error(2) threads_invD(2,4)[OF T] by auto
  show ?thesis using C sum_steps_upd[OF threads_invD(3)[OF T] i, of "Reported r" 1 "dc_threads s"]
      sum_upd[OF threads_invD(3)[OF T] i, of "ended_sum rs_hops" "dc_threads s" "Reported r"]
      sum_upd[OF threads_invD(3)[OF T] i, of "ended_sum rs_processingTime" "dc_threads s" "Reported r"] report_error(2)
    unfolding counts_inv_alt report_error(1) by (simp del: fun_upd_apply)
next
  case (report i r)
  have i: "i \<in> set (dc_log s)" using report(2) threads_invD(2,4)[OF T] by auto
  define k' where "k' = 3 - stage_steps (dc_threads s i)"
  have k': "0 < k'" "stage_steps (Some (Ended r)) = k' + stage_steps (dc_threads s i)"
    using report(2) by (auto simp: k'_def)
  have z: "ended_sum g (dc_threads s i) = 0" for g using report(2) by auto
  show ?thesis using C k'(1) z sum_steps_upd[OF threads_invD(3)[OF T] i, of "Ended r" k' "dc_threads s", OF k'(2)]
      sum_upd[OF threads_invD(3)[OF T] i, of "ended_sum rs_hops" "dc_threads s" "Ended r"]
      sum_upd[OF threads_invD(3)[OF T] i, of "ended_sum rs_processingTime" "dc_threads s" "Ended r"]
    unfolding counts_inv_alt report(1) by (simp del: fun_upd_apply)
next
  case (crash i)
  have "pc_steps (dc_pc s) < 4" using crash(3) by (cases "dc_pc s") auto
  then show ?thesis using C unfolding counts_inv_alt crash(1) by simp
qed (use C in \<open>auto simp: counts_inv_alt\<close>)

lemma pc_invD:
  assumes "pc_inv d aInput ls s"
  shows "dc_pc s = Waiting \<Longrightarrow> \<exists>i\<in>set (dc_called s). i \<notin> set (dc_completed s)"
    and "dc_pc s = Joining (Inr u) \<Longrightarrow> length (dc_completed s) = numFunctions d"
    and "dc_pc s = Joining (Inl e) \<Longrightarrow> e = dag_error \<and> (\<exists>i. failed s i)"
    and "dc_pc s = Returned (Inl e) \<Longrightarrow> e = dag_error \<and> (\<exists>i. failed s i)"
    and "dc_pc s = Returned (Inr resp) \<Longrightarrow> length (dc_completed s) = numFunctions d \<and> resp = dag_response ls aInput s \<and>
        (\<forall>i r. ended_with s i r \<longrightarrow> ok_response r)"
  using assms unfolding pc_inv_def by auto

lemma pc_inv_same:
  assumes P: "pc_inv d aInput ls s" and e: "dc_pc s' = dc_pc s" "dc_completed s' = dc_completed s" "dc_called s' = dc_called s"
    and f: "\<exists>i. failed s i \<Longrightarrow> \<exists>i. failed s' i"
    and r: "\<And>resp. dc_pc s = Returned (Inr resp) \<Longrightarrow> dag_response ls aInput s' = dag_response ls aInput s \<and> (\<forall>i r. ended_with s' i r \<longrightarrow> ended_with s i r)"
  shows "pc_inv d aInput ls s'"
  unfolding pc_inv_def e
proof (intro conjI allI impI)
  show "\<exists>i\<in>set (dc_called s). i \<notin> set (dc_completed s)" if "dc_pc s = Waiting" by (rule pc_invD(1)[OF P that])
  show "length (dc_completed s) = numFunctions d" if "dc_pc s = Joining (Inr u)" for u by (rule pc_invD(2)[OF P that])
  show "err = dag_error" "\<exists>i. failed s' i" if "dc_pc s = Joining (Inl err) \<or> dc_pc s = Returned (Inl err)" for err
    using pc_invD(3,4)[OF P] that f by blast+
  fix resp assume x: "dc_pc s = Returned (Inr resp)"
  show "ok_response y" if "ended_with s' i y" for i y
    using pc_invD(5)[OF P x] r[OF x] that by auto
  show "length (dc_completed s) = numFunctions d" "resp = dag_response ls aInput s'" using pc_invD(5)[OF P x] r[OF x] by auto
qed

text \<open>The functions that have completed are some of those of the graph, or all.\<close>

lemma completed_range:
  assumes "threads_inv d s"
  shows "set (dc_completed s) \<subseteq> {..<numFunctions d}" "length (dc_completed s) = card (set (dc_completed s))"
    and "length (dc_completed s) = numFunctions d \<longleftrightarrow> set (dc_completed s) = {..<numFunctions d}"
proof -
  have "i < numFunctions d" if "i \<in> set (dc_completed s)" for i
    using that threads_invD(7)[OF assms, of i] threads_invD(2)[OF assms] threads_invD(5)[OF assms, of i] by (auto simp: ended_with_def)
  then show r: "set (dc_completed s) \<subseteq> {..<numFunctions d}" by auto
  show l: "length (dc_completed s) = card (set (dc_completed s))"
    using threads_invD(1)[OF assms] by (simp add: strict_sorted_iff distinct_card)
  show "length (dc_completed s) = numFunctions d \<longleftrightarrow> set (dc_completed s) = {..<numFunctions d}"
    unfolding l using r by (metis card_lessThan card_subset_eq finite_lessThan)
qed

lemma pc_inv_step:
  assumes W: "dag_wf d" and A: "acyclic (edges (theSuccessors d))" and N: "numFunctions d \<le> n"
    and "dag_step n uuids d ls aInput s s'" and T: "threads_inv d s" and Q: "queue_inv s" and P: "pc_inv d aInput ls s"
  shows "pc_inv d aInput ls s'"
  using assms(4)
proof (cases rule: dag_step_cases)
  case (call "is")
  note w = callable_to_call[OF W A N call(4), of s]
  obtain i where "i < numFunctions d" "i \<notin> set (dc_completed s)"
    using call(3) completed_range(1,3)[OF T] by auto
  then obtain j where j: "j < numFunctions d" "j \<notin> set (dc_completed s)" "anc_set d j \<subseteq> set (dc_completed s)"
    using callable_progress[OF W A] by blast
  then have "j \<in> set (dc_called s) \<union> set (to_call is s)" unfolding w(2) by blast
  then show ?thesis using j(2) unfolding pc_inv_def call(1) start_threads_simps by auto
next
  case (pop_error x xs)
  then have "x = - 1" using queue_invD(1)[OF Q] by auto
  then have "\<exists>i. failed s i" using queue_invD(2)[OF Q] pop_error(3) by simp
  then have "\<exists>i. failed s' i" using failed_step[OF assms(4) T] by blast
  then show ?thesis unfolding pc_inv_def by (simp add: pop_error(1))
next
  case (join r)
  have e: "ended_with s' = ended_with s" by (simp add: join(1) ended_with_def fun_eq_iff)
  show ?thesis
  proof (cases r)
    case (Inl err)
    then have "err = dag_error \<and> (\<exists>i. failed s' i)"
      using pc_invD(3)[OF P] join(2) failed_step[OF assms(4) T] by blast
    moreover have "dc_pc s' = Returned (Inl err)" by (simp add: join(1) Inl)
    ultimately show ?thesis unfolding pc_inv_def by auto
  next
    case (Inr u)
    have l: "length (dc_completed s) = numFunctions d" using pc_invD(2)[OF P] join(2) Inr by blast
    have "ok_response x" if x: "ended_with s i x" for i x
    proof (rule ccontr)
      assume "\<not> ok_response x"
      then have "i \<notin> set (dc_completed s)" using queue_invD(4)[OF Q _ x] join(2) Inr by simp
      moreover have "i \<in> set (dc_called s)" using x threads_invD(2)[OF T] by (auto simp: ended_with_def)
      then have "i < numFunctions d" by (rule threads_invD(5)[OF T])
      ultimately show False using l completed_range(3)[OF T] by auto
    qed
    then show ?thesis using l unfolding pc_inv_def e by (simp add: join(1) Inr dag_response_def)
  qed
next
  case (reply i q r)
  show ?thesis
    by (rule pc_inv_same[OF P]) (use failed_step[OF assms(4) T] in \<open>auto simp: reply(1) dag_response_def ended_with_def split: if_splits\<close>)
next
  case (report_error i r)
  show ?thesis
    by (rule pc_inv_same[OF P]) (use failed_step[OF assms(4) T] in \<open>auto simp: report_error(1) dag_response_def ended_with_def split: if_splits\<close>)
next
  case (report i r)
  have n: "\<not> (\<exists>x. ended_with s i x)" using report(2) by (auto simp: ended_with_def)
  then have c: "i \<notin> set (dc_completed s)" using threads_invD(7)[OF T, of i] by blast
  have "i \<in> set (dc_called s)" using report(2) threads_invD(2)[OF T] by auto
  then have "i < numFunctions d" by (rule threads_invD(5)[OF T])
  then have "length (dc_completed s) \<noteq> numFunctions d" using c completed_range(3)[OF T] by auto
  then have "dc_pc s \<noteq> Returned (Inr resp)" for resp using pc_invD(5)[OF P] by blast
  moreover have "dc_pc s' = dc_pc s" "dc_completed s' = dc_completed s" "dc_called s' = dc_called s" by (simp_all add: report(1))
  ultimately show ?thesis using pc_inv_same[OF P] failed_step[OF assms(4) T] by blast
qed (use P completed_range(3)[OF T] in \<open>auto simp: pc_inv_def failed_def\<close>)

lemma dag_runs_inv:
  assumes "dag_runs n uuids d ls aInput k s" and "dag_wf d" and "acyclic (edges (theSuccessors d))" and "numFunctions d \<le> n"
  shows "threads_inv d s \<and> queue_inv s \<and> counts_inv k s \<and> pc_inv d aInput ls s"
  using assms(1)
proof induction
  case begin_run
  show ?case
    by (auto simp: dag_call_init_def threads_inv_def queue_inv_def counts_inv_def pc_inv_def ended_with_def)
next
  case (one_more k s s')
  then show ?case
    using threads_inv_step[OF assms(2-4) one_more(2)] queue_inv_step[OF one_more(2)] counts_inv_step[OF one_more(2)]
      pc_inv_step[OF assms(2-4) one_more(2)] queue_invD(1) by blast
qed

text \<open>The functions that have completed succeeded, also after another one has failed.\<close>

lemma completed_ok:
  assumes "dag_runs n uuids d ls aInput k s" and "dag_wf d" and "acyclic (edges (theSuccessors d))" and "numFunctions d \<le> n"
  shows "\<forall>i\<in>set (dc_completed s). \<exists>r. ended_with s i r \<and> ok_response r"
  using assms(1)
proof induction
  case begin_run
  show ?case by (simp add: dag_call_init_def)
next
  case (one_more k s s')
  note I = dag_runs_inv[OF one_more(1) assms(2-4)]
  have keep: "ended_with s' i r" if "ended_with s i r" for i r
    using one_more(2)
  proof (cases rule: dag_step_cases)
    case (call "is")
    have "i \<in> set (dc_called s)" using that I by (auto simp: ended_with_def threads_inv_def)
    then show ?thesis using that by (auto simp: call(1) ended_with_def to_call_def)
  qed (use that in \<open>auto simp: ended_with_def\<close>)
  have new: "\<exists>r. ended_with s i r \<and> ok_response r" if i: "i \<in> set (dc_completed s')" "i \<notin> set (dc_completed s)" for i
    using one_more(2)
  proof (cases rule: dag_step_cases)
    case (pop x xs)
    then have x: "x = int i" using i by auto
    then obtain r where r: "ended_with s i r" using pop(3) threads_invD(7)[of d s i] I by auto
    moreover have "ok_response r"
    proof (rule ccontr)
      assume "\<not> ok_response r"
      then have "- 1 \<in> set (takeWhile (\<lambda>x. x \<noteq> int i) (dc_queue s))" using queue_invD(4)[of s i r] I pop(2) r by simp
      then show False by (simp add: pop(3) x)
    qed
    ultimately show ?thesis by blast
  qed (use i in auto)
  show ?case using keep new one_more(3) by blast
qed

lemma dag_request_ok:
  assumes "dag_wf d" and "\<forall>(x, fs)\<in>set (dagStates d). fs \<noteq> [] \<longrightarrow> x \<in> fst ` set ls"
  shows "\<exists>q. dag_request uuids d ls i aInput = Inr q"
proof -
  have "set (states_of (dagStates d) (toName d i)) \<subseteq> dom (map_of ls)"
    using assms(2) by (fastforce simp: set_states_of in_fst_set_iff)
  then obtain st where "fill_states ls (states_of (dagStates d) (toName d i)) (client_request (uuids i) (toName d i) aInput []) =
      Inr ((client_request (uuids i) (toName d i) aInput [])\<lparr>rq_states := st\<rparr>)"
    using fill_states_ok[of "states_of (dagStates d) (toName d i)" ls "client_request (uuids i) (toName d i) aInput []"]
      swf_states_of[of "dagStates d" "toName d i"]
    by (auto simp: client_request_def request_new_def strict_sorted_iff)
  then show ?thesis by (simp add: dag_request_def Let_def singleFunctionDag_ok)
qed

lemma thread_progress:
  assumes "dag_wf d" and "\<forall>(x, fs)\<in>set (dagStates d). fs \<noteq> [] \<longrightarrow> x \<in> fst ` set ls"
    and "dc_threads s i = Some x" and "\<And>r. x \<noteq> Ended r" and "dc_pc s \<noteq> Terminated"
  shows "\<exists>s'. dag_step n uuids d ls aInput s s' \<and> dc_pc s' \<noteq> Terminated"
proof (cases x)
  case Started
  obtain q where "dag_request uuids d ls i aInput = Inr q" using dag_request_ok[OF assms(1,2)] by blast
  from dag_step.reply[OF _ assms(5) this] show ?thesis using assms(3,5) Started by fastforce
next
  case (Replied r)
  show ?thesis
  proof (cases "ok_response r")
    case True
    from dag_step.report[of s i r n uuids d ls aInput] show ?thesis using assms(3,5) Replied True by fastforce
  next
    case False
    from dag_step.report_error[of s i r n uuids d ls aInput] show ?thesis using assms(3,5) Replied False by fastforce
  qed
next
  case (Reported r)
  from dag_step.report[of s i r n uuids d ls aInput] show ?thesis using assms(3,5) Reported by fastforce
qed (use assms(4) in blast)

lemma dag_progress:
  assumes W: "dag_wf d" and A: "acyclic (edges (theSuccessors d))" and N: "numFunctions d \<le> n"
    and S: "\<forall>(x, fs)\<in>set (dagStates d). fs \<noteq> [] \<longrightarrow> x \<in> fst ` set ls"
    and T: "threads_inv d s" and Q: "queue_inv s" and P: "pc_inv d aInput ls s"
    and "dc_pc s \<noteq> Terminated" and "\<And>r. dc_pc s \<noteq> Returned r"
  shows "\<exists>s'. dag_step n uuids d ls aInput s s' \<and> dc_pc s' \<noteq> Terminated"
proof (cases "dc_pc s")
  case Calling
  obtain "is" where "callable n d (dc_completed s) = Some is" using callable_acyclic[OF W A N] by blast
  then show ?thesis
    using dag_step.call[OF Calling, of d n "is" uuids ls aInput] dag_step.all_completed[OF Calling, of d n uuids ls aInput]
    by (cases "length (dc_completed s) = numFunctions d") fastforce+
next
  case Waiting
  obtain i where i: "i \<in> set (dc_called s)" "i \<notin> set (dc_completed s)" using pc_invD(1)[OF P Waiting] by blast
  then obtain x where x: "dc_threads s i = Some x" using threads_invD(2)[OF T] by auto
  show ?thesis
  proof (cases "\<exists>r. x = Ended r")
    case True
    then have "int i \<in> set (dc_queue s)" using threads_invD(7)[OF T, of i] i(2) x by (auto simp: ended_with_def)
    then obtain y ys where y: "dc_queue s = y # ys" by (cases "dc_queue s") auto
    then show ?thesis
      using dag_step.pop[OF Waiting y, of n uuids d ls aInput] dag_step.pop_error[OF Waiting y, of n uuids d ls aInput]
      by (cases "0 \<le> y") fastforce+
  next
    case False
    then show ?thesis using thread_progress[OF W S x _ assms(8)] by blast
  qed
next
  case (Joining r)
  show ?thesis
  proof (cases "\<forall>i\<in>set (dc_called s). \<exists>x. dc_threads s i = Some (Ended x)")
    case True
    from dag_step.join[OF Joining True, of n uuids d ls aInput] show ?thesis by fastforce
  next
    case False
    then obtain i x where "dc_threads s i = Some x" "\<And>r. x \<noteq> Ended r" using threads_invD(2)[OF T] by fastforce
    then show ?thesis using thread_progress[OF W S _ _ assms(8)] by blast
  qed
qed (use assms(8,9) in auto)


text \<open>The run of a graph of two functions.\<close>

definition two_dag :: dag where
  "two_dag = \<lparr>theSuccessors = [[1]], thePredecessors = [[0]], theFunctionNames = [''f'', ''g''], dagStates = []\<rparr>"

definition ok_ex :: response where
  "ok_ex = (response_sync ''OK'' [])\<lparr>rs_hops := 1\<rparr>"

definition dag_call_ex :: "nat list \<Rightarrow> nat list \<Rightarrow> int list \<Rightarrow> stage option \<Rightarrow> stage option \<Rightarrow> 32 word \<Rightarrow> dag_pc \<Rightarrow> dag_call" where
  "dag_call_ex cs ks q t0 t1 h pc = \<lparr>dc_completed = cs, dc_called = ks, dc_queue = q,
     dc_threads = Map.empty(0 := t0, 1 := t1), dc_hops = h, dc_ptime = 0, dc_pc = pc, dc_log = ks\<rparr>"

lemma ok_ex_simps [simp]: "rs_retCode ok_ex = ''OK''" "rs_hops ok_ex = 1" "rs_processingTime ok_ex = 0"
  by (simp_all add: ok_ex_def response_sync_def response_new_def)

lemma start_threads_ex:
  "start_threads (to_call [0] (dag_call_ex [] [] [] None None 0 Calling)) (dag_call_ex [] [] [] None None 0 Calling) =
    dag_call_ex [] [0] [] (Some Started) None 0 Waiting"
  "start_threads (to_call [1] (dag_call_ex [0] [0] [] t None 1 Calling)) (dag_call_ex [0] [0] [] t None 1 Calling) =
    dag_call_ex [0] [0, 1] [] t (Some Started) 1 Waiting"
  by (auto simp: dag_call_ex_def start_threads_def to_call_def fun_eq_iff map_add_def)

lemma two_dag_run:
  "\<exists>resp. dag_runs 2 (\<lambda>_. []) two_dag [] ''x'' 10 (dag_call_ex [0, 1] [0, 1] [] (Some (Ended ok_ex)) (Some (Ended ok_ex)) 2 (Returned (Inr resp)))"
proof -
  let ?S = "dag_step 2 (\<lambda>_. []) two_dag [] ''x''"
  let ?E = "Some (Ended ok_ex)"
  have n: "numFunctions two_dag = 2" by (simp add: two_dag_def numFunctions_def)
  have rq: "\<exists>q. dag_request (\<lambda>_. []) two_dag [] i ''x'' = Inr q" for i
    by (simp add: dag_request_def singleFunctionDag_ok two_dag_def states_of_def Let_def)
  have c0: "callable 2 two_dag [] = Some [0]" and c1: "callable 2 two_dag [0] = Some [1]" by code_simp+
  have start: "dag_call_init = dag_call_ex [] [] [] None None 0 Calling"
    by (auto simp: dag_call_init_def dag_call_ex_def)
  have s0: "?S (dag_call_ex [] [] [] None None 0 Calling) (dag_call_ex [] [0] [] (Some Started) None 0 Waiting)"
    using dag_step.call[of "dag_call_ex [] [] [] None None 0 Calling" two_dag 2 "[0]" "\<lambda>_. []" "[]" "''x''"] c0 n
    unfolding start_threads_ex(1) by (simp add: dag_call_ex_def)
  have r0: "?S (dag_call_ex [] [0] [] (Some Started) None 0 Waiting) (dag_call_ex [] [0] [] (Some (Replied ok_ex)) None 0 Waiting)"
    using rq[of 0] dag_step.reply[of "dag_call_ex [] [0] [] (Some Started) None 0 Waiting" 0 "\<lambda>_. []" two_dag "[]" "''x''" _ 2 ok_ex]
    by (auto simp: dag_call_ex_def fun_upd_twist)
  have e0: "?S (dag_call_ex [] [0] [] (Some (Replied ok_ex)) None 0 Waiting) (dag_call_ex [] [0] [0] ?E None 1 Waiting)"
    using dag_step.report[of "dag_call_ex [] [0] [] (Some (Replied ok_ex)) None 0 Waiting" 0 ok_ex 2 "\<lambda>_. []" two_dag "[]" "''x''"]
    by (simp add: dag_call_ex_def fun_upd_twist)
  have p0: "?S (dag_call_ex [] [0] [0] ?E None 1 Waiting) (dag_call_ex [0] [0] [] ?E None 1 Calling)"
    using dag_step.pop[of "dag_call_ex [] [0] [0] ?E None 1 Waiting" 0 "[]" 2 "\<lambda>_. []" two_dag "[]" "''x''"] by (simp add: dag_call_ex_def)
  have s1: "?S (dag_call_ex [0] [0] [] ?E None 1 Calling) (dag_call_ex [0] [0, 1] [] ?E (Some Started) 1 Waiting)"
    using dag_step.call[of "dag_call_ex [0] [0] [] ?E None 1 Calling" two_dag 2 "[1]" "\<lambda>_. []" "[]" "''x''"] c1 n
    unfolding start_threads_ex(2) by (simp add: dag_call_ex_def)
  have r1: "?S (dag_call_ex [0] [0, 1] [] ?E (Some Started) 1 Waiting) (dag_call_ex [0] [0, 1] [] ?E (Some (Replied ok_ex)) 1 Waiting)"
    using rq[of 1] dag_step.reply[of "dag_call_ex [0] [0, 1] [] ?E (Some Started) 1 Waiting" 1 "\<lambda>_. []" two_dag "[]" "''x''" _ 2 ok_ex]
    by (auto simp: dag_call_ex_def)
  have e1: "?S (dag_call_ex [0] [0, 1] [] ?E (Some (Replied ok_ex)) 1 Waiting) (dag_call_ex [0] [0, 1] [1] ?E ?E 2 Waiting)"
    using dag_step.report[of "dag_call_ex [0] [0, 1] [] ?E (Some (Replied ok_ex)) 1 Waiting" 1 ok_ex 2 "\<lambda>_. []" two_dag "[]" "''x''"]
    by (simp add: dag_call_ex_def)
  have p1: "?S (dag_call_ex [0] [0, 1] [1] ?E ?E 2 Waiting) (dag_call_ex [0, 1] [0, 1] [] ?E ?E 2 Calling)"
    using dag_step.pop[of "dag_call_ex [0] [0, 1] [1] ?E ?E 2 Waiting" 1 "[]" 2 "\<lambda>_. []" two_dag "[]" "''x''"] by (simp add: dag_call_ex_def)
  have f: "?S (dag_call_ex [0, 1] [0, 1] [] ?E ?E 2 Calling) (dag_call_ex [0, 1] [0, 1] [] ?E ?E 2 (Joining (Inr ())))"
    using dag_step.all_completed[of "dag_call_ex [0, 1] [0, 1] [] ?E ?E 2 Calling" two_dag 2 "\<lambda>_. []" "[]" "''x''"] n by (simp add: dag_call_ex_def)
  obtain resp where j: "?S (dag_call_ex [0, 1] [0, 1] [] ?E ?E 2 (Joining (Inr ()))) (dag_call_ex [0, 1] [0, 1] [] ?E ?E 2 (Returned (Inr resp)))"
    using dag_step.join[of "dag_call_ex [0, 1] [0, 1] [] ?E ?E 2 (Joining (Inr ()))" "Inr ()" 2 "\<lambda>_. []" two_dag "[]" "''x''"]
    by (simp add: dag_call_ex_def)
  have b: "dag_runs 2 (\<lambda>_. []) two_dag [] ''x'' 0 (dag_call_ex [] [] [] None None 0 Calling)"
    unfolding start[symmetric] by (rule dag_runs.begin_run)
  note one_more = dag_runs.one_more[of 2 "\<lambda>_. []" two_dag "[]" "''x''"]
  from one_more[OF one_more[OF one_more[OF one_more[OF one_more[OF one_more[OF one_more[OF one_more[OF one_more[OF one_more[OF b s0] r0] e0] p0] s1] r1] e1] p1] f] j]
  have "dag_runs 2 (\<lambda>_. []) two_dag [] ''x'' (Suc (Suc (Suc (Suc (Suc (Suc (Suc (Suc (Suc (Suc 0))))))))))
      (dag_call_ex [0, 1] [0, 1] [] ?E ?E 2 (Returned (Inr resp)))" .
  moreover have "Suc (Suc (Suc (Suc (Suc (Suc (Suc (Suc (Suc (Suc 0))))))))) = 10" by simp
  ultimately show ?thesis by metis
qed


end
