(* ===== verification/StateNetwork.thy ===== *)
theory StateNetwork
  imports Entry
begin

text \<open>
  The network of the simulator of stateful functions, \<open>StateSim/element.h\<close>, \<open>node.cpp\<close>, \<open>link.cpp\<close> and
  \<open>network.cpp\<close>: nodes and links read from files or given, the graph of the elements, and the times to
  transfer data along its shortest paths.

  Parameters: \<open>split\<close> of the support library, the conversion \<open>stof\<close> of a decimal number in floating point,
  and \<open>dij\<close>, \<open>boost::dijkstra_shortest_paths\<close>: for a number of vertices, the weighted edges and a source it
  gives the distance and the predecessor of every vertex. A file is the list of its lines, or none if it
  cannot be opened.
\<close>

section \<open>Elements\<close>

datatype affinity = NotAvailable | Cpu | Gpu

fun affinity_rank :: "affinity \<Rightarrow> nat" where
  "affinity_rank NotAvailable = 0" | "affinity_rank Cpu = 1" | "affinity_rank Gpu = 2"

lemma affinity_rank_inj: "affinity_rank a = affinity_rank b \<longleftrightarrow> a = b"
  by (cases a; cases b) auto

instantiation affinity :: linorder
begin

definition less_eq_affinity :: "affinity \<Rightarrow> affinity \<Rightarrow> bool" where
  "less_eq_affinity a b \<longleftrightarrow> affinity_rank a \<le> affinity_rank b"

definition less_affinity :: "affinity \<Rightarrow> affinity \<Rightarrow> bool" where
  "less_affinity a b \<longleftrightarrow> affinity_rank a < affinity_rank b"

instance
  by standard (auto simp: less_eq_affinity_def less_affinity_def affinity_rank_inj)

end

definition affinity_toString :: "affinity \<Rightarrow> string" where
  "affinity_toString a = (case a of NotAvailable \<Rightarrow> ''N/A'' | Cpu \<Rightarrow> ''CPU'' | Gpu \<Rightarrow> ''GPU'')"

datatype node_type = Networking | Processing

record node =
  nd_name :: string
  nd_id :: nat
  nd_type :: node_type
  nd_speed :: real
  nd_memory :: nat
  nd_affinity :: affinity
  nd_client :: bool

datatype link_type = NodeLink | SharedLink | Downlink | Uplink

record link =
  lk_type :: link_type
  lk_name :: string
  lk_id :: nat
  lk_capacity :: real

datatype elem = ElNode node | ElLink link

fun el_name :: "elem \<Rightarrow> string" where
  "el_name (ElNode n) = nd_name n" | "el_name (ElLink l) = lk_name l"

fun is_link :: "elem \<Rightarrow> bool" where
  "is_link (ElNode n) = False" | "is_link (ElLink l) = True"

definition link_txTime :: "link \<Rightarrow> nat \<Rightarrow> real" where
  "link_txTime l bytes = real (bytes * 8 mod 2 ^ 64) / lk_capacity l"

fun el_txTime :: "elem \<Rightarrow> nat \<Rightarrow> real" where
  "el_txTime (ElNode n) bytes = 0" | "el_txTime (ElLink l) bytes = link_txTime l bytes"

definition element_check :: "string \<Rightarrow> nat \<Rightarrow> exn + unit" where
  "element_check name i = (if name = [] then Inl (RuntimeError (''Invalid empty name for an element: '' @ to_string i)) else Inr ())"

definition node_networking :: "string \<Rightarrow> nat \<Rightarrow> exn + node" where
  "node_networking name i = rbind (element_check name i) (\<lambda>_.
     Inr \<lparr>nd_name = name, nd_id = i, nd_type = Networking, nd_speed = 0, nd_memory = 0, nd_affinity = NotAvailable, nd_client = False\<rparr>)"

definition node_processing :: "string \<Rightarrow> nat \<Rightarrow> real \<Rightarrow> nat \<Rightarrow> affinity \<Rightarrow> bool \<Rightarrow> exn + node" where
  "node_processing name i speed mem aff cl = rbind (element_check name i) (\<lambda>_.
     if speed \<le> 0 then Inl (RuntimeError (''Invalid speed for Node name: '' @ name))
     else Inr \<lparr>nd_name = name, nd_id = i, nd_type = Processing, nd_speed = speed, nd_memory = mem, nd_affinity = aff, nd_client = cl\<rparr>)"

definition link_new :: "link_type \<Rightarrow> string \<Rightarrow> nat \<Rightarrow> real \<Rightarrow> exn + link" where
  "link_new t name i cap = rbind (element_check name i) (\<lambda>_.
     if cap \<le> 0 then Inl (RuntimeError (''Invalid capacity for Link name: '' @ name))
     else Inr \<lparr>lk_type = t, lk_name = name, lk_id = i, lk_capacity = cap\<rparr>)"

text \<open>
  \<open>std::stoull\<close>: blanks, an optional sign, digits, and anything after them; a value of at least \<open>2 ^ 64\<close> is
  out of range, and a negative one wraps around.
\<close>

definition is_digit :: "char \<Rightarrow> bool" where
  "is_digit c \<longleftrightarrow> of_char c \<ge> (48 :: nat) \<and> of_char c \<le> (57 :: nat)"

definition is_blank :: "char \<Rightarrow> bool" where
  "is_blank c \<longleftrightarrow> c = CHR 0x20 \<or> c = CHR 0x09 \<or> c = CHR 0x0A \<or> c = CHR 0x0B \<or> c = CHR 0x0C \<or> c = CHR 0x0D"

definition digits_value :: "string \<Rightarrow> nat" where
  "digits_value ds = foldl (\<lambda>n c. 10 * n + (of_char c - 48)) 0 ds"

definition stoull :: "string \<Rightarrow> exn + nat" where
  "stoull s =
     (let s1 = dropWhile is_blank s;
          neg = (s1 \<noteq> [] \<and> hd s1 = CHR ''-'');
          s2 = (if s1 \<noteq> [] \<and> (hd s1 = CHR ''-'' \<or> hd s1 = CHR ''+'') then tl s1 else s1);
          ds = takeWhile is_digit s2;
          n = digits_value ds
      in if ds = [] then Inl (RuntimeError ''stoull'')
         else if n \<ge> 2 ^ 64 then Inl (RuntimeError ''stoull'')
         else Inr (if neg \<and> n \<noteq> 0 then 2 ^ 64 - n else n))"

definition hw_types :: "(string \<times> affinity \<times> bool) list" where
  "hw_types = [(''server'', Cpu, False), (''rpi3b+'', Cpu, True), (''nuci5'', Cpu, False), (''nvidia_jetson_tx2'', Gpu, True)]"

definition node_make :: "(string \<Rightarrow> char \<Rightarrow> string list) \<Rightarrow> (string \<Rightarrow> exn + real) \<Rightarrow> string \<Rightarrow> nat \<Rightarrow> exn + node" where
  "node_make split stof s i =
     (let ts = split s (CHR '';'')
      in if length ts \<noteq> 7 then Inl (RuntimeError (''Invalid node: '' @ s))
         else case map_of hw_types (ts ! 6) of
           None \<Rightarrow> Inl (RuntimeError (''Invalid node type: '' @ s))
         | Some (aff, cl) \<Rightarrow> rbind (stof (ts ! 3)) (\<lambda>sp. rbind (stoull (ts ! 2)) (\<lambda>mem.
             node_processing (ts ! 1) i (sp * 10 ^ 6) mem aff cl)))"

definition link_types :: "(string \<times> link_type) list" where
  "link_types = [(''node'', NodeLink), (''shared'', SharedLink), (''downlink'', Downlink), (''uplink'', Uplink)]"

definition link_make :: "(string \<Rightarrow> char \<Rightarrow> string list) \<Rightarrow> (string \<Rightarrow> exn + real) \<Rightarrow> string \<Rightarrow> nat \<Rightarrow> exn + link" where
  "link_make split stof s i =
     (let ts = split s (CHR '';'')
      in if length ts \<noteq> 4 then Inl (RuntimeError (''Invalid Link: '' @ s))
         else case map_of link_types (ts ! 3) of
           None \<Rightarrow> Inl (RuntimeError (''Invalid type in Link: '' @ s))
         | Some t \<Rightarrow> rbind (stof (ts ! 1)) (\<lambda>c. link_new t (ts ! 2) i (10 ^ 6 * c)))"

definition nodelist_make :: "(string \<Rightarrow> char \<Rightarrow> string list) \<Rightarrow> string \<Rightarrow> exn + string list" where
  "nodelist_make split s =
     (let ts = split s (CHR '' '') in if length ts \<le> 1 then Inl (RuntimeError (''Invalid edge: '' @ s)) else Inr ts)"

text \<open>The reading loop; the counter gives an identifier to every element made.\<close>

fun load_lines :: "(string \<Rightarrow> nat \<Rightarrow> exn + 'a) \<Rightarrow> string list \<Rightarrow> nat \<Rightarrow> exn + 'a list \<times> nat" where
  "load_lines mk [] i = Inr ([], i)"
| "load_lines mk (l # ls) i =
     (if l = [] \<or> hd l = CHR ''#'' then load_lines mk ls i
      else rbind (mk l i) (\<lambda>x. rbind (load_lines mk ls (Suc i)) (\<lambda>(xs, j). Inr (x # xs, j))))"

definition loadFile :: "(string \<Rightarrow> nat \<Rightarrow> exn + 'a) \<Rightarrow> string \<Rightarrow> string list option \<Rightarrow> nat \<Rightarrow> exn + 'a list \<times> nat" where
  "loadFile mk path content i = (case content of
       None \<Rightarrow> Inl (RuntimeError (''Cannot open file for reading: '' @ path))
     | Some ls \<Rightarrow> load_lines mk ls i)"

section \<open>Network\<close>

type_synonym graph = "nat \<times> ((nat \<times> nat) \<times> real) list"
type_synonym dijkstra = "graph \<Rightarrow> nat \<Rightarrow> (real \<times> nat) list"

record network =
  nw_nodes :: "(string, node) smap"
  nw_links :: "(string, link) smap"
  nw_elements :: "elem list"
  nw_clients :: "node list"
  nw_processing :: "node list"
  nw_graph :: graph
  nw_cloud :: "(real \<times> real) option"
  nw_cache :: "(real \<times> nat) list option list"
  nw_central :: "node option"

definition network_empty :: network where
  "network_empty = \<lparr>nw_nodes = [], nw_links = [], nw_elements = [], nw_clients = [], nw_processing = [],
     nw_graph = (0, []), nw_cloud = None, nw_cache = [], nw_central = None\<rparr>"

definition nw_id :: "network \<Rightarrow> string \<Rightarrow> exn + nat" where
  "nw_id N name = (case map_of (nw_nodes N) name of Some n \<Rightarrow> Inr (nd_id n)
     | None \<Rightarrow> (case map_of (nw_links N) name of Some l \<Rightarrow> Inr (lk_id l)
       | None \<Rightarrow> Inl (RuntimeError (''Unknown node with name: '' @ name))))"

definition nw_capacity :: "network \<Rightarrow> string \<Rightarrow> exn + real" where
  "nw_capacity N name = (case map_of (nw_nodes N) name of Some n \<Rightarrow> Inr 0
     | None \<Rightarrow> (case map_of (nw_links N) name of Some l \<Rightarrow> Inr (lk_capacity l)
       | None \<Rightarrow> Inl (RuntimeError (''Unknown node with name: '' @ name))))"

text \<open>The weights are twice the reciprocals of the capacities of the two ends that are links.\<close>

definition half_weight :: "real \<Rightarrow> real" where
  "half_weight c = (if c > 0 then 2 / c else 0)"

fun edges_to :: "network \<Rightarrow> nat \<Rightarrow> real \<Rightarrow> string list \<Rightarrow> exn + ((nat \<times> nat) \<times> real) list" where
  "edges_to N src w [] = Inr []"
| "edges_to N src w (d # ds) = rbind (nw_id N d) (\<lambda>i. rbind (nw_capacity N d) (\<lambda>c.
     rbind (edges_to N src w ds) (\<lambda>es. Inr (((src, i), w + half_weight c) # es))))"

fun network_edges :: "network \<Rightarrow> (string \<times> string list) list \<Rightarrow> exn + ((nat \<times> nat) \<times> real) list" where
  "network_edges N [] = Inr []"
| "network_edges N ((s, ds) # xs) = rbind (nw_id N s) (\<lambda>i. rbind (nw_capacity N s) (\<lambda>c.
     rbind (edges_to N i (half_weight c) ds) (\<lambda>es. rbind (network_edges N xs) (\<lambda>fs. Inr (es @ fs)))))"

text \<open>The vector of the elements by identifier; an identifier out of range or unused fails an assertion.\<close>

fun place :: "(nat \<times> elem) list \<Rightarrow> elem option list \<Rightarrow> exn + elem option list" where
  "place [] v = Inr v"
| "place ((i, e) # xs) v = (if i < length v then place xs (v[i := Some e])
     else Inl (Undefined ''assertion id() < theElements.size()''))"

definition initElementsGraph :: "((nat \<times> nat) \<times> real) list \<Rightarrow> network \<Rightarrow> exn + network" where
  "initElementsGraph es N =
     (let n = length (nw_nodes N) + length (nw_links N);
          xs = map (\<lambda>(k, v). (nd_id v, ElNode v)) (nw_nodes N) @ map (\<lambda>(k, v). (lk_id v, ElLink v)) (nw_links N)
      in rbind (place xs (replicate n None)) (\<lambda>v.
           if None \<in> set v then Inl (Undefined ''assertion elem != nullptr'')
           else Inr (N\<lparr>nw_elements := map the v, nw_graph := (n, es), nw_cache := replicate n None\<rparr>)))"

text \<open>The constructor from files.\<close>

fun add_missing :: "string list \<Rightarrow> nat \<Rightarrow> network \<Rightarrow> exn + nat \<times> network" where
  "add_missing [] i N = Inr (i, N)"
| "add_missing (name # ns) i N =
     (if map_of (nw_nodes N) name = None \<and> map_of (nw_links N) name = None
      then rbind (node_networking name i) (\<lambda>n. add_missing ns (Suc i) (N\<lparr>nw_nodes := mput name n (nw_nodes N)\<rparr>))
      else add_missing ns i N)"

definition network_from_files :: "(string \<Rightarrow> char \<Rightarrow> string list) \<Rightarrow> (string \<Rightarrow> exn + real) \<Rightarrow>
    string \<times> string list option \<Rightarrow> string \<times> string list option \<Rightarrow> string \<times> string list option \<Rightarrow> exn + network" where
  "network_from_files split stof fnodes flinks fedges =
     rbind (loadFile (node_make split stof) (fst fnodes) (snd fnodes) 0) (\<lambda>(ns, i).
     rbind (loadFile (link_make split stof) (fst flinks) (snd flinks) i) (\<lambda>(ls, j).
     rbind (loadFile (\<lambda>s _. nodelist_make split s) (fst fedges) (snd fedges) 0) (\<lambda>(xs, _).
       (let nodes = foldl (\<lambda>m n. memplace (nd_name n) n m) [] ns;
            links = foldl (\<lambda>m l. memplace (lk_name l) l m) [] ls;
            N = network_empty\<lparr>nw_nodes := nodes, nw_links := links,
                  nw_clients := filter nd_client (map snd nodes), nw_processing := map snd nodes\<rparr>
        in rbind (add_missing (concat xs) j N) (\<lambda>(_, N).
           rbind (network_edges N (map (\<lambda>x. (hd x, tl x)) xs)) (\<lambda>es. initElementsGraph es N))))))"

text \<open>The constructor from nodes, links, edges and names of clients; the sets are ordered by identifier.\<close>

fun add_nodes :: "string list \<Rightarrow> node list \<Rightarrow> nat list \<Rightarrow> network \<Rightarrow> exn + nat list \<times> network" where
  "add_nodes cls [] ids N = Inr (ids, N)"
| "add_nodes cls (n # ns) ids N =
     (if map_of (nw_nodes N) (nd_name n) \<noteq> None then Inl (RuntimeError (''Duplicated node name: '' @ nd_name n))
      else if nd_id n \<in> set ids then Inl (RuntimeError (''Duplicated identifier: '' @ to_string (nd_id n)))
      else add_nodes cls ns (nd_id n # ids)
        (N\<lparr>nw_nodes := mput (nd_name n) n (nw_nodes N),
           nw_clients := nw_clients N @ (if nd_name n \<in> set cls then [n] else []),
           nw_processing := nw_processing N @ (if nd_type n = Processing then [n] else [])\<rparr>))"

fun add_links :: "link list \<Rightarrow> nat list \<Rightarrow> network \<Rightarrow> exn + nat list \<times> network" where
  "add_links [] ids N = Inr (ids, N)"
| "add_links (l # ls) ids N =
     (if map_of (nw_links N) (lk_name l) \<noteq> None then Inl (RuntimeError (''Duplicated link name: '' @ lk_name l))
      else if lk_id l \<in> set ids then Inl (RuntimeError (''Duplicated identifier: '' @ to_string (lk_id l)))
      else add_links ls (lk_id l # ids) (N\<lparr>nw_links := mput (lk_name l) l (nw_links N)\<rparr>))"

definition network_new :: "node list \<Rightarrow> link list \<Rightarrow> (string, string sset) smap \<Rightarrow> string sset \<Rightarrow> exn + network" where
  "network_new ns ls adj cls =
     rbind (add_nodes cls ns [] network_empty) (\<lambda>(ids, N).
     rbind (add_links ls ids N) (\<lambda>(_, N).
       if length (nw_clients N) \<noteq> length cls then Inl (RuntimeError ''Invalid clients passed: '')
       else rbind (network_edges N adj) (\<lambda>es. initElementsGraph es N)))"

definition network_cloud :: "real \<Rightarrow> real \<Rightarrow> network \<Rightarrow> (exn + unit) \<times> network" where
  "network_cloud lat rate N =
     (if lat < 0 then (Inl (RuntimeError ''the cloud latency cannot be negative''), N)
      else if rate \<le> 0 then (Inl (RuntimeError ''the cloud rate cannot be non-positive''), N)
      else (Inr (), N\<lparr>nw_cloud := Some (lat, rate)\<rparr>))"

text \<open>The shortest paths towards a destination, computed when they are first needed.\<close>

definition cacheEntry :: "dijkstra \<Rightarrow> nat \<Rightarrow> network \<Rightarrow> (exn + (real \<times> nat) list) \<times> network" where
  "cacheEntry dij dst N =
     (if dst \<ge> length (nw_cache N) then (Inl (Undefined ''assertion aDstId < theCache.size()''), N)
      else case nw_cache N ! dst of Some e \<Rightarrow> (Inr e, N)
      | None \<Rightarrow> (let e = dij (nw_graph N) dst in (Inr e, N\<lparr>nw_cache := (nw_cache N)[dst := Some e]\<rparr>)))"

definition cacheEntry_const :: "nat \<Rightarrow> network \<Rightarrow> exn + (real \<times> nat) list" where
  "cacheEntry_const dst N =
     (if dst \<ge> length (nw_cache N) then Inl (Undefined ''assertion aDstId < theCache.size()'')
      else case nw_cache N ! dst of Some e \<Rightarrow> Inr e
      | None \<Rightarrow> Inl (RuntimeError (''Routing cache entry does not exist for destination: '' @ el_name (nw_elements N ! dst))))"

definition nextHop :: "dijkstra \<Rightarrow> string \<Rightarrow> string \<Rightarrow> network \<Rightarrow> (exn + real \<times> string) \<times> network" where
  "nextHop dij src dst N = sbind (nw_id N dst, N) (\<lambda>d N. sbind (cacheEntry dij d N) (\<lambda>e N. sbind (nw_id N src, N) (\<lambda>s N.
     if s \<ge> length e then (Inl (Undefined ''assertion mySrcId < myCacheEntry.second.size()''), N)
     else if snd (e ! s) \<ge> length (nw_elements N) then (Inl (Undefined ''assertion myRet.second < theElements.size()''), N)
     else (Inr (fst (e ! s), el_name (nw_elements N ! snd (e ! s))), N))))"

text \<open>The loops that follow the predecessors up to the destination; they may not end.\<close>

partial_function (option) tx_loop :: "elem list \<Rightarrow> (real \<times> nat) list \<Rightarrow> nat \<Rightarrow> nat \<Rightarrow> nat \<Rightarrow> real \<Rightarrow> real option" where
  "tx_loop els e dst bytes cur t =
     (let nxt = snd (e ! cur)
      in if nxt = dst then Some t else tx_loop els e dst bytes nxt (t + el_txTime (els ! nxt) bytes))"

partial_function (option) hops_loop :: "elem list \<Rightarrow> (real \<times> nat) list \<Rightarrow> nat \<Rightarrow> nat \<Rightarrow> nat \<Rightarrow> nat option" where
  "hops_loop els e dst cur n =
     (let nxt = snd (e ! cur)
      in if nxt = dst then Some n else hops_loop els e dst nxt (if is_link (els ! nxt) then Suc n else n))"

text \<open>Two references are to the same node when the identifiers are the same, which are unique.\<close>

definition network_txTime :: "dijkstra \<Rightarrow> node \<Rightarrow> node \<Rightarrow> nat \<Rightarrow> network \<Rightarrow> ((exn + real) \<times> network) option" where
  "network_txTime dij src dst bytes N =
     (if bytes = 0 \<or> nd_id src = nd_id dst then Some (Inr 0, N)
      else case cacheEntry dij (nd_id dst) N of (Inl x, N) \<Rightarrow> Some (Inl x, N)
      | (Inr e, N) \<Rightarrow>
          if nd_id src \<ge> length e then Some (Inl (Undefined ''assertion aSrc.id() < myCacheEntry.second.size()''), N)
          else map_option (\<lambda>t. (Inr t, N)) (tx_loop (nw_elements N) e (nd_id dst) bytes (nd_id src) 0))"

definition network_hops :: "dijkstra \<Rightarrow> node \<Rightarrow> node \<Rightarrow> network \<Rightarrow> ((exn + nat) \<times> network) option" where
  "network_hops dij src dst N =
     (case cacheEntry dij (nd_id dst) N of (Inl x, N) \<Rightarrow> Some (Inl x, N)
      | (Inr e, N) \<Rightarrow>
          if nd_id src \<ge> length e then Some (Inl (Undefined ''assertion aSrc.id() < myCacheEntry.second.size()''), N)
          else map_option (\<lambda>t. (Inr t, N)) (hops_loop (nw_elements N) e (nd_id dst) (nd_id src) 0))"

definition network_txTimeCloud :: "nat \<Rightarrow> network \<Rightarrow> exn + real" where
  "network_txTimeCloud bytes N =
     (if bytes = 0 then Inr 0
      else case nw_cloud N of None \<Rightarrow> Inl (RuntimeError ''Cloud parameters not set'')
      | Some (lat, rate) \<Rightarrow> Inr (lat + real (8 * bytes mod 2 ^ 64) / (10 ^ 6 * rate)))"

section \<open>The elements are indexed by their identifiers\<close>

lemma place_ok:
  assumes "place xs v = Inr v'"
  shows "length v' = length v" "\<forall>(i, e)\<in>set xs. i < length v"
    and "\<forall>k<length v. v' ! k \<noteq> None \<longleftrightarrow> v ! k \<noteq> None \<or> k \<in> fst ` set xs"
    and "distinct (map fst xs) \<Longrightarrow> \<forall>(i, e)\<in>set xs. v' ! i = Some e"
    and "\<forall>k<length v. k \<notin> fst ` set xs \<longrightarrow> v' ! k = v ! k"
  using assms
proof (induction xs v rule: place.induct)
  case (2 i e xs v)
  {
    case 1
    then show ?case using 2 by (simp split: if_splits)
  next
    case 2
    then show ?case using "2.IH"(2) by (auto split: if_splits)
  next
    case 3
    then show ?case using "2.IH"(3) by (auto simp: nth_list_update split: if_splits)
  next
    case 4
    have i: "i < length v" "place xs (v[i := Some e]) = Inr v'" using 4(2) by (simp_all split: if_splits)
    have "v' ! i = Some e" using "2.IH"(5)[OF i] 4(1) i(1) by (auto simp: image_iff)
    then show ?case using "2.IH"(4)[OF i(1) _ i(2)] 4(1) by auto
  next
    case 5
    then show ?case using "2.IH"(5) by (auto simp: nth_list_update split: if_splits)
  }
qed simp_all

definition net_ok :: "network \<Rightarrow> bool" where
  "net_ok N \<longleftrightarrow> (let n = length (nw_elements N) in length (nw_cache N) = n \<and> fst (nw_graph N) = n \<and>
     (\<forall>v\<in>snd ` set (nw_nodes N). nd_id v < n \<and> nw_elements N ! nd_id v = ElNode v) \<and>
     (\<forall>v\<in>snd ` set (nw_links N). lk_id v < n \<and> nw_elements N ! lk_id v = ElLink v))"

lemma place_all:
  assumes "place xs (replicate (length xs) None) = Inr v" and "None \<notin> set v"
  shows "length v = length xs" "(i, e) \<in> set xs \<Longrightarrow> i < length xs \<and> v ! i = Some e"
proof -
  note P = place_ok[OF assms(1)]
  show len: "length v = length xs" using P(1) by simp
  have "k \<in> fst ` set xs" if "k < length xs" for k
  proof -
    have "v ! k \<in> set v" using that len by simp
    then have "v ! k \<noteq> None" using assms(2) by metis
    then show ?thesis using P(3) that by auto
  qed
  then have "{..<length xs} \<subseteq> set (map fst xs)" by auto
  then have "length (map fst xs) \<le> card (set (map fst xs))"
    by (metis List.finite_set card_lessThan card_mono length_map)
  then have "distinct (map fst xs)" by (metis card_distinct card_length le_antisym)
  then show "(i, e) \<in> set xs \<Longrightarrow> i < length xs \<and> v ! i = Some e" using P(2,4) by auto
qed

lemma initElementsGraph_ok:
  assumes "initElementsGraph es N = Inr N'"
  shows "net_ok N'" "nw_nodes N' = nw_nodes N" "nw_links N' = nw_links N" "nw_graph N' = (length (nw_elements N'), es)"
    "nw_cache N' = replicate (length (nw_elements N')) None" "nw_central N' = nw_central N"
    "nw_clients N' = nw_clients N" "nw_processing N' = nw_processing N"
proof -
  let ?n = "length (nw_nodes N) + length (nw_links N)"
  let ?xs = "map (\<lambda>(k, v). (nd_id v, ElNode v)) (nw_nodes N) @ map (\<lambda>(k, v). (lk_id v, ElLink v)) (nw_links N)"
  obtain v where v: "place ?xs (replicate ?n None) = Inr v" "None \<notin> set v"
    and N': "N' = N\<lparr>nw_elements := map the v, nw_graph := (?n, es), nw_cache := replicate ?n None\<rparr>"
    using assms by (auto simp: initElementsGraph_def Let_def rbind_eq_Inr split: if_splits)
  have pl: "place ?xs (replicate (length ?xs) None) = Inr v" using v(1) by simp
  note P = place_all[OF pl v(2)]
  have len: "length v = ?n" using P(1) by simp
  have "nd_id x < ?n \<and> the (v ! nd_id x) = ElNode x" if "x \<in> snd ` set (nw_nodes N)" for x
  proof -
    have "(nd_id x, ElNode x) \<in> set ?xs" using that by force
    from P(2)[OF this] show ?thesis using len by simp
  qed
  moreover have "lk_id x < ?n \<and> the (v ! lk_id x) = ElLink x" if "x \<in> snd ` set (nw_links N)" for x
  proof -
    have "(lk_id x, ElLink x) \<in> set ?xs" using that by force
    from P(2)[OF this] show ?thesis using len by simp
  qed
  ultimately show "net_ok N'" using len by (auto simp: net_ok_def N')
  show "nw_nodes N' = nw_nodes N" "nw_links N' = nw_links N" "nw_graph N' = (length (nw_elements N'), es)"
    "nw_cache N' = replicate (length (nw_elements N')) None" "nw_central N' = nw_central N"
    "nw_clients N' = nw_clients N" "nw_processing N' = nw_processing N"
    using len by (simp_all add: N')
qed

lemma nw_id_range:
  assumes "net_ok N" and "nw_id N name = Inr i"
  shows "i < length (nw_elements N)"
  using assms by (auto simp: net_ok_def nw_id_def Let_def split: option.splits dest!: map_of_SomeD)

lemma edges_to_range:
  assumes "edges_to N s w ds = Inr es" and "0 \<le> w"
  shows "\<forall>((a, b), x)\<in>set es. a = s \<and> (\<exists>d. nw_id N d = Inr b) \<and> 0 \<le> x"
  using assms
proof (induction ds arbitrary: es)
  case (Cons d ds)
  then obtain i c es' where e: "nw_id N d = Inr i" "edges_to N s w ds = Inr es'" "es = ((s, i), w + half_weight c) # es'"
    by (auto simp: rbind_eq_Inr)
  have "0 \<le> half_weight c" by (simp add: half_weight_def)
  then show ?case using Cons.IH[OF e(2) Cons.prems(2)] Cons.prems(2) e(1) unfolding e(3) by auto
qed simp

lemma network_edges_range:
  assumes "network_edges N xs = Inr es"
  shows "\<forall>((a, b), x)\<in>set es. (\<exists>s. nw_id N s = Inr a) \<and> (\<exists>d. nw_id N d = Inr b) \<and> 0 \<le> x"
  using assms
proof (induction N xs arbitrary: es rule: network_edges.induct)
  case (2 N s ds xs)
  then obtain i c e1 e2 where e: "nw_id N s = Inr i" "nw_capacity N s = Inr c" "edges_to N i (half_weight c) ds = Inr e1"
    "network_edges N xs = Inr e2" "es = e1 @ e2" by (auto simp: rbind_eq_Inr)
  have "0 \<le> half_weight c" by (simp add: half_weight_def)
  then show ?case using edges_to_range[OF e(3)] 2(1)[OF e(1-3) e(4)] e(1,5) by fastforce
qed simp

text \<open>What both constructors guarantee.\<close>

definition graph_ok :: "graph \<Rightarrow> bool" where
  "graph_ok G \<longleftrightarrow> (\<forall>((a, b), w)\<in>set (snd G). a < fst G \<and> b < fst G \<and> 0 \<le> w)"

lemma network_built_ok:
  assumes "network_edges N0 xs = Inr es" and "initElementsGraph es N0 = Inr N"
  shows "net_ok N" "graph_ok (nw_graph N)"
proof -
  note i = initElementsGraph_ok[OF assms(2)]
  show "net_ok N" by (rule i(1))
  have "nw_id N0 = nw_id N" by (intro ext) (simp only: nw_id_def i(2,3))
  then show "graph_ok (nw_graph N)"
    using network_edges_range[OF assms(1)] nw_id_range[OF i(1)] i(4) by (fastforce simp: graph_ok_def)
qed

lemma network_new_ok:
  assumes "network_new ns ls adj cls = Inr N"
  shows "net_ok N" "graph_ok (nw_graph N)" "nw_cache N = replicate (length (nw_elements N)) None"
  using assms network_built_ok initElementsGraph_ok(5)
  by (auto simp: network_new_def rbind_eq_Inr split: if_splits)

section \<open>Shortest paths\<close>

definition graph_rel :: "graph \<Rightarrow> (nat \<times> nat) set" where
  "graph_rel G = fst ` set (snd G)"

text \<open>
  The documented behaviour of \<open>boost::dijkstra_shortest_paths\<close> that the code relies on: the predecessors
  of the vertices reachable from the source form a tree of edges rooted at it, whose levels \<open>rank\<close> are, and
  any other vertex is its own predecessor.
\<close>

definition dijkstra_ok :: "dijkstra \<Rightarrow> graph \<Rightarrow> bool" where
  "dijkstra_ok dij G \<longleftrightarrow> (\<forall>s<fst G. \<exists>rank :: nat \<Rightarrow> nat.
     length (dij G s) = fst G \<and>
     (\<forall>v<fst G. if v \<noteq> s \<and> (s, v) \<in> (graph_rel G)\<^sup>* then (snd (dij G s ! v), v) \<in> graph_rel G \<and>
        (s, snd (dij G s ! v)) \<in> (graph_rel G)\<^sup>* \<and> rank (snd (dij G s ! v)) < rank v
      else snd (dij G s ! v) = v))"

text \<open>The elements between a vertex and the destination.\<close>

inductive branch :: "(real \<times> nat) list \<Rightarrow> nat \<Rightarrow> nat \<Rightarrow> nat list \<Rightarrow> bool" for e dst where
  branch_last: "snd (e ! cur) = dst \<Longrightarrow> branch e dst cur []"
| branch_next: "snd (e ! cur) \<noteq> dst \<Longrightarrow> branch e dst (snd (e ! cur)) xs \<Longrightarrow> branch e dst cur (snd (e ! cur) # xs)"

lemma tx_loop_branch: "branch e dst cur xs \<Longrightarrow> tx_loop els e dst bytes cur t = Some (t + (\<Sum>x\<leftarrow>xs. el_txTime (els ! x) bytes))"
  by (induction arbitrary: t rule: branch.induct) (subst tx_loop.simps, simp add: Let_def)+

lemma hops_loop_branch: "branch e dst cur xs \<Longrightarrow> hops_loop els e dst cur n = Some (n + length (filter (\<lambda>x. is_link (els ! x)) xs))"
  by (induction arbitrary: n rule: branch.induct) (subst hops_loop.simps, simp add: Let_def)+

text \<open>A vertex that is its own predecessor is never left.\<close>

lemma tx_loop_returns: "tx_loop els e dst bytes cur t = Some r \<Longrightarrow> snd (e ! cur) = cur \<longrightarrow> cur = dst"
  by (rule tx_loop.raw_induct[where P = "\<lambda>els e dst bytes cur t r. snd (e ! cur) = cur \<longrightarrow> cur = dst"])
    (auto simp: Let_def split: if_splits)

lemma hops_loop_returns: "hops_loop els e dst cur n = Some r \<Longrightarrow> snd (e ! cur) = cur \<longrightarrow> cur = dst"
  by (rule hops_loop.raw_induct[where P = "\<lambda>els e dst cur n r. snd (e ! cur) = cur \<longrightarrow> cur = dst"])
    (auto simp: Let_def split: if_splits)

lemma loops_stuck:
  assumes "snd (e ! cur) = cur" and "cur \<noteq> dst"
  shows "tx_loop els e dst bytes cur t = None" "hops_loop els e dst cur n = None"
  using tx_loop_returns[of els e dst bytes cur t] hops_loop_returns[of els e dst cur n] assms by (metis option.exhaust)+

text \<open>A vertex from which the destination can be reached is on a branch of the tree.\<close>

lemma branch_exists:
  assumes D: "dijkstra_ok dij G" and G: "graph_ok G" "s < fst G" and "v < fst G" "v \<noteq> s" "(s, v) \<in> (graph_rel G)\<^sup>*"
  shows "\<exists>xs. branch (dij G s) s v xs \<and> set xs \<subseteq> {..<fst G} - {s, v} \<and> distinct xs \<and>
    successively (\<lambda>x y. (y, x) \<in> graph_rel G) (v # xs @ [s])"
proof -
  obtain rank :: "nat \<Rightarrow> nat" where rank: "v < fst G \<Longrightarrow> v \<noteq> s \<Longrightarrow> (s, v) \<in> (graph_rel G)\<^sup>* \<Longrightarrow>
      (snd (dij G s ! v), v) \<in> graph_rel G \<and> (s, snd (dij G s ! v)) \<in> (graph_rel G)\<^sup>* \<and> rank (snd (dij G s ! v)) < rank v" for v
    using D G(2) unfolding dijkstra_ok_def by (metis (no_types, lifting))
  have "\<exists>xs. branch (dij G s) s v xs \<and> set xs \<subseteq> {..<fst G} - {s} \<and> distinct xs \<and> (\<forall>x\<in>set xs. rank x < rank v) \<and>
      successively (\<lambda>x y. (y, x) \<in> graph_rel G) (v # xs @ [s])"
    using assms(4-6)
  proof (induction "rank v" arbitrary: v rule: less_induct)
    case less
    let ?p = "snd (dij G s ! v)"
    note p = rank[OF less.prems]
    have "?p < fst G" using p G(1) by (auto simp: graph_rel_def graph_ok_def)
    show ?case
    proof (cases "?p = s")
      case True
      then show ?thesis using p by (intro exI[of _ "[]"]) (simp add: branch_last)
    next
      case False
      then obtain xs where xs: "branch (dij G s) s ?p xs" "set xs \<subseteq> {..<fst G} - {s}" "distinct xs" "\<forall>x\<in>set xs. rank x < rank ?p"
        "successively (\<lambda>x y. (y, x) \<in> graph_rel G) (?p # xs @ [s])"
        using less.hyps[of ?p] p \<open>?p < fst G\<close> by blast
      then show ?thesis using False p \<open>?p < fst G\<close>
        by (intro exI[of _ "?p # xs"]) (auto intro: branch_next)
    qed
  qed
  then show ?thesis by fastforce
qed

text \<open>The value of a cache entry does not depend on what was computed before.\<close>

definition cache_ok :: "dijkstra \<Rightarrow> network \<Rightarrow> bool" where
  "cache_ok dij N \<longleftrightarrow> (\<forall>d<length (nw_cache N). nw_cache N ! d = None \<or> nw_cache N ! d = Some (dij (nw_graph N) d))"

text \<open>What does not change in the lifetime of a network.\<close>

definition same_net :: "network \<Rightarrow> network \<Rightarrow> bool" where
  "same_net N N' \<longleftrightarrow> nw_nodes N' = nw_nodes N \<and> nw_links N' = nw_links N \<and> nw_elements N' = nw_elements N \<and>
     nw_clients N' = nw_clients N \<and> nw_processing N' = nw_processing N \<and> nw_graph N' = nw_graph N \<and>
     length (nw_cache N') = length (nw_cache N)"

lemma cacheEntry_ok:
  assumes "cache_ok dij N" and "d < length (nw_cache N)"
  shows "\<exists>N'. cacheEntry dij d N = (Inr (dij (nw_graph N) d), N') \<and> same_net N N' \<and> cache_ok dij N' \<and>
    nw_cloud N' = nw_cloud N \<and> nw_central N' = nw_central N"
proof (cases "nw_cache N ! d")
  case None
  then show ?thesis using assms
    by (auto simp: cacheEntry_def Let_def same_net_def cache_ok_def nth_list_update)
next
  case (Some e)
  then have "e = dij (nw_graph N) d" using assms by (auto simp: cache_ok_def)
  then show ?thesis using assms Some by (auto simp: cacheEntry_def same_net_def)
qed

text \<open>A network that answers queries: what the constructors establish and every query keeps.\<close>

definition snet_inv :: "dijkstra \<Rightarrow> network \<Rightarrow> bool" where
  "snet_inv dij N \<longleftrightarrow> net_ok N \<and> graph_ok (nw_graph N) \<and> cache_ok dij N"

lemma snet_inv_same: "snet_inv dij N \<Longrightarrow> same_net N N' \<Longrightarrow> cache_ok dij N' \<Longrightarrow> snet_inv dij N'"
  by (simp add: snet_inv_def same_net_def net_ok_def)

lemma network_new_inv:
  assumes "network_new ns ls adj cls = Inr N"
  shows "snet_inv dij N"
  using network_new_ok[OF assms] by (auto simp: snet_inv_def cache_ok_def)

text \<open>The time and the hops of a transfer, from the elements between the two nodes.\<close>

definition path_time :: "network \<Rightarrow> nat list \<Rightarrow> nat \<Rightarrow> real" where
  "path_time N xs bytes = (\<Sum>x\<leftarrow>xs. el_txTime (nw_elements N ! x) bytes)"

definition path_hops :: "network \<Rightarrow> nat list \<Rightarrow> nat" where
  "path_hops N xs = length (filter (\<lambda>x. is_link (nw_elements N ! x)) xs)"

definition reaches :: "network \<Rightarrow> node \<Rightarrow> node \<Rightarrow> bool" where
  "reaches N a b \<longleftrightarrow> (nd_id a, nd_id b) \<in> (graph_rel (nw_graph N))\<^sup>*"

lemma node_range: "net_ok N \<Longrightarrow> v \<in> snd ` set (nw_nodes N) \<Longrightarrow> nd_id v < fst (nw_graph N)"
  by (auto simp: net_ok_def Let_def)

definition keeps_rest :: "network \<Rightarrow> network \<Rightarrow> bool" where
  "keeps_rest N N' \<longleftrightarrow> nw_cloud N' = nw_cloud N \<and> nw_central N' = nw_central N"

lemma transfer_branch:
  assumes "dijkstra_ok dij (nw_graph N)" and I: "snet_inv dij N" and r: "nd_id src < fst (nw_graph N)" "nd_id dst < fst (nw_graph N)"
    and "nd_id src \<noteq> nd_id dst" and xs: "branch (dij (nw_graph N) (nd_id dst)) (nd_id dst) (nd_id src) xs"
  shows "\<exists>N'. same_net N N' \<and> snet_inv dij N' \<and> keeps_rest N N' \<and>
    network_txTime dij src dst bytes N = Some (Inr (if bytes = 0 then 0 else path_time N xs bytes), if bytes = 0 then N else N') \<and>
    network_hops dij src dst N = Some (Inr (path_hops N xs), N')"
proof -
  have N: "net_ok N" "cache_ok dij N" using I by (simp_all add: snet_inv_def)
  have c: "nd_id dst < length (nw_cache N)" using r(2) N(1) by (simp add: net_ok_def Let_def)
  obtain N' where N': "cacheEntry dij (nd_id dst) N = (Inr (dij (nw_graph N) (nd_id dst)), N')" "same_net N N'" "cache_ok dij N'" "keeps_rest N N'"
    using cacheEntry_ok[OF N(2) c] unfolding keeps_rest_def by blast
  have len: "nd_id src < length (dij (nw_graph N) (nd_id dst))"
    using assms(1) r unfolding dijkstra_ok_def by metis
  have e: "nw_elements N' = nw_elements N" using N'(2) by (simp add: same_net_def)
  have "network_txTime dij src dst bytes N = Some (Inr (if bytes = 0 then 0 else path_time N xs bytes), if bytes = 0 then N else N')"
    using N'(1) len assms(5) e by (simp add: network_txTime_def tx_loop_branch[OF xs] path_time_def)
  moreover have "network_hops dij src dst N = Some (Inr (path_hops N xs), N')"
    using N'(1) len e by (simp add: network_hops_def hops_loop_branch[OF xs] path_hops_def)
  ultimately show ?thesis using N'(2,4) snet_inv_same[OF I N'(2,3)] by auto
qed

lemma transfer_reachable:
  assumes "dijkstra_ok dij (nw_graph N)" and I: "snet_inv dij N" and n: "src \<in> snd ` set (nw_nodes N)" "dst \<in> snd ` set (nw_nodes N)"
    and "nd_id src \<noteq> nd_id dst" and "reaches N dst src"
  shows "\<exists>xs. successively (\<lambda>x y. (y, x) \<in> graph_rel (nw_graph N)) (nd_id src # xs @ [nd_id dst]) \<and> distinct xs \<and>
    (\<forall>N1 bytes. same_net N N1 \<and> snet_inv dij N1 \<longrightarrow> (\<exists>N2. same_net N N2 \<and> snet_inv dij N2 \<and> keeps_rest N1 N2 \<and>
      network_txTime dij src dst bytes N1 = Some (Inr (if bytes = 0 then 0 else path_time N xs bytes), if bytes = 0 then N1 else N2) \<and>
      network_hops dij src dst N1 = Some (Inr (path_hops N xs), N2)))"
proof -
  have N: "net_ok N" "graph_ok (nw_graph N)" using I by (simp_all add: snet_inv_def)
  have r: "nd_id src < fst (nw_graph N)" "nd_id dst < fst (nw_graph N)" using node_range[OF N(1)] n by auto
  obtain xs where xs: "branch (dij (nw_graph N) (nd_id dst)) (nd_id dst) (nd_id src) xs" "distinct xs"
    "successively (\<lambda>x y. (y, x) \<in> graph_rel (nw_graph N)) (nd_id src # xs @ [nd_id dst])"
    using branch_exists[OF assms(1) N(2) r(2,1)] assms(5,6) unfolding reaches_def by blast
  have "\<exists>N2. same_net N N2 \<and> snet_inv dij N2 \<and> keeps_rest N1 N2 \<and>
      network_txTime dij src dst bytes N1 = Some (Inr (if bytes = 0 then 0 else path_time N xs bytes), if bytes = 0 then N1 else N2) \<and>
      network_hops dij src dst N1 = Some (Inr (path_hops N xs), N2)" if s: "same_net N N1" and i: "snet_inv dij N1" for N1 bytes
  proof -
    have e: "nw_graph N1 = nw_graph N" "nw_elements N1 = nw_elements N" using s by (simp_all add: same_net_def)
    have "path_time N1 xs = path_time N xs" "path_hops N1 xs = path_hops N xs" by (simp_all add: path_time_def path_hops_def e fun_eq_iff)
    moreover have "same_net N N2" if "same_net N1 N2" for N2 using s that by (simp add: same_net_def)
    ultimately show ?thesis
      using transfer_branch[of dij N1 src dst xs bytes] assms(1,5) xs(1) r i unfolding e by auto
  qed
  then show ?thesis using xs by blast
qed

lemma transfer_unreachable:
  assumes "dijkstra_ok dij (nw_graph N)" and I: "snet_inv dij N" and n: "src \<in> snd ` set (nw_nodes N)" "dst \<in> snd ` set (nw_nodes N)"
    and "nd_id src \<noteq> nd_id dst" and "\<not> reaches N dst src"
  shows "bytes \<noteq> 0 \<Longrightarrow> network_txTime dij src dst bytes N = None" "network_hops dij src dst N = None"
proof -
  have N: "net_ok N" "graph_ok (nw_graph N)" "cache_ok dij N" using I by (simp_all add: snet_inv_def)
  have r: "nd_id src < fst (nw_graph N)" "nd_id dst < fst (nw_graph N)" using node_range[OF N(1)] n by auto
  have c: "nd_id dst < length (nw_cache N)" using r(2) N(1) by (simp add: net_ok_def Let_def)
  obtain N' where N': "cacheEntry dij (nd_id dst) N = (Inr (dij (nw_graph N) (nd_id dst)), N')"
    using cacheEntry_ok[OF N(3) c] by blast
  have d: "length (dij (nw_graph N) (nd_id dst)) = fst (nw_graph N)" "snd (dij (nw_graph N) (nd_id dst) ! nd_id src) = nd_id src"
    using assms(1,5,6) r unfolding dijkstra_ok_def reaches_def by (metis (no_types, lifting))+
  note stuck = loops_stuck[OF d(2) assms(5)]
  show "bytes \<noteq> 0 \<Longrightarrow> network_txTime dij src dst bytes N = None" "network_hops dij src dst N = None"
    using N' d(1) r(1) assms(5) stuck by (simp_all add: network_txTime_def network_hops_def)
qed

text \<open>
  C28: once a network was built, and whatever was asked of it before, the time and the hops of a transfer
  between two distinct nodes are computed in a finite number of steps exactly when the destination reaches
  the source in the graph; otherwise the loops never end. The values are those of the elements on a
  path without repetitions, whose edges are the ones of the graph reversed, and the same at every query.
\<close>

theorem network_transfer_times:
  assumes "network_new ns ls adj cls = Inr N0" and "same_net N0 N" and "cache_ok dij N" and "dijkstra_ok dij (nw_graph N0)"
    and "src \<in> snd ` set (nw_nodes N0)" and "dst \<in> snd ` set (nw_nodes N0)" and "nd_id src \<noteq> nd_id dst" and "bytes \<noteq> 0"
  shows "(network_txTime dij src dst bytes N = None \<longleftrightarrow> \<not> reaches N0 dst src) \<and>
    (network_hops dij src dst N = None \<longleftrightarrow> \<not> reaches N0 dst src) \<and>
    (reaches N0 dst src \<longrightarrow> (\<exists>xs N'. successively (\<lambda>x y. (y, x) \<in> graph_rel (nw_graph N0)) (nd_id src # xs @ [nd_id dst]) \<and> distinct xs \<and>
       network_txTime dij src dst bytes N = Some (Inr (path_time N0 xs bytes), N') \<and>
       network_hops dij src dst N = Some (Inr (path_hops N0 xs), N') \<and>
       (\<exists>N''. network_txTime dij src dst bytes N' = Some (Inr (path_time N0 xs bytes), N''))))"
proof -
  have s: "nw_nodes N = nw_nodes N0" "nw_graph N = nw_graph N0" "nw_elements N = nw_elements N0" using assms(2) by (simp_all add: same_net_def)
  have I: "snet_inv dij N" by (rule snet_inv_same[OF network_new_inv[OF assms(1)] assms(2,3)])
  have n: "src \<in> snd ` set (nw_nodes N)" "dst \<in> snd ` set (nw_nodes N)" using assms(5,6) s by simp_all
  have D: "dijkstra_ok dij (nw_graph N)" using assms(4) s by simp
  have R: "reaches N0 dst src = reaches N dst src" by (simp add: reaches_def s)
  show ?thesis
  proof (cases "reaches N dst src")
    case False
    then show ?thesis using transfer_unreachable[OF D I n assms(7) False] assms(8) R by simp
  next
    case True
    obtain xs where x: "successively (\<lambda>x y. (y, x) \<in> graph_rel (nw_graph N)) (nd_id src # xs @ [nd_id dst])" "distinct xs"
      and q0: "\<forall>N1 bytes. same_net N N1 \<and> snet_inv dij N1 \<longrightarrow> (\<exists>N2. same_net N N2 \<and> snet_inv dij N2 \<and> keeps_rest N1 N2 \<and>
        network_txTime dij src dst bytes N1 = Some (Inr (if bytes = 0 then 0 else path_time N xs bytes), if bytes = 0 then N1 else N2) \<and>
        network_hops dij src dst N1 = Some (Inr (path_hops N xs), N2))"
      using transfer_reachable[OF D I n assms(7) True] by blast
    have q: "\<exists>N2. same_net N N2 \<and> snet_inv dij N2 \<and>
        network_txTime dij src dst bytes N1 = Some (Inr (path_time N xs bytes), N2) \<and> network_hops dij src dst N1 = Some (Inr (path_hops N xs), N2)"
      if "same_net N N1" "snet_inv dij N1" for N1
      using q0[rule_format, of N1 bytes] that assms(8) by auto
    obtain N1 where N1: "same_net N N1" "snet_inv dij N1" "network_txTime dij src dst bytes N = Some (Inr (path_time N xs bytes), N1)"
      "network_hops dij src dst N = Some (Inr (path_hops N xs), N1)"
      using q[of N] I by (auto simp: same_net_def)
    have "path_time N0 xs = path_time N xs" "path_hops N0 xs = path_hops N xs" by (simp_all add: path_time_def path_hops_def s fun_eq_iff)
    then show ?thesis using x N1 q[OF N1(1,2)] R s(2) True by auto
  qed
qed

text \<open>
  Two nodes joined by a link of 8 Mb/s, with edges in one direction only: the time from the node \<open>b\<close> to
  the node \<open>a\<close> is computed, and the one from \<open>a\<close> to \<open>b\<close> is not.
\<close>

definition node_ex :: "string \<Rightarrow> nat \<Rightarrow> node" where
  "node_ex name i = \<lparr>nd_name = name, nd_id = i, nd_type = Processing, nd_speed = 1, nd_memory = 1, nd_affinity = Cpu, nd_client = True\<rparr>"

definition link_ex :: link where
  "link_ex = \<lparr>lk_type = SharedLink, lk_name = ''l'', lk_id = 2, lk_capacity = 8 * 10 ^ 6\<rparr>"

definition dij_ex :: dijkstra where
  "dij_ex G s = (if s = 0 then [(0, 0), (0, 2), (0, 0)] else if s = 2 then [(0, 0), (0, 2), (0, 2)] else [(0, 0), (0, 1), (0, 2)])"

definition snet_ex :: network where
  "snet_ex = \<lparr>nw_nodes = [(''a'', node_ex ''a'' 0), (''b'', node_ex ''b'' 1)], nw_links = [(''l'', link_ex)],
     nw_elements = [ElNode (node_ex ''a'' 0), ElNode (node_ex ''b'' 1), ElLink link_ex],
     nw_clients = [node_ex ''a'' 0], nw_processing = [node_ex ''a'' 0, node_ex ''b'' 1],
     nw_graph = (3, [((0, 2), 1 / 4000000), ((2, 1), 1 / 4000000)]), nw_cloud = None, nw_cache = [None, None, None], nw_central = None\<rparr>"

lemma network_new_ex:
  "network_new [node_ex ''a'' 0, node_ex ''b'' 1] [link_ex] [(''a'', [''l'']), (''l'', [''b''])] [''a''] = Inr snet_ex"
  by (simp add: network_new_def network_empty_def node_ex_def link_ex_def snet_ex_def nw_id_def nw_capacity_def half_weight_def
      initElementsGraph_def rbind_def numeral_2_eq_2 numeral_3_eq_3)

lemma graph_rel_ex: "graph_rel (nw_graph snet_ex) = {(0, 2), (2, 1)}"
  by (simp add: graph_rel_def snet_ex_def)

lemma reach_ex: "(0, v) \<in> {(0, 2), (2, 1 :: nat)}\<^sup>*  \<longleftrightarrow> v \<in> {0, 1, 2 :: nat}"
  "(1, v) \<in> {(0, 2), (2, 1 :: nat)}\<^sup>* \<longleftrightarrow> v = 1" "(2, v) \<in> {(0, 2), (2, 1 :: nat)}\<^sup>* \<longleftrightarrow> v \<in> {1, 2 :: nat}"
proof -
  let ?R = "{(0, 2), (2, 1 :: nat)}"
  have fwd: "(a, v) \<in> ?R\<^sup>* \<Longrightarrow> a = 0 \<and> v \<in> {0, 1, 2} \<or> a = 1 \<and> v = 1 \<or> a = 2 \<and> v \<in> {1, 2} \<or> a = v" for a
    by (induction rule: rtrancl_induct) auto
  have e: "(0, 2) \<in> ?R\<^sup>*" "(2, 1) \<in> ?R\<^sup>*" by auto
  then have "(0, 1) \<in> ?R\<^sup>*" by (rule rtrancl_trans)
  then show "(0, v) \<in> ?R\<^sup>* \<longleftrightarrow> v \<in> {0, 1, 2}" "(1, v) \<in> ?R\<^sup>* \<longleftrightarrow> v = 1" "(2, v) \<in> ?R\<^sup>* \<longleftrightarrow> v \<in> {1, 2}"
    using fwd[of 0] fwd[of 1] fwd[of 2] e by auto
qed

lemma dij_ex_ok: "dijkstra_ok dij_ex (nw_graph snet_ex)"
proof -
  have three: "fst (nw_graph snet_ex) = 3" by (simp add: snet_ex_def)
  have v3: "v < 3 \<longleftrightarrow> v = 0 \<or> v = 1 \<or> v = (2 :: nat)" for v by auto
  let ?R = "{(0, 2), (2, 1 :: nat)}"
  let ?rank = "\<lambda>v. if v = 0 then 0 else if v = 2 then 1 else (2 :: nat)"
  have main: "length (dij_ex G s) = 3 \<and> (\<forall>v<3. if v \<noteq> s \<and> (s, v) \<in> ?R\<^sup>* then (snd (dij_ex G s ! v), v) \<in> ?R \<and>
        (s, snd (dij_ex G s ! v)) \<in> ?R\<^sup>* \<and> ?rank (snd (dij_ex G s ! v)) < ?rank v
      else snd (dij_ex G s ! v) = v)" if "s < 3" for s G
  proof -
    consider "s = 0" | "s = 1" | "s = 2" using v3[of s] \<open>s < 3\<close> by fast
    then show ?thesis
    proof cases
      case 1
      then show ?thesis using reach_ex(1) unfolding v3 by (simp add: dij_ex_def del: One_nat_def)
    next
      case 2
      then show ?thesis using reach_ex(2) unfolding v3 by (simp add: dij_ex_def del: One_nat_def)
    next
      case 3
      then show ?thesis using reach_ex(3) unfolding v3 by (simp add: dij_ex_def del: One_nat_def)
    qed
  qed
  show ?thesis unfolding dijkstra_ok_def three graph_rel_ex
    by (intro allI impI, rule exI[of _ ?rank], rule main)
qed

theorem network_transfer_times_witness:
  "network_txTime dij_ex (node_ex ''a'' 0) (node_ex ''b'' 1) 1000 snet_ex = None \<and>
   (\<exists>t N. network_txTime dij_ex (node_ex ''b'' 1) (node_ex ''a'' 0) 1000 snet_ex = Some (Inr t, N))"
proof -
  have c: "cache_ok dij_ex snet_ex" "same_net snet_ex snet_ex" by (simp_all add: cache_ok_def snet_ex_def same_net_def numeral_3_eq_3 less_Suc_eq)
  have n: "node_ex ''a'' 0 \<in> snd ` set (nw_nodes snet_ex)" "node_ex ''b'' 1 \<in> snd ` set (nw_nodes snet_ex)"
    by (simp_all add: snet_ex_def)
  have r: "reaches snet_ex (node_ex ''a'' 0) (node_ex ''b'' 1)" "\<not> reaches snet_ex (node_ex ''b'' 1) (node_ex ''a'' 0)"
    unfolding reaches_def graph_rel_ex using reach_ex(1)[of 1] reach_ex(2)[of 0] by (simp_all add: node_ex_def)
  note T = network_transfer_times[OF network_new_ex c(2,1) dij_ex_ok]
  show ?thesis using T[OF n, of 1000] T[OF n(2,1), of 1000] r by (auto simp: node_ex_def)
qed

section \<open>The central node\<close>

text \<open>The larger of the times of the two directions, for every target; 1000 bytes are transferred.\<close>

fun tx_times :: "dijkstra \<Rightarrow> node \<Rightarrow> node list \<Rightarrow> network \<Rightarrow> ((exn + real list) \<times> network) option" where
  "tx_times dij c [] N = Some (Inr [], N)"
| "tx_times dij c (t # ts) N = (case network_txTime dij c t 1000 N of None \<Rightarrow> None
     | Some (Inl x, N) \<Rightarrow> Some (Inl x, N)
     | Some (Inr a, N) \<Rightarrow> (case network_txTime dij t c 1000 N of None \<Rightarrow> None
         | Some (Inl x, N) \<Rightarrow> Some (Inl x, N)
         | Some (Inr b, N) \<Rightarrow> (case tx_times dij c ts N of None \<Rightarrow> None
             | Some (Inl x, N) \<Rightarrow> Some (Inl x, N)
             | Some (Inr xs, N) \<Rightarrow> Some (Inr (max a b # xs), N))))"

fun central_loop :: "dijkstra \<Rightarrow> node list \<Rightarrow> real \<Rightarrow> network \<Rightarrow> ((exn + unit) \<times> network) option" where
  "central_loop dij [] worst N = Some (Inr (), N)"
| "central_loop dij (c # cs) worst N = (case tx_times dij c (nw_processing N) N of None \<Rightarrow> None
     | Some (Inl x, N) \<Rightarrow> Some (Inl x, N)
     | Some (Inr xs, N) \<Rightarrow>
         (let w = Max (set xs)
          in if nw_central N = None \<or> w < worst then central_loop dij cs w (N\<lparr>nw_central := Some c\<rparr>)
             else central_loop dij cs worst N))"

definition network_central :: "dijkstra \<Rightarrow> network \<Rightarrow> ((exn + node option) \<times> network) option" where
  "network_central dij N = (if nw_central N \<noteq> None then Some (Inr (nw_central N), N)
     else case central_loop dij (nw_processing N) 0 N of None \<Rightarrow> None
     | Some (Inl x, N) \<Rightarrow> Some (Inl x, N)
     | Some (Inr _, N) \<Rightarrow> Some (Inr (nw_central N), N))"

text \<open>The values of a network whose nodes reach one another.\<close>

definition net_tx :: "dijkstra \<Rightarrow> network \<Rightarrow> node \<Rightarrow> node \<Rightarrow> nat \<Rightarrow> real" where
  "net_tx dij N a b bytes = (case network_txTime dij a b bytes N of Some (Inr t, _) \<Rightarrow> t | _ \<Rightarrow> 0)"

definition net_hops :: "dijkstra \<Rightarrow> network \<Rightarrow> node \<Rightarrow> node \<Rightarrow> nat" where
  "net_hops dij N a b = (case network_hops dij a b N of Some (Inr h, _) \<Rightarrow> h | _ \<Rightarrow> 0)"

definition all_reach :: "network \<Rightarrow> node set \<Rightarrow> bool" where
  "all_reach N ns \<longleftrightarrow> ns \<subseteq> snd ` set (nw_nodes N) \<and> (\<forall>a\<in>ns. \<forall>b\<in>ns. reaches N a b)"

lemma net_tx_query:
  assumes "dijkstra_ok dij (nw_graph N)" and "snet_inv dij N" and "all_reach N ns" and "a \<in> ns" "b \<in> ns"
    and "same_net N N1" and "snet_inv dij N1"
  shows "\<exists>N2. network_txTime dij a b bytes N1 = Some (Inr (net_tx dij N a b bytes), N2) \<and> same_net N N2 \<and> snet_inv dij N2 \<and> keeps_rest N1 N2"
proof (cases "nd_id a = nd_id b \<or> bytes = 0")
  case True
  then show ?thesis using assms(6,7) by (auto simp: network_txTime_def net_tx_def keeps_rest_def)
next
  case False
  have r: "a \<in> snd ` set (nw_nodes N)" "b \<in> snd ` set (nw_nodes N)" "reaches N b a" using assms(3-5) by (auto simp: all_reach_def)
  from transfer_reachable[OF assms(1,2) r(1,2) _ r(3)] False
  obtain xs where q: "\<forall>N1 bytes. same_net N N1 \<and> snet_inv dij N1 \<longrightarrow> (\<exists>N2. same_net N N2 \<and> snet_inv dij N2 \<and> keeps_rest N1 N2 \<and>
        network_txTime dij a b bytes N1 = Some (Inr (if bytes = 0 then 0 else path_time N xs bytes), if bytes = 0 then N1 else N2) \<and>
        network_hops dij a b N1 = Some (Inr (path_hops N xs), N2))" by blast
  have "same_net N N" by (simp add: same_net_def)
  then have "net_tx dij N a b bytes = path_time N xs bytes"
    using q[rule_format, of N bytes] assms(2) False by (auto simp: net_tx_def)
  then show ?thesis using q[rule_format, of N1 bytes] assms(6,7) False by auto
qed

definition worst_time :: "dijkstra \<Rightarrow> network \<Rightarrow> node \<Rightarrow> real" where
  "worst_time dij N c = Max ((\<lambda>t. max (net_tx dij N c t 1000) (net_tx dij N t c 1000)) ` set (nw_processing N))"

lemma tx_times_query:
  assumes "dijkstra_ok dij (nw_graph N)" and "snet_inv dij N" and "all_reach N ns" and "c \<in> ns" "set ts \<subseteq> ns"
    and "same_net N N1" and "snet_inv dij N1"
  shows "\<exists>N2. tx_times dij c ts N1 = Some (Inr (map (\<lambda>t. max (net_tx dij N c t 1000) (net_tx dij N t c 1000)) ts), N2) \<and>
    same_net N N2 \<and> snet_inv dij N2 \<and> keeps_rest N1 N2"
  using assms(5-7)
proof (induction ts arbitrary: N1)
  case Nil
  then show ?case by (simp add: keeps_rest_def)
next
  case (Cons t ts)
  note Q = net_tx_query[OF assms(1-3)]
  have t: "t \<in> ns" "set ts \<subseteq> ns" using Cons.prems(1) by auto
  obtain N2 where N2: "network_txTime dij c t 1000 N1 = Some (Inr (net_tx dij N c t 1000), N2)" "same_net N N2" "snet_inv dij N2" "keeps_rest N1 N2"
    using Q[OF assms(4) t(1) Cons.prems(2,3)] by blast
  obtain N3 where N3: "network_txTime dij t c 1000 N2 = Some (Inr (net_tx dij N t c 1000), N3)" "same_net N N3" "snet_inv dij N3" "keeps_rest N2 N3"
    using Q[OF t(1) assms(4) N2(2,3)] by blast
  obtain N4 where "tx_times dij c ts N3 = Some (Inr (map (\<lambda>t. max (net_tx dij N c t 1000) (net_tx dij N t c 1000)) ts), N4)"
    "same_net N N4" "snet_inv dij N4" "keeps_rest N3 N4"
    using Cons.IH[OF t(2) N3(2,3)] by blast
  then show ?case using N2 N3 by (auto simp: keeps_rest_def)
qed

lemma central_loop_min:
  assumes "dijkstra_ok dij (nw_graph N)" and "snet_inv dij N" and "all_reach N (set (nw_processing N))"
    and "set cs \<subseteq> set (nw_processing N)" and "same_net N N1" and "snet_inv dij N1"
    and "\<forall>d. nw_central N1 = Some d \<longrightarrow> d \<in> set (nw_processing N) \<and> w = worst_time dij N d" and "cs \<noteq> [] \<or> nw_central N1 \<noteq> None"
  shows "\<exists>N2 d. central_loop dij cs w N1 = Some (Inr (), N2) \<and> same_net N N2 \<and> snet_inv dij N2 \<and> nw_central N2 = Some d \<and>
    d \<in> set (nw_processing N) \<and> (\<forall>x\<in>set cs. worst_time dij N d \<le> worst_time dij N x) \<and>
    (\<forall>e. nw_central N1 = Some e \<longrightarrow> worst_time dij N d \<le> worst_time dij N e)"
  using assms(4-8)
proof (induction cs arbitrary: N1 w)
  case Nil
  then show ?case by auto
next
  case (Cons c cs)
  let ?W = "worst_time dij N"
  have p: "nw_processing N1 = nw_processing N" using Cons.prems(2) by (simp add: same_net_def)
  obtain N2 where N2: "tx_times dij c (nw_processing N1) N1 = Some (Inr (map (\<lambda>t. max (net_tx dij N c t 1000) (net_tx dij N t c 1000)) (nw_processing N)), N2)"
    "same_net N N2" "snet_inv dij N2" "keeps_rest N1 N2"
    using tx_times_query[OF assms(1-3), of c "nw_processing N" N1] Cons.prems(1-3) p by auto
  have W: "Max (set (map (\<lambda>t. max (net_tx dij N c t 1000) (net_tx dij N t c 1000)) (nw_processing N))) = ?W c"
    by (simp add: worst_time_def)
  have c: "nw_central N2 = nw_central N1" using N2(4) by (simp add: keeps_rest_def)
  show ?case
  proof (cases "nw_central N1 = None \<or> ?W c < w")
    case True
    let ?N = "N2\<lparr>nw_central := Some c\<rparr>"
    have s: "same_net N ?N" "snet_inv dij ?N" using N2(2,3) by (simp_all add: same_net_def snet_inv_def net_ok_def cache_ok_def)
    obtain N3 d where "central_loop dij cs (?W c) ?N = Some (Inr (), N3)" "same_net N N3" "snet_inv dij N3" "nw_central N3 = Some d"
      "d \<in> set (nw_processing N)" "\<forall>x\<in>set cs. ?W d \<le> ?W x" "?W d \<le> ?W c"
      using Cons.IH[OF _ s, of "?W c"] Cons.prems(1) by auto
    moreover have "?W d \<le> ?W e" if "nw_central N1 = Some e" for e
      using calculation(7) True that Cons.prems(4) by auto
    ultimately show ?thesis using N2(1) W c True by (auto simp: Let_def)
  next
    case False
    then obtain e where e: "nw_central N1 = Some e" by auto
    obtain N3 d where "central_loop dij cs w N2 = Some (Inr (), N3)" "same_net N N3" "snet_inv dij N3" "nw_central N3 = Some d"
      "d \<in> set (nw_processing N)" "\<forall>x\<in>set cs. ?W d \<le> ?W x" "?W d \<le> ?W e"
      using Cons.IH[OF _ N2(2,3), of w] Cons.prems(1,4) c e by auto
    moreover have "w = ?W e" using Cons.prems(4) e by simp
    ultimately show ?thesis using N2(1) W c False e by (auto simp: Let_def)
  qed
qed


text \<open>The same two nodes with edges in both directions.\<close>

definition snet2_ex :: network where
  "snet2_ex = snet_ex\<lparr>nw_graph := (3, [((0, 2), 1 / 4000000), ((1, 2), 1 / 4000000), ((2, 0), 1 / 4000000), ((2, 1), 1 / 4000000)])\<rparr>"

definition dij2_ex :: dijkstra where
  "dij2_ex G s = (if s = 0 then [(0, 0), (0, 2), (0, 0)] else if s = 1 then [(0, 2), (0, 1), (0, 1)] else [(0, 2), (0, 2), (0, 2)])"

lemma network_new_ex2:
  "network_new [node_ex ''a'' 0, node_ex ''b'' 1] [link_ex] [(''a'', [''l'']), (''b'', [''l'']), (''l'', [''a'', ''b''])] [''a''] = Inr snet2_ex"
  by (simp add: network_new_def network_empty_def node_ex_def link_ex_def snet_ex_def snet2_ex_def nw_id_def nw_capacity_def half_weight_def
      initElementsGraph_def rbind_def numeral_2_eq_2 numeral_3_eq_3)

lemma reach_ex2:
  assumes "x < 3" and "y < 3"
  shows "(x, y) \<in> (graph_rel (nw_graph snet2_ex))\<^sup>*"
proof -
  let ?R = "graph_rel (nw_graph snet2_ex)"
  have R: "?R = {(0, 2), (1, 2), (2, 0), (2, 1)}" by (auto simp: graph_rel_def snet2_ex_def)
  have to: "(x, 2) \<in> ?R\<^sup>*" if "x < 3" for x
  proof (cases "x = 2")
    case False
    then have "x = 0 \<or> x = 1" using that by auto
    then have "(x, 2) \<in> ?R" unfolding R by auto
    then show ?thesis by blast
  qed simp
  have frm: "(2, y) \<in> ?R\<^sup>*" if "y < 3" for y
  proof (cases "y = 2")
    case False
    then have "y = 0 \<or> y = 1" using that by auto
    then have "(2, y) \<in> ?R" unfolding R by auto
    then show ?thesis by blast
  qed simp
  show ?thesis by (rule rtrancl_trans[OF to[OF assms(1)] frm[OF assms(2)]])
qed

lemma dij2_ex_ok: "dijkstra_ok dij2_ex (nw_graph snet2_ex)"
proof -
  have three: "fst (nw_graph snet2_ex) = 3" by (simp add: snet2_ex_def)
  have R: "graph_rel (nw_graph snet2_ex) = {(0, 2), (1, 2), (2, 0), (2, 1)}" by (auto simp: graph_rel_def snet2_ex_def)
  have v3: "v < 3 \<longleftrightarrow> v = 0 \<or> v = 1 \<or> v = (2 :: nat)" for v by auto
  have main: "length (dij2_ex G s) = 3 \<and> (\<forall>v<3. if v \<noteq> s \<and> (s, v) \<in> (graph_rel (nw_graph snet2_ex))\<^sup>*
      then (snd (dij2_ex G s ! v), v) \<in> {(0, 2), (1, 2), (2, 0), (2, 1)} \<and>
        (s, snd (dij2_ex G s ! v)) \<in> (graph_rel (nw_graph snet2_ex))\<^sup>* \<and>
        (if snd (dij2_ex G s ! v) = s then 0 else if snd (dij2_ex G s ! v) = 2 then 1 else (2 :: nat)) < (if v = s then 0 else if v = 2 then 1 else 2)
      else snd (dij2_ex G s ! v) = v)" if "s < 3" for s G
  proof -
    have r: "(s, v) \<in> (graph_rel (nw_graph snet2_ex))\<^sup>*" if "v < 3" for v using \<open>s < 3\<close> that by (rule reach_ex2)
    consider "s = 0" | "s = 1" | "s = 2" using v3[of s] \<open>s < 3\<close> by fast
    then show ?thesis using r[of 0] r[of 1] r[of 2] by cases (simp_all add: v3 dij2_ex_def del: One_nat_def)
  qed
  show ?thesis unfolding dijkstra_ok_def three R[symmetric]
    by (intro allI impI, rule exI, rule main[unfolded R[symmetric]])
qed


text \<open>
  The simulations run in several threads and share the network, and \<open>central\<close> takes no lock. A thread of
  it enters, compares one candidate after the other with its own smallest worst time while it writes the
  shared pointer, and leaves with what the pointer holds. \<open>worst\<close> are the worst times of the candidates,
  which are the same for all the threads.
\<close>

datatype central_pc = Enter | Scan "node list" real | Exit "node option"

inductive central_step :: "(node \<Rightarrow> real) \<Rightarrow> node list \<Rightarrow> central_pc \<times> node option \<Rightarrow> central_pc \<times> node option \<Rightarrow> bool"
  for worst procs where
  cached: "central_step worst procs (Enter, Some c) (Exit (Some c), Some c)"
| enter: "central_step worst procs (Enter, None) (Scan procs 0, None)"
| better: "sh = None \<or> worst c < last_worst \<Longrightarrow> central_step worst procs (Scan (c # cs) last_worst, sh) (Scan cs (worst c), Some c)"
| keep: "\<not> (sh = None \<or> worst c < last_worst) \<Longrightarrow> central_step worst procs (Scan (c # cs) last_worst, sh) (Scan cs last_worst, sh)"
| finish: "central_step worst procs (Scan [] last_worst, sh) (Exit sh, sh)"

inductive central_runs :: "(node \<Rightarrow> real) \<Rightarrow> node list \<Rightarrow> central_pc \<times> central_pc \<times> node option \<Rightarrow> bool" for worst procs where
  both_enter: "central_runs worst procs (Enter, Enter, None)"
| first_steps: "central_runs worst procs (a, b, sh) \<Longrightarrow> central_step worst procs (a, sh) (a', sh') \<Longrightarrow> central_runs worst procs (a', b, sh')"
| second_steps: "central_runs worst procs (a, b, sh) \<Longrightarrow> central_step worst procs (b, sh) (b', sh') \<Longrightarrow> central_runs worst procs (a, b', sh')"

lemma central_scan_alone:
  assumes "central_runs worst procs (Scan cs w, b, Some c)" and "w = worst c"
  shows "\<exists>d. central_runs worst procs (Exit (Some d), b, Some d) \<and> (d = c \<or> d \<in> set cs) \<and> worst d \<le> worst c \<and> (\<forall>x\<in>set cs. worst d \<le> worst x)"
  using assms
proof (induction cs arbitrary: w c)
  case Nil
  from first_steps[OF Nil.prems(1) central_step.finish] show ?case by (intro exI[of _ c]) simp
next
  case (Cons x cs)
  show ?case
  proof (cases "worst x < w")
    case True
    have "central_runs worst procs (Scan cs (worst x), b, Some x)"
      by (rule first_steps[OF Cons.prems(1) central_step.better]) (use True in simp)
    from Cons.IH[OF this refl] obtain d where d: "central_runs worst procs (Exit (Some d), b, Some d)" "d = x \<or> d \<in> set cs"
      "worst d \<le> worst x" "\<forall>y\<in>set cs. worst d \<le> worst y" by blast
    have "worst d \<le> worst c" using d(3) True Cons.prems(2) by simp
    then show ?thesis using d by (intro exI[of _ d]) auto
  next
    case False
    have "central_runs worst procs (Scan cs w, b, Some c)"
      by (rule first_steps[OF Cons.prems(1) central_step.keep]) (use False in simp)
    from Cons.IH[OF this Cons.prems(2)] obtain d where d: "central_runs worst procs (Exit (Some d), b, Some d)" "d = c \<or> d \<in> set cs"
      "worst d \<le> worst c" "\<forall>y\<in>set cs. worst d \<le> worst y" by blast
    have "worst d \<le> worst x" using d(3) False Cons.prems(2) by simp
    then show ?thesis using d by (intro exI[of _ d]) auto
  qed
qed

text \<open>
  C35: whenever the first processing node is not the one whose worst time is the smallest, two simulations
  that ask for the central node at the same time can be given different nodes: one gets the right one, and
  the other the first node of the list, which the first thread had put there provisionally.
\<close>

theorem central_node_race:
  assumes "q \<in> set ps" and "worst q < worst p"
  shows "\<exists>best. central_runs worst (p # ps) (Exit (Some best), Exit (Some p), Some best) \<and>
    best \<noteq> p \<and> best \<in> set ps \<and> (\<forall>x\<in>set (p # ps). worst best \<le> worst x)"
proof -
  let ?R = "central_runs worst (p # ps)"
  have "?R (Scan (p # ps) 0, Enter, None)" by (rule first_steps[OF both_enter central_step.enter])
  then have "?R (Scan ps (worst p), Enter, Some p)" by (rule first_steps[OF _ central_step.better]) simp
  then have "?R (Scan ps (worst p), Exit (Some p), Some p)" by (rule second_steps[OF _ central_step.cached])
  from central_scan_alone[OF this refl] obtain d where d: "?R (Exit (Some d), Exit (Some p), Some d)" "d = p \<or> d \<in> set ps"
    "worst d \<le> worst p" "\<forall>x\<in>set ps. worst d \<le> worst x" by blast
  have "d \<noteq> p" using d(4) assms by force
  then show ?thesis using d by (intro exI[of _ d]) auto
qed

theorem central_node_race_witness:
  "central_runs (\<lambda>n. if nd_id n = 0 then 2 else 1) [node_ex ''a'' 0, node_ex ''b'' 1]
    (Exit (Some (node_ex ''b'' 1)), Exit (Some (node_ex ''a'' 0)), Some (node_ex ''b'' 1))"
  using central_node_race[of "node_ex ''b'' 1" "[node_ex ''b'' 1]" "\<lambda>n. if nd_id n = 0 then 2 else 1" "node_ex ''a'' 0"]
  by (auto simp: node_ex_def)

end
