(* ===== verification/StateJob.thy ===== *)
theory StateJob
  imports StateNetwork FunctionModel
begin

text \<open>
  The jobs of the simulator of stateful functions, \<open>StateSim/task.cpp\<close> and \<open>job.cpp\<close>: a job is a chain of
  tasks with states, and \<open>loadJobs\<close> builds the jobs from a trace of a data centre. A row of the trace names a
  task, its job and the tasks that precede it; the tasks that follow the first one, in any number of steps,
  are the chain of the job, and the other predecessors of its tasks are states.

  Parameters: \<open>split\<close> of the support library, the conversion \<open>stod\<close>, and the sequence \<open>rnd\<close> of the random
  values that pick the functions. A conversion of a floating-point value out of the range of the integer
  type is undefined behaviour.
\<close>

section \<open>Tasks and jobs\<close>

record stask =
  st_id :: nat
  st_size :: nat
  st_ops :: nat
  st_func :: string
  st_deps :: "nat list"

record sjob =
  sj_id :: nat
  sj_start :: real
  sj_tasks :: "stask list"
  sj_stateSizes :: "nat list"
  sj_retSize :: nat

definition job_clone :: "sjob \<Rightarrow> nat \<Rightarrow> sjob" where
  "job_clone j i = \<lparr>sj_id = i, sj_start = sj_start j, sj_tasks = sj_tasks j, sj_stateSizes = sj_stateSizes j, sj_retSize = sj_retSize j\<rparr>"

text \<open>The function picked for a random value between zero and the sum of the weights.\<close>

definition weights_sum :: "(string, real) smap \<Rightarrow> real" where
  "weights_sum ws = foldl (\<lambda>s (_, w). s + w) 0 ws"

fun pick_loop :: "(string \<times> real) list \<Rightarrow> real \<Rightarrow> real \<Rightarrow> string option" where
  "pick_loop [] r s = None"
| "pick_loop ((f, w) # ws) r s = (if r < s + w then Some f else pick_loop ws r (s + w))"

definition pick_function :: "(string, real) smap \<Rightarrow> real \<Rightarrow> string" where
  "pick_function ws r = (case pick_loop ws r 0 of Some f \<Rightarrow> f | None \<Rightarrow> fst (last ws))"

section \<open>Rows of the trace\<close>

record row =
  rw_startTime :: real
  rw_jobName :: string
  rw_taskName :: string
  rw_duration :: nat
  rw_cpu :: real
  rw_mem :: real
  rw_numInstances :: nat
  rw_skip :: bool

datatype trace_format = Spar | Alibaba

definition to_unsigned :: "nat \<Rightarrow> real \<Rightarrow> exn + nat" where
  "to_unsigned w x = (if - 1 < x \<and> x < 2 ^ w then Inr (nat \<lfloor>x\<rfloor>) else Inl (Undefined ''conversion to an unsigned integer''))"

definition contains :: "string \<Rightarrow> string \<Rightarrow> bool" where
  "contains kw s \<longleftrightarrow> list_ex (\<lambda>i. take (length kw) (drop i s) = kw) [0..<Suc (length s)]"

definition strange :: "string \<Rightarrow> bool" where
  "strange s \<longleftrightarrow> contains ''task_'' s \<or> contains ''MergeTask'' s \<or> contains ''Stg'' s"

definition job_token :: "string \<Rightarrow> bool" where
  "job_token s \<longleftrightarrow> length s \<ge> 2 \<and> take 2 s = ''j_''"

definition row_empty :: row where
  "row_empty = \<lparr>rw_startTime = 0, rw_jobName = [], rw_taskName = [], rw_duration = 0, rw_cpu = 0, rw_mem = 0, rw_numInstances = 0, rw_skip = True\<rparr>"

definition parse_fields :: "(string \<Rightarrow> exn + real) \<Rightarrow> trace_format \<Rightarrow> string list \<Rightarrow> exn + row" where
  "parse_fields stod fmt ts = (case fmt of
       Spar \<Rightarrow>
         (if length ts \<noteq> 7 \<or> \<not> job_token (ts ! 1) \<or> ts ! 2 = [] then Inr row_empty
          else rbind (stod (ts ! 0)) (\<lambda>start. rbind (stoull (ts ! 3)) (\<lambda>d. rbind (stod (ts ! 4)) (\<lambda>cpu.
            rbind (stod (ts ! 5)) (\<lambda>mem. rbind (stoull (ts ! 6)) (\<lambda>n.
            Inr \<lparr>rw_startTime = start, rw_jobName = ts ! 1, rw_taskName = ts ! 2, rw_duration = d mod 2 ^ 32, rw_cpu = cpu,
                 rw_mem = mem, rw_numInstances = n mod 2 ^ 32, rw_skip = False\<rparr>))))))
     | Alibaba \<Rightarrow>
         (if length ts \<noteq> 9 \<or> \<not> job_token (ts ! 2) \<or> ts ! 0 = [] then Inr row_empty
          else rbind (stod (ts ! 5)) (\<lambda>start. rbind (stod (ts ! 6)) (\<lambda>fin. rbind (to_unsigned 32 (start - fin)) (\<lambda>d.
            rbind (stod (ts ! 7)) (\<lambda>cpu. rbind (stod (ts ! 8)) (\<lambda>mem. rbind (stoull (ts ! 1)) (\<lambda>n.
            Inr \<lparr>rw_startTime = start, rw_jobName = ts ! 2, rw_taskName = ts ! 0, rw_duration = d, rw_cpu = cpu,
                 rw_mem = mem, rw_numInstances = n mod 2 ^ 32, rw_skip = False\<rparr>))))))))"

definition parseRow :: "(string \<Rightarrow> char \<Rightarrow> string list) \<Rightarrow> (string \<Rightarrow> exn + real) \<Rightarrow> trace_format \<Rightarrow> string \<Rightarrow> exn + row" where
  "parseRow split stod fmt line = rbind (parse_fields stod fmt (split line (CHR '',''))) (\<lambda>r.
     Inr (if strange (rw_taskName r) then r\<lparr>rw_skip := True\<rparr> else r))"

section \<open>Reading the trace\<close>

record task_data =
  td_prec :: "nat sset"
  td_ops :: nat
  td_size :: real

record job_data =
  jd_id :: nat
  jd_start :: real
  jd_tasks :: "task_data list"

definition task_data_empty :: task_data where
  "task_data_empty = \<lparr>td_prec = [], td_ops = 0, td_size = 0\<rparr>"

text \<open>\<open>vector::resize\<close> to a larger size.\<close>

definition resize_tasks :: "nat \<Rightarrow> task_data list \<Rightarrow> task_data list" where
  "resize_tasks n ts = (if length ts < n then ts @ replicate (n - length ts) task_data_empty else ts)"

fun insert_precs :: "string list \<Rightarrow> nat sset \<Rightarrow> exn + nat sset" where
  "insert_precs [] s = Inr s"
| "insert_precs (t # ts) s = rbind (stoull t) (\<lambda>p. insert_precs ts (sinsert (if p = 0 then 2 ^ 64 - 1 else p - 1) s))"

text \<open>One row: the next and the last identifier of a job and the jobs so far.\<close>

definition add_row :: "(string \<Rightarrow> char \<Rightarrow> string list) \<Rightarrow> real \<Rightarrow> string \<Rightarrow> row \<Rightarrow> nat \<times> nat \<times> job_data list \<Rightarrow>
    exn + nat \<times> nat \<times> job_data list" where
  "add_row split opsFactor line r st = (case st of (next_id, last_id, jobs) \<Rightarrow>
     if length (rw_jobName r) \<le> 2 then Inl (Undefined ''assertion myRow.theJobName.size() > 2'')
     else rbind (stoull (drop 2 (rw_jobName r))) (\<lambda>cur.
       let (next_id, jobs) = (if last_id \<noteq> cur then (Suc next_id, jobs @ [\<lparr>jd_id = next_id, jd_start = rw_startTime r, jd_tasks = []\<rparr>])
                              else (next_id, jobs));
           ps = split (drop 1 (rw_taskName r)) (CHR ''_'')
       in if ps = [] then Inl (RuntimeError (''Invalid task: '' @ line))
          else rbind (stoull (hd ps)) (\<lambda>t.
            if t = 0 then Inl (RuntimeError (''Invalid task identifier (0): '' @ line))
            else if jobs = [] then Inl (Undefined ''back() of an empty vector'')
            else (let j = last jobs; ts = resize_tasks t (jd_tasks j); td = ts ! (t - 1)
                  in rbind (insert_precs (tl ps) (td_prec td)) (\<lambda>precs.
                     rbind (to_unsigned 64 (1 / 2 + real (rw_duration r) * rw_cpu r / 100 * opsFactor)) (\<lambda>ops.
                     Inr (next_id, cur, butlast jobs @
                       [j\<lparr>jd_tasks := ts[t - 1 := \<lparr>td_prec = precs, td_ops = ops, td_size = rw_mem r\<rparr>]\<rparr>])))))))"

fun read_rows :: "(string \<Rightarrow> char \<Rightarrow> string list) \<Rightarrow> (string \<Rightarrow> exn + real) \<Rightarrow> trace_format \<Rightarrow> real \<Rightarrow> string list \<Rightarrow>
    nat \<times> nat \<times> job_data list \<Rightarrow> exn + job_data list" where
  "read_rows split stod fmt opsFactor [] st = Inr (snd (snd st))"
| "read_rows split stod fmt opsFactor (l # ls) st =
     (if l = [] then Inr (snd (snd st))
      else rbind (parseRow split stod fmt l) (\<lambda>r.
        if rw_skip r then read_rows split stod fmt opsFactor ls st
        else rbind (add_row split opsFactor l r st) (read_rows split stod fmt opsFactor ls)))"

section \<open>The chain of a job\<close>

text \<open>
  The recursive search, with the depth of the recursion as fuel; \<open>findChain_total\<close> below shows that the number
  of tasks is enough.
\<close>

primrec findChain :: "nat \<Rightarrow> task_data list \<Rightarrow> nat list \<Rightarrow> nat \<Rightarrow> nat list option" where
  "findChain 0 ts ch cur = None"
| "findChain (Suc n) ts ch cur = foldl (\<lambda>r i. case r of None \<Rightarrow> None
     | Some ch \<Rightarrow> if i \<in> set ch then Some ch
         else if cur \<in> set (td_prec (ts ! i)) then findChain n ts (ch @ [i]) i
         else Some ch) (Some ch) [0..<length ts]"

section \<open>Building a job\<close>

definition sset_of :: "nat list \<Rightarrow> nat sset" where
  "sset_of xs = foldl (\<lambda>s x. sinsert x s) [] xs"

definition state_deps :: "task_data list \<Rightarrow> nat sset \<Rightarrow> nat \<Rightarrow> nat sset" where
  "state_deps ts inChain i = filter (\<lambda>p. p \<notin> set inChain) (td_prec (ts ! i))"

definition all_states :: "task_data list \<Rightarrow> nat sset \<Rightarrow> nat list \<Rightarrow> nat sset" where
  "all_states ts inChain chain = sset_of (concat (map (state_deps ts inChain) chain))"

text \<open>The new identifier of an element is its position in the ordered set.\<close>

fun new_id :: "nat sset \<Rightarrow> nat \<Rightarrow> nat" where
  "new_id [] x = 0"
| "new_id (y # ys) x = (if x = y then 0 else Suc (new_id ys x))"

definition make_task :: "real \<Rightarrow> task_data list \<Rightarrow> nat sset \<Rightarrow> nat sset \<Rightarrow> string \<Rightarrow> nat \<Rightarrow> exn + stask" where
  "make_task argFactor ts inChain states f i =
     rbind (to_unsigned 64 (1 / 2 + argFactor * td_size (ts ! i))) (\<lambda>sz.
       Inr \<lparr>st_id = new_id inChain i, st_size = sz, st_ops = td_ops (ts ! i), st_func = f,
            st_deps = map (new_id states) (state_deps ts inChain i)\<rparr>)"

definition make_state_size :: "real \<Rightarrow> task_data list \<Rightarrow> nat \<Rightarrow> exn + nat" where
  "make_state_size stateFactor ts s =
     (if s \<ge> length ts then Inl (Undefined ''vector index out of range'')
      else to_unsigned 64 (1 / 2 + stateFactor * td_size (ts ! s)))"

fun make_tasks :: "real \<Rightarrow> task_data list \<Rightarrow> nat sset \<Rightarrow> nat sset \<Rightarrow> (string, real) smap \<Rightarrow> (nat \<Rightarrow> real) \<Rightarrow> nat \<Rightarrow> nat list \<Rightarrow> exn + stask list" where
  "make_tasks argFactor ts inChain states ws rnd k [] = Inr []"
| "make_tasks argFactor ts inChain states ws rnd k (i # is) =
     rbind (make_task argFactor ts inChain states (pick_function ws (rnd k)) i) (\<lambda>t.
     rbind (make_tasks argFactor ts inChain states ws rnd (Suc k) is) (\<lambda>xs. Inr (t # xs)))"

text \<open>A job of the trace, or none if it is discarded; the number of random values used so far is \<open>k\<close>.\<close>

definition make_job :: "real \<Rightarrow> real \<Rightarrow> (string, real) smap \<Rightarrow> (nat \<Rightarrow> real) \<Rightarrow> bool \<Rightarrow> nat \<Rightarrow> nat \<Rightarrow> job_data \<Rightarrow> exn + (sjob option \<times> nat)" where
  "make_job argFactor stateFactor ws rnd statefulOnly i k jd =
     (let ts = jd_tasks jd
      in if ts = [] then Inl (Undefined ''assertion not myJob.theTasks.empty()'')
         else (let chain = 0 # the (findChain (Suc (length ts)) ts [] 0);
                   inChain = sset_of chain;
                   states = all_states ts inChain chain
               in if statefulOnly \<and> states = [] then Inr (None, k)
                  else rbind (make_tasks argFactor ts inChain states ws rnd k inChain) (\<lambda>tasks.
                       rbind (rmap (make_state_size stateFactor ts) states) (\<lambda>sizes.
                       Inr (Some \<lparr>sj_id = i, sj_start = jd_start jd, sj_tasks = tasks, sj_stateSizes = sizes, sj_retSize = st_size (hd tasks)\<rparr>,
                            k + length inChain)))))"

fun make_jobs :: "real \<Rightarrow> real \<Rightarrow> (string, real) smap \<Rightarrow> (nat \<Rightarrow> real) \<Rightarrow> bool \<Rightarrow> sjob list \<Rightarrow> nat \<Rightarrow> job_data list \<Rightarrow> exn + sjob list" where
  "make_jobs argFactor stateFactor ws rnd statefulOnly jobs k [] = Inr jobs"
| "make_jobs argFactor stateFactor ws rnd statefulOnly jobs k (jd # jds) =
     rbind (make_job argFactor stateFactor ws rnd statefulOnly (length jobs) k jd) (\<lambda>(j, k).
       make_jobs argFactor stateFactor ws rnd statefulOnly (case j of None \<Rightarrow> jobs | Some j \<Rightarrow> jobs @ [j]) k jds)"

definition loadJobs :: "(string \<Rightarrow> char \<Rightarrow> string list) \<Rightarrow> (string \<Rightarrow> exn + real) \<Rightarrow> string \<Rightarrow> string list option \<Rightarrow> real \<Rightarrow> real \<Rightarrow> real \<Rightarrow>
    (string, real) smap \<Rightarrow> (nat \<Rightarrow> real) \<Rightarrow> bool \<Rightarrow> trace_format \<Rightarrow> exn + sjob list" where
  "loadJobs split stod path content opsFactor argFactor stateFactor ws rnd statefulOnly fmt =
     (if ws = [] then Inl (RuntimeError ''Empty function weights'')
      else case content of None \<Rightarrow> Inl (RuntimeError (''Cannot open file for reading: '' @ path))
      | Some ls \<Rightarrow> rbind (read_rows split stod fmt opsFactor ls (0, 0, [])) (\<lambda>jds.
          make_jobs argFactor stateFactor ws rnd statefulOnly [] 0 jds))"

section \<open>The search is a closure\<close>

definition follows :: "task_data list \<Rightarrow> (nat \<times> nat) set" where
  "follows ts = {(a, b). b < length ts \<and> a \<in> set (td_prec (ts ! b))}"

definition chain_ok :: "task_data list \<Rightarrow> nat list \<Rightarrow> bool" where
  "chain_ok ts ch \<longleftrightarrow> distinct ch \<and> set ch \<subseteq> {..<length ts}"

definition extends :: "task_data list \<Rightarrow> nat \<Rightarrow> nat list \<Rightarrow> nat list \<Rightarrow> bool" where
  "extends ts cur ch ch' \<longleftrightarrow> (\<exists>zs. ch' = ch @ zs \<and> (\<forall>x\<in>set zs. (cur, x) \<in> (follows ts)\<^sup>+ \<and> follows ts `` {x} \<subseteq> set ch'))"

lemma extends_refl: "extends ts cur ch ch"
  by (auto simp: extends_def)

lemma extends_set: "extends ts cur ch ch' \<Longrightarrow> set ch \<subseteq> set ch'"
  by (auto simp: extends_def)

lemma extends_length: "extends ts cur ch ch' \<Longrightarrow> length ch \<le> length ch'"
  by (auto simp: extends_def)

lemma extends_trans:
  assumes "extends ts cur ch ch'" "extends ts cur ch' ch''"
  shows "extends ts cur ch ch''"
proof -
  obtain zs where zs: "ch' = ch @ zs" "\<forall>x\<in>set zs. (cur, x) \<in> (follows ts)\<^sup>+ \<and> follows ts `` {x} \<subseteq> set ch'"
    using assms(1) unfolding extends_def by blast
  obtain ys where ys: "ch'' = ch' @ ys" "\<forall>x\<in>set ys. (cur, x) \<in> (follows ts)\<^sup>+ \<and> follows ts `` {x} \<subseteq> set ch''"
    using assms(2) unfolding extends_def by blast
  have "set ch' \<subseteq> set ch''" using ys(1) by simp
  then have "\<forall>x\<in>set (zs @ ys). (cur, x) \<in> (follows ts)\<^sup>+ \<and> follows ts `` {x} \<subseteq> set ch''"
    using zs(2) ys(2) by (metis Un_iff order_trans set_append)
  then show ?thesis unfolding extends_def using zs(1) ys(1) by auto
qed

lemma extends_step:
  assumes e: "(cur, i) \<in> follows ts" and x: "extends ts i (ch @ [i]) ch'" and s: "follows ts `` {i} \<subseteq> set ch'"
  shows "extends ts cur ch ch'"
proof -
  obtain zs where zs: "ch' = (ch @ [i]) @ zs" "\<forall>x\<in>set zs. (i, x) \<in> (follows ts)\<^sup>+ \<and> follows ts `` {x} \<subseteq> set ch'"
    using x unfolding extends_def by blast
  have "\<forall>x\<in>set (i # zs). (cur, x) \<in> (follows ts)\<^sup>+ \<and> follows ts `` {x} \<subseteq> set ch'"
    using e s zs(2) by (auto intro: trancl_into_trancl2)
  then show ?thesis unfolding extends_def using zs(1) by (intro exI [of _ "i # zs"]) auto
qed

lemma chain_ok_length: "chain_ok ts ch \<Longrightarrow> length ch \<le> length ts"
  unfolding chain_ok_def by (metis card_lessThan card_mono distinct_card finite_lessThan)

lemma findChain_closes:
  assumes "chain_ok ts ch" "length ts < n + length ch"
  shows "\<exists>ch'. findChain n ts ch cur = Some ch' \<and> chain_ok ts ch' \<and> extends ts cur ch ch' \<and> follows ts `` {cur} \<subseteq> set ch'"
  using assms
proof (induction n arbitrary: ch cur)
  case 0
  then show ?case using chain_ok_length [OF 0(1)] by simp
next
  case (Suc n)
  let ?f = "\<lambda>r i. case r of None \<Rightarrow> None | Some ch \<Rightarrow> if i \<in> set ch then Some ch
         else if cur \<in> set (td_prec (ts ! i)) then findChain n ts (ch @ [i]) i else Some ch"
  have *: "\<exists>ch'. foldl ?f (Some ch) [0..<k] = Some ch' \<and> chain_ok ts ch' \<and> extends ts cur ch ch' \<and>
      (\<forall>i<k. (cur, i) \<in> follows ts \<longrightarrow> i \<in> set ch')" if "k \<le> length ts" for k
    using that
  proof (induction k)
    case 0
    then show ?case using Suc.prems(1) extends_refl by auto
  next
    case (Suc k)
    then obtain c where c: "foldl ?f (Some ch) [0..<k] = Some c" "chain_ok ts c" "extends ts cur ch c"
        "\<forall>i<k. (cur, i) \<in> follows ts \<longrightarrow> i \<in> set c"
      by auto
    have fold: "foldl ?f (Some ch) [0..<Suc k] = ?f (Some c) k" using c(1) by simp
    consider (mem) "k \<in> set c" | (no) "k \<notin> set c" "cur \<notin> set (td_prec (ts ! k))"
      | (rec) "k \<notin> set c" "cur \<in> set (td_prec (ts ! k))" by blast
    then show ?case
    proof cases
      case mem
      then show ?thesis using c fold by (auto simp: less_Suc_eq)
    next
      case no
      then show ?thesis using c fold by (auto simp: less_Suc_eq follows_def)
    next
      case rec
      have e: "(cur, k) \<in> follows ts" using rec Suc.prems by (simp add: follows_def)
      have "chain_ok ts (c @ [k])" using c(2) rec Suc.prems by (auto simp: chain_ok_def)
      moreover have "length ts < n + length (c @ [k])"
        using extends_length [OF c(3)] \<open>length ts < Suc n + length ch\<close> by simp
      ultimately obtain d where d: "findChain n ts (c @ [k]) k = Some d" "chain_ok ts d" "extends ts k (c @ [k]) d"
          "follows ts `` {k} \<subseteq> set d"
        using \<open>\<And>ch cur. chain_ok ts ch \<Longrightarrow> length ts < n + length ch \<Longrightarrow> \<exists>ch'. findChain n ts ch cur = Some ch' \<and> chain_ok ts ch' \<and>
           extends ts cur ch ch' \<and> follows ts `` {cur} \<subseteq> set ch'\<close> by blast
      have x: "extends ts cur ch d" using extends_trans [OF c(3) extends_step [OF e d(3,4)]] .
      have "set c \<subseteq> set d" "k \<in> set d" using extends_set [OF d(3)] by auto
      then show ?thesis using fold rec d(1,2) x c(4) by (auto simp: less_Suc_eq)
    qed
  qed
  obtain d where d: "foldl ?f (Some ch) [0..<length ts] = Some d" "chain_ok ts d" "extends ts cur ch d"
      "\<forall>i<length ts. (cur, i) \<in> follows ts \<longrightarrow> i \<in> set d"
    using * [OF order_refl] by blast
  moreover have "follows ts `` {cur} \<subseteq> set d" using d(4) by (auto simp: follows_def)
  ultimately show ?case by auto
qed

lemma findChain_total:
  "\<exists>ch. findChain (Suc (length ts)) ts [] cur = Some ch \<and> distinct ch \<and> set ch = (follows ts)\<^sup>+ `` {cur}"
proof -
  obtain ch where ch: "findChain (Suc (length ts)) ts [] cur = Some ch" "chain_ok ts ch" "extends ts cur [] ch"
      "follows ts `` {cur} \<subseteq> set ch"
    using findChain_closes [of ts "[]" "Suc (length ts)" cur] by (auto simp: chain_ok_def)
  have 1: "\<forall>x\<in>set ch. (cur, x) \<in> (follows ts)\<^sup>+ \<and> follows ts `` {x} \<subseteq> set ch"
    using ch(3) unfolding extends_def by auto
  have 2: "x \<in> set ch" if "(cur, x) \<in> (follows ts)\<^sup>+" for x
    using that by (induction rule: trancl_induct) (use ch(4) 1 in auto)
  show ?thesis using ch(1,2) 1 2 by (auto simp: chain_ok_def)
qed

section \<open>The jobs built from the trace\<close>

lemma set_sset_of [simp]: "set (sset_of xs) = set xs"
  by (simp add: sset_of_def)

lemma swf_sset_of: "swf (sset_of xs)"
  by (simp add: sset_of_def)

lemma sset_of_unique: "sset_of xs = sorted_list_of_set (set xs)"
  using swf_sset_of [of xs] by (metis sorted_list_of_set.idem_if_sorted_distinct set_sset_of strict_sorted_iff)

lemma new_id_less: "x \<in> set xs \<Longrightarrow> new_id xs x < length xs \<and> xs ! new_id xs x = x"
  by (induction xs) auto

lemma new_id_nth: "distinct xs \<Longrightarrow> k < length xs \<Longrightarrow> new_id xs (xs ! k) = k"
  by (meson new_id_less nth_eq_iff_index_eq nth_mem)

lemma pick_loop_in: "pick_loop ws r s = Some f \<Longrightarrow> f \<in> fst ` set ws"
  by (induction ws r s rule: pick_loop.induct) (auto split: if_splits)

lemma pick_function_in: "ws \<noteq> [] \<Longrightarrow> pick_function ws r \<in> fst ` set ws"
  by (auto simp: pick_function_def pick_loop_in split: option.splits)

lemma to_unsigned_bound: "to_unsigned w x = Inr n \<Longrightarrow> n < 2 ^ w"
proof -
  assume a: "to_unsigned w x = Inr n"
  then have n: "n = nat \<lfloor>x\<rfloor>" "x < 2 ^ w" by (auto simp: to_unsigned_def split: if_splits)
  have "real_of_int \<lfloor>x\<rfloor> < 2 ^ w" using n(2) of_int_floor_le [of x] by linarith
  then have "\<lfloor>x\<rfloor> < 2 ^ w" by (metis of_int_less_iff of_int_numeral of_int_power)
  then show ?thesis using n(1) by (simp add: nat_less_iff)
qed

lemma make_tasks_nth:
  "make_tasks a ts inC st ws rnd k cs = Inr xs \<Longrightarrow> length xs = length cs \<and>
     (\<forall>t<length cs. make_task a ts inC st (pick_function ws (rnd (k + t))) (cs ! t) = Inr (xs ! t))"
proof (induction cs arbitrary: k xs)
  case (Cons c cs)
  then obtain x ys where x: "make_task a ts inC st (pick_function ws (rnd k)) c = Inr x"
      "make_tasks a ts inC st ws rnd (Suc k) cs = Inr ys" "xs = x # ys"
    by (auto simp: exn_simps)
  have "make_task a ts inC st (pick_function ws (rnd (k + t))) ((c # cs) ! t) = Inr (xs ! t)" if "t < length (c # cs)" for t
    using x(1,3) Cons.IH [OF x(2)] that by (cases t) auto
  then show ?case using Cons.IH [OF x(2)] x(3) by simp
qed simp

text \<open>The tasks of the chain of a job and the states of a job.\<close>

definition chain_tasks :: "task_data list \<Rightarrow> nat list" where
  "chain_tasks ts = sorted_list_of_set ((follows ts)\<^sup>* `` {0})"

definition states_at :: "task_data list \<Rightarrow> nat \<Rightarrow> nat list" where
  "states_at ts c = filter (\<lambda>p. p \<notin> set (chain_tasks ts)) (td_prec (ts ! c))"

definition chain_states :: "task_data list \<Rightarrow> nat list" where
  "chain_states ts = sorted_list_of_set (\<Union>c\<in>set (chain_tasks ts). set (states_at ts c))"

lemma inChain_eq: "sset_of (0 # the (findChain (Suc (length ts)) ts [] 0)) = chain_tasks ts"
proof -
  obtain ch where "findChain (Suc (length ts)) ts [] 0 = Some ch" "set ch = (follows ts)\<^sup>+ `` {0}"
    using findChain_total by blast
  moreover have "(follows ts)\<^sup>* `` {0} = insert 0 ((follows ts)\<^sup>+ `` {0})" by (auto simp: rtrancl_eq_or_trancl)
  ultimately show ?thesis by (simp add: chain_tasks_def sset_of_unique)
qed

lemma all_states_set:
  "set ch = set (chain_tasks ts) \<Longrightarrow> all_states ts (chain_tasks ts) ch = chain_states ts"
  by (simp add: all_states_def sset_of_unique chain_states_def states_at_def state_deps_def)

lemma states_eq:
  "all_states ts (chain_tasks ts) (0 # the (findChain (Suc (length ts)) ts [] 0)) = chain_states ts"
  by (rule all_states_set) (metis inChain_eq set_sset_of)

lemma chain_tasks_facts: "distinct (chain_tasks ts)" "0 \<in> set (chain_tasks ts)" "chain_tasks ts \<noteq> []"
proof -
  show "distinct (chain_tasks ts)" by (simp add: chain_tasks_def)
  show "0 \<in> set (chain_tasks ts)" using inChain_eq [of ts] by (metis list.set_intros(1) set_sset_of)
  then show "chain_tasks ts \<noteq> []" by auto
qed

lemma in_chain_tasks: "p \<in> set (chain_tasks ts) \<longleftrightarrow> (0, p) \<in> (follows ts)\<^sup>*"
proof -
  have "(follows ts)\<^sup>* `` {0} \<subseteq> insert 0 {..<length ts}"
    by (auto simp: follows_def elim: rtranclE)
  then have "finite ((follows ts)\<^sup>* `` {0})" by (rule finite_subset) simp
  then show ?thesis by (simp add: chain_tasks_def)
qed

lemma set_chain_states: "set (chain_states ts) = (\<Union>c\<in>set (chain_tasks ts). set (states_at ts c))"
  by (simp add: chain_states_def)

lemma make_job_cases:
  assumes "make_job a s ws rnd so i k jd = Inr r"
  shows "jd_tasks jd \<noteq> [] \<and>
    (so \<and> chain_states (jd_tasks jd) = [] \<and> r = (None, k) \<or>
     \<not> (so \<and> chain_states (jd_tasks jd) = []) \<and> (\<exists>tasks sizes.
       make_tasks a (jd_tasks jd) (chain_tasks (jd_tasks jd)) (chain_states (jd_tasks jd)) ws rnd k (chain_tasks (jd_tasks jd)) = Inr tasks \<and>
       rmap (make_state_size s (jd_tasks jd)) (chain_states (jd_tasks jd)) = Inr sizes \<and>
       r = (Some \<lparr>sj_id = i, sj_start = jd_start jd, sj_tasks = tasks, sj_stateSizes = sizes, sj_retSize = st_size (hd tasks)\<rparr>,
            k + length (chain_tasks (jd_tasks jd)))))"
  using assms unfolding make_job_def Let_def inChain_eq states_eq
  by (auto simp: exn_simps split: if_splits)

lemma rmap_length: "rmap f xs = Inr ys \<Longrightarrow> length ys = length xs"
  by (induction xs arbitrary: ys) (auto simp: exn_simps)

lemma make_task_fields:
  "make_task a ts inC st f c = Inr x \<Longrightarrow> st_id x = new_id inC c \<and> st_ops x = td_ops (ts ! c) \<and> st_func x = f \<and>
     st_size x < 2 ^ 64 \<and> st_deps x = map (new_id st) (state_deps ts inC c)"
  by (auto simp: make_task_def exn_simps dest: to_unsigned_bound)

text \<open>The task at a position of a job and the element of the chain it is made of.\<close>

lemma job_task:
  assumes "make_tasks a ts (chain_tasks ts) (chain_states ts) ws rnd k (chain_tasks ts) = Inr xs" "t < length xs"
  shows "length xs = length (chain_tasks ts) \<and> st_id (xs ! t) = t \<and> st_ops (xs ! t) = td_ops (ts ! (chain_tasks ts ! t)) \<and>
    st_func (xs ! t) = pick_function ws (rnd (k + t)) \<and> st_size (xs ! t) < 2 ^ 64 \<and>
    map ((!) (chain_states ts)) (st_deps (xs ! t)) = states_at ts (chain_tasks ts ! t) \<and>
    (\<forall>d\<in>set (st_deps (xs ! t)). d < length (chain_states ts))"
proof -
  have len: "length xs = length (chain_tasks ts)"
    and mk: "make_task a ts (chain_tasks ts) (chain_states ts) (pick_function ws (rnd (k + t))) (chain_tasks ts ! t) = Inr (xs ! t)"
    using make_tasks_nth [OF assms(1)] assms(2) by auto
  let ?c = "chain_tasks ts ! t"
  have deps: "st_deps (xs ! t) = map (new_id (chain_states ts)) (states_at ts ?c)"
    using make_task_fields [OF mk] by (simp add: states_at_def state_deps_def)
  have c: "?c \<in> set (chain_tasks ts)" using assms(2) len by simp
  have id: "new_id (chain_states ts) p < length (chain_states ts) \<and> chain_states ts ! new_id (chain_states ts) p = p"
    if "p \<in> set (states_at ts ?c)" for p
    by (rule new_id_less) (use c that in \<open>auto simp: set_chain_states\<close>)
  have "map ((!) (chain_states ts)) (st_deps (xs ! t)) = states_at ts ?c"
    unfolding deps map_map by (rule map_idI) (simp add: id)
  moreover have "\<forall>d\<in>set (st_deps (xs ! t)). d < length (chain_states ts)"
    unfolding deps using id by simp
  moreover have "new_id (chain_tasks ts) ?c = t"
    using new_id_nth chain_tasks_facts(1) assms(2) len by simp
  ultimately show ?thesis using make_task_fields [OF mk] len by simp
qed

text \<open>A job that the simulator can run: every task is where its identifier says, every function is one of those
  with a weight, every dependency is a state of the job.\<close>

definition job_wf :: "(string, real) smap \<Rightarrow> bool \<Rightarrow> nat \<Rightarrow> sjob \<Rightarrow> bool" where
  "job_wf ws statefulOnly k j \<longleftrightarrow> sj_id j = k \<and> sj_tasks j \<noteq> [] \<and> sj_retSize j = st_size (hd (sj_tasks j)) \<and>
     (\<forall>t<length (sj_tasks j). st_id (sj_tasks j ! t) = t \<and> st_func (sj_tasks j ! t) \<in> fst ` set ws \<and>
        (\<forall>d\<in>set (st_deps (sj_tasks j ! t)). d < length (sj_stateSizes j))) \<and>
     (statefulOnly \<longrightarrow> sj_stateSizes j \<noteq> [])"

lemma make_job_wf:
  assumes "ws \<noteq> []" "make_job a s ws rnd so i k jd = Inr (Some j, k')"
  shows "job_wf ws so i j"
proof -
  obtain tasks sizes where t: "make_tasks a (jd_tasks jd) (chain_tasks (jd_tasks jd)) (chain_states (jd_tasks jd)) ws rnd k (chain_tasks (jd_tasks jd)) = Inr tasks"
      "rmap (make_state_size s (jd_tasks jd)) (chain_states (jd_tasks jd)) = Inr sizes"
      "j = \<lparr>sj_id = i, sj_start = jd_start jd, sj_tasks = tasks, sj_stateSizes = sizes, sj_retSize = st_size (hd tasks)\<rparr>"
      "\<not> (so \<and> chain_states (jd_tasks jd) = [])"
    using make_job_cases [OF assms(2)] by auto
  have "tasks \<noteq> []" using make_tasks_nth [OF t(1)] chain_tasks_facts(3) [of "jd_tasks jd"] by auto
  moreover have "so \<longrightarrow> sizes \<noteq> []" using rmap_length [OF t(2)] t(4) by auto
  ultimately show ?thesis
    using job_task [OF t(1)] pick_function_in [OF assms(1)] rmap_length [OF t(2)]
    by (auto simp: job_wf_def t(3))
qed

lemma make_jobs_wf:
  assumes "ws \<noteq> []"
  shows "make_jobs a s ws rnd so jobs k jds = Inr js \<Longrightarrow> \<forall>i<length jobs. job_wf ws so i (jobs ! i) \<Longrightarrow>
    \<forall>i<length js. job_wf ws so i (js ! i)"
proof (induction jds arbitrary: jobs k)
  case (Cons jd jds)
  obtain o' k' where o: "make_job a s ws rnd so (length jobs) k jd = Inr (o', k')"
      "make_jobs a s ws rnd so (case o' of None \<Rightarrow> jobs | Some j \<Rightarrow> jobs @ [j]) k' jds = Inr js"
    using Cons.prems(1) by (auto simp: exn_simps)
  show ?case
  proof (cases o')
    case (Some j)
    have "job_wf ws so (length jobs) j" using make_job_wf [OF assms] o(1) Some by blast
    then have "\<forall>i<length (jobs @ [j]). job_wf ws so i ((jobs @ [j]) ! i)"
      using Cons.prems(2) by (auto simp: nth_append less_Suc_eq)
    then show ?thesis using Cons.IH o(2) Some by simp
  qed (use Cons.IH Cons.prems(2) o(2) in simp)
qed simp

text \<open>Every job of the trace has a task, so the check of the job building never fails.\<close>

lemma resize_tasks_length: "length (resize_tasks n ts) = max n (length ts)"
  by (simp add: resize_tasks_def)

lemma add_row_tasks:
  assumes "add_row split f line r (n, l, jobs) = Inr (n', l', jobs')" "\<forall>j\<in>set jobs. jd_tasks j \<noteq> []"
  shows "\<forall>j\<in>set jobs'. jd_tasks j \<noteq> []"
proof -
  have nz: "resize_tasks t ts \<noteq> []" if "t \<noteq> 0" for t ts
    using resize_tasks_length [of t ts] that by (metis list.size(3) max_0L max_0R max.cobounded1 le_zero_eq)
  have b: "jd_tasks j \<noteq> []" if "j \<in> set (butlast jobs)" for j using that assms(2) in_set_butlastD by fast
  show ?thesis
    using assms by (auto simp: add_row_def exn_simps Let_def nz b split: if_splits)
qed

lemma read_rows_tasks:
  "read_rows split stod fmt f ls st = Inr jds \<Longrightarrow> \<forall>j\<in>set (snd (snd st)). jd_tasks j \<noteq> [] \<Longrightarrow> \<forall>j\<in>set jds. jd_tasks j \<noteq> []"
proof (induction ls arbitrary: st)
  case (Cons l ls)
  show ?case
  proof (cases "l = []")
    case False
    then obtain r where r: "parseRow split stod fmt l = Inr r" using Cons.prems(1) by (auto simp: exn_simps)
    show ?thesis
    proof (cases "rw_skip r")
      case F: False
      then obtain st' where "add_row split f l r st = Inr st'" "read_rows split stod fmt f ls st' = Inr jds"
        using Cons.prems(1) False r by (auto simp: exn_simps)
      moreover have "\<forall>j\<in>set (snd (snd st')). jd_tasks j \<noteq> []"
        using add_row_tasks calculation(1) Cons.prems(2) by (metis prod.collapse)
      ultimately show ?thesis using Cons.IH by blast
    qed (use Cons r False in simp)
  qed (use Cons.prems in simp)
qed simp

section \<open>Properties\<close>

text \<open>C30: the job built from the tasks of a trace is the chain that starts at the first one. Its tasks are, in
  the order of their identifiers, the tasks that follow the first one in any number of steps (the recursive
  search of the chain ends and finds exactly those), with the operations of the trace; the states of a task are
  its predecessors out of the chain, and the states of the job are those of its tasks.\<close>

theorem job_is_chain_of_trace:
  assumes "make_job argFactor stateFactor ws rnd statefulOnly i k jd = Inr (Some j, k')"
  shows "(\<exists>ch. findChain (Suc (length (jd_tasks jd))) (jd_tasks jd) [] 0 = Some ch \<and> distinct ch \<and>
      (follows (jd_tasks jd))\<^sup>* `` {0} = insert 0 (set ch) \<and> set (chain_tasks (jd_tasks jd)) = insert 0 (set ch)) \<and>
    map st_ops (sj_tasks j) = map (\<lambda>c. td_ops (jd_tasks jd ! c)) (chain_tasks (jd_tasks jd)) \<and>
    map (\<lambda>t. map ((!) (chain_states (jd_tasks jd))) (st_deps t)) (sj_tasks j) =
      map (\<lambda>c. filter (\<lambda>p. (0, p) \<notin> (follows (jd_tasks jd))\<^sup>*) (td_prec (jd_tasks jd ! c))) (chain_tasks (jd_tasks jd)) \<and>
    length (sj_stateSizes j) = card (\<Union>c\<in>set (chain_tasks (jd_tasks jd)). set (states_at (jd_tasks jd) c)) \<and>
    k' = k + length (sj_tasks j)"
proof -
  let ?ts = "jd_tasks jd"
  obtain tasks sizes where t: "make_tasks argFactor ?ts (chain_tasks ?ts) (chain_states ?ts) ws rnd k (chain_tasks ?ts) = Inr tasks"
      "rmap (make_state_size stateFactor ?ts) (chain_states ?ts) = Inr sizes"
      "j = \<lparr>sj_id = i, sj_start = jd_start jd, sj_tasks = tasks, sj_stateSizes = sizes, sj_retSize = st_size (hd tasks)\<rparr>"
      "k' = k + length (chain_tasks ?ts)"
    using make_job_cases [OF assms] by auto
  have len: "length tasks = length (chain_tasks ?ts)" using make_tasks_nth [OF t(1)] by simp
  have st: "states_at ?ts c = filter (\<lambda>p. (0, p) \<notin> (follows ?ts)\<^sup>*) (td_prec (?ts ! c))" for c
    by (simp add: states_at_def in_chain_tasks)
  have "map st_ops tasks = map (\<lambda>c. td_ops (?ts ! c)) (chain_tasks ?ts)"
    by (rule nth_equalityI) (use len job_task [OF t(1)] in auto)
  moreover have "map (\<lambda>t. map ((!) (chain_states ?ts)) (st_deps t)) tasks = map (states_at ?ts) (chain_tasks ?ts)"
    by (rule nth_equalityI) (use len job_task [OF t(1)] in auto)
  moreover have "length sizes = card (\<Union>c\<in>set (chain_tasks ?ts). set (states_at ?ts c))"
    using rmap_length [OF t(2)] by (simp add: chain_states_def)
  moreover have "\<exists>ch. findChain (Suc (length ?ts)) ?ts [] 0 = Some ch \<and> distinct ch \<and>
      (follows ?ts)\<^sup>* `` {0} = insert 0 (set ch) \<and> set (chain_tasks ?ts) = insert 0 (set ch)"
  proof -
    obtain ch where ch: "findChain (Suc (length ?ts)) ?ts [] 0 = Some ch" "distinct ch" "set ch = (follows ?ts)\<^sup>+ `` {0}"
      using findChain_total by blast
    have "(follows ?ts)\<^sup>* `` {0} = insert 0 (set ch)" unfolding ch(3) by (auto simp: rtrancl_eq_or_trancl)
    moreover have "set (chain_tasks ?ts) = (follows ?ts)\<^sup>* `` {0}" by (auto simp: in_chain_tasks)
    ultimately show ?thesis using ch(1,2) by blast
  qed
  ultimately show ?thesis using t(3,4) len st by simp
qed

definition job_data_ex :: job_data where
  "job_data_ex = \<lparr>jd_id = 0, jd_start = 0, jd_tasks =
     [\<lparr>td_prec = [], td_ops = 10, td_size = 1\<rparr>, \<lparr>td_prec = [0, 2], td_ops = 20, td_size = 2\<rparr>, \<lparr>td_prec = [], td_ops = 0, td_size = 4\<rparr>]\<rparr>"

lemma job_data_ex_make:
  "make_job 2 10 [(''f'', 1)] (\<lambda>_. 1 / 2) True 0 0 job_data_ex = Inr (Some
     \<lparr>sj_id = 0, sj_start = 0,
      sj_tasks = [\<lparr>st_id = 0, st_size = 2, st_ops = 10, st_func = ''f'', st_deps = []\<rparr>,
                  \<lparr>st_id = 1, st_size = 4, st_ops = 20, st_func = ''f'', st_deps = [0]\<rparr>],
      sj_stateSizes = [40], sj_retSize = 2\<rparr>, 2)"
  by (simp add: make_job_def job_data_ex_def sset_of_def all_states_def state_deps_def make_task_def make_state_size_def
      to_unsigned_def pick_function_def Let_def upt_rec)

theorem job_is_chain_of_trace_witness:
  "\<exists>j. make_job 2 10 [(''f'', 1)] (\<lambda>_. 1 / 2) True 0 0 job_data_ex = Inr (Some j, 2) \<and> map st_ops (sj_tasks j) = [10, 20] \<and>
     map (\<lambda>c. td_ops (jd_tasks job_data_ex ! c)) (chain_tasks (jd_tasks job_data_ex)) = [10, 20]"
  using job_is_chain_of_trace [OF job_data_ex_make] job_data_ex_make by simp

text \<open>C31: the jobs loaded from a trace are well formed: the identifier of a job and the one of a task are their
  positions, a job has a task, the function of a task has a weight, the states of a task are states of its job,
  what a job returns has the size of the argument of its first task, and a job has a state when only jobs with
  states are asked for.\<close>

theorem loaded_jobs_wf:
  assumes "loadJobs split stod path content opsFactor argFactor stateFactor ws rnd statefulOnly fmt = Inr js" "k < length js"
  shows "sj_id (js ! k) = k \<and> sj_tasks (js ! k) \<noteq> [] \<and> sj_retSize (js ! k) = st_size (hd (sj_tasks (js ! k))) \<and>
    (\<forall>t<length (sj_tasks (js ! k)). st_id (sj_tasks (js ! k) ! t) = t \<and> st_func (sj_tasks (js ! k) ! t) \<in> fst ` set ws \<and>
        (\<forall>d\<in>set (st_deps (sj_tasks (js ! k) ! t)). d < length (sj_stateSizes (js ! k)))) \<and>
    (statefulOnly \<longrightarrow> sj_stateSizes (js ! k) \<noteq> [])"
proof -
  obtain jds where "ws \<noteq> []" "make_jobs argFactor stateFactor ws rnd statefulOnly [] 0 jds = Inr js"
    using assms(1) by (auto simp: loadJobs_def exn_simps split: if_splits option.splits)
  then show ?thesis using make_jobs_wf [of ws] assms(2) by (fastforce simp: job_wf_def)
qed

text \<open>A trace with a chain of two tasks, the second of which needs the state of the third one.\<close>

fun split_at_char :: "string \<Rightarrow> char \<Rightarrow> string list" where
  "split_at_char [] c = [[]]"
| "split_at_char (x # xs) c = (if x = c then [] # split_at_char xs c
     else (case split_at_char xs c of [] \<Rightarrow> [[x]] | y # ys \<Rightarrow> (x # y) # ys))"

definition stod_nat :: "string \<Rightarrow> exn + real" where
  "stod_nat s = rbind (stoull s) (\<lambda>n. Inr (real n))"

definition trace_ex :: "string list" where
  "trace_ex = [''0,j_7,M1,10,100,1,1'', ''0,j_7,R2_1_3,20,100,2,1'', ''0,j_7,task_x,1,1,1,1'', ''0,j_7,M3,1,100,4,1'']"

lemma loadJobs_ex:
  "loadJobs split_at_char stod_nat path (Some trace_ex) 1 2 10 [(f, 1)] (\<lambda>_. 1 / 2) True Spar = Inr [
     \<lparr>sj_id = 0, sj_start = 0,
      sj_tasks = [\<lparr>st_id = 0, st_size = 2, st_ops = 10, st_func = f, st_deps = []\<rparr>,
                  \<lparr>st_id = 1, st_size = 4, st_ops = 20, st_func = f, st_deps = [0]\<rparr>],
      sj_stateSizes = [40], sj_retSize = 2\<rparr>]"
proof -
  have f: "split_at_char ''0,j_7,M1,10,100,1,1'' CHR '','' = [''0'', ''j_7'', ''M1'', ''10'', ''100'', ''1'', ''1'']"
    "split_at_char ''0,j_7,R2_1_3,20,100,2,1'' CHR '','' = [''0'', ''j_7'', ''R2_1_3'', ''20'', ''100'', ''2'', ''1'']"
    "split_at_char ''0,j_7,task_x,1,1,1,1'' CHR '','' = [''0'', ''j_7'', ''task_x'', ''1'', ''1'', ''1'', ''1'']"
    "split_at_char ''0,j_7,M3,1,100,4,1'' CHR '','' = [''0'', ''j_7'', ''M3'', ''1'', ''100'', ''4'', ''1'']"
    "split_at_char ''1'' CHR ''_'' = [''1'']" "split_at_char ''2_1_3'' CHR ''_'' = [''2'', ''1'', ''3'']"
    "split_at_char ''3'' CHR ''_'' = [''3'']"
    by simp_all
  have n: "stoull ''0'' = Inr 0" "stoull ''1'' = Inr 1" "stoull ''2'' = Inr 2" "stoull ''3'' = Inr 3" "stoull ''4'' = Inr 4"
    "stoull ''7'' = Inr 7" "stoull ''10'' = Inr 10" "stoull ''20'' = Inr 20" "stoull ''100'' = Inr 100"
    by (simp_all add: stoull_def is_blank_def is_digit_def digits_value_def)
  have k: "\<not> strange ''M1''" "\<not> strange ''R2_1_3''" "\<not> strange ''M3''" "strange ''task_x''"
    by (simp_all add: strange_def contains_def upt_rec)
  have j: "job_token ''j_7''" by (simp add: job_token_def)
  note p = parseRow_def parse_fields_def stod_nat_def f n j k
  have r: "parseRow split_at_char stod_nat Spar ''0,j_7,M1,10,100,1,1'' = Inr \<lparr>rw_startTime = 0, rw_jobName = ''j_7'',
      rw_taskName = ''M1'', rw_duration = 10, rw_cpu = 100, rw_mem = 1, rw_numInstances = 1, rw_skip = False\<rparr>"
    "parseRow split_at_char stod_nat Spar ''0,j_7,R2_1_3,20,100,2,1'' = Inr \<lparr>rw_startTime = 0, rw_jobName = ''j_7'',
      rw_taskName = ''R2_1_3'', rw_duration = 20, rw_cpu = 100, rw_mem = 2, rw_numInstances = 1, rw_skip = False\<rparr>"
    "parseRow split_at_char stod_nat Spar ''0,j_7,task_x,1,1,1,1'' = Inr \<lparr>rw_startTime = 0, rw_jobName = ''j_7'',
      rw_taskName = ''task_x'', rw_duration = 1, rw_cpu = 1, rw_mem = 1, rw_numInstances = 1, rw_skip = True\<rparr>"
    "parseRow split_at_char stod_nat Spar ''0,j_7,M3,1,100,4,1'' = Inr \<lparr>rw_startTime = 0, rw_jobName = ''j_7'',
      rw_taskName = ''M3'', rw_duration = 1, rw_cpu = 100, rw_mem = 4, rw_numInstances = 1, rw_skip = False\<rparr>"
    by (simp_all add: p)
  show ?thesis
    by (simp add: loadJobs_def trace_ex_def r f n add_row_def Let_def resize_tasks_def task_data_empty_def to_unsigned_def
        make_job_def sset_of_def all_states_def state_deps_def make_task_def make_state_size_def pick_function_def upt_rec)
qed

theorem loaded_jobs_wf_witness:
  "\<exists>j. loadJobs split_at_char stod_nat ''t.csv'' (Some trace_ex) 1 2 10 [(''f'', 1)] (\<lambda>_. 1 / 2) True Spar = Inr [j] \<and>
     sj_id j = 0 \<and> sj_tasks j \<noteq> [] \<and> sj_stateSizes j \<noteq> []"
  using loaded_jobs_wf [OF loadJobs_ex [of "''t.csv''" "''f''"], of 0] loadJobs_ex [of "''t.csv''" "''f''"] by simp

end
