(* ===== verification/StateScenario.thy ===== *)
theory StateScenario
  imports StateJob "HOL-Library.Multiset"
begin

text \<open>
  The scenario of a simulation of stateful functions, \<open>StateSim/scenario.cpp\<close>: the tasks of the jobs are
  allocated to the processing nodes, and the performance of the jobs is computed from the allocation under one
  of seven policies.

  A statement works on a state that it changes, may throw, and may not return: its result is an option of a
  result and the state it leaves; \<open>obind\<close> is the sequence of two of them. The network is part of the state,
  since its queries fill its cache. Sums of sizes wrap around at \<open>2 ^ 64\<close>; the random values are parameters.
  The load of a node counts tasks in memory and is taken without a bound.
\<close>

type_synonym ('s, 'a) act = "'s \<Rightarrow> ((exn + 'a) \<times> 's) option"

definition oret :: "'a \<Rightarrow> ('s, 'a) act" where
  "oret a s = Some (Inr a, s)"

definition olift :: "exn + 'a \<Rightarrow> ('s, 'a) act" where
  "olift r s = Some (r, s)"

definition obind :: "('s, 'a) act \<Rightarrow> ('a \<Rightarrow> ('s, 'b) act) \<Rightarrow> ('s, 'b) act" where
  "obind m f s = (case m s of None \<Rightarrow> None | Some (Inl e, s) \<Rightarrow> Some (Inl e, s) | Some (Inr a, s) \<Rightarrow> f a s)"

fun ofor :: "'x list \<Rightarrow> ('x \<Rightarrow> ('s, unit) act) \<Rightarrow> ('s, unit) act" where
  "ofor [] f = oret ()"
| "ofor (x # xs) f = obind (f x) (\<lambda>_. ofor xs f)"

section \<open>Policies\<close>

datatype alloc_policy = ProcOnly | ProcNet

datatype exec_policy = PureFaaS | StatePropagate | StateLocal | UnchainedExternal | UnchainedInEdge | UnchainedInFunction | UnchainedInClient

fun alloc_toString :: "alloc_policy \<Rightarrow> string" where
  "alloc_toString ProcOnly = ''ProcOnly''"
| "alloc_toString ProcNet = ''ProcNet''"

fun exec_toString :: "exec_policy \<Rightarrow> string" where
  "exec_toString PureFaaS = ''PureFaaS''"
| "exec_toString StatePropagate = ''StatePropagate''"
| "exec_toString StateLocal = ''StateLocal''"
| "exec_toString UnchainedExternal = ''UnchainedExternal''"
| "exec_toString UnchainedInEdge = ''UnchainedInEdge''"
| "exec_toString UnchainedInFunction = ''UnchainedInFunction''"
| "exec_toString UnchainedInClient = ''UnchainedInClient''"

definition allAllocPolicies :: "alloc_policy list" where
  "allAllocPolicies = [ProcOnly, ProcNet]"

definition allExecPolicies :: "exec_policy list" where
  "allExecPolicies = [PureFaaS, StatePropagate, StateLocal, UnchainedExternal, UnchainedInEdge, UnchainedInFunction, UnchainedInClient]"

definition allocPolicyFromString :: "string \<Rightarrow> exn + alloc_policy" where
  "allocPolicyFromString v =
     (if v = ''ProcOnly'' then Inr ProcOnly
      else if v = ''ProcNet'' then Inr ProcNet
      else Inl (RuntimeError (''Invalid allocation policy: '' @ v)))"

definition execPolicyFromString :: "string \<Rightarrow> exn + exec_policy" where
  "execPolicyFromString v =
     (if v = ''PureFaaS'' then Inr PureFaaS
      else if v = ''StatePropagate'' then Inr StatePropagate
      else if v = ''StateLocal'' then Inr StateLocal
      else if v = ''UnchainedExternal'' then Inr UnchainedExternal
      else if v = ''UnchainedInEdge'' then Inr UnchainedInEdge
      else if v = ''UnchainedInFunction'' then Inr UnchainedInFunction
      else if v = ''UnchainedInClient'' then Inr UnchainedInClient
      else Inl (RuntimeError (''Invalid execution policy: '' @ v)))"

text \<open>The sets of policies given by a comma-separated list.\<close>

definition allocPoliciesFromList :: "(string \<Rightarrow> char \<Rightarrow> string list) \<Rightarrow> string \<Rightarrow> exn + alloc_policy set" where
  "allocPoliciesFromList split v = rbind (rmap allocPolicyFromString (split v (CHR '',''))) (\<lambda>ps. Inr (set ps))"

definition execPoliciesFromList :: "(string \<Rightarrow> char \<Rightarrow> string list) \<Rightarrow> string \<Rightarrow> exn + exec_policy set" where
  "execPoliciesFromList split v = rbind (rmap execPolicyFromString (split v (CHR '',''))) (\<lambda>ps. Inr (set ps))"

section \<open>Performance data\<close>

record perf_job =
  pj_procDelay :: real
  pj_netDelay :: real
  pj_dataTransfer :: nat
  pj_chainSize :: nat

record perf_data =
  pf_jobData :: "perf_job list"
  pf_load :: "nat list"

definition perf_empty :: perf_job where
  "perf_empty = \<lparr>pj_procDelay = 0, pj_netDelay = 0, pj_dataTransfer = 0, pj_chainSize = 0\<rparr>"

definition add64 :: "nat \<Rightarrow> nat \<Rightarrow> nat" where
  "add64 a b = (a + b) mod 2 ^ 64"

definition mul64 :: "nat \<Rightarrow> nat \<Rightarrow> nat" where
  "mul64 a b = (a * b) mod 2 ^ 64"

definition perf_merge :: "perf_job \<Rightarrow> perf_job \<Rightarrow> perf_job" where
  "perf_merge p q = p\<lparr>pj_procDelay := pj_procDelay p + pj_procDelay q, pj_netDelay := pj_netDelay p + pj_netDelay q,
     pj_dataTransfer := add64 (pj_dataTransfer p) (pj_dataTransfer q)\<rparr>"

text \<open>
  The file of the performance data, in units of 64 bits. The representation \<open>bits\<close> of a floating-point value
  and the value \<open>val\<close> of a representation are parameters. A read beyond the end of the file leaves unspecified
  values, which is an error of the model.
\<close>

definition perf_save :: "(real \<Rightarrow> nat) \<Rightarrow> perf_data \<Rightarrow> nat list" where
  "perf_save bits p = [2, length (pf_jobData p)] @
     concat (map (\<lambda>j. [bits (pj_procDelay j), bits (pj_netDelay j), pj_dataTransfer j, pj_chainSize j]) (pf_jobData p)) @
     [length (pf_load p)] @ pf_load p"

definition read_cell :: "nat list \<Rightarrow> exn + nat \<times> nat list" where
  "read_cell f = (case f of [] \<Rightarrow> Inl (Undefined ''value read beyond the end of the file'') | x # xs \<Rightarrow> Inr (x, xs))"

fun read_jobs :: "(nat \<Rightarrow> real) \<Rightarrow> nat \<Rightarrow> nat list \<Rightarrow> exn + perf_job list \<times> nat list" where
  "read_jobs val 0 f = Inr ([], f)"
| "read_jobs val (Suc n) f = rbind (read_cell f) (\<lambda>(a, f). rbind (read_cell f) (\<lambda>(b, f). rbind (read_cell f) (\<lambda>(c, f).
     rbind (read_cell f) (\<lambda>(d, f). rbind (read_jobs val n f) (\<lambda>(js, f).
       Inr (\<lparr>pj_procDelay = val a, pj_netDelay = val b, pj_dataTransfer = c, pj_chainSize = d\<rparr> # js, f))))))"

fun read_load :: "nat \<Rightarrow> nat list \<Rightarrow> exn + nat list \<times> nat list" where
  "read_load 0 f = Inr ([], f)"
| "read_load (Suc n) f = rbind (read_cell f) (\<lambda>(x, f). rbind (read_load n f) (\<lambda>(xs, f). Inr (x # xs, f)))"

definition perf_load :: "(nat \<Rightarrow> real) \<Rightarrow> nat list \<Rightarrow> exn + perf_data \<times> nat list" where
  "perf_load val f = rbind (read_cell f) (\<lambda>(v, f).
     if v \<noteq> 2 then Inl (RuntimeError (''Wrong version number: expected 2, found '' @ to_string v))
     else rbind (read_cell f) (\<lambda>(n, f). rbind (read_jobs val n f) (\<lambda>(js, f). rbind (read_cell f) (\<lambda>(m, f).
       rbind (read_load m f) (\<lambda>(ls, f). Inr (\<lparr>pf_jobData = js, pf_load = ls\<rparr>, f))))))"

section \<open>Scenario\<close>

record scenario =
  sn_affinities :: "(string, affinity) smap"
  sn_jobs :: "sjob list"
  sn_clients :: "node list"
  sn_load :: "nat list"
  sn_alloc :: "node option list list"

definition randomClients :: "(nat \<Rightarrow> nat) \<Rightarrow> nat \<Rightarrow> network \<Rightarrow> exn + node list" where
  "randomClients draw n N = rmap (\<lambda>i. if draw i < length (nw_clients N) then Inr (nw_clients N ! draw i)
     else Inl (Undefined ''vector index out of range'')) [0..<n]"

definition scenario_new :: "(nat \<Rightarrow> nat) \<Rightarrow> (string, affinity) smap \<Rightarrow> network \<Rightarrow> sjob list \<Rightarrow> exn + scenario" where
  "scenario_new draw affs N jobs = rbind (randomClients draw (length jobs) N) (\<lambda>cs.
     Inr \<lparr>sn_affinities = affs, sn_jobs = jobs, sn_clients = cs, sn_load = [], sn_alloc = []\<rparr>)"

text \<open>
  The affinity of the functions in the scenario made from a configuration: the loop over the affinities goes on
  only while the random value is below the sum so far, which starts from zero.
\<close>

fun affinity_loop :: "real \<Rightarrow> real \<Rightarrow> (affinity, real) smap \<Rightarrow> exn + affinity" where
  "affinity_loop r cur [] = Inl (Undefined ''assertion it != aAffinities.end()'')"
| "affinity_loop r cur ((a, w) # ws) = (if r < cur then affinity_loop r (cur + w) ws else Inr a)"

fun randomAffinities_loop :: "(nat \<Rightarrow> real) \<Rightarrow> nat \<Rightarrow> string list \<Rightarrow> (affinity, real) smap \<Rightarrow> exn + (string \<times> affinity) list" where
  "randomAffinities_loop rv k [] ws = Inr []"
| "randomAffinities_loop rv k (f # fs) ws = rbind (affinity_loop (rv k) 0 ws) (\<lambda>a.
     rbind (randomAffinities_loop rv (Suc k) fs ws) (\<lambda>r. Inr ((f, a) # r)))"

definition randomAffinities :: "(nat \<Rightarrow> real) \<Rightarrow> (string, real) smap \<Rightarrow> (affinity, real) smap \<Rightarrow> exn + (string, affinity) smap" where
  "randomAffinities rv fws aws = randomAffinities_loop rv 0 (map fst fws) aws"

text \<open>A random order of the jobs.\<close>

function shuffle_loop :: "(nat \<Rightarrow> real) \<Rightarrow> nat \<Rightarrow> nat sset \<Rightarrow> exn + nat list" where
  "shuffle_loop rv k ids = (if ids = [] then Inr []
     else (let p = nat \<lfloor>rv k * real (length ids)\<rfloor>
           in if p \<ge> length ids then Inl (Undefined ''assertion myRndId < myIds.size()'')
              else rbind (shuffle_loop rv (Suc k) (take p ids @ drop (Suc p) ids)) (\<lambda>r. Inr (ids ! p # r))))"
  by pat_completeness auto

termination
  by (relation "measure (\<lambda>(_, _, ids). length ids)") auto

declare shuffle_loop.simps [simp del]

definition shuffleJobIds :: "(nat \<Rightarrow> real) \<Rightarrow> nat \<Rightarrow> exn + nat list" where
  "shuffleJobIds rv n = shuffle_loop rv 0 [0..<n]"

section \<open>Sizes\<close>

fun sum_states :: "sjob \<Rightarrow> nat list \<Rightarrow> nat \<Rightarrow> exn + nat" where
  "sum_states j [] t = Inr t"
| "sum_states j (s # ss) t = (if s < length (sj_stateSizes j) then sum_states j ss (add64 t (sj_stateSizes j ! s))
     else Inl (Undefined ''assertion myStateId < aJob.stateSizes().size()''))"

definition stateSize :: "sjob \<Rightarrow> stask \<Rightarrow> bool \<Rightarrow> exn + nat" where
  "stateSize j t all = (if all then Inr (foldl add64 0 (sj_stateSizes j)) else sum_states j (st_deps t) 0)"

definition allStatesArgSizes :: "sjob \<Rightarrow> stask \<Rightarrow> bool \<Rightarrow> exn + nat \<times> nat" where
  "allStatesArgSizes j t all = rbind (stateSize j t all) (\<lambda>ss.
     if Suc (st_id t) = length (sj_tasks j) then Inr (add64 ss (st_size t), add64 ss (sj_retSize j))
     else if Suc (st_id t) < length (sj_tasks j) then Inr (add64 ss (st_size t), add64 ss (st_size (sj_tasks j ! Suc (st_id t))))
     else Inl (Undefined ''vector index out of range''))"

section \<open>Execution times\<close>

definition execTimeNew :: "dijkstra \<Rightarrow> nat list \<Rightarrow> nat \<Rightarrow> nat \<Rightarrow> nat \<Rightarrow> node \<Rightarrow> node \<Rightarrow> (network, real \<times> real) act" where
  "execTimeNew dij load ops inSize outSize client v =
     (if nd_id v \<ge> length load then olift (Inl (Undefined ''assertion aNode.id() < theLoad.size()''))
      else obind (network_txTime dij client v inSize) (\<lambda>a. obind (network_txTime dij v client outSize) (\<lambda>b.
        oret (real ops / (nd_speed v / real (load ! nd_id v + 1)), a + b))))"

definition proc_time :: "nat list \<Rightarrow> nat \<Rightarrow> node \<Rightarrow> exn + real" where
  "proc_time load ops v =
     (if ops \<noteq> 0 \<and> nd_id v \<ge> length load then Inl (Undefined ''assertion aTarget.id() < theLoad.size()'')
      else if ops \<noteq> 0 \<and> load ! nd_id v = 0 then Inl (Undefined ''assertion theLoad[aTarget.id()] > 0'')
      else Inr (if ops = 0 then 0 else real ops / (nd_speed v / real (load ! nd_id v))))"

definition execStatsTwoWay :: "dijkstra \<Rightarrow> nat list \<Rightarrow> nat \<Rightarrow> nat \<Rightarrow> nat \<Rightarrow> node \<Rightarrow> node \<Rightarrow> (network, perf_job) act" where
  "execStatsTwoWay dij load ops inSize outSize src dst =
     obind (olift (proc_time load ops dst)) (\<lambda>p.
     obind (network_txTime dij src dst inSize) (\<lambda>a. obind (network_txTime dij dst src outSize) (\<lambda>b.
     obind (network_hops dij src dst) (\<lambda>h. obind (network_hops dij dst src) (\<lambda>g.
       oret \<lparr>pj_procDelay = p, pj_netDelay = a + b, pj_dataTransfer = add64 (mul64 h inSize) (mul64 g outSize), pj_chainSize = 0\<rparr>)))))"

definition execStatsOneWay :: "dijkstra \<Rightarrow> nat list \<Rightarrow> nat \<Rightarrow> nat \<Rightarrow> node \<Rightarrow> node \<Rightarrow> (network, perf_job) act" where
  "execStatsOneWay dij load ops bytes src dst =
     obind (olift (proc_time load ops dst)) (\<lambda>p.
     obind (network_txTime dij src dst bytes) (\<lambda>a. obind (network_hops dij src dst) (\<lambda>h.
       oret \<lparr>pj_procDelay = p, pj_netDelay = a, pj_dataTransfer = mul64 h bytes, pj_chainSize = 0\<rparr>)))"

definition execStatsTwoWayCloud :: "nat \<Rightarrow> nat \<Rightarrow> (network, perf_job) act" where
  "execStatsTwoWayCloud inSize outSize N =
     (case network_txTimeCloud inSize N of Inl e \<Rightarrow> Some (Inl e, N)
      | Inr a \<Rightarrow> (case network_txTimeCloud outSize N of Inl e \<Rightarrow> Some (Inl e, N)
          | Inr b \<Rightarrow> oret \<lparr>pj_procDelay = 0, pj_netDelay = a + b, pj_dataTransfer = add64 inSize outSize, pj_chainSize = 0\<rparr> N))"

section \<open>Allocation\<close>

text \<open>The node with the right affinity and the shortest execution time, the first one if there are many.\<close>

fun min_node :: "dijkstra \<Rightarrow> nat list \<Rightarrow> nat \<Rightarrow> nat \<Rightarrow> nat \<Rightarrow> node \<Rightarrow> affinity \<Rightarrow> node list \<Rightarrow> (node \<times> real) option \<Rightarrow>
    (network, (node \<times> real) option) act" where
  "min_node dij load ops i out client aff [] best = oret best"
| "min_node dij load ops i out client aff (v # vs) best =
     (if nd_affinity v \<noteq> aff then min_node dij load ops i out client aff vs best
      else obind (execTimeNew dij load ops i out client v) (\<lambda>(p, x).
        min_node dij load ops i out client aff vs (case best of None \<Rightarrow> Some (v, p + x)
          | Some (u, t) \<Rightarrow> if p + x < t then Some (v, p + x) else best)))"

definition onNet :: "(network, 'a) act \<Rightarrow> (scenario \<times> network, 'a) act" where
  "onNet m s = map_option (\<lambda>(r, N). (r, (fst s, N))) (m (snd s))"

text \<open>The selected node is written in the table of the allocation, then its load is increased.\<close>

definition assign :: "nat \<Rightarrow> nat \<Rightarrow> node \<Rightarrow> (scenario \<times> network, unit) act" where
  "assign job k v s =
     (let al = sn_alloc (fst s); s1 = (fst s)\<lparr>sn_alloc := al[job := (al ! job)[k := Some v]]\<rparr>
      in if job \<ge> length al \<or> k \<ge> length (al ! job) then Some (Inl (Undefined ''vector index out of range''), s)
         else if nd_id v \<ge> length (sn_load s1) then Some (Inl (Undefined ''assertion myMinNode->id() < theLoad.size()''), (s1, snd s))
         else Some (Inr (), (s1\<lparr>sn_load := (sn_load s1)[nd_id v := sn_load s1 ! nd_id v + 1]\<rparr>, snd s)))"

definition alloc_task :: "dijkstra \<Rightarrow> alloc_policy \<Rightarrow> sjob \<Rightarrow> node \<Rightarrow> nat \<Rightarrow> (scenario \<times> network, unit) act" where
  "alloc_task dij pol j client k s =
     (let t = sj_tasks j ! k
      in case map_of (sn_affinities (fst s)) (st_func t) of
        None \<Rightarrow> Some (Inl (RuntimeError (''Cannot allocate task: no matching affinity configured '' @ st_func t)), s)
      | Some aff \<Rightarrow>
          obind (olift (if pol = ProcNet then allStatesArgSizes j t True else Inr (0, 0))) (\<lambda>(i, out).
          obind (onNet (min_node dij (sn_load (fst s)) (st_ops t) i out client aff (nw_processing (snd s)) None)) (\<lambda>best.
            (case best of None \<Rightarrow> olift (Inl (RuntimeError (''Allocation failed: could not find any suitable node for task '' @ st_func t)))
             | Some (v, _) \<Rightarrow> assign (sj_id j) k v))) s)"

definition resize_nodes :: "nat \<Rightarrow> node option list \<Rightarrow> node option list" where
  "resize_nodes n xs = take n xs @ replicate (n - length xs) None"

definition alloc_job :: "dijkstra \<Rightarrow> alloc_policy \<Rightarrow> nat \<Rightarrow> (scenario \<times> network, unit) act" where
  "alloc_job dij pol i s =
     (let sc = fst s
      in if i \<ge> length (sn_jobs sc) then Some (Inl (Undefined ''assertion myJobId < theJobs.size()''), s)
         else if i \<ge> length (sn_clients sc) then Some (Inl (Undefined ''assertion myJobId < theClients.size()''), s)
         else if i \<ge> length (sn_alloc sc) then Some (Inl (Undefined ''assertion myJobId < theAllocation.size()''), s)
         else (let j = sn_jobs sc ! i;
                   sc = sc\<lparr>sn_alloc := (sn_alloc sc)[i := resize_nodes (length (sj_tasks j)) (sn_alloc sc ! i)]\<rparr>
               in ofor [0..<length (sj_tasks j)] (alloc_task dij pol j (sn_clients sc ! i)) (sc, snd s)))"

definition allocateTasks :: "dijkstra \<Rightarrow> (nat \<Rightarrow> real) \<Rightarrow> alloc_policy \<Rightarrow> (scenario \<times> network, unit) act" where
  "allocateTasks dij rv pol s =
     (let sc = (fst s)\<lparr>sn_load := replicate (length (nw_nodes (snd s))) 0, sn_alloc := replicate (length (sn_jobs (fst s))) []\<rparr>
      in case shuffleJobIds rv (length (sn_jobs sc)) of
        Inl e \<Rightarrow> Some (Inl e, (sc, snd s))
      | Inr ids \<Rightarrow> ofor ids (alloc_job dij pol) (sc, snd s))"

section \<open>Performance\<close>

text \<open>The states that a task needs move to its node.\<close>

fun move_states :: "dijkstra \<Rightarrow> nat list \<Rightarrow> sjob \<Rightarrow> node \<Rightarrow> nat list \<Rightarrow> node list \<Rightarrow> perf_job \<Rightarrow> (network, node list \<times> perf_job) act" where
  "move_states dij load j v [] locs stat = oret (locs, stat)"
| "move_states dij load j v (s # ss) locs stat =
     (if s \<ge> length (sj_stateSizes j) then olift (Inl (Undefined ''assertion myStateId < myJob.stateSizes().size()''))
      else if s \<ge> length locs then olift (Inl (Undefined ''assertion myStateId < myStateLocation.size()''))
      else obind (execStatsOneWay dij load 0 (sj_stateSizes j ! s) (locs ! s) v) (\<lambda>x.
        move_states dij load j v ss (locs[s := v]) (perf_merge stat x)))"

text \<open>The policies that call every function from the client; a repository without a transfer adds nothing.\<close>

definition perf_unchained :: "dijkstra \<Rightarrow> nat list \<Rightarrow> sjob \<Rightarrow> stask \<Rightarrow> stask option \<Rightarrow> node \<Rightarrow> node \<Rightarrow> perf_job \<Rightarrow>
    (nat \<Rightarrow> (network, perf_job) act) \<Rightarrow> (network, perf_job) act" where
  "perf_unchained dij load j t nxt client v stat repo =
     obind (execStatsTwoWay dij load (st_ops t) (st_size t) (case nxt of None \<Rightarrow> sj_retSize j | Some t' \<Rightarrow> st_size t') client v) (\<lambda>x.
     obind (olift (stateSize j t False)) (\<lambda>ss. obind (repo ss) (\<lambda>y. oret (perf_merge (perf_merge stat x) y))))"

definition perf_task :: "dijkstra \<Rightarrow> exec_policy \<Rightarrow> nat list \<Rightarrow> sjob \<Rightarrow> stask \<Rightarrow> stask option \<Rightarrow> node \<Rightarrow> node \<Rightarrow> node option \<Rightarrow>
    node list \<Rightarrow> perf_job \<Rightarrow> (network, node list \<times> perf_job) act" where
  "perf_task dij pol load j t nxt client v prev locs stat =
     (let from = (case prev of None \<Rightarrow> client | Some u \<Rightarrow> u);
          keep = (\<lambda>m. obind m (\<lambda>x. oret (locs, x)));
          back = (\<lambda>bytes st. if nxt = None then obind (execStatsOneWay dij load 0 bytes v client) (\<lambda>x. oret (perf_merge st x)) else oret st)
      in case pol of
        PureFaaS \<Rightarrow> keep (obind (olift (allStatesArgSizes j t True)) (\<lambda>(i, out).
          obind (execStatsTwoWay dij load (st_ops t) i out client v) (\<lambda>x. oret (perf_merge stat x))))
      | StatePropagate \<Rightarrow> keep (obind (olift (allStatesArgSizes j t True)) (\<lambda>(i, out).
          obind (execStatsOneWay dij load (st_ops t) i from v) (\<lambda>x. back out (perf_merge stat x))))
      | StateLocal \<Rightarrow>
          obind (execStatsOneWay dij load (st_ops t) (st_size t) from v) (\<lambda>x.
          obind (move_states dij load j v (st_deps t) locs (perf_merge stat x)) (\<lambda>(locs, stat).
          obind (back (sj_retSize j) stat) (\<lambda>stat. oret (locs, stat))))
      | UnchainedExternal \<Rightarrow> keep (perf_unchained dij load j t nxt client v stat (\<lambda>ss. execStatsTwoWayCloud ss ss))
      | UnchainedInEdge \<Rightarrow> keep (perf_unchained dij load j t nxt client v stat (\<lambda>ss. obind (network_central dij) (\<lambda>c.
          case c of None \<Rightarrow> olift (Inl (Undefined ''null pointer''))
          | Some u \<Rightarrow> execStatsTwoWay dij load 0 ss ss client u)))
      | UnchainedInFunction \<Rightarrow> keep (perf_unchained dij load j t nxt client v stat (\<lambda>ss. oret perf_empty))
      | UnchainedInClient \<Rightarrow> keep (obind (olift (allStatesArgSizes j t False)) (\<lambda>(i, out).
          obind (execStatsTwoWay dij load (st_ops t) i out client v) (\<lambda>x. oret (perf_merge stat x)))))"

fun perf_tasks :: "dijkstra \<Rightarrow> exec_policy \<Rightarrow> scenario \<Rightarrow> sjob \<Rightarrow> node \<Rightarrow> stask list \<Rightarrow> node option \<Rightarrow> node list \<Rightarrow> perf_job \<Rightarrow> (network, perf_job) act" where
  "perf_tasks dij pol sc j client [] prev locs stat = oret stat"
| "perf_tasks dij pol sc j client (t # ts) prev locs stat =
     (if sj_id j \<ge> length (sn_alloc sc) then olift (Inl (Undefined ''assertion myJob.id() < theAllocation.size()''))
      else if st_id t \<ge> length (sn_alloc sc ! sj_id j) then olift (Inl (Undefined ''assertion myTask.id() < theAllocation[myJob.id()].size()''))
      else case sn_alloc sc ! sj_id j ! st_id t of
        None \<Rightarrow> olift (Inl (Undefined ''null pointer''))
      | Some v \<Rightarrow> obind (perf_task dij pol (sn_load sc) j t (if ts = [] then None else Some (hd ts)) client v prev locs stat) (\<lambda>(locs, stat).
          perf_tasks dij pol sc j client ts (Some v) locs stat))"

fun perf_jobs :: "dijkstra \<Rightarrow> exec_policy \<Rightarrow> scenario \<Rightarrow> sjob list \<Rightarrow> (network, perf_job list) act" where
  "perf_jobs dij pol sc [] = oret []"
| "perf_jobs dij pol sc (j # js) =
     (if sj_id j \<ge> length (sn_clients sc) then olift (Inl (Undefined ''assertion myJob.id() < theClients.size()''))
      else (let client = sn_clients sc ! sj_id j
            in obind (perf_tasks dij pol sc j client (sj_tasks j) None (replicate (length (sj_stateSizes j)) client)
                 (perf_empty\<lparr>pj_chainSize := length (sj_tasks j)\<rparr>)) (\<lambda>p.
               obind (perf_jobs dij pol sc js) (\<lambda>ps. oret (p # ps)))))"

definition performance :: "dijkstra \<Rightarrow> exec_policy \<Rightarrow> scenario \<Rightarrow> (network, perf_data) act" where
  "performance dij pol sc N =
     (if sn_load sc = [] then Some (Inl (RuntimeError ''Cannot measure performance without an allocation''), N)
      else obind (perf_jobs dij pol sc (sn_jobs sc)) (\<lambda>ps N.
        case rmap (\<lambda>v. if nd_id v < length (sn_load sc) then Inr (sn_load sc ! nd_id v)
            else Inl (Undefined ''assertion myNodePtr->id() < theLoad.size()'')) (nw_processing N) of
          Inl e \<Rightarrow> Some (Inl e, N)
        | Inr ls \<Rightarrow> Some (Inr \<lparr>pf_jobData = ps, pf_load = ls\<rparr>, N)) N)"

section \<open>Sequences of statements\<close>

named_theorems act_simps

lemma act_simp [act_simps]:
  "oret a s = Some (Inr a, s)"
  "olift (Inr a) s = Some (Inr a, s)"
  "olift (Inl e) s = Some (Inl e, s)"
  by (simp_all add: oret_def olift_def)

lemma obind_eq_Inr:
  "obind m f s = Some (Inr b, s') \<longleftrightarrow> (\<exists>a s1. m s = Some (Inr a, s1) \<and> f a s1 = Some (Inr b, s'))"
  by (auto simp: obind_def split: option.splits sum.splits)

lemma obind_Inr: "m s = Some (Inr a, s1) \<Longrightarrow> obind m f s = f a s1"
  by (simp add: obind_def)

text \<open>A loop with an invariant of what has been done.\<close>

lemma ofor_invariant:
  assumes "P [] s" and "\<And>done x todo s. xs = done @ x # todo \<Longrightarrow> P done s \<Longrightarrow> \<exists>s'. f x s = Some (Inr (), s') \<and> P (done @ [x]) s'"
  shows "\<exists>s'. ofor xs f s = Some (Inr (), s') \<and> P xs s'"
proof -
  have *: "\<exists>s'. ofor ys f s = Some (Inr (), s') \<and> P xs s'" if "xs = zs @ ys" "P zs s" for ys zs s
    using that
  proof (induction ys arbitrary: zs s)
    case (Cons y ys)
    obtain s1 where "f y s = Some (Inr (), s1)" "P (zs @ [y]) s1" using assms(2) Cons.prems by blast
    then show ?case using Cons.IH [of "zs @ [y]" s1] Cons.prems(1) by (simp add: obind_Inr)
  qed (simp add: act_simps)
  show ?thesis using * [of "[]" xs s] assms(1) by simp
qed

section \<open>A network that is queried by a simulation\<close>

fun pick_central :: "(node \<Rightarrow> real) \<Rightarrow> node list \<Rightarrow> node option \<Rightarrow> real \<Rightarrow> node option" where
  "pick_central W [] c w = c"
| "pick_central W (x # xs) c w = (if c = None \<or> W x < w then pick_central W xs (Some x) (W x) else pick_central W xs c w)"

lemma pick_central_in: "pick_central W xs c w = Some d \<Longrightarrow> d \<in> set xs \<or> c = Some d"
  by (induction xs arbitrary: c w) (fastforce split: if_splits)+

lemma pick_central_Some: "xs \<noteq> [] \<or> c \<noteq> None \<Longrightarrow> pick_central W xs c w \<noteq> None"
  by (induction xs arbitrary: c w) auto

definition net_central :: "dijkstra \<Rightarrow> network \<Rightarrow> node option" where
  "net_central dij N = pick_central (worst_time dij N) (nw_processing N) None 0"

text \<open>What the simulations rely on: the nodes \<open>ns\<close>, which include the processing ones, reach one another, and
  the cloud has been set. The queries keep the network \<open>live\<close>.\<close>

definition ready :: "dijkstra \<Rightarrow> network \<Rightarrow> node set \<Rightarrow> bool" where
  "ready dij N ns \<longleftrightarrow> dijkstra_ok dij (nw_graph N) \<and> snet_inv dij N \<and> all_reach N ns \<and> set (nw_processing N) \<subseteq> ns \<and>
     nw_processing N \<noteq> [] \<and> nw_cloud N \<noteq> None"

definition live :: "dijkstra \<Rightarrow> network \<Rightarrow> network \<Rightarrow> bool" where
  "live dij N N' \<longleftrightarrow> same_net N N' \<and> snet_inv dij N' \<and> nw_cloud N' = nw_cloud N \<and> (nw_central N' = None \<or> nw_central N' = net_central dij N)"

text \<open>A query has the same value whatever was asked before.\<close>

definition yields :: "dijkstra \<Rightarrow> network \<Rightarrow> (network, 'a) act \<Rightarrow> 'a \<Rightarrow> bool" where
  "yields dij N m x \<longleftrightarrow> (\<forall>N1. live dij N N1 \<longrightarrow> (\<exists>N2. m N1 = Some (Inr x, N2) \<and> live dij N N2))"

lemma yieldsD: "yields dij N m x \<Longrightarrow> live dij N N1 \<Longrightarrow> \<exists>N2. m N1 = Some (Inr x, N2) \<and> live dij N N2"
  by (simp add: yields_def)

lemma yields_oret: "yields dij N (oret x) x"
  by (simp add: yields_def act_simps)

lemma yields_olift: "r = Inr x \<Longrightarrow> yields dij N (olift r) x"
  by (simp add: yields_def act_simps)

lemma yields_obind:
  assumes "yields dij N m x" "yields dij N (f x) y"
  shows "yields dij N (obind m f) y"
  unfolding yields_def using assms by (metis obind_Inr yieldsD)

lemma live_rest: "live dij N N1 \<Longrightarrow> same_net N N2 \<Longrightarrow> snet_inv dij N2 \<Longrightarrow> keeps_rest N1 N2 \<Longrightarrow> live dij N N2"
  by (auto simp: live_def keeps_rest_def)

lemma yields_tx:
  assumes "ready dij N ns" "a \<in> ns" "b \<in> ns"
  shows "yields dij N (network_txTime dij a b n) (net_tx dij N a b n)"
  unfolding yields_def
proof (intro allI impI)
  fix N1 assume l: "live dij N N1"
  then have "same_net N N1" "snet_inv dij N1" by (simp_all add: live_def)
  then obtain N2 where "network_txTime dij a b n N1 = Some (Inr (net_tx dij N a b n), N2)" "same_net N N2" "snet_inv dij N2" "keeps_rest N1 N2"
    using net_tx_query [of dij N ns a b N1 n] assms unfolding ready_def by blast
  then show "\<exists>N2. network_txTime dij a b n N1 = Some (Inr (net_tx dij N a b n), N2) \<and> live dij N N2"
    using live_rest [OF l] by blast
qed

lemma hops_query:
  assumes "dijkstra_ok dij (nw_graph N)" and "snet_inv dij N" and "all_reach N ns" and "a \<in> ns" "b \<in> ns"
  shows "\<exists>h. \<forall>N1. same_net N N1 \<and> snet_inv dij N1 \<longrightarrow>
    (\<exists>N2. network_hops dij a b N1 = Some (Inr h, N2) \<and> same_net N N2 \<and> snet_inv dij N2 \<and> keeps_rest N1 N2)"
proof (cases "nd_id a = nd_id b")
  case False
  have r: "a \<in> snd ` set (nw_nodes N)" "b \<in> snd ` set (nw_nodes N)" "reaches N b a" using assms(3-5) by (auto simp: all_reach_def)
  then show ?thesis using transfer_reachable [OF assms(1,2) r(1,2) False r(3)] by blast
next
  case True
  have "network_hops dij a b N1 = Some (Inr 0, snd (cacheEntry dij (nd_id b) N1)) \<and> same_net N (snd (cacheEntry dij (nd_id b) N1)) \<and>
      snet_inv dij (snd (cacheEntry dij (nd_id b) N1)) \<and> keeps_rest N1 (snd (cacheEntry dij (nd_id b) N1))"
    if s: "same_net N N1" and i: "snet_inv dij N1" for N1
  proof -
    have N: "net_ok N1" "cache_ok dij N1" using i by (simp_all add: snet_inv_def)
    have g: "nw_graph N1 = nw_graph N" "nw_nodes N1 = nw_nodes N" using s by (simp_all add: same_net_def)
    have b: "nd_id b < fst (nw_graph N)" using node_range [OF N(1), of b] g assms(3,5) by (auto simp: all_reach_def)
    have c: "nd_id b < length (nw_cache N1)" using b N(1) g by (simp add: net_ok_def Let_def)
    obtain N' where N': "cacheEntry dij (nd_id b) N1 = (Inr (dij (nw_graph N) (nd_id b)), N')" "same_net N1 N'" "cache_ok dij N'" "keeps_rest N1 N'"
      using cacheEntry_ok [OF N(2) c] g(1) unfolding keeps_rest_def by auto
    have d: "length (dij (nw_graph N) (nd_id b)) = fst (nw_graph N)" "snd (dij (nw_graph N) (nd_id b) ! nd_id b) = nd_id b"
      using assms(1) b unfolding dijkstra_ok_def by metis+
    have "hops_loop (nw_elements N') (dij (nw_graph N) (nd_id b)) (nd_id b) (nd_id b) 0 = Some 0"
      by (subst hops_loop.simps) (simp add: d(2))
    moreover have "same_net N N'" using s N'(2) by (simp add: same_net_def)
    ultimately show ?thesis
      using N' snet_inv_same [OF i N'(2,3)] b d(1) True by (simp add: network_hops_def)
  qed
  then show ?thesis by blast
qed

lemma yields_hops:
  assumes "ready dij N ns" "a \<in> ns" "b \<in> ns"
  shows "yields dij N (network_hops dij a b) (net_hops dij N a b)"
  unfolding yields_def
proof (intro allI impI)
  fix N1 assume l: "live dij N N1"
  obtain h where h: "\<forall>N1. same_net N N1 \<and> snet_inv dij N1 \<longrightarrow>
    (\<exists>N2. network_hops dij a b N1 = Some (Inr h, N2) \<and> same_net N N2 \<and> snet_inv dij N2 \<and> keeps_rest N1 N2)"
    using hops_query [of dij N ns a b] assms unfolding ready_def by blast
  have "same_net N N" "snet_inv dij N" using assms(1) by (simp_all add: same_net_def ready_def)
  then have "net_hops dij N a b = h" using h by (force simp: net_hops_def)
  then show "\<exists>N2. network_hops dij a b N1 = Some (Inr (net_hops dij N a b), N2) \<and> live dij N N2"
    using h l live_rest [OF l] by (metis live_def)
qed

lemma central_loop_picks:
  assumes "dijkstra_ok dij (nw_graph N)" and "snet_inv dij N" and "all_reach N ns" and p: "set (nw_processing N) \<subseteq> ns"
    and "set cs \<subseteq> ns" and "same_net N N1" and "snet_inv dij N1"
  shows "\<exists>N2. central_loop dij cs w N1 = Some (Inr (), N2) \<and> same_net N N2 \<and> snet_inv dij N2 \<and> nw_cloud N2 = nw_cloud N1 \<and>
    nw_central N2 = pick_central (worst_time dij N) cs (nw_central N1) w"
  using assms(5-7)
proof (induction cs arbitrary: N1 w)
  case (Cons c cs)
  let ?W = "worst_time dij N"
  have pr: "nw_processing N1 = nw_processing N" using Cons.prems(2) by (simp add: same_net_def)
  have W: "Max (set (map (\<lambda>t. max (net_tx dij N c t 1000) (net_tx dij N t c 1000)) (nw_processing N))) = ?W c"
    by (simp add: worst_time_def)
  obtain N2 where N2: "tx_times dij c (nw_processing N1) N1 =
        Some (Inr (map (\<lambda>t. max (net_tx dij N c t 1000) (net_tx dij N t c 1000)) (nw_processing N)), N2)"
    "same_net N N2" "snet_inv dij N2" "keeps_rest N1 N2"
    using tx_times_query [OF assms(1-3), of c "nw_processing N" N1] Cons.prems p pr by auto
  have k: "nw_central N2 = nw_central N1" "nw_cloud N2 = nw_cloud N1" using N2(4) by (simp_all add: keeps_rest_def)
  have cs: "set cs \<subseteq> ns" using Cons.prems(1) by simp
  show ?case
  proof (cases "nw_central N1 = None \<or> ?W c < w")
    case True
    have s: "same_net N (N2\<lparr>nw_central := Some c\<rparr>)" "snet_inv dij (N2\<lparr>nw_central := Some c\<rparr>)"
      using N2(2,3) by (simp_all add: same_net_def snet_inv_def net_ok_def cache_ok_def)
    then show ?thesis using Cons.IH [OF cs s, of "?W c"] N2(1) W k True by (auto simp: Let_def)
  next
    case False
    then show ?thesis using Cons.IH [OF cs N2(2,3), of w] N2(1) W k by (auto simp: Let_def)
  qed
qed simp

lemma yields_central:
  assumes "ready dij N ns"
  shows "yields dij N (network_central dij) (net_central dij N)"
  unfolding yields_def
proof (intro allI impI)
  fix N1 assume l: "live dij N N1"
  have s: "same_net N N1" "snet_inv dij N1" and pr: "nw_processing N1 = nw_processing N" using l by (simp_all add: live_def same_net_def)
  show "\<exists>N2. network_central dij N1 = Some (Inr (net_central dij N), N2) \<and> live dij N N2"
  proof (cases "nw_central N1 = None")
    case True
    have r: "dijkstra_ok dij (nw_graph N)" "snet_inv dij N" "all_reach N ns" "set (nw_processing N) \<subseteq> ns"
      using assms by (simp_all add: ready_def)
    obtain N2 where "central_loop dij (nw_processing N1) 0 N1 = Some (Inr (), N2)" "same_net N N2" "snet_inv dij N2"
        "nw_cloud N2 = nw_cloud N1" "nw_central N2 = net_central dij N"
      using central_loop_picks [OF r r(4) s, of 0] pr True by (auto simp: net_central_def)
    then show ?thesis using True l by (auto simp: network_central_def live_def)
  qed (use l in \<open>auto simp: network_central_def live_def\<close>)
qed

lemma net_central_in: "ready dij N ns \<Longrightarrow> \<exists>c. net_central dij N = Some c \<and> c \<in> ns"
  using pick_central_in [of "worst_time dij N" "nw_processing N" None 0] pick_central_Some [of "nw_processing N" None]
  by (fastforce simp: ready_def net_central_def)

lemma yields_cloud:
  assumes "ready dij N ns"
  shows "\<exists>x. yields dij N (execStatsTwoWayCloud i out) x \<and> pj_procDelay x = 0"
proof -
  obtain lr where c: "nw_cloud N = Some lr" using assms by (auto simp: ready_def)
  have t: "\<exists>t. \<forall>N1. live dij N N1 \<longrightarrow> network_txTimeCloud n N1 = Inr t" for n
    by (cases lr) (auto simp: network_txTimeCloud_def live_def c)
  obtain a b where "\<forall>N1. live dij N N1 \<longrightarrow> network_txTimeCloud i N1 = Inr a" "\<forall>N1. live dij N N1 \<longrightarrow> network_txTimeCloud out N1 = Inr b"
    using t by metis
  then show ?thesis
    by (intro exI [of _ "\<lparr>pj_procDelay = 0, pj_netDelay = a + b, pj_dataTransfer = add64 i out, pj_chainSize = 0\<rparr>"])
      (simp add: yields_def execStatsTwoWayCloud_def act_simps)
qed

text \<open>A statement that returns, whatever was asked of the network before, one value with a property.\<close>

definition gives :: "dijkstra \<Rightarrow> network \<Rightarrow> (network, 'a) act \<Rightarrow> ('a \<Rightarrow> bool) \<Rightarrow> bool" where
  "gives dij N m P \<longleftrightarrow> (\<exists>x. yields dij N m x \<and> P x)"

lemma gives_obind: "gives dij N m P \<Longrightarrow> (\<And>x. P x \<Longrightarrow> gives dij N (f x) Q) \<Longrightarrow> gives dij N (obind m f) Q"
  unfolding gives_def using yields_obind by metis

lemma gives_oret: "P x \<Longrightarrow> gives dij N (oret x) P"
  unfolding gives_def using yields_oret by metis

lemma gives_olift: "r = Inr x \<Longrightarrow> P x \<Longrightarrow> gives dij N (olift r) P"
  unfolding gives_def using yields_olift by metis

lemma gives_weaken: "gives dij N m P \<Longrightarrow> (\<And>x. P x \<Longrightarrow> Q x) \<Longrightarrow> gives dij N m Q"
  unfolding gives_def by metis

definition delay_on :: "nat list \<Rightarrow> nat \<Rightarrow> node \<Rightarrow> real" where
  "delay_on load ops v = real ops / (nd_speed v / real (load ! nd_id v))"

lemma delay_on_0 [simp]: "delay_on load 0 v = 0"
  by (simp add: delay_on_def)

definition loaded :: "nat list \<Rightarrow> node \<Rightarrow> bool" where
  "loaded load v \<longleftrightarrow> nd_id v < length load \<and> load ! nd_id v > 0"

lemma gives_tx: "ready dij N ns \<Longrightarrow> a \<in> ns \<Longrightarrow> b \<in> ns \<Longrightarrow> gives dij N (network_txTime dij a b n) (\<lambda>t. t = net_tx dij N a b n)"
  unfolding gives_def using yields_tx by metis

lemma gives_hops: "ready dij N ns \<Longrightarrow> a \<in> ns \<Longrightarrow> b \<in> ns \<Longrightarrow> gives dij N (network_hops dij a b) (\<lambda>h. True)"
  unfolding gives_def using yields_hops by metis

lemma gives_proc_time: "ops = 0 \<or> loaded load v \<Longrightarrow> gives dij N (olift (proc_time load ops v)) (\<lambda>p. p = delay_on load ops v)"
  by (rule gives_olift [where x = "delay_on load ops v"]) (auto simp: proc_time_def loaded_def delay_on_def)

lemma gives_two_way:
  assumes "ready dij N ns" "src \<in> ns" "dst \<in> ns" "ops = 0 \<or> loaded load dst"
  shows "gives dij N (execStatsTwoWay dij load ops i out src dst) (\<lambda>x. pj_procDelay x = delay_on load ops dst)"
  unfolding execStatsTwoWay_def
  apply (rule gives_obind [OF gives_proc_time [OF assms(4)]])
  apply (rule gives_obind [OF gives_tx [OF assms(1-3)]])
  apply (rule gives_obind [OF gives_tx [OF assms(1,3,2)]])
  apply (rule gives_obind [OF gives_hops [OF assms(1-3)]])
  apply (rule gives_obind [OF gives_hops [OF assms(1,3,2)]])
  apply (rule gives_oret)
  apply simp
  done

lemma gives_one_way:
  assumes "ready dij N ns" "src \<in> ns" "dst \<in> ns" "ops = 0 \<or> loaded load dst"
  shows "gives dij N (execStatsOneWay dij load ops n src dst) (\<lambda>x. pj_procDelay x = delay_on load ops dst)"
  unfolding execStatsOneWay_def
  apply (rule gives_obind [OF gives_proc_time [OF assms(4)]])
  apply (rule gives_obind [OF gives_tx [OF assms(1-3)]])
  apply (rule gives_obind [OF gives_hops [OF assms(1-3)]])
  apply (rule gives_oret)
  apply simp
  done

section \<open>The performance of a task\<close>

text \<open>A task and its job in a scenario: its identifier is its position, its states exist.\<close>

definition task_of :: "sjob \<Rightarrow> stask \<Rightarrow> bool" where
  "task_of j t \<longleftrightarrow> st_id t < length (sj_tasks j) \<and> (\<forall>d\<in>set (st_deps t). d < length (sj_stateSizes j))"

lemma sum_states_ok: "\<forall>d\<in>set ds. d < length (sj_stateSizes j) \<Longrightarrow> \<exists>n. sum_states j ds t = Inr n"
  by (induction ds arbitrary: t) auto

lemma gives_stateSize: "task_of j t \<Longrightarrow> gives dij N (olift (stateSize j t b)) (\<lambda>_. True)"
  using sum_states_ok [of "st_deps t" j 0] by (cases b) (auto simp: stateSize_def task_of_def intro: gives_olift)

lemma allStates_ok: "task_of j t \<Longrightarrow> \<exists>r. allStatesArgSizes j t b = Inr r"
  using sum_states_ok [of "st_deps t" j 0] by (auto simp: allStatesArgSizes_def stateSize_def task_of_def)

lemma gives_allStates: "task_of j t \<Longrightarrow> gives dij N (olift (allStatesArgSizes j t b)) (\<lambda>_. True)"
  using allStates_ok [of j t b] by (auto intro: gives_olift)

definition adds :: "real \<Rightarrow> perf_job \<Rightarrow> perf_job \<Rightarrow> bool" where
  "adds d p q \<longleftrightarrow> pj_procDelay q = pj_procDelay p + d \<and> pj_chainSize q = pj_chainSize p"

lemma adds_merge: "pj_procDelay x = d \<Longrightarrow> adds d p (perf_merge p x)"
  by (simp add: adds_def perf_merge_def)

lemma adds_0: "adds d p q \<Longrightarrow> adds 0 q r \<Longrightarrow> adds d p r"
  by (simp add: adds_def)

lemma gives_move_states:
  assumes "ready dij N ns" "v \<in> ns" "\<forall>d\<in>set ds. d < length (sj_stateSizes j)" "length locs = length (sj_stateSizes j)" "set locs \<subseteq> ns"
  shows "gives dij N (move_states dij load j v ds locs stat)
    (\<lambda>(locs', st). length locs' = length (sj_stateSizes j) \<and> set locs' \<subseteq> ns \<and> adds 0 stat st)"
  using assms(3-5)
proof (induction ds arbitrary: locs stat)
  case Nil
  then show ?case by (auto intro: gives_oret simp: adds_def)
next
  case (Cons d ds)
  have d: "d < length (sj_stateSizes j)" "d < length locs" "locs ! d \<in> ns" using Cons.prems by auto
  have "gives dij N (move_states dij load j v ds (locs[d := v]) (perf_merge stat x))
      (\<lambda>(locs', st). length locs' = length (sj_stateSizes j) \<and> set locs' \<subseteq> ns \<and> adds 0 stat st)" if "pj_procDelay x = 0" for x
  proof (rule gives_weaken [OF Cons.IH])
    show "set (locs[d := v]) \<subseteq> ns" using Cons.prems(3) assms(2) set_update_subset_insert by fastforce
  qed (use Cons.prems that in \<open>auto simp: adds_def perf_merge_def\<close>)
  then have "gives dij N (obind (execStatsOneWay dij load 0 (sj_stateSizes j ! d) (locs ! d) v) (\<lambda>x.
        move_states dij load j v ds (locs[d := v]) (perf_merge stat x)))
      (\<lambda>(locs', st). length locs' = length (sj_stateSizes j) \<and> set locs' \<subseteq> ns \<and> adds 0 stat st)"
    by (intro gives_obind [OF gives_one_way [OF assms(1) d(3) assms(2)]]) simp_all
  then show ?case using d by simp
qed

text \<open>Every policy needs the same time for the processing.\<close>

lemma gives_perf_unchained:
  assumes "ready dij N ns" "task_of j t" "client \<in> ns" "v \<in> ns" "loaded load v"
    and repo: "\<And>ss. gives dij N (repo ss) (\<lambda>y. pj_procDelay y = 0)"
  shows "gives dij N (perf_unchained dij load j t nxt client v stat repo) (adds (delay_on load (st_ops t) v) stat)"
  unfolding perf_unchained_def
  apply (rule gives_obind [OF gives_two_way [OF assms(1,3,4)]])
   apply (simp add: assms(5))
  apply (rule gives_obind [OF gives_stateSize [OF assms(2)]])
  apply (rule gives_obind [OF repo])
  apply (rule gives_oret)
  apply (auto simp: adds_def perf_merge_def)
  done

lemma gives_central_two_way:
  assumes "ready dij N ns" "client \<in> ns"
  shows "gives dij N (obind (network_central dij) (\<lambda>c. case c of None \<Rightarrow> olift (Inl (Undefined ''null pointer''))
     | Some u \<Rightarrow> execStatsTwoWay dij load 0 ss ss client u)) (\<lambda>y. pj_procDelay y = 0)"
proof -
  obtain c where c: "net_central dij N = Some c" "c \<in> ns" using net_central_in [OF assms(1)] by blast
  have "gives dij N (network_central dij) (\<lambda>x. x = Some c)" unfolding gives_def using yields_central [OF assms(1)] c(1) by auto
  then show ?thesis
    by (rule gives_obind) (use gives_two_way [OF assms c(2), of 0 load ss ss] in simp)
qed

lemma gives_back:
  assumes "ready dij N ns" "client \<in> ns" "v \<in> ns"
  shows "gives dij N (if nxt = None then obind (execStatsOneWay dij load 0 n v client) (\<lambda>x. oret (perf_merge st x)) else oret st) (adds 0 st)"
proof (cases "nxt = None")
  case True
  have "gives dij N (obind (execStatsOneWay dij load 0 n v client) (\<lambda>x. oret (perf_merge st x))) (adds 0 st)"
    by (rule gives_obind [OF gives_one_way [OF assms(1,3,2)]]) (auto intro!: gives_oret adds_merge)
  then show ?thesis using True by simp
qed (auto intro: gives_oret simp: adds_def)

lemma gives_keep:
  "gives dij N m P \<Longrightarrow> length locs = n \<and> set locs \<subseteq> ns \<Longrightarrow>
   gives dij N (obind m (\<lambda>x. oret (locs, x))) (\<lambda>(locs', st). length locs' = n \<and> set locs' \<subseteq> ns \<and> P st)"
  by (erule gives_obind) (auto intro: gives_oret)

lemma gives_perf_task:
  assumes r: "ready dij N ns" and t: "task_of j t" and cl: "client \<in> ns" and v: "v \<in> ns" "loaded load v"
    and prev: "\<forall>u. prev = Some u \<longrightarrow> u \<in> ns" and locs: "length locs = length (sj_stateSizes j)" "set locs \<subseteq> ns"
  shows "gives dij N (perf_task dij pol load j t nxt client v prev locs stat)
    (\<lambda>(locs', st). length locs' = length (sj_stateSizes j) \<and> set locs' \<subseteq> ns \<and> adds (delay_on load (st_ops t) v) stat st)"
proof -
  have L: "length locs = length (sj_stateSizes j) \<and> set locs \<subseteq> ns" using locs by simp
  have ok: "st_ops t = 0 \<or> loaded load v" using v(2) by simp
  define from' where "from' = (case prev of None \<Rightarrow> client | Some u \<Rightarrow> u)"
  have from': "from' \<in> ns" using cl prev by (auto simp: from'_def split: option.splits)
  note two = gives_two_way [OF r cl v(1) ok] and one = gives_one_way [OF r from' v(1) ok]
  have two_way: "gives dij N (obind (olift (allStatesArgSizes j t b)) (\<lambda>(i, out).
      obind (execStatsTwoWay dij load (st_ops t) i out client v) (\<lambda>x. oret (perf_merge stat x)))) (adds (delay_on load (st_ops t) v) stat)" for b
    by (rule gives_obind [OF gives_allStates [OF t]]) (auto split: prod.splits intro!: gives_obind [OF two] gives_oret adds_merge)
  have weak: "gives dij N m (adds (delay_on load (st_ops t) v) stat)"
    if "gives dij N m (adds 0 st)" "adds (delay_on load (st_ops t) v) stat st" for m st
    using gives_weaken that adds_0 by metis
  show ?thesis
  proof (cases pol)
    case PureFaaS
    then show ?thesis using gives_keep [OF two_way L] by (simp add: perf_task_def)
  next
    case StatePropagate
    have "gives dij N (obind (olift (allStatesArgSizes j t True)) (\<lambda>(i, out).
        obind (execStatsOneWay dij load (st_ops t) i from' v) (\<lambda>x.
          if nxt = None then obind (execStatsOneWay dij load 0 out v client) (\<lambda>y. oret (perf_merge (perf_merge stat x) y))
          else oret (perf_merge stat x)))) (adds (delay_on load (st_ops t) v) stat)"
      by (rule gives_obind [OF gives_allStates [OF t]])
        (auto split: prod.splits intro!: gives_obind [OF one] weak [OF gives_back [OF r cl v(1)]] adds_merge simp del: split_paired_All)
    from gives_keep [OF this L] show ?thesis by (simp add: perf_task_def StatePropagate Let_def from'_def)
  next
    case StateLocal
    have "gives dij N (obind (execStatsOneWay dij load (st_ops t) (st_size t) from' v) (\<lambda>x.
        obind (move_states dij load j v (st_deps t) locs (perf_merge stat x)) (\<lambda>(locs, stat).
        obind (if nxt = None then obind (execStatsOneWay dij load 0 (sj_retSize j) v client) (\<lambda>y. oret (perf_merge stat y)) else oret stat)
          (\<lambda>stat. oret (locs, stat)))))
      (\<lambda>(locs', st). length locs' = length (sj_stateSizes j) \<and> set locs' \<subseteq> ns \<and> adds (delay_on load (st_ops t) v) stat st)"
    proof (rule gives_obind [OF one], rule gives_obind [OF gives_move_states [OF r v(1) _ locs]], goal_cases)
      case (2 x y)
      obtain locs' st where y: "y = (locs', st)" by (cases y)
      have a: "adds (delay_on load (st_ops t) v) stat st" using 2 y adds_0 [OF adds_merge] by auto
      have l: "length locs' = length (sj_stateSizes j) \<and> set locs' \<subseteq> ns" using 2(2) y by simp
      show ?case unfolding y prod.case by (rule gives_keep [OF weak [OF gives_back [OF r cl v(1)] a] l])
    qed (use t in \<open>simp add: task_of_def\<close>)
    then show ?thesis by (simp add: perf_task_def StateLocal Let_def from'_def)
  next
    case UnchainedExternal
    have "gives dij N (execStatsTwoWayCloud ss ss) (\<lambda>y. pj_procDelay y = 0)" for ss
      unfolding gives_def using yields_cloud [OF r] by blast
    from gives_keep [OF gives_perf_unchained [OF r t cl v this] L] show ?thesis
      by (simp add: perf_task_def UnchainedExternal)
  next
    case UnchainedInEdge
    from gives_keep [OF gives_perf_unchained [OF r t cl v gives_central_two_way [OF r cl]] L] show ?thesis
      by (simp add: perf_task_def UnchainedInEdge)
  next
    case UnchainedInFunction
    have "gives dij N (oret perf_empty) (\<lambda>y. pj_procDelay y = 0)" by (rule gives_oret) (simp add: perf_empty_def)
    from gives_keep [OF gives_perf_unchained [OF r t cl v this] L] show ?thesis
      by (simp add: perf_task_def UnchainedInFunction)
  next
    case UnchainedInClient
    then show ?thesis using gives_keep [OF two_way L] by (simp add: perf_task_def)
  qed
qed

section \<open>The performance of a scenario with an allocation\<close>

text \<open>Every task of every job is on a loaded node.\<close>

definition job_placed :: "scenario \<Rightarrow> node set \<Rightarrow> sjob \<Rightarrow> bool" where
  "job_placed sc ns j \<longleftrightarrow> sj_id j < length (sn_clients sc) \<and> sn_clients sc ! sj_id j \<in> ns \<and>
     sj_id j < length (sn_alloc sc) \<and> length (sn_alloc sc ! sj_id j) = length (sj_tasks j) \<and>
     (\<forall>t\<in>set (sj_tasks j). task_of j t \<and> (\<exists>v. sn_alloc sc ! sj_id j ! st_id t = Some v \<and> v \<in> ns \<and> loaded (sn_load sc) v))"

definition node_of :: "scenario \<Rightarrow> sjob \<Rightarrow> stask \<Rightarrow> node" where
  "node_of sc j t = the (sn_alloc sc ! sj_id j ! st_id t)"

definition job_delay :: "scenario \<Rightarrow> sjob \<Rightarrow> real" where
  "job_delay sc j = (\<Sum>t\<leftarrow>sj_tasks j. delay_on (sn_load sc) (st_ops t) (node_of sc j t))"

lemma gives_perf_tasks:
  assumes r: "ready dij N ns" and j: "job_placed sc ns j" and cl: "client \<in> ns" and ts: "set ts \<subseteq> set (sj_tasks j)"
    and "\<forall>u. prev = Some u \<longrightarrow> u \<in> ns" and "length locs = length (sj_stateSizes j)" "set locs \<subseteq> ns"
  shows "gives dij N (perf_tasks dij pol sc j client ts prev locs stat)
    (adds (\<Sum>t\<leftarrow>ts. delay_on (sn_load sc) (st_ops t) (node_of sc j t)) stat)"
  using assms(4-7)
proof (induction ts arbitrary: prev locs stat)
  case Nil
  then show ?case by (auto intro: gives_oret simp: adds_def)
next
  case (Cons t ts)
  obtain v where v: "sn_alloc sc ! sj_id j ! st_id t = Some v" "v \<in> ns" "loaded (sn_load sc) v" and t: "task_of j t"
    using j Cons.prems(1) by (auto simp: job_placed_def)
  have id: "sj_id j < length (sn_alloc sc)" "st_id t < length (sn_alloc sc ! sj_id j)"
    using j t by (auto simp: job_placed_def task_of_def)
  have "gives dij N (obind (perf_task dij pol (sn_load sc) j t (if ts = [] then None else Some (hd ts)) client v prev locs stat)
      (\<lambda>(locs, stat). perf_tasks dij pol sc j client ts (Some v) locs stat))
      (adds (\<Sum>t\<leftarrow>t # ts. delay_on (sn_load sc) (st_ops t) (node_of sc j t)) stat)"
  proof (rule gives_obind [OF gives_perf_task [OF r t cl v(2,3) Cons.prems(2-4)]])
    fix x
    assume x: "case x of (locs', st) \<Rightarrow> length locs' = length (sj_stateSizes j) \<and> set locs' \<subseteq> ns \<and> adds (delay_on (sn_load sc) (st_ops t) v) stat st"
    obtain locs' st where y: "x = (locs', st)" by (cases x)
    have "gives dij N (perf_tasks dij pol sc j client ts (Some v) locs' st)
        (adds (\<Sum>t\<leftarrow>ts. delay_on (sn_load sc) (st_ops t) (node_of sc j t)) st)"
      by (rule Cons.IH) (use Cons.prems(1) x y v(2) in auto)
    then show "gives dij N (case x of (locs, stat) \<Rightarrow> perf_tasks dij pol sc j client ts (Some v) locs stat)
        (adds (\<Sum>t\<leftarrow>t # ts. delay_on (sn_load sc) (st_ops t) (node_of sc j t)) stat)"
      unfolding y prod.case by (rule gives_weaken) (use x y v(1) in \<open>auto simp: adds_def node_of_def\<close>)
  qed
  then show ?case using id v(1) by simp
qed

lemma gives_perf_jobs:
  assumes r: "ready dij N ns" and "\<forall>j\<in>set js. job_placed sc ns j"
  shows "gives dij N (perf_jobs dij pol sc js) (\<lambda>ps. map pj_procDelay ps = map (job_delay sc) js \<and> map pj_chainSize ps = map (\<lambda>j. length (sj_tasks j)) js)"
  using assms(2)
proof (induction js)
  case Nil
  then show ?case by (auto intro: gives_oret)
next
  case (Cons j js)
  have j: "job_placed sc ns j" using Cons.prems by simp
  then have cl: "sj_id j < length (sn_clients sc)" "sn_clients sc ! sj_id j \<in> ns" by (auto simp: job_placed_def)
  have "gives dij N (perf_tasks dij pol sc j (sn_clients sc ! sj_id j) (sj_tasks j) None (replicate (length (sj_stateSizes j)) (sn_clients sc ! sj_id j))
      (perf_empty\<lparr>pj_chainSize := length (sj_tasks j)\<rparr>)) (adds (job_delay sc j) (perf_empty\<lparr>pj_chainSize := length (sj_tasks j)\<rparr>))"
    unfolding job_delay_def by (rule gives_perf_tasks [OF r j cl(2)]) (use cl(2) in auto)
  then have "gives dij N (obind (perf_tasks dij pol sc j (sn_clients sc ! sj_id j) (sj_tasks j) None (replicate (length (sj_stateSizes j)) (sn_clients sc ! sj_id j))
      (perf_empty\<lparr>pj_chainSize := length (sj_tasks j)\<rparr>)) (\<lambda>p. obind (perf_jobs dij pol sc js) (\<lambda>ps. oret (p # ps))))
      (\<lambda>ps. map pj_procDelay ps = map (job_delay sc) (j # js) \<and> map pj_chainSize ps = map (\<lambda>j. length (sj_tasks j)) (j # js))"
  proof (rule gives_obind)
    fix p assume p: "adds (job_delay sc j) (perf_empty\<lparr>pj_chainSize := length (sj_tasks j)\<rparr>) p"
    show "gives dij N (obind (perf_jobs dij pol sc js) (\<lambda>ps. oret (p # ps)))
      (\<lambda>ps. map pj_procDelay ps = map (job_delay sc) (j # js) \<and> map pj_chainSize ps = map (\<lambda>j. length (sj_tasks j)) (j # js))"
      by (rule gives_obind [OF Cons.IH]) (use Cons.prems p in \<open>auto intro!: gives_oret simp: adds_def perf_empty_def\<close>)
  qed
  then show ?case using cl(1) by (simp add: Let_def)
qed

lemma rmap_total: "\<forall>x\<in>set xs. f x = Inr (g x) \<Longrightarrow> rmap f xs = Inr (map g xs)"
  by (induction xs) auto

lemma gives_performance:
  assumes r: "ready dij N ns" and j: "\<forall>j\<in>set (sn_jobs sc). job_placed sc ns j"
    and v: "\<forall>v\<in>set (nw_processing N). nd_id v < length (sn_load sc)"
  shows "gives dij N (performance dij pol sc) (\<lambda>pd. map pj_procDelay (pf_jobData pd) = map (job_delay sc) (sn_jobs sc) \<and>
    map pj_chainSize (pf_jobData pd) = map (\<lambda>j. length (sj_tasks j)) (sn_jobs sc) \<and>
    pf_load pd = map (\<lambda>v. sn_load sc ! nd_id v) (nw_processing N))"
proof -
  have ne: "sn_load sc \<noteq> []" using r v by (metis length_greater_0_conv list.set_sel(1) not_less_zero ready_def list.size(3))
  obtain ps where ps: "yields dij N (perf_jobs dij pol sc (sn_jobs sc)) ps"
      "map pj_procDelay ps = map (job_delay sc) (sn_jobs sc)" "map pj_chainSize ps = map (\<lambda>j. length (sj_tasks j)) (sn_jobs sc)"
    using gives_perf_jobs [OF r j, of pol] unfolding gives_def by blast
  let ?ls = "map (\<lambda>v. sn_load sc ! nd_id v) (nw_processing N)"
  have "yields dij N (performance dij pol sc) \<lparr>pf_jobData = ps, pf_load = ?ls\<rparr>"
    unfolding yields_def
  proof (intro allI impI)
    fix N1 assume "live dij N N1"
    then obtain N2 where N2: "perf_jobs dij pol sc (sn_jobs sc) N1 = Some (Inr ps, N2)" "live dij N N2"
      using yieldsD [OF ps(1)] by blast
    have pr: "nw_processing N2 = nw_processing N" using N2(2) by (simp add: live_def same_net_def)
    have "rmap (\<lambda>v. if nd_id v < length (sn_load sc) then Inr (sn_load sc ! nd_id v)
        else Inl (Undefined ''assertion myNodePtr->id() < theLoad.size()'')) (nw_processing N) = Inr ?ls"
      using v by (intro rmap_total) auto
    then show "\<exists>N2. performance dij pol sc N1 = Some (Inr \<lparr>pf_jobData = ps, pf_load = ?ls\<rparr>, N2) \<and> live dij N N2"
      using N2 ne pr by (simp add: performance_def obind_Inr)
  qed
  then show ?thesis using ps(2,3) unfolding gives_def by force
qed

section \<open>The allocation of a task\<close>

fun fastest :: "(node \<Rightarrow> real) \<Rightarrow> affinity \<Rightarrow> node list \<Rightarrow> (node \<times> real) option \<Rightarrow> (node \<times> real) option" where
  "fastest f aff [] best = best"
| "fastest f aff (v # vs) best = (if nd_affinity v \<noteq> aff then fastest f aff vs best
     else fastest f aff vs (case best of None \<Rightarrow> Some (v, f v) | Some (u, t) \<Rightarrow> if f v < t then Some (v, f v) else best))"

definition new_time :: "dijkstra \<Rightarrow> network \<Rightarrow> nat list \<Rightarrow> nat \<Rightarrow> nat \<Rightarrow> nat \<Rightarrow> node \<Rightarrow> node \<Rightarrow> real" where
  "new_time dij N load ops i out client v =
     real ops / (nd_speed v / real (load ! nd_id v + 1)) + (net_tx dij N client v i + net_tx dij N v client out)"

lemma fastest_min:
  assumes "fastest f aff vs best = Some (v, t)" "\<forall>u s. best = Some (u, s) \<longrightarrow> s = f u"
  shows "t = f v \<and> (v \<in> set vs \<and> nd_affinity v = aff \<or> best = Some (v, t)) \<and> (\<forall>u\<in>set vs. nd_affinity u = aff \<longrightarrow> f v \<le> f u) \<and>
    (\<forall>u s. best = Some (u, s) \<longrightarrow> f v \<le> s)"
  using assms
proof (induction vs arbitrary: best)
  case (Cons x vs)
  show ?case
  proof (cases "nd_affinity x = aff")
    case False
    then show ?thesis using Cons.IH [of best] Cons.prems by auto
  next
    case True
    let ?b = "case best of None \<Rightarrow> Some (x, f x) | Some (u, t) \<Rightarrow> if f x < t then Some (x, f x) else best"
    have b: "fastest f aff vs ?b = Some (v, t)" using Cons.prems(1) True by simp
    moreover have w: "\<forall>u s. ?b = Some (u, s) \<longrightarrow> s = f u" using Cons.prems(2) by (auto split: option.splits)
    ultimately have IH: "t = f v" "v \<in> set vs \<and> nd_affinity v = aff \<or> ?b = Some (v, t)" "\<forall>u\<in>set vs. nd_affinity u = aff \<longrightarrow> f v \<le> f u"
        "\<forall>u s. ?b = Some (u, s) \<longrightarrow> f v \<le> s"
      using Cons.IH [of ?b] by blast+
    show ?thesis
    proof (cases best)
      case None
      then show ?thesis using IH True by auto
    next
      case (Some us)
      obtain u s where us: "us = (u, s)" by (cases us)
      then show ?thesis using IH True Some by (auto split: if_splits)
    qed
  qed
qed auto

lemma fastest_Some: "best \<noteq> None \<or> (\<exists>v\<in>set vs. nd_affinity v = aff) \<Longrightarrow> fastest f aff vs best \<noteq> None"
proof (induction vs arbitrary: best)
  case (Cons v vs)
  show ?case
  proof (cases "nd_affinity v = aff")
    case True
    then show ?thesis by (simp del: not_None_eq) (rule Cons.IH, auto split: option.splits)
  next
    case False
    then have "best \<noteq> None \<or> (\<exists>v\<in>set vs. nd_affinity v = aff)" using Cons.prems by auto
    then show ?thesis using Cons.IH False by simp
  qed
qed auto

lemma gives_min_node:
  assumes r: "ready dij N ns" and cl: "client \<in> ns" and "set vs \<subseteq> ns" "\<forall>v\<in>set vs. nd_id v < length load"
  shows "gives dij N (min_node dij load ops i out client aff vs best) (\<lambda>b. b = fastest (new_time dij N load ops i out client) aff vs best)"
  using assms(3,4)
proof (induction vs arbitrary: best)
  case (Cons v vs)
  have v: "v \<in> ns" "nd_id v < length load" using Cons.prems by auto
  let ?f = "new_time dij N load ops i out client"
  have "gives dij N (execTimeNew dij load ops i out client v) (\<lambda>(p, x). p + x = ?f v)"
    unfolding execTimeNew_def using v(2)
    by (auto intro!: gives_obind [OF gives_tx [OF r cl v(1)]] gives_obind [OF gives_tx [OF r v(1) cl]] gives_oret simp: new_time_def)
  then have "gives dij N (obind (execTimeNew dij load ops i out client v) (\<lambda>(p, x).
        min_node dij load ops i out client aff vs (case best of None \<Rightarrow> Some (v, p + x)
          | Some (u, t) \<Rightarrow> if p + x < t then Some (v, p + x) else best)))
      (\<lambda>b. b = fastest ?f aff vs (case best of None \<Rightarrow> Some (v, ?f v) | Some (u, t) \<Rightarrow> if ?f v < t then Some (v, ?f v) else best))"
  proof (rule gives_obind)
    fix px :: "real \<times> real"
    assume a: "case px of (p, x) \<Rightarrow> p + x = ?f v"
    obtain p x where px: "px = (p, x)" by (cases px)
    have e: "p + x = ?f v" using a px by simp
    show "gives dij N (case px of (p, x) \<Rightarrow> min_node dij load ops i out client aff vs (case best of None \<Rightarrow> Some (v, p + x)
          | Some (u, t) \<Rightarrow> if p + x < t then Some (v, p + x) else best))
      (\<lambda>b. b = fastest ?f aff vs (case best of None \<Rightarrow> Some (v, ?f v) | Some (u, t) \<Rightarrow> if ?f v < t then Some (v, ?f v) else best))"
      unfolding px prod.case e by (rule Cons.IH) (use Cons.prems in auto)
  qed
  then show ?case using Cons.IH [of best] Cons.prems by auto
qed (auto intro: gives_oret)

text \<open>The tasks on a node, as pairs of a job and the position of a task.\<close>

definition placed :: "node option list list \<Rightarrow> nat \<Rightarrow> (nat \<times> nat) set" where
  "placed al i = {(j, k). j < length al \<and> k < length (al ! j) \<and> (\<exists>v. al ! j ! k = Some v \<and> nd_id v = i)}"

lemma finite_placed: "finite (placed al i)"
proof (rule finite_subset)
  show "placed al i \<subseteq> (SIGMA j : {..<length al}. {..<length (al ! j)})" by (auto simp: placed_def)
qed simp

lemma placed_assign:
  assumes "j < length al" "k < length (al ! j)"
  shows "placed (al[j := (al ! j)[k := Some v]]) i = (if nd_id v = i then insert (j, k) (placed al i) else placed al i - {(j, k)})"
  using assms by (auto simp: placed_def nth_list_update split: if_splits)

lemma card_placed_assign:
  assumes "j < length al" "k < length (al ! j)" "al ! j ! k = None"
  shows "card (placed (al[j := (al ! j)[k := Some v]]) i) = (if nd_id v = i then Suc (card (placed al i)) else card (placed al i))"
proof -
  have "(j, k) \<notin> placed al i" using assms(3) by (simp add: placed_def)
  then show ?thesis unfolding placed_assign [OF assms(1,2)] by (simp add: finite_placed)
qed

text \<open>What an allocation needs: a network that answers, a client for every job, jobs and tasks whose identifiers are
  their positions, and a processing node for the affinity of every function. The load has an element for every
  node, so the identifiers of the processing nodes have to be below the number of nodes.\<close>

definition task_ok :: "network \<Rightarrow> (string, affinity) smap \<Rightarrow> sjob \<Rightarrow> nat \<Rightarrow> bool" where
  "task_ok N affs j k \<longleftrightarrow> st_id (sj_tasks j ! k) = k \<and> (\<forall>d\<in>set (st_deps (sj_tasks j ! k)). d < length (sj_stateSizes j)) \<and>
     (\<exists>v\<in>set (nw_processing N). map_of affs (st_func (sj_tasks j ! k)) = Some (nd_affinity v))"

definition alloc_input :: "dijkstra \<Rightarrow> network \<Rightarrow> node set \<Rightarrow> scenario \<Rightarrow> bool" where
  "alloc_input dij N ns sc \<longleftrightarrow> ready dij N ns \<and> length (sn_clients sc) = length (sn_jobs sc) \<and> set (sn_clients sc) \<subseteq> ns \<and>
     (\<forall>v\<in>set (nw_processing N). nd_id v < length (nw_nodes N)) \<and>
     (\<forall>i<length (sn_jobs sc). sj_id (sn_jobs sc ! i) = i \<and> (\<forall>k<length (sj_tasks (sn_jobs sc ! i)). task_ok N (sn_affinities sc) (sn_jobs sc ! i) k))"

text \<open>While the tasks are allocated: \<open>f\<close> is the number of tasks done of every job that was started.\<close>

definition row_inv :: "network \<Rightarrow> (string, affinity) smap \<Rightarrow> sjob \<Rightarrow> nat option \<Rightarrow> node option list \<Rightarrow> bool" where
  "row_inv N affs j f al \<longleftrightarrow> length al = (case f of None \<Rightarrow> 0 | Some _ \<Rightarrow> length (sj_tasks j)) \<and>
     (\<forall>k<length al. if k < the f then \<exists>v\<in>set (nw_processing N). al ! k = Some v \<and> map_of affs (st_func (sj_tasks j ! k)) = Some (nd_affinity v)
       else al ! k = None)"

definition same_input :: "scenario \<Rightarrow> scenario \<Rightarrow> bool" where
  "same_input a b \<longleftrightarrow> sn_affinities b = sn_affinities a \<and> sn_jobs b = sn_jobs a \<and> sn_clients b = sn_clients a"

definition alloc_inv :: "dijkstra \<Rightarrow> network \<Rightarrow> scenario \<Rightarrow> (nat \<Rightarrow> nat option) \<Rightarrow> scenario \<times> network \<Rightarrow> bool" where
  "alloc_inv dij N sc0 f s \<longleftrightarrow> live dij N (snd s) \<and> same_input sc0 (fst s) \<and>
     length (sn_load (fst s)) = length (nw_nodes N) \<and> length (sn_alloc (fst s)) = length (sn_jobs sc0) \<and>
     (\<forall>i<length (nw_nodes N). sn_load (fst s) ! i = card (placed (sn_alloc (fst s)) i)) \<and>
     (\<forall>j<length (sn_jobs sc0). row_inv N (sn_affinities sc0) (sn_jobs sc0 ! j) (f j) (sn_alloc (fst s) ! j))"

lemma row_inv_assign:
  assumes "row_inv N affs j (Some k) al" "k < length (sj_tasks j)" "v \<in> set (nw_processing N)"
    "map_of affs (st_func (sj_tasks j ! k)) = Some (nd_affinity v)"
  shows "row_inv N affs j (Some (Suc k)) (al[k := Some v])"
  using assms by (auto simp: row_inv_def nth_list_update less_Suc_eq)

lemma assign_inv:
  assumes I: "alloc_inv dij N sc0 f s" and j: "j < length (sn_jobs sc0)" "f j = Some k" "k < length (sj_tasks (sn_jobs sc0 ! j))"
    and v: "v \<in> set (nw_processing N)" "map_of (sn_affinities sc0) (st_func (sj_tasks (sn_jobs sc0 ! j) ! k)) = Some (nd_affinity v)"
    and id: "nd_id v < length (nw_nodes N)"
  shows "\<exists>s'. assign j k v s = Some (Inr (), s') \<and> alloc_inv dij N sc0 (f(j := Some (Suc k))) s'"
proof -
  obtain sc N1 where s: "s = (sc, N1)" by (cases s)
  let ?al = "sn_alloc sc"
  have row: "row_inv N (sn_affinities sc0) (sn_jobs sc0 ! j) (Some k) (?al ! j)" and len: "j < length ?al" "length (sn_load sc) = length (nw_nodes N)"
    using I j(1,2) s unfolding alloc_inv_def by (metis fst_conv)+
  have k: "k < length (?al ! j)" "?al ! j ! k = None" using row j(3) by (auto simp: row_inv_def)
  let ?sc = "sc\<lparr>sn_alloc := ?al[j := (?al ! j)[k := Some v]], sn_load := (sn_load sc)[nd_id v := sn_load sc ! nd_id v + 1]\<rparr>"
  have load: "\<forall>i<length (nw_nodes N). sn_load sc ! i = card (placed ?al i)" using I s by (simp add: alloc_inv_def)
  have "alloc_inv dij N sc0 (f(j := Some (Suc k))) (?sc, N1)"
    using I s len row_inv_assign [OF row j(3) v] load
    by (auto simp: alloc_inv_def same_input_def card_placed_assign [OF len(1) k] nth_list_update)
  then show ?thesis using s len k(1) id by (simp add: assign_def Let_def)
qed

lemma alloc_task_eq:
  assumes r: "ready dij N ns" and l: "live dij N N1" and cl: "client \<in> ns" and t: "task_ok N (sn_affinities sc) j k" "k < length (sj_tasks j)"
    and load: "\<forall>v\<in>set (nw_processing N). nd_id v < length (sn_load sc)"
  shows "\<exists>v i out N2. (if pol = ProcNet then allStatesArgSizes j (sj_tasks j ! k) True else Inr (0, 0)) = Inr (i, out) \<and>
    alloc_task dij pol j client k (sc, N1) = assign (sj_id j) k v (sc, N2) \<and> live dij N N2 \<and>
    v \<in> set (nw_processing N) \<and> map_of (sn_affinities sc) (st_func (sj_tasks j ! k)) = Some (nd_affinity v) \<and>
    (\<forall>u\<in>set (nw_processing N). nd_affinity u = nd_affinity v \<longrightarrow>
       new_time dij N (sn_load sc) (st_ops (sj_tasks j ! k)) i out client v \<le> new_time dij N (sn_load sc) (st_ops (sj_tasks j ! k)) i out client u)"
proof -
  let ?t = "sj_tasks j ! k"
  have ns: "set (nw_processing N) \<subseteq> ns" using r by (simp add: ready_def)
  obtain w where w: "w \<in> set (nw_processing N)" "map_of (sn_affinities sc) (st_func ?t) = Some (nd_affinity w)"
    using t(1) by (auto simp: task_ok_def)
  have "task_of j ?t" using t by (auto simp: task_ok_def task_of_def)
  then obtain r' where r': "allStatesArgSizes j ?t True = Inr r'" using allStates_ok by blast
  obtain i out where i: "(if pol = ProcNet then r' else (0, 0)) = (i, out)" by (rule prod.exhaust)
  have io: "(if pol = ProcNet then allStatesArgSizes j ?t True else Inr (0, 0)) = Inr (i, out)"
    unfolding r' i [symmetric] by simp
  let ?best = "fastest (new_time dij N (sn_load sc) (st_ops ?t) i out client) (nd_affinity w) (nw_processing N) None"
  have "?best \<noteq> None" by (rule fastest_Some) (use w(1) in blast)
  then obtain v x where b: "?best = Some (v, x)" by (metis not_None_eq surj_pair)
  have v: "v \<in> set (nw_processing N)" "nd_affinity v = nd_affinity w" and
    min: "\<forall>u\<in>set (nw_processing N). nd_affinity u = nd_affinity w \<longrightarrow>
       new_time dij N (sn_load sc) (st_ops ?t) i out client v \<le> new_time dij N (sn_load sc) (st_ops ?t) i out client u"
    using fastest_min [OF b] by auto
  have y: "yields dij N (min_node dij (sn_load sc) (st_ops ?t) i out client (nd_affinity w) (nw_processing N) None) (Some (v, x))"
    using gives_min_node [OF r cl ns, of "sn_load sc" "st_ops ?t" i out "nd_affinity w" None] load b unfolding gives_def by simp
  obtain N2 where N2: "min_node dij (sn_load sc) (st_ops ?t) i out client (nd_affinity w) (nw_processing N) None N1 = Some (Inr (Some (v, x)), N2)"
      "live dij N N2"
    using yieldsD [OF y l] by blast
  have pr: "nw_processing N1 = nw_processing N" using l by (simp add: live_def same_net_def)
  have m: "onNet (min_node dij (sn_load sc) (st_ops ?t) i out client (nd_affinity w) (nw_processing N) None) (sc, N1) =
      Some (Inr (Some (v, x)), (sc, N2))" by (simp add: onNet_def N2(1))
  have "alloc_task dij pol j client k (sc, N1) = obind (olift (Inr (i, out))) (\<lambda>(i, out).
      obind (onNet (min_node dij (sn_load sc) (st_ops ?t) i out client (nd_affinity w) (nw_processing N) None)) (\<lambda>best.
        case best of None \<Rightarrow> olift (Inl (RuntimeError (''Allocation failed: could not find any suitable node for task '' @ st_func ?t)))
        | Some (v, _) \<Rightarrow> assign (sj_id j) k v)) (sc, N1)"
    by (simp only: alloc_task_def Let_def fst_conv snd_conv w(2) option.case io pr)
  also have "\<dots> = assign (sj_id j) k v (sc, N2)"
    by (simp only: obind_def olift_def option.case prod.case sum.case m)
  finally show ?thesis using io N2(2) v min w(2) by (intro exI [of _ v] exI [of _ i] exI [of _ out] exI [of _ N2]) simp
qed

lemma alloc_task_inv:
  assumes A: "alloc_input dij N ns sc0" and I: "alloc_inv dij N sc0 f s" and j: "j < length (sn_jobs sc0)" "f j = Some k"
    and k: "k < length (sj_tasks (sn_jobs sc0 ! j))" and cl: "client \<in> ns"
  shows "\<exists>s'. alloc_task dij pol (sn_jobs sc0 ! j) client k s = Some (Inr (), s') \<and> alloc_inv dij N sc0 (f(j := Some (Suc k))) s'"
proof -
  obtain sc N1 where s: "s = (sc, N1)" by (cases s)
  have l: "live dij N N1" and sc: "sn_affinities sc = sn_affinities sc0" and load: "length (sn_load sc) = length (nw_nodes N)"
    using I s by (auto simp: alloc_inv_def same_input_def)
  have r: "ready dij N ns" and ids: "\<forall>v\<in>set (nw_processing N). nd_id v < length (nw_nodes N)"
    and jid: "sj_id (sn_jobs sc0 ! j) = j" and t: "task_ok N (sn_affinities sc) (sn_jobs sc0 ! j) k"
    using A j(1) k sc by (auto simp: alloc_input_def)
  obtain v N2 where v: "alloc_task dij pol (sn_jobs sc0 ! j) client k (sc, N1) = assign j k v (sc, N2)" "live dij N N2"
      "v \<in> set (nw_processing N)" "map_of (sn_affinities sc0) (st_func (sj_tasks (sn_jobs sc0 ! j) ! k)) = Some (nd_affinity v)"
    using alloc_task_eq [OF r l cl t k, of pol] ids load sc jid by auto
  have I2: "alloc_inv dij N sc0 f (sc, N2)" using I s v(2) by (simp add: alloc_inv_def)
  then show ?thesis using assign_inv [OF I2 j k v(3,4)] v ids s by auto
qed

section \<open>The allocation of a scenario\<close>

lemma row_inv_started: "row_inv N affs j None al \<Longrightarrow> row_inv N affs j (Some 0) (resize_nodes (length (sj_tasks j)) al)"
  by (auto simp: row_inv_def resize_nodes_def)

lemma placed_replicate:
  assumes "j < length al" "al ! j = []"
  shows "placed (al[j := replicate n None]) i = placed al i"
  using assms by (auto simp: placed_def nth_list_update split: if_splits)

lemma alloc_job_inv:
  assumes A: "alloc_input dij N ns sc0" and I: "alloc_inv dij N sc0 f s" and j: "j < length (sn_jobs sc0)" "f j = None"
  shows "\<exists>s'. alloc_job dij pol j s = Some (Inr (), s') \<and> alloc_inv dij N sc0 (f(j := Some (length (sj_tasks (sn_jobs sc0 ! j))))) s'"
proof -
  obtain sc N1 where s: "s = (sc, N1)" by (cases s)
  let ?j = "sn_jobs sc0 ! j" and ?al = "sn_alloc sc"
  have same: "sn_affinities sc = sn_affinities sc0" "sn_jobs sc = sn_jobs sc0" "sn_clients sc = sn_clients sc0" and len: "length ?al = length (sn_jobs sc0)"
    and row: "row_inv N (sn_affinities sc0) ?j None (?al ! j)"
    using I s j unfolding alloc_inv_def same_input_def by (auto dest: spec [of _ j])
  have cl: "length (sn_clients sc0) = length (sn_jobs sc0)" "sn_clients sc0 ! j \<in> ns" using A j(1) by (auto simp: alloc_input_def)
  have empty: "?al ! j = []" using row by (simp add: row_inv_def)
  let ?sc = "sc\<lparr>sn_alloc := ?al[j := resize_nodes (length (sj_tasks ?j)) (?al ! j)]\<rparr>"
  have rep: "resize_nodes (length (sj_tasks ?j)) (?al ! j) = replicate (length (sj_tasks ?j)) None" by (simp add: empty resize_nodes_def)
  have I0: "alloc_inv dij N sc0 (f(j := Some 0)) (?sc, N1)"
    using I s j(1) len row_inv_started [OF row] placed_replicate [of j ?al, OF _ empty]
    by (auto simp: alloc_inv_def same_input_def rep nth_list_update)
  have "\<exists>s'. ofor [0..<length (sj_tasks ?j)] (alloc_task dij pol ?j (sn_clients sc0 ! j)) (?sc, N1) = Some (Inr (), s') \<and>
      alloc_inv dij N sc0 (f(j := Some (length [0..<length (sj_tasks ?j)]))) s'"
  proof (rule ofor_invariant [where P = "\<lambda>dn s. alloc_inv dij N sc0 (f(j := Some (length dn))) s"])
    fix dn x todo s
    assume x: "[0..<length (sj_tasks ?j)] = dn @ x # todo" and I1: "alloc_inv dij N sc0 (f(j := Some (length dn))) s"
    have l: "length dn < length (sj_tasks ?j)" using arg_cong [OF x, of length] by simp
    then have "x = length dn" using arg_cong [OF x, of "\<lambda>xs. xs ! length dn"] by simp
    then show "\<exists>s'. alloc_task dij pol ?j (sn_clients sc0 ! j) x s = Some (Inr (), s') \<and> alloc_inv dij N sc0 (f(j := Some (length (dn @ [x])))) s'"
      using alloc_task_inv [OF A I1 j(1) _ _ cl(2), of x pol] l by simp
  qed (simp add: I0)
  then show ?thesis using s same len cl(1) j(1) by (simp add: alloc_job_def Let_def)
qed

text \<open>The random order of the jobs is a permutation.\<close>

definition unit_draws :: "(nat \<Rightarrow> real) \<Rightarrow> bool" where
  "unit_draws rv \<longleftrightarrow> (\<forall>k. 0 \<le> rv k \<and> rv k < 1)"

lemma draw_below: "unit_draws rv \<Longrightarrow> n > 0 \<Longrightarrow> nat \<lfloor>rv k * real n\<rfloor> < n"
proof -
  assume a: "unit_draws rv" "n > 0"
  then have "rv k * real n < real n" "0 \<le> rv k * real n" by (simp_all add: unit_draws_def)
  then show ?thesis by linarith
qed

lemma shuffle_loop_perm:
  "unit_draws rv \<Longrightarrow> \<exists>xs. shuffle_loop rv k ids = Inr xs \<and> mset xs = mset ids"
proof (induction rv k ids rule: shuffle_loop.induct)
  case (1 rv k ids)
  show ?case
  proof (cases "ids = []")
    case False
    define p where "p = nat \<lfloor>rv k * real (length ids)\<rfloor>"
    have p: "p < length ids" unfolding p_def using draw_below 1(2) False by simp
    obtain xs where xs: "shuffle_loop rv (Suc k) (take p ids @ drop (Suc p) ids) = Inr xs" "mset xs = mset (take p ids @ drop (Suc p) ids)"
      using 1(1) [OF False p_def] p 1(2) by auto
    have "mset ids = add_mset (ids ! p) (mset (take p ids @ drop (Suc p) ids))"
      using arg_cong [OF id_take_nth_drop [OF p], of mset] by (metis mset.simps(2) mset_append union_mset_add_mset_right)
    then show ?thesis using xs p False by (subst shuffle_loop.simps) (simp add: p_def [symmetric])
  qed (simp add: shuffle_loop.simps)
qed

lemma shuffleJobIds_perm:
  assumes "unit_draws rv"
  shows "\<exists>xs. shuffleJobIds rv n = Inr xs \<and> distinct xs \<and> set xs = {..<n}"
proof -
  obtain xs where "shuffleJobIds rv n = Inr xs" "mset xs = mset [0..<n]"
    using shuffle_loop_perm [OF assms] unfolding shuffleJobIds_def by blast
  moreover have "distinct xs" using mset_eq_imp_distinct_iff [OF \<open>mset xs = mset [0..<n]\<close>] distinct_upt by blast
  moreover have "set xs = set [0..<n]" by (rule mset_eq_setD) fact
  ultimately show ?thesis by (metis atLeast_upt)
qed

lemma allocateTasks_inv:
  assumes A: "alloc_input dij N ns sc" and rv: "unit_draws rv" and l: "live dij N N1"
  shows "\<exists>s'. allocateTasks dij rv pol (sc, N1) = Some (Inr (), s') \<and>
    alloc_inv dij N sc (\<lambda>j. Some (length (sj_tasks (sn_jobs sc ! j)))) s'"
proof -
  obtain ids where ids: "shuffleJobIds rv (length (sn_jobs sc)) = Inr ids" "distinct ids" "set ids = {..<length (sn_jobs sc)}"
    using shuffleJobIds_perm [OF rv] by blast
  let ?F = "\<lambda>dn j. if j \<in> set dn then Some (length (sj_tasks (sn_jobs sc ! j))) else None"
  let ?sc = "sc\<lparr>sn_load := replicate (length (nw_nodes N1)) 0, sn_alloc := replicate (length (sn_jobs sc)) []\<rparr>"
  have nodes: "nw_nodes N1 = nw_nodes N" using l by (simp add: live_def same_net_def)
  have "placed (replicate n []) i = {}" for n i by (auto simp: placed_def)
  then have I0: "alloc_inv dij N sc (?F []) (?sc, N1)"
    using l nodes by (simp add: alloc_inv_def same_input_def row_inv_def)
  have "\<exists>s'. ofor ids (alloc_job dij pol) (?sc, N1) = Some (Inr (), s') \<and> alloc_inv dij N sc (?F ids) s'"
  proof (rule ofor_invariant [where P = "\<lambda>dn s. alloc_inv dij N sc (?F dn) s"])
    fix dn x todo s
    assume x: "ids = dn @ x # todo" and I1: "alloc_inv dij N sc (?F dn) s"
    have "x < length (sn_jobs sc)" "x \<notin> set dn" using ids(2,3) x by auto
    moreover have "(?F dn)(x := Some (length (sj_tasks (sn_jobs sc ! x)))) = ?F (dn @ [x])" by (auto simp: fun_eq_iff)
    ultimately show "\<exists>s'. alloc_job dij pol x s = Some (Inr (), s') \<and> alloc_inv dij N sc (?F (dn @ [x])) s'"
      using alloc_job_inv [OF A I1, of x pol] by simp
  qed (rule I0)
  then obtain s' where s': "ofor ids (alloc_job dij pol) (?sc, N1) = Some (Inr (), s')" "alloc_inv dij N sc (?F ids) s'" by blast
  have "alloc_inv dij N sc (\<lambda>j. Some (length (sj_tasks (sn_jobs sc ! j)))) s'"
    using s'(2) ids(3) by (simp add: alloc_inv_def)
  then show ?thesis using s'(1) ids(1) by (simp add: allocateTasks_def Let_def)
qed

text \<open>What holds when all the tasks are allocated.\<close>

lemma allocated_facts:
  assumes "alloc_inv dij N sc (\<lambda>j. Some (length (sj_tasks (sn_jobs sc ! j)))) (sc', N2)"
  shows "live dij N N2" "same_input sc sc'" "length (sn_alloc sc') = length (sn_jobs sc)" "length (sn_load sc') = length (nw_nodes N)"
    "\<forall>j<length (sn_jobs sc). length (sn_alloc sc' ! j) = length (sj_tasks (sn_jobs sc ! j)) \<and>
      (\<forall>k<length (sj_tasks (sn_jobs sc ! j)). \<exists>v\<in>set (nw_processing N). sn_alloc sc' ! j ! k = Some v \<and>
         map_of (sn_affinities sc) (st_func (sj_tasks (sn_jobs sc ! j) ! k)) = Some (nd_affinity v))"
    "\<forall>i<length (nw_nodes N). sn_load sc' ! i = card (placed (sn_alloc sc') i)"
  using assms by (auto simp: alloc_inv_def row_inv_def)

lemma allocated_placed:
  assumes A: "alloc_input dij N ns sc" and I: "alloc_inv dij N sc (\<lambda>j. Some (length (sj_tasks (sn_jobs sc ! j)))) (sc', N2)"
    and j: "j \<in> set (sn_jobs sc)"
  shows "job_placed sc' ns j"
proof -
  note F = allocated_facts [OF I]
  obtain i where i: "i < length (sn_jobs sc)" "j = sn_jobs sc ! i" using j by (metis in_set_conv_nth)
  have id: "sj_id j = i" and t: "\<forall>k<length (sj_tasks j). task_ok N (sn_affinities sc) j k" and cl: "sn_clients sc' ! i \<in> ns" "i < length (sn_clients sc')"
    and ns: "set (nw_processing N) \<subseteq> ns" and ids: "\<forall>v\<in>set (nw_processing N). nd_id v < length (nw_nodes N)"
    using A i F(2) by (auto simp: alloc_input_def ready_def same_input_def)
  have "\<exists>v. sn_alloc sc' ! i ! k = Some v \<and> v \<in> ns \<and> loaded (sn_load sc') v" if k: "k < length (sj_tasks j)" for k
  proof -
    obtain v where v: "v \<in> set (nw_processing N)" "sn_alloc sc' ! i ! k = Some v" using F(5) i k by blast
    have "(i, k) \<in> placed (sn_alloc sc') (nd_id v)" using v(2) i F(3,5) k by (auto simp: placed_def)
    then have "card (placed (sn_alloc sc') (nd_id v)) > 0" using finite_placed card_gt_0_iff by blast
    then show ?thesis using v ids F(4,6) ns by (auto simp: loaded_def)
  qed
  moreover have "\<exists>k<length (sj_tasks j). t = sj_tasks j ! k \<and> st_id t = k \<and> task_of j t" if "t \<in> set (sj_tasks j)" for t
    using that \<open>\<forall>k<length (sj_tasks j). task_ok N (sn_affinities sc) j k\<close> by (auto simp: in_set_conv_nth task_ok_def task_of_def)
  ultimately show ?thesis using id cl i F(3,5) unfolding job_placed_def by auto
qed

lemma performance_allocated:
  assumes A: "alloc_input dij N ns sc" and I: "alloc_inv dij N sc (\<lambda>j. Some (length (sj_tasks (sn_jobs sc ! j)))) (sc', N2)"
  shows "\<exists>pd. yields dij N (performance dij pol sc') pd \<and> map pj_procDelay (pf_jobData pd) = map (job_delay sc') (sn_jobs sc) \<and>
    map pj_chainSize (pf_jobData pd) = map (\<lambda>j. length (sj_tasks j)) (sn_jobs sc) \<and>
    pf_load pd = map (\<lambda>v. card (placed (sn_alloc sc') (nd_id v))) (nw_processing N)"
proof -
  note F = allocated_facts [OF I]
  have r: "ready dij N ns" and ids: "\<forall>v\<in>set (nw_processing N). nd_id v < length (sn_load sc')"
    using A F(4) by (auto simp: alloc_input_def)
  have jobs: "sn_jobs sc' = sn_jobs sc" using F(2) by (simp add: same_input_def)
  have P: "\<forall>j\<in>set (sn_jobs sc'). job_placed sc' ns j" unfolding jobs using allocated_placed [OF A I] by blast
  have "map (\<lambda>v. sn_load sc' ! nd_id v) (nw_processing N) = map (\<lambda>v. card (placed (sn_alloc sc') (nd_id v))) (nw_processing N)"
    using F(6) ids F(4) by simp
  then show ?thesis using gives_performance [OF r P ids, of pol] jobs unfolding gives_def by auto
qed

section \<open>Properties\<close>

lemma loads_sum:
  assumes "length al = n" "\<forall>j<n. length (al ! j) = m j" "\<forall>j<n. \<forall>k<m j. \<exists>v. al ! j ! k = Some v \<and> nd_id v < c"
  shows "(\<Sum>i<c. card (placed al i)) = (\<Sum>j<n. m j)"
proof -
  have "(\<Sum>i<c. card (placed al i)) = card (\<Union>i\<in>{..<c}. placed al i)"
    by (subst card_UN_disjoint) (auto simp: finite_placed, auto simp: placed_def)
  also have "(\<Union>i\<in>{..<c}. placed al i) = (SIGMA j : {..<n}. {..<m j})"
    using assms by (fastforce simp: placed_def)
  finally show ?thesis by simp
qed

text \<open>C34: a task is given to the node that has the shortest time for it at that moment: among the processing nodes
  with the affinity of its function, the one with the smallest sum of the processing time under the load
  increased by one and, for the policy that considers the network, of the transfers of the argument, of the
  returned value and of the states. The allocation records the node and its load grows by one.\<close>

theorem task_on_fastest_node:
  assumes "ready dij N ns" "live dij N N1" "client \<in> ns" "task_ok N (sn_affinities sc) j k" "k < length (sj_tasks j)"
    and "\<forall>v\<in>set (nw_processing N). nd_id v < length (sn_load sc)" "sj_id j < length (sn_alloc sc)" "k < length (sn_alloc sc ! sj_id j)"
  shows "\<exists>v i out N2 sc'. (pol = ProcOnly \<longrightarrow> i = 0 \<and> out = 0) \<and> (pol = ProcNet \<longrightarrow> allStatesArgSizes j (sj_tasks j ! k) True = Inr (i, out)) \<and>
    alloc_task dij pol j client k (sc, N1) = Some (Inr (), (sc', N2)) \<and>
    sn_alloc sc' ! sj_id j ! k = Some v \<and> sn_load sc' ! nd_id v = sn_load sc ! nd_id v + 1 \<and>
    v \<in> set (nw_processing N) \<and> map_of (sn_affinities sc) (st_func (sj_tasks j ! k)) = Some (nd_affinity v) \<and>
    (\<forall>u\<in>set (nw_processing N). nd_affinity u = nd_affinity v \<longrightarrow>
       new_time dij N (sn_load sc) (st_ops (sj_tasks j ! k)) i out client v \<le> new_time dij N (sn_load sc) (st_ops (sj_tasks j ! k)) i out client u)"
proof -
  obtain v i out N2 where v: "(if pol = ProcNet then allStatesArgSizes j (sj_tasks j ! k) True else Inr (0, 0)) = Inr (i, out)"
    "alloc_task dij pol j client k (sc, N1) = assign (sj_id j) k v (sc, N2)"
    "v \<in> set (nw_processing N)" "map_of (sn_affinities sc) (st_func (sj_tasks j ! k)) = Some (nd_affinity v)"
    "\<forall>u\<in>set (nw_processing N). nd_affinity u = nd_affinity v \<longrightarrow>
       new_time dij N (sn_load sc) (st_ops (sj_tasks j ! k)) i out client v \<le> new_time dij N (sn_load sc) (st_ops (sj_tasks j ! k)) i out client u"
    using alloc_task_eq [OF assms(1-6)] by blast
  have "nd_id v < length (sn_load sc)" using v(3) assms(6) by blast
  then obtain sc' where "assign (sj_id j) k v (sc, N2) = Some (Inr (), (sc', N2))" "sn_alloc sc' ! sj_id j ! k = Some v"
      "sn_load sc' ! nd_id v = sn_load sc ! nd_id v + 1"
    using assms(7,8) by (auto simp: assign_def Let_def)
  then show ?thesis using v by (intro exI [of _ v] exI [of _ i] exI [of _ out] exI [of _ N2] exI [of _ sc']) (auto split: if_splits)
qed



text \<open>What is saved of the performance is loaded back, and what follows it in the file is left to be read: the
  records that a simulation saves one after the other can be loaded one by one.\<close>

theorem perf_save_load:
  assumes "\<forall>j\<in>set (pf_jobData p). val (bits (pj_procDelay j)) = pj_procDelay j \<and> val (bits (pj_netDelay j)) = pj_netDelay j"
  shows "perf_load val (perf_save bits p @ rest) = Inr (p, rest)"
proof -
  have jobs: "read_jobs val (length js) (concat (map (\<lambda>j. [bits (pj_procDelay j), bits (pj_netDelay j), pj_dataTransfer j, pj_chainSize j]) js) @ f) = Inr (js, f)"
    if "\<forall>j\<in>set js. val (bits (pj_procDelay j)) = pj_procDelay j \<and> val (bits (pj_netDelay j)) = pj_netDelay j" for js f
    using that by (induction js) (simp_all add: read_cell_def)
  have load: "read_load (length ls) (ls @ f) = Inr (ls, f)" for ls f
    by (induction ls) (simp_all add: read_cell_def)
  show ?thesis
    by (simp add: perf_load_def perf_save_def read_cell_def jobs [OF assms] load)
qed

theorem perf_save_load_witness:
  "perf_load real (perf_save (\<lambda>x. nat \<lfloor>x\<rfloor>) \<lparr>pf_jobData = [\<lparr>pj_procDelay = 3, pj_netDelay = 0, pj_dataTransfer = 7, pj_chainSize = 1\<rparr>], pf_load = [1, 0]\<rparr> @ [2, 9]) =
     Inr (\<lparr>pf_jobData = [\<lparr>pj_procDelay = 3, pj_netDelay = 0, pj_dataTransfer = 7, pj_chainSize = 1\<rparr>], pf_load = [1, 0]\<rparr>, [2, 9])"
  by (rule perf_save_load) simp

section \<open>Witnesses\<close>

text \<open>The job of the example of a trace, on the network of two nodes joined by a link.\<close>

definition sim_net_ex :: network where
  "sim_net_ex = snet2_ex\<lparr>nw_cloud := Some (1 / 10, 100)\<rparr>"

lemma sim_net_ex_cloud: "network_cloud (1 / 10) 100 snet2_ex = (Inr (), sim_net_ex)"
  by (simp add: network_cloud_def sim_net_ex_def)

definition job_ex :: sjob where
  "job_ex = \<lparr>sj_id = 0, sj_start = 0,
     sj_tasks = [\<lparr>st_id = 0, st_size = 2, st_ops = 10, st_func = ''f'', st_deps = []\<rparr>,
                 \<lparr>st_id = 1, st_size = 4, st_ops = 20, st_func = ''f'', st_deps = [0]\<rparr>],
     sj_stateSizes = [40], sj_retSize = 2\<rparr>"

definition scenario_ex :: scenario where
  "scenario_ex = \<lparr>sn_affinities = [(''f'', Cpu)], sn_jobs = [job_ex], sn_clients = [node_ex ''a'' 0], sn_load = [], sn_alloc = []\<rparr>"

lemma scenario_new_ex: "scenario_new (\<lambda>_. 0) [(''f'', Cpu)] sim_net_ex [job_ex] = Inr scenario_ex"
  by (simp add: scenario_new_def randomClients_def sim_net_ex_def snet2_ex_def snet_ex_def scenario_ex_def)

lemma ready_ex: "ready dij2_ex sim_net_ex {node_ex ''a'' 0, node_ex ''b'' 1}"
proof -
  have "snet_inv dij2_ex snet2_ex" by (rule network_new_inv [OF network_new_ex2])
  then have i: "snet_inv dij2_ex sim_net_ex" by (simp add: snet_inv_def sim_net_ex_def net_ok_def cache_ok_def)
  have g: "nw_graph sim_net_ex = nw_graph snet2_ex" by (simp add: sim_net_ex_def)
  have "all_reach sim_net_ex {node_ex ''a'' 0, node_ex ''b'' 1}"
    using reach_ex2 by (auto simp: all_reach_def reaches_def g) (simp_all add: sim_net_ex_def snet2_ex_def snet_ex_def node_ex_def)
  moreover have "nw_processing sim_net_ex = [node_ex ''a'' 0, node_ex ''b'' 1]" "nw_cloud sim_net_ex = Some (1 / 10, 100)"
    by (simp_all add: sim_net_ex_def snet2_ex_def snet_ex_def)
  ultimately show ?thesis using dij2_ex_ok i by (simp add: ready_def g)
qed

lemma live_ex: "live dij2_ex sim_net_ex sim_net_ex"
  using ready_ex by (auto simp: live_def ready_def same_net_def sim_net_ex_def snet2_ex_def snet_ex_def)

lemma task_ok_ex: "k < 2 \<Longrightarrow> task_ok sim_net_ex [(''f'', Cpu)] job_ex k"
  by (auto simp: task_ok_def job_ex_def less_Suc_eq numeral_2_eq_2 sim_net_ex_def snet2_ex_def snet_ex_def node_ex_def)

lemma alloc_input_ex: "alloc_input dij2_ex sim_net_ex {node_ex ''a'' 0, node_ex ''b'' 1} scenario_ex"
proof -
  have "length (sj_tasks job_ex) = 2" "sj_id job_ex = 0" by (simp_all add: job_ex_def)
  then show ?thesis using ready_ex task_ok_ex
    by (simp add: alloc_input_def scenario_ex_def) (simp add: sim_net_ex_def snet2_ex_def snet_ex_def node_ex_def)
qed

lemma unit_draws_ex: "unit_draws (\<lambda>_. 1 / 2)"
  by (simp add: unit_draws_def)

theorem task_on_fastest_node_witness:
  "\<exists>v sc' N2. alloc_task dij2_ex ProcNet job_ex (node_ex ''a'' 0) 0 (scenario_ex\<lparr>sn_load := [0, 0], sn_alloc := [[None, None]]\<rparr>, sim_net_ex) =
     Some (Inr (), (sc', N2)) \<and> sn_alloc sc' ! 0 ! 0 = Some v \<and> nd_affinity v = Cpu"
proof -
  let ?sc = "scenario_ex\<lparr>sn_load := [0, 0], sn_alloc := [[None, None]]\<rparr>"
  have p: "nw_processing sim_net_ex = [node_ex ''a'' 0, node_ex ''b'' 1]" by (simp add: sim_net_ex_def snet2_ex_def snet_ex_def)
  have j: "sj_id job_ex = 0" "length (sj_tasks job_ex) = 2" "st_func (sj_tasks job_ex ! 0) = ''f''" by (simp_all add: job_ex_def)
  have t: "task_ok sim_net_ex (sn_affinities ?sc) job_ex 0" using task_ok_ex [of 0] by (simp add: scenario_ex_def)
  have c: "node_ex ''a'' 0 \<in> {node_ex ''a'' 0, node_ex ''b'' 1}" by simp
  have l: "\<forall>v\<in>set (nw_processing sim_net_ex). nd_id v < length (sn_load ?sc)" by (simp add: p node_ex_def)
  have b: "0 < length (sj_tasks job_ex)" "sj_id job_ex < length (sn_alloc ?sc)" "0 < length (sn_alloc ?sc ! sj_id job_ex)" using j by simp_all
  have f: "map_of (sn_affinities ?sc) (st_func (sj_tasks job_ex ! 0)) = Some Cpu" using j by (simp add: scenario_ex_def)
  obtain v N2 sc' where v: "alloc_task dij2_ex ProcNet job_ex (node_ex ''a'' 0) 0 (?sc, sim_net_ex) = Some (Inr (), (sc', N2))"
      "sn_alloc sc' ! sj_id job_ex ! 0 = Some v" "map_of (sn_affinities ?sc) (st_func (sj_tasks job_ex ! 0)) = Some (nd_affinity v)"
    using task_on_fastest_node [OF ready_ex live_ex c t b(1) l b(2,3), of ProcNet] by metis
  have "nd_affinity v = Cpu" using v(3) f by simp
  moreover have "sn_alloc sc' ! 0 ! 0 = Some v" using v(2) by (simp only: j(1))
  ultimately show ?thesis using v(1) by metis
qed



end
