(* ===== verification/Spec2Isabelle.thy ===== *)
theory Spec2Isabelle
  imports EdgeControllerFlat HierRoutes EdgeWorkflow Computer LambdaProcessor ClientPool SimClientDag StateScenario
begin

text \<open>
  Serverless on edge: a verification of the core of the edge-computing libraries of this repository, \<open>Edge/\<close>,
  and of the programs that drive and simulate them, \<open>Simulation/\<close> and \<open>StateSim/\<close>.

  \<^bold>\<open>The program.\<close> Clients invoke lambda functions on edge computers through edge routers or dispatchers. A
  router keeps forwarding tables from lambdas to destinations with weights; a scheduling policy selects one
  of the destinations of a lambda. A controller learns of computers and routers and installs the entries
  of the forwarding tables. A computer executes the functions, alone or in chains and graphs that it
  continues by invoking the next functions itself, and keeps the states of applications on state servers.

  \<^bold>\<open>Theories and code.\<close>
  \<^item> \<open>Prelude\<close>: exceptions as left values of a sum, statements that may throw and change a state, ordered
    maps and sets (\<open>std::map\<close>, \<open>std::set\<close>) as strictly sorted lists, and the automation for them.
  \<^item> \<open>Entry\<close> (\<open>Edge/Entries/entry.cpp\<close>), \<open>Entry_Random\<close>, \<open>Entry_LeastImpedance\<close>, \<open>Entry_RoundRobin\<close>,
    \<open>Entry_PropFair\<close>: the entries of a forwarding table. The virtual functions are a record of hooks,
    one value of it per policy. Which destination is selected, fairness of round robin, its active set.
  \<^item> \<open>ForwardingTableInterface\<close>, \<open>ForwardingTable\<close>: the table of entries, for any policy; the theorem is that
    it refines a map from lambdas to destinations with weights and flags. \<open>ForwardingTableServer\<close>: the
    service that configures the two tables of a router, and its client.
  \<^item> \<open>EdgeController\<close>, \<open>RouteInstaller\<close>, \<open>EdgeControllerFlat\<close>, \<open>EdgeControllerHier\<close>, \<open>HierRoutes\<close>,
    \<open>Topology\<close>: the controllers. The base class takes the virtual functions as hooks; the installer that
    calls the routers is a locale, interpreted on the tables of \<open>ForwardingTableServer\<close>. The lemmas show
    that the installed routes are exactly the ones that the announced containers need, in every reachable
    state and with calls that fail.
  \<^item> \<open>FunctionModel\<close> (\<open>Edge/Model/\<close>), \<open>Messages\<close> (\<open>edgemessages.cpp\<close>): chains, graphs and states of
    functions, their JSON text, and the messages; round trips and the functions that can be called.
  \<^item> \<open>Processor\<close>, \<open>Container\<close>, \<open>Computer\<close>: the simulation of an edge computer; the differential list of
    active tasks refines a list of residual times, and the tasks accepted are conserved.
  \<^item> \<open>DestinationTable\<close>, \<open>PtimeEstimator\<close>, \<open>LambdaProcessor\<close>, \<open>ClientPool\<close>: estimators, the router and the
    dispatcher with their retry loop, the local optimizers and the pool of clients.
  \<^item> \<open>StateStore\<close>, \<open>EdgeComputer\<close>, \<open>DagWorkflow\<close>, \<open>EdgeWorkflow\<close>: state servers, the execution of functions
    by an edge computer, an abstract specification of the execution of a graph, and the proof that a
    system of computers refines it; every interleaving of deliveries and executions completes.
  \<^item> \<open>SimClient\<close>, \<open>SimClientDag\<close> (\<open>Simulation/client.cpp\<close>): the client that runs chains and graphs itself, the
    latter with one thread per function, as a step relation.
  \<^bold>\<open>Conventions.\<close> A member function under a mutex is one atomic transition. Code that runs in several threads
  (\<open>ClientPool\<close>, \<open>EdgeWorkflow\<close>, \<open>SimClientDag\<close>, the race in \<open>StateNetwork\<close>) is a step relation, with
  invariants by rule induction over its runs. \<open>float\<close> and \<open>double\<close> are reals, except where rounding is a
  parameter (\<open>env\<close>); \<open>unsigned int\<close> fields of messages are 32-bit words. An assertion that fails, or behaviour
  that the language leaves undefined, is the exception \<open>Undefined\<close>.

  \<^bold>\<open>Bounds and fuel.\<close> The retry loop of a router has the number of destinations plus one as its fuel, which
  is enough since a failure removes a destination; the recursion of the hierarchical controller has the
  number of routers, since every level removes one; \<open>ancestors\<close> has the number of functions of the graph,
  since a path of an acyclic graph is shorter. Each bound has a theorem or lemma that it suffices. The
  loops that may not end (\<open>draw_index\<close>, \<open>client_loop\<close>, \<open>tx_loop\<close>) are partial functions.

  \<^bold>\<open>Parameters.\<close> Random values (\<open>rnd\<close>, part of \<open>env\<close>), the clock, the delivery of a remote call (\<open>net\<close>), the
  processing of a function (\<open>run\<close>), the edge client of a client (\<open>rl\<close>), the order of the elements of an
  unordered map of a message (\<open>iter_order\<close>), the JSON library, the linear estimator of the support
  library, \<open>boost::dijkstra_shortest_paths\<close> (\<open>dijkstra_ok\<close>). Hypotheses about them state what they document,
  and the witnesses instantiate them.

  \<^bold>\<open>Not modelled.\<close> The transports (gRPC, QUIC), the adapters to OpenFaaS, OpenWhisk and ETSI MEC, whose state
  is kept by libraries that are not in the repository, OpenCV, the executables and their options, and the
  printing of logs. The threads of the support library (a submodule) are modelled only where the code that
  uses them is. The simulator of \<open>LambdaMuSim/\<close> is the next component of the plan.
\<close>

section \<open>Properties that span components\<close>

lemma ft_select_dests:
  assumes "ok_env E" and "ft_inv T"
  shows "case fst (ft_select E l T) of Inr d \<Rightarrow> d \<in> ft_dests T l | Inl x \<Rightarrow> x = NoDestinations None \<and> ft_dests T l = {}"
  using ft_select_sim[OF assms, of l] by (cases "ft_abs T l") (auto simp: ft_dests_def)





end
